(* ===== verification/Prelude.thy ===== *)
theory Prelude
  imports Main
begin

text \<open>
  Shared vocabulary of the development.
  \<^item> C and C++ faults as values: a computation of a component is a sum
    \<open>fault + 'a\<close>, whose left side is undefined behaviour of the C code or a
    failed \<^verbatim>\<open>assert\<close>; \<open>bindR\<close> sequences two such computations.
  \<^item> Machine integers: values are kept in \<open>int\<close> and every conversion the source makes
    (to \<^verbatim>\<open>int\<close>, \<^verbatim>\<open>size_t\<close>, \<^verbatim>\<open>unsigned long\<close>) is written out with \<open>int32\<close>,
    \<open>uint64\<close>; signed arithmetic that can overflow goes through \<open>ck32\<close> and \<open>ck64\<close>.
  \<^item> Memory blocks: a block is the list of its bytes; every access is bounds checked and
    a fault \<open>OutOfBounds\<close> is an access outside the block.
  \<^item> The allocator is a parameter: which requests it serves and what fresh memory holds.
  \<^item> Decimal numerals as the C library prints them, and generic lemmas on lists.
\<close>

named_theorems cint "conversions between machine integers of values in range"
named_theorems mem "accesses inside a memory block"

section \<open>Faults and sequencing\<close>

datatype fault =
    OutOfBounds
  | NullDeref
  | SignedOverflow
  | AssertFailed
  | UseAfterFree
  | BadVaArg
  | BadFormat
  | BadFree
  | NoReturn
  | Diverges

type_synonym 'a res = "fault + 'a"

definition bindR :: "'e + 'a \<Rightarrow> ('a \<Rightarrow> 'e + 'b) \<Rightarrow> 'e + 'b" where
  "bindR m f = (case m of Inl e \<Rightarrow> Inl e | Inr x \<Rightarrow> f x)"

lemma bindR_simps [simp]:
  "bindR (Inl e) f = Inl e"
  "bindR (Inr x) f = f x"
  by (simp_all add: bindR_def)

lemma bindR_assoc [simp]: "bindR (bindR m f) g = bindR m (\<lambda>x. bindR (f x) g)"
  by (cases m) simp_all

lemma bindR_Inr [simp]: "bindR m Inr = m"
  by (cases m) simp_all

lemma bindR_eq_Inr: "bindR m f = Inr y \<longleftrightarrow> (\<exists>x. m = Inr x \<and> f x = Inr y)"
  by (cases m) auto

lemma bindR_eq_Inl: "bindR m f = Inl e \<longleftrightarrow> m = Inl e \<or> (\<exists>x. m = Inr x \<and> f x = Inl e)"
  by (cases m) auto

lemma bindR_cong [fundef_cong]:
  "m = m' \<Longrightarrow> (\<And>x. m' = Inr x \<Longrightarrow> f x = f' x) \<Longrightarrow> bindR m f = bindR m' f'"
  by (cases m') auto

text \<open>The same for computations that may not return, whose value is then \<open>None\<close>.\<close>

definition bindO :: "('e + 'a) option \<Rightarrow> ('a \<Rightarrow> ('e + 'b) option) \<Rightarrow> ('e + 'b) option" where
  "bindO m f = Option.bind m (\<lambda>r. case r of Inl e \<Rightarrow> Some (Inl e) | Inr x \<Rightarrow> f x)"

lemma bindO_simps [simp]: "bindO None f = None" "bindO (Some (Inl e)) f = Some (Inl e)" "bindO (Some (Inr x)) f = f x"
  by (simp_all add: bindO_def)

lemma bindO_mono [partial_function_mono]:
  assumes "mono_option B" "\<And>y. mono_option (\<lambda>f. C y f)"
  shows "mono_option (\<lambda>f. bindO (B f) (\<lambda>y. C y f))"
proof -
  have "mono_option (\<lambda>f. case r of Inl e \<Rightarrow> Some (Inl e) | Inr x \<Rightarrow> C x f)" for r
    using assms(2) by (cases r) (simp_all add: option.const_mono)
  then show ?thesis unfolding bindO_def by (rule bind_mono [OF assms(1)])
qed

text \<open>A C \<^verbatim>\<open>assert\<close>.\<close>

definition assertR :: "bool \<Rightarrow> unit res" where
  "assertR b = (if b then Inr () else Inl AssertFailed)"

lemma assertR_True [simp]: "assertR True = Inr ()"
  by (simp add: assertR_def)

lemma assertR_False [simp]: "assertR False = Inl AssertFailed"
  by (simp add: assertR_def)

lemma assertR_eq_Inr [simp]: "assertR b = Inr u \<longleftrightarrow> b"
  by (simp add: assertR_def)

section \<open>Machine integers\<close>

definition int32 :: "int \<Rightarrow> int" where
  "int32 x = (x + 2 ^ 31) mod 2 ^ 32 - 2 ^ 31"

definition int64 :: "int \<Rightarrow> int" where
  "int64 x = (x + 2 ^ 63) mod 2 ^ 64 - 2 ^ 63"

definition uint64 :: "int \<Rightarrow> int" where
  "uint64 x = x mod 2 ^ 64"

lemma int32_id [cint]: "- (2 ^ 31) \<le> x \<Longrightarrow> x < 2 ^ 31 \<Longrightarrow> int32 x = x"
  by (simp add: int32_def)

lemma int64_id [cint]: "- (2 ^ 63) \<le> x \<Longrightarrow> x < 2 ^ 63 \<Longrightarrow> int64 x = x"
  by (simp add: int64_def)

lemma uint64_id [cint]: "0 \<le> x \<Longrightarrow> x < 2 ^ 64 \<Longrightarrow> uint64 x = x"
  by (simp add: uint64_def)

lemma int32_range: "- (2 ^ 31) \<le> int32 x \<and> int32 x < 2 ^ 31"
proof -
  have "0 \<le> (x + 2 ^ 31) mod 2 ^ 32" and "(x + 2 ^ 31) mod 2 ^ 32 < (2 ^ 32 :: int)"
    by (simp_all only: pos_mod_sign pos_mod_bound zero_less_power zero_less_numeral)
  then show ?thesis by (simp add: int32_def)
qed

lemma uint64_range: "0 \<le> uint64 x \<and> uint64 x < 2 ^ 64"
  by (simp add: uint64_def)

text \<open>Signed arithmetic whose overflow is undefined: the exact result, or a fault.\<close>

definition ck32 :: "int \<Rightarrow> int res" where
  "ck32 x = (if - (2 ^ 31) \<le> x \<and> x < 2 ^ 31 then Inr x else Inl SignedOverflow)"

definition ck64 :: "int \<Rightarrow> int res" where
  "ck64 x = (if - (2 ^ 63) \<le> x \<and> x < 2 ^ 63 then Inr x else Inl SignedOverflow)"

lemma ck32_ok [cint]: "- (2 ^ 31) \<le> x \<Longrightarrow> x < 2 ^ 31 \<Longrightarrow> ck32 x = Inr x"
  by (simp add: ck32_def)

lemma ck64_ok [cint]: "- (2 ^ 63) \<le> x \<Longrightarrow> x < 2 ^ 63 \<Longrightarrow> ck64 x = Inr x"
  by (simp add: ck64_def)

section \<open>Bytes and memory blocks\<close>

text \<open>The terminating byte of a C string, and the control characters the sources name.\<close>

abbreviation NUL :: char where "NUL \<equiv> CHR 0x00"
abbreviation CR :: char where "CR \<equiv> CHR 0x0D"
abbreviation LF :: char where "LF \<equiv> CHR 0x0A"

type_synonym bytes = "char list"

definition rd :: "bytes \<Rightarrow> int \<Rightarrow> char res" where
  "rd b i = (if 0 \<le> i \<and> i < int (length b) then Inr (b ! nat i) else Inl OutOfBounds)"

definition wr :: "bytes \<Rightarrow> int \<Rightarrow> char \<Rightarrow> bytes res" where
  "wr b i c = (if 0 \<le> i \<and> i < int (length b) then Inr (b[nat i := c]) else Inl OutOfBounds)"

text \<open>\<open>rdn b i n\<close>: \<open>n\<close> bytes read from offset \<open>i\<close>, the source side of \<^verbatim>\<open>memcpy\<close>.\<close>

definition rdn :: "bytes \<Rightarrow> int \<Rightarrow> int \<Rightarrow> bytes res" where
  "rdn b i n =
     (if 0 \<le> i \<and> 0 \<le> n \<and> i + n \<le> int (length b)
      then Inr (take (nat n) (drop (nat i) b)) else Inl OutOfBounds)"

text \<open>\<open>wrn b i xs\<close>: the bytes \<open>xs\<close> stored at offset \<open>i\<close>, the target side.\<close>

definition wrn :: "bytes \<Rightarrow> int \<Rightarrow> bytes \<Rightarrow> bytes res" where
  "wrn b i xs =
     (if 0 \<le> i \<and> i + int (length xs) \<le> int (length b)
      then Inr (take (nat i) b @ xs @ drop (nat i + length xs) b) else Inl OutOfBounds)"

definition memcpy :: "bytes \<Rightarrow> int \<Rightarrow> bytes \<Rightarrow> int \<Rightarrow> int \<Rightarrow> bytes res" where
  "memcpy dst i src j n = bindR (rdn src j n) (wrn dst i)"

text \<open>\<^verbatim>\<open>memmove\<close> inside one block: the bytes are read before any is written.\<close>

definition memmove :: "bytes \<Rightarrow> int \<Rightarrow> int \<Rightarrow> int \<Rightarrow> bytes res" where
  "memmove b i j n = bindR (rdn b j n) (wrn b i)"

definition memset :: "bytes \<Rightarrow> int \<Rightarrow> char \<Rightarrow> int \<Rightarrow> bytes res" where
  "memset b i c n = (if 0 \<le> n then wrn b i (replicate (nat n) c) else Inl OutOfBounds)"

text \<open>\<^verbatim>\<open>strlen\<close> reads up to the first zero byte, and past the block if there is none.\<close>

fun strlen :: "bytes \<Rightarrow> int res" where
  "strlen [] = Inl OutOfBounds"
| "strlen (c # cs) = (if c = NUL then Inr 0 else bindR (strlen cs) (\<lambda>n. Inr (n + 1)))"

lemma rd_ok [mem]: "0 \<le> i \<Longrightarrow> i < int (length b) \<Longrightarrow> rd b i = Inr (b ! nat i)"
  by (simp add: rd_def)

lemma wr_ok [mem]: "0 \<le> i \<Longrightarrow> i < int (length b) \<Longrightarrow> wr b i c = Inr (b[nat i := c])"
  by (simp add: wr_def)

lemma rdn_ok [mem]:
  "0 \<le> i \<Longrightarrow> 0 \<le> n \<Longrightarrow> i + n \<le> int (length b) \<Longrightarrow> rdn b i n = Inr (take (nat n) (drop (nat i) b))"
  by (simp add: rdn_def)

lemma wrn_ok [mem]:
  "0 \<le> i \<Longrightarrow> i + int (length xs) \<le> int (length b) \<Longrightarrow>
     wrn b i xs = Inr (take (nat i) b @ xs @ drop (nat i + length xs) b)"
  by (simp add: wrn_def)

lemma strlen_append_NUL: "NUL \<notin> set xs \<Longrightarrow> strlen (xs @ NUL # ys) = Inr (int (length xs))"
  by (induction xs) auto

lemma strlen_Inr:
  "strlen b = Inr n \<Longrightarrow>
     0 \<le> n \<and> n < int (length b) \<and> b ! nat n = NUL \<and> NUL \<notin> set (take (nat n) b)"
proof (induction b arbitrary: n)
  case Nil
  then show ?case by simp
next
  case (Cons c cs)
  show ?case
  proof (cases "c = NUL")
    case True
    with Cons.prems show ?thesis by simp
  next
    case False
    with Cons.prems obtain m where m: "strlen cs = Inr m" and n: "n = m + 1"
      by (auto simp: bindR_eq_Inr)
    from Cons.IH [OF m] False n show ?thesis
      by (auto simp: nat_add_distrib)
  qed
qed

lemma strlen_total: "NUL \<in> set b \<Longrightarrow> \<exists>n. strlen b = Inr n"
  by (induction b) (auto simp: bindR_eq_Inr)

section \<open>The allocator\<close>

text \<open>
  \<^verbatim>\<open>malloc\<close>, \<^verbatim>\<open>calloc\<close> and \<^verbatim>\<open>realloc\<close> are answered by a parameter: \<open>can_alloc A n\<close> tells
  whether a request of \<open>n\<close> bytes is served, \<open>junk A i\<close> is what byte \<open>i\<close> of fresh
  memory holds. Every theorem is for all allocators. A block starts with a header of
  \<open>hdr\<close> bytes that the model keeps as record fields; the result is the rest of it.
\<close>

record allocator =
  can_alloc :: "int \<Rightarrow> bool"
  junk :: "nat \<Rightarrow> char"

definition malloc :: "allocator \<Rightarrow> int \<Rightarrow> int \<Rightarrow> bytes option" where
  "malloc A hdr n =
     (if can_alloc A n then Some (map (junk A) [0..<nat (n - hdr)]) else None)"

definition calloc :: "allocator \<Rightarrow> int \<Rightarrow> int \<Rightarrow> bytes option" where
  "calloc A hdr n =
     (if can_alloc A n then Some (replicate (nat (n - hdr)) NUL) else None)"

definition realloc :: "allocator \<Rightarrow> int \<Rightarrow> bytes \<Rightarrow> int \<Rightarrow> bytes option" where
  "realloc A hdr b n =
     (if can_alloc A n
      then Some (take (nat (n - hdr)) b @ map (junk A) [length b..<nat (n - hdr)])
      else None)"

lemma length_malloc: "malloc A hdr n = Some b \<Longrightarrow> length b = nat (n - hdr)"
  by (auto simp: malloc_def split: if_splits)

lemma length_realloc: "realloc A hdr b n = Some b' \<Longrightarrow> length b' = nat (n - hdr)"
  by (auto simp: realloc_def split: if_splits)

section \<open>Decimal numerals\<close>

text \<open>The digits of \<^verbatim>\<open>printf("%u")\<close> and \<^verbatim>\<open>std::to_string\<close>, most significant first.\<close>

definition digit_char :: "nat \<Rightarrow> char" where
  "digit_char d = char_of (48 + d)"

definition is_digit :: "char \<Rightarrow> bool" where
  "is_digit c \<longleftrightarrow> (48 :: nat) \<le> of_char c \<and> (of_char c :: nat) < 58"

definition digit_val :: "char \<Rightarrow> nat" where
  "digit_val c = of_char c - 48"

fun decimal :: "nat \<Rightarrow> string" where
  "decimal n = (if n < 10 then [digit_char n] else decimal (n div 10) @ [digit_char (n mod 10)])"

declare decimal.simps [simp del]

text \<open>The value of a digit string, as the parsing loops of the sources accumulate it.\<close>

fun num_of :: "nat \<Rightarrow> string \<Rightarrow> nat" where
  "num_of v [] = v"
| "num_of v (c # cs) = num_of (v * 10 + digit_val c) cs"

lemma of_char_digit [simp]: "d < 10 \<Longrightarrow> of_char (digit_char d) = (48 + d :: nat)"
  by (simp add: digit_char_def)

lemma is_digit_digit_char [simp]: "d < 10 \<Longrightarrow> is_digit (digit_char d)"
  by (simp add: is_digit_def)

lemma digit_val_digit_char [simp]: "d < 10 \<Longrightarrow> digit_val (digit_char d) = d"
  by (simp add: digit_val_def)

lemma digit_val_less: "is_digit c \<Longrightarrow> digit_val c < 10"
  unfolding is_digit_def digit_val_def by linarith

lemma num_of_append: "num_of v (xs @ ys) = num_of (num_of v xs) ys"
  by (induction xs arbitrary: v) auto

lemma decimal_not_Nil [simp]: "decimal n \<noteq> []"
  by (subst decimal.simps) simp

lemma decimal_digits: "c \<in> set (decimal n) \<Longrightarrow> is_digit c"
proof (induction n rule: decimal.induct)
  case (1 n)
  then show ?case by (subst (asm) decimal.simps) (auto split: if_splits)
qed

lemma num_of_decimal: "num_of 0 (decimal n) = n"
proof (induction n rule: decimal.induct)
  case (1 n)
  then show ?case by (subst decimal.simps) (auto simp: num_of_append)
qed

lemma decimal_inject [simp]: "decimal m = decimal n \<longleftrightarrow> m = n"
  by (metis num_of_decimal)

lemma length_decimal: "v < 10 ^ Suc k \<Longrightarrow> length (decimal v) \<le> Suc k"
proof (induction k arbitrary: v)
  case 0
  then show ?case by (subst decimal.simps) simp
next
  case (Suc k)
  have "v div 10 < 10 ^ Suc k" using Suc.prems by simp
  then have "length (decimal (v div 10)) \<le> Suc k" by (rule Suc.IH)
  then show ?case by (subst decimal.simps) simp
qed

text \<open>The decimal of an \<open>int\<close>: a minus sign in front of the magnitude.\<close>

definition decimal_int :: "int \<Rightarrow> string" where
  "decimal_int i = (if i < 0 then CHR ''-'' # decimal (nat (- i)) else decimal (nat i))"

lemma digit_neq: "is_digit c \<Longrightarrow> c \<noteq> CR \<and> c \<noteq> LF \<and> c \<noteq> NUL \<and> c \<noteq> CHR ''-'' \<and> c \<noteq> CHR ''+''"
  by (auto simp: is_digit_def)

lemma decimal_no_ctrl: "CR \<notin> set (decimal n)" "NUL \<notin> set (decimal n)"
  using decimal_digits digit_neq by blast+

lemma decimal_int_no_ctrl: "CR \<notin> set (decimal_int i)" "NUL \<notin> set (decimal_int i)"
  by (auto simp: decimal_int_def decimal_no_ctrl)

lemma decimal_hd_digit: "is_digit (hd (decimal n))"
  using decimal_digits [of "hd (decimal n)" n] by simp

text \<open>\<^verbatim>\<open>isspace\<close> of the C locale.\<close>

definition isspace :: "char \<Rightarrow> bool" where
  "isspace c \<longleftrightarrow> c = CHR '' '' \<or> ((9 :: nat) \<le> of_char c \<and> (of_char c :: nat) \<le> 13)"

section \<open>Lists\<close>

lemma takeWhile_take_first:
  "k \<le> l \<Longrightarrow> k < length b \<Longrightarrow> b ! k = x \<Longrightarrow> x \<notin> set (take k b) \<Longrightarrow>
     takeWhile ((\<noteq>) x) (take l b) = take k b"
proof (induction b arbitrary: k l)
  case (Cons c cs)
  then show ?case by (cases k; cases l) auto
qed simp

end
