(* ===== verification/Dict.thy ===== *)
theory Dict
  imports Prelude "HOL-Library.Word"
begin

unbundle bit_operations_syntax

text \<open>
  The chained hash table of \<^verbatim>\<open>redis/hiredis/dict.c\<close>. A table is an array of chains, a chain
  the list of its entries from the head on (\<^verbatim>\<open>next\<close> is the rest of the list); NULL tables are
  \<open>None\<close>. The \<^verbatim>\<open>unsigned long\<close> fields are \<open>int\<close> with \<open>uint64\<close> written out, the hash is a
  \<open>32 word\<close>. The callbacks of \<^verbatim>\<open>dictType\<close> are optional functions, those with effects on the
  heap threading the private data. \<^verbatim>\<open>malloc\<close> and \<^verbatim>\<open>calloc\<close> are not checked by the code: a
  refused request is a NULL dereference at the first access. The memory of a table is a value here: freeing an entry, an
  array of chains or the table itself has no effect, only the destructors of keys and values have one.
\<close>

section \<open>Data\<close>

abbreviation (input) DICT_OK :: int where "DICT_OK \<equiv> 0"
abbreviation (input) DICT_ERR :: int where "DICT_ERR \<equiv> 1"
abbreviation (input) DICT_HT_INITIAL_SIZE :: int where "DICT_HT_INITIAL_SIZE \<equiv> 4"
abbreviation (input) LONG_MAX :: int where "LONG_MAX \<equiv> 2 ^ 63 - 1"

type_synonym ('k, 'v) chain = "('k \<times> 'v) list"

record ('k, 'v, 'p) dictType =
  hashFunction :: "'k \<Rightarrow> 32 word"
  keyDup :: "('p \<Rightarrow> 'k \<Rightarrow> 'p \<times> 'k) option"
  valDup :: "('p \<Rightarrow> 'v \<Rightarrow> 'p \<times> 'v) option"
  keyCompare :: "('p \<Rightarrow> 'k \<Rightarrow> 'k \<Rightarrow> bool) option"
  keyDestructor :: "('p \<Rightarrow> 'k \<Rightarrow> 'p) option"
  valDestructor :: "('p \<Rightarrow> 'v \<Rightarrow> 'p) option"

record ('k, 'v, 'p) dict =
  ht_table :: "('k, 'v) chain list option"
  ht_type :: "('k, 'v, 'p) dictType"
  ht_size :: int
  ht_sizemask :: int
  ht_used :: int
  ht_privdata :: 'p

section \<open>The macros of the header\<close>

definition dictFreeEntryVal :: "('k, 'v, 'p) dictType \<Rightarrow> 'p \<Rightarrow> 'v \<Rightarrow> 'p" where
  "dictFreeEntryVal ty p v = (case valDestructor ty of None \<Rightarrow> p | Some f \<Rightarrow> f p v)"

definition dictFreeEntryKey :: "('k, 'v, 'p) dictType \<Rightarrow> 'p \<Rightarrow> 'k \<Rightarrow> 'p" where
  "dictFreeEntryKey ty p k = (case keyDestructor ty of None \<Rightarrow> p | Some f \<Rightarrow> f p k)"

definition dictSetHashVal :: "('k, 'v, 'p) dictType \<Rightarrow> 'p \<Rightarrow> 'v \<Rightarrow> 'p \<times> 'v" where
  "dictSetHashVal ty p v = (case valDup ty of None \<Rightarrow> (p, v) | Some f \<Rightarrow> f p v)"

definition dictSetHashKey :: "('k, 'v, 'p) dictType \<Rightarrow> 'p \<Rightarrow> 'k \<Rightarrow> 'p \<times> 'k" where
  "dictSetHashKey ty p k = (case keyDup ty of None \<Rightarrow> (p, k) | Some f \<Rightarrow> f p k)"

definition dictCompareHashKeys :: "('k, 'v, 'p) dictType \<Rightarrow> 'p \<Rightarrow> 'k \<Rightarrow> 'k \<Rightarrow> bool" where
  "dictCompareHashKeys ty p k1 k2 = (case keyCompare ty of None \<Rightarrow> k1 = k2 | Some f \<Rightarrow> f p k1 k2)"

text \<open>\<^verbatim>\<open>h = dictHashKey(ht, key) & sizemask\<close>, an \<^verbatim>\<open>unsigned int\<close>.\<close>

definition slot_of :: "('k, 'v, 'p) dictType \<Rightarrow> int \<Rightarrow> 'k \<Rightarrow> int" where
  "slot_of ty smask k = (uint (hashFunction ty k) AND smask) mod 2 ^ 32"

text \<open>\<^verbatim>\<open>table[h]\<close>, read and written.\<close>

definition get_slot :: "('k, 'v) chain list option \<Rightarrow> int \<Rightarrow> ('k, 'v) chain res" where
  "get_slot t i =
     (case t of
        None \<Rightarrow> Inl NullDeref
      | Some cs \<Rightarrow> if 0 \<le> i \<and> i < int (length cs) then Inr (cs ! nat i) else Inl OutOfBounds)"

definition set_slot :: "('k, 'v) chain list option \<Rightarrow> int \<Rightarrow> ('k, 'v) chain \<Rightarrow> ('k, 'v) chain list option res" where
  "set_slot t i c =
     (case t of
        None \<Rightarrow> Inl NullDeref
      | Some cs \<Rightarrow> if 0 \<le> i \<and> i < int (length cs) then Inr (Some (cs[nat i := c])) else Inl OutOfBounds)"

section \<open>Hash function\<close>

text \<open>\<^verbatim>\<open>while (len--) hash = ((hash << 5) + hash) + *buf++\<close> on \<^verbatim>\<open>unsigned int\<close>.\<close>

fun gen_hash_loop :: "32 word \<Rightarrow> bytes \<Rightarrow> 32 word" where
  "gen_hash_loop h [] = h"
| "gen_hash_loop h (c # cs) = gen_hash_loop ((push_bit 5 h + h) + of_nat (of_char c)) cs"

definition dictGenHashFunction :: "bytes \<Rightarrow> nat \<Rightarrow> 32 word res" where
  "dictGenHashFunction buf len = bindR (rdn buf 0 (int len)) (\<lambda>b. Inr (gen_hash_loop 5381 b))"

section \<open>Creating, clearing, expanding\<close>

definition dictReset :: "('k, 'v, 'p) dict \<Rightarrow> ('k, 'v, 'p) dict" where
  "dictReset ht = ht\<lparr>ht_table := None, ht_size := 0, ht_sizemask := 0, ht_used := 0\<rparr>"

definition dictInit :: "('k, 'v, 'p) dict \<Rightarrow> ('k, 'v, 'p) dictType \<Rightarrow> 'p \<Rightarrow> int \<times> ('k, 'v, 'p) dict" where
  "dictInit ht ty p = (DICT_OK, (dictReset ht)\<lparr>ht_type := ty, ht_privdata := p\<rparr>)"

text \<open>The fields of a fresh \<^verbatim>\<open>dict\<close> are what the block \<open>fresh\<close> happened to hold.\<close>

definition dictCreate ::
  "allocator \<Rightarrow> ('k, 'v, 'p) dict \<Rightarrow> ('k, 'v, 'p) dictType \<Rightarrow> 'p \<Rightarrow> ('k, 'v, 'p) dict res" where
  "dictCreate A fresh ty p =
     (if can_alloc A 48 then Inr (snd (dictInit fresh ty p)) else Inl NullDeref)"

text \<open>The loop of \<^verbatim>\<open>_dictNextPower\<close>; sizes are below \<^verbatim>\<open>LONG_MAX\<close>, so doubling never wraps.\<close>

function next_power :: "int \<Rightarrow> int \<Rightarrow> int" where
  "next_power sz i = (if i \<ge> sz \<or> i \<le> 0 then i else next_power sz (i * 2))"
  by pat_completeness auto
termination by (relation "measure (\<lambda>(sz, i). nat (sz - i))") auto

declare next_power.simps [simp del]

definition dictNextPower :: "int \<Rightarrow> int" where
  "dictNextPower sz =
     (if sz \<ge> LONG_MAX then LONG_MAX else next_power sz DICT_HT_INITIAL_SIZE)"

text \<open>\<^verbatim>\<open>while(he)\<close>: the entries of one chain are pushed on the chains of the new table.\<close>

fun move_chain ::
  "('k, 'v, 'p) dictType \<Rightarrow> int \<Rightarrow> ('k, 'v) chain \<Rightarrow> ('k, 'v) chain list option \<Rightarrow> int \<Rightarrow>
   (('k, 'v) chain list option \<times> int) res" where
  "move_chain ty smask [] nt used = Inr (nt, used)"
| "move_chain ty smask (e # es) nt used =
     (let h = slot_of ty smask (fst e) in
      bindR (get_slot nt h) (\<lambda>c. bindR (set_slot nt h (e # c)) (\<lambda>nt.
      move_chain ty smask es nt (uint64 (used - 1)))))"

function expand_loop ::
  "('k, 'v, 'p) dictType \<Rightarrow> int \<Rightarrow> ('k, 'v) chain list option \<Rightarrow> int \<Rightarrow> int \<Rightarrow>
   ('k, 'v) chain list option \<Rightarrow> int \<Rightarrow> (('k, 'v) chain list option \<times> int) res" where
  "expand_loop ty smask t sz i nt used =
     (if i < sz \<and> used > 0
      then bindR (get_slot t i) (\<lambda>c. bindR (move_chain ty smask c nt used) (\<lambda>(nt, used).
           expand_loop ty smask t sz (i + 1) nt used))
      else Inr (nt, used))"
  by pat_completeness auto
termination by (relation "measure (\<lambda>(ty, smask, t, sz, i, nt, used). nat (sz - i))") auto

declare expand_loop.simps [simp del]

definition dictExpand :: "allocator \<Rightarrow> ('k, 'v, 'p) dict \<Rightarrow> int \<Rightarrow> (int \<times> ('k, 'v, 'p) dict) res" where
  "dictExpand A ht sz =
     (let realsize = dictNextPower sz in
      if ht_used ht > sz then Inr (DICT_ERR, ht)
      else
        let n = (snd (dictInit ht (ht_type ht) (ht_privdata ht)))
                  \<lparr>ht_size := realsize, ht_sizemask := uint64 (realsize - 1),
                   ht_table := (if can_alloc A (realsize * 8) then Some (replicate (nat realsize) []) else None),
                   ht_used := ht_used ht\<rparr>
        in bindR (expand_loop (ht_type ht) (ht_sizemask n) (ht_table ht) (ht_size ht) 0 (ht_table n) (ht_used ht))
             (\<lambda>(nt, used). bindR (assertR (used = 0)) (\<lambda>_. Inr (DICT_OK, n\<lparr>ht_table := nt\<rparr>))))"

definition dictExpandIfNeeded :: "allocator \<Rightarrow> ('k, 'v, 'p) dict \<Rightarrow> (int \<times> ('k, 'v, 'p) dict) res" where
  "dictExpandIfNeeded A ht =
     (if ht_size ht = 0 then dictExpand A ht DICT_HT_INITIAL_SIZE
      else if ht_used ht = ht_size ht then dictExpand A ht (uint64 (ht_size ht * 2))
      else Inr (DICT_OK, ht))"

section \<open>Finding, adding, replacing, deleting\<close>

text \<open>The chain walk shared by \<^verbatim>\<open>_dictKeyIndex\<close> and \<^verbatim>\<open>dictFind\<close>.\<close>

definition walk :: "('k, 'v, 'p) dictType \<Rightarrow> 'p \<Rightarrow> 'k \<Rightarrow> ('k, 'v) chain \<Rightarrow> ('k \<times> 'v) option" where
  "walk ty p key c = find (\<lambda>e. dictCompareHashKeys ty p key (fst e)) c"

definition dictFind :: "('k, 'v, 'p) dict \<Rightarrow> 'k \<Rightarrow> ('k \<times> 'v) option res" where
  "dictFind ht key =
     (if ht_size ht = 0 then Inr None
      else bindR (get_slot (ht_table ht) (slot_of (ht_type ht) (ht_sizemask ht) key)) (\<lambda>c.
           Inr (walk (ht_type ht) (ht_privdata ht) key c)))"

definition dictKeyIndex :: "allocator \<Rightarrow> ('k, 'v, 'p) dict \<Rightarrow> 'k \<Rightarrow> (int \<times> ('k, 'v, 'p) dict) res" where
  "dictKeyIndex A ht key =
     bindR (dictExpandIfNeeded A ht) (\<lambda>(r, ht).
     if r = DICT_ERR then Inr (- 1, ht)
     else
       let h = slot_of (ht_type ht) (ht_sizemask ht) key in
       bindR (get_slot (ht_table ht) h) (\<lambda>c.
       Inr (if walk (ht_type ht) (ht_privdata ht) key c \<noteq> None then - 1 else int32 h, ht)))"

definition dictAdd :: "allocator \<Rightarrow> ('k, 'v, 'p) dict \<Rightarrow> 'k \<Rightarrow> 'v \<Rightarrow> (int \<times> ('k, 'v, 'p) dict) res" where
  "dictAdd A ht key val =
     bindR (dictKeyIndex A ht key) (\<lambda>(index, ht).
     if index = - 1 then Inr (DICT_ERR, ht)
     else if \<not> can_alloc A 24 then Inl NullDeref
     else bindR (get_slot (ht_table ht) index) (\<lambda>c.
       let (p, k) = dictSetHashKey (ht_type ht) (ht_privdata ht) key;
           (p, v) = dictSetHashVal (ht_type ht) p val
       in bindR (set_slot (ht_table ht) index ((k, v) # c)) (\<lambda>t.
          Inr (DICT_OK, ht\<lparr>ht_table := t, ht_privdata := p, ht_used := uint64 (ht_used ht + 1)\<rparr>))))"

text \<open>Storing a new value in the entry \<^verbatim>\<open>dictFind\<close> returned, the first match of its chain.\<close>

fun set_val :: "('k, 'v, 'p) dictType \<Rightarrow> 'p \<Rightarrow> 'k \<Rightarrow> 'v \<Rightarrow> ('k, 'v) chain \<Rightarrow> ('k, 'v) chain" where
  "set_val ty p key v [] = []"
| "set_val ty p key v (e # es) =
     (if dictCompareHashKeys ty p key (fst e) then (fst e, v) # es else e # set_val ty p key v es)"

definition dictReplace :: "allocator \<Rightarrow> ('k, 'v, 'p) dict \<Rightarrow> 'k \<Rightarrow> 'v \<Rightarrow> (int \<times> ('k, 'v, 'p) dict) res" where
  "dictReplace A ht key val =
     bindR (dictAdd A ht key val) (\<lambda>(r, ht).
     if r = DICT_OK then Inr (1, ht)
     else bindR (dictFind ht key) (\<lambda>entry.
       case entry of
         None \<Rightarrow> Inl NullDeref
       | Some auxentry \<Rightarrow>
           let h = slot_of (ht_type ht) (ht_sizemask ht) key;
               (p, v) = dictSetHashVal (ht_type ht) (ht_privdata ht) val
           in bindR (get_slot (ht_table ht) h) (\<lambda>c.
              bindR (set_slot (ht_table ht) h (set_val (ht_type ht) (ht_privdata ht) key v c)) (\<lambda>t.
              Inr (0, ht\<lparr>ht_table := t, ht_privdata := dictFreeEntryVal (ht_type ht) p (snd auxentry)\<rparr>)))))"

text \<open>Unlinking the first match: the entry and the chain without it.\<close>

fun unlink :: "('k, 'v, 'p) dictType \<Rightarrow> 'p \<Rightarrow> 'k \<Rightarrow> ('k, 'v) chain \<Rightarrow> (('k \<times> 'v) \<times> ('k, 'v) chain) option" where
  "unlink ty p key [] = None"
| "unlink ty p key (de # des) =
     (if dictCompareHashKeys ty p key (fst de) then Some (de, des)
      else map_option (\<lambda>(x, c). (x, de # c)) (unlink ty p key des))"

definition dictDelete :: "('k, 'v, 'p) dict \<Rightarrow> 'k \<Rightarrow> (int \<times> ('k, 'v, 'p) dict) res" where
  "dictDelete ht key =
     (if ht_size ht = 0 then Inr (DICT_ERR, ht)
      else
        let h = slot_of (ht_type ht) (ht_sizemask ht) key in
        bindR (get_slot (ht_table ht) h) (\<lambda>c.
        case unlink (ht_type ht) (ht_privdata ht) key c of
          None \<Rightarrow> Inr (DICT_ERR, ht)
        | Some (de, c') \<Rightarrow>
            bindR (set_slot (ht_table ht) h c') (\<lambda>t.
            Inr (DICT_OK, ht\<lparr>ht_table := t,
              ht_privdata := dictFreeEntryVal (ht_type ht)
                (dictFreeEntryKey (ht_type ht) (ht_privdata ht) (fst de)) (snd de),
              ht_used := uint64 (ht_used ht - 1)\<rparr>))))"

fun clear_chain :: "('k, 'v, 'p) dictType \<Rightarrow> ('k, 'v) chain \<Rightarrow> 'p \<Rightarrow> int \<Rightarrow> 'p \<times> int" where
  "clear_chain ty [] p used = (p, used)"
| "clear_chain ty (e # es) p used =
     clear_chain ty es (dictFreeEntryVal ty (dictFreeEntryKey ty p (fst e)) (snd e)) (uint64 (used - 1))"

function clear_loop ::
  "('k, 'v, 'p) dictType \<Rightarrow> ('k, 'v) chain list option \<Rightarrow> int \<Rightarrow> int \<Rightarrow> 'p \<Rightarrow> int \<Rightarrow> ('p \<times> int) res" where
  "clear_loop ty t sz i p used =
     (if i < sz \<and> used > 0
      then bindR (get_slot t i) (\<lambda>c. let (p, used) = clear_chain ty c p used in
           clear_loop ty t sz (i + 1) p used)
      else Inr (p, used))"
  by pat_completeness auto
termination by (relation "measure (\<lambda>(ty, t, sz, i, p, used). nat (sz - i))") auto

declare clear_loop.simps [simp del]

definition dictClear :: "('k, 'v, 'p) dict \<Rightarrow> (int \<times> ('k, 'v, 'p) dict) res" where
  "dictClear ht =
     bindR (clear_loop (ht_type ht) (ht_table ht) (ht_size ht) 0 (ht_privdata ht) (ht_used ht)) (\<lambda>(p, used).
     Inr (DICT_OK, dictReset (ht\<lparr>ht_privdata := p, ht_used := used\<rparr>)))"

text \<open>What is left of a released table is the state its destructors reached.\<close>

definition dictRelease :: "('k, 'v, 'p) dict \<Rightarrow> 'p res" where
  "dictRelease ht = bindR (dictClear ht) (\<lambda>(r, ht). Inr (ht_privdata ht))"

section \<open>Iterating\<close>

text \<open>
  The iterator keeps the index of the slot, the current entry and the rest of its chain:
  \<open>it_entry\<close> is the chain from the entry on (\<open>[]\<close> is NULL), \<open>it_next\<close> the saved successor.
\<close>

record ('k, 'v) dictIterator =
  it_index :: int
  it_entry :: "('k, 'v) chain"
  it_next :: "('k, 'v) chain"

definition dictGetIterator :: "('k, 'v) dictIterator" where
  "dictGetIterator = \<lparr>it_index = - 1, it_entry = [], it_next = []\<rparr>"

function dictNext ::
  "('k, 'v, 'p) dict \<Rightarrow> ('k, 'v) dictIterator \<Rightarrow> (('k \<times> 'v) option \<times> ('k, 'v) dictIterator) res" where
  "dictNext ht iter =
     (case it_entry iter of
        [] \<Rightarrow>
          let iter = iter\<lparr>it_index := it_index iter + 1\<rparr> in
          if it_index iter \<ge> int32 (ht_size ht) then Inr (None, iter)
          else bindR (get_slot (ht_table ht) (it_index iter)) (\<lambda>c.
            case c of
              [] \<Rightarrow> dictNext ht (iter\<lparr>it_entry := []\<rparr>)
            | e # es \<Rightarrow> Inr (Some e, iter\<lparr>it_entry := e # es, it_next := es\<rparr>))
      | _ # _ \<Rightarrow>
          (case it_next iter of
             [] \<Rightarrow> dictNext ht (iter\<lparr>it_entry := []\<rparr>)
           | e # es \<Rightarrow> Inr (Some e, iter\<lparr>it_entry := e # es, it_next := es\<rparr>)))"
  by pat_completeness auto
termination
  by (relation "measures [\<lambda>(ht, iter). nat (int32 (ht_size ht) - it_index iter), \<lambda>(ht, iter). length (it_entry iter)]")
    (auto simp: Let_def)

declare dictNext.simps [simp del]

end
