(* ===== verification/DictMap.thy ===== *)
theory DictMap
  imports Dict "HOL-Library.Multiset"
begin

text \<open>
  The hash table implements a finite map from keys to entries. The interface it needs of a
  \<^verbatim>\<open>dictType\<close> is the locale \<open>hashed_keys\<close>: the comparison is an equivalence on the admissible
  keys, equivalent keys have the same hash, a duplicated key is equivalent to the original.
  Inside it every operation is shown to keep the invariant \<open>dict_ok\<close> and to do to
  \<open>lookup_entry\<close>, the map the table stands for, what the operation promises.
\<close>

section \<open>Keys that differ pairwise\<close>

fun apart :: "('k \<Rightarrow> 'k \<Rightarrow> bool) \<Rightarrow> ('k \<times> 'v) list \<Rightarrow> bool" where
  "apart eqv [] \<longleftrightarrow> True"
| "apart eqv (e # es) \<longleftrightarrow> (\<forall>e'\<in>set es. \<not> eqv (fst e) (fst e')) \<and> apart eqv es"

text \<open>The table of \<open>2 ^ n\<close> chains: every entry is in the slot its key hashes to.\<close>

definition table_ok ::
  "('k, 'v, 'p) dictType \<Rightarrow> ('k \<Rightarrow> bool) \<Rightarrow> ('k \<Rightarrow> 'k \<Rightarrow> bool) \<Rightarrow> nat \<Rightarrow> ('k, 'v) chain list \<Rightarrow> bool" where
  "table_ok ty okk eqv n t \<longleftrightarrow> length t = 2 ^ n \<and> apart eqv (concat t) \<and>
     (\<forall>i<2 ^ n. \<forall>e\<in>set (t ! i). okk (fst e) \<and> slot_of ty (2 ^ n - 1) (fst e) = int i)"

definition entries :: "('k, 'v, 'p) dict \<Rightarrow> ('k, 'v) chain" where
  "entries d = (case ht_table d of None \<Rightarrow> [] | Some t \<Rightarrow> concat t)"

definition dict_ok :: "('k \<Rightarrow> bool) \<Rightarrow> ('k \<Rightarrow> 'k \<Rightarrow> bool) \<Rightarrow> ('k, 'v, 'p) dict \<Rightarrow> bool" where
  "dict_ok okk eqv d \<longleftrightarrow>
     ht_size d = 0 \<and> ht_table d = None \<and> ht_used d = 0 \<or>
     (\<exists>n t. 2 \<le> n \<and> n \<le> 31 \<and> ht_size d = 2 ^ n \<and> ht_sizemask d = 2 ^ n - 1 \<and> ht_table d = Some t \<and>
        ht_used d = int (length (concat t)) \<and> ht_used d \<le> ht_size d \<and> table_ok (ht_type d) okk eqv n t)"

text \<open>The map the table stands for.\<close>

definition lookup_entry :: "('k \<Rightarrow> 'k \<Rightarrow> bool) \<Rightarrow> ('k, 'v, 'p) dict \<Rightarrow> 'k \<Rightarrow> ('k \<times> 'v) option" where
  "lookup_entry eqv d k = find (\<lambda>e. eqv k (fst e)) (entries d)"

section \<open>Generic facts\<close>

lemma find_append: "find P (xs @ ys) = (case find P xs of None \<Rightarrow> find P ys | Some x \<Rightarrow> Some x)"
  by (induction xs) auto

lemma find_None_set: "find P xs = None \<longleftrightarrow> (\<forall>x\<in>set xs. \<not> P x)"
  by (auto simp: find_None_iff)

lemma concat_split: "i < length t \<Longrightarrow> concat t = concat (take i t) @ t ! i @ concat (drop (Suc i) t)"
  by (metis append.assoc concat.simps(2) concat_append id_take_nth_drop)

lemma mset_concat_update:
  "i < length t \<Longrightarrow> mset (concat (t[i := c])) + mset (t ! i) = mset (concat t) + mset c"
  using concat_split [of i t] by (simp add: upd_conv_take_nth_drop)

lemma length_concat_update:
  "i < length t \<Longrightarrow> length (concat (t[i := c])) + length (t ! i) = length (concat t) + length c"
  using mset_concat_update [of i t c] by (metis size_mset size_union)

lemma nth_set_concat: "i < length t \<Longrightarrow> e \<in> set (t ! i) \<Longrightarrow> e \<in> set (concat t)"
  by auto

lemma and_mask_mod: "x AND (2 ^ n - 1) = x mod (2 ^ n :: int)"
  by (simp add: take_bit_eq_mod flip: take_bit_eq_mask mask_eq_exp_minus_1)

lemma slot_of_bounds: "n \<le> 32 \<Longrightarrow> 0 \<le> slot_of ty (2 ^ n - 1) k \<and> slot_of ty (2 ^ n - 1) k < 2 ^ n"
proof -
  assume n: "n \<le> 32"
  have "uint (hashFunction ty k) mod 2 ^ n < (2 ^ n :: int)" by simp
  moreover have "uint (hashFunction ty k) mod 2 ^ n < (2 ^ 32 :: int)"
  proof -
    have "(2 ^ n :: int) \<le> 2 ^ 32" using n by (intro power_increasing) auto
    then show ?thesis by (smt (verit) calculation)
  qed
  moreover have "0 \<le> uint (hashFunction ty k) mod (2 ^ n :: int)" by simp
  ultimately show ?thesis by (simp add: slot_of_def and_mask_mod)
qed

lemma next_power_exp: "4 * 2 ^ j \<le> (i :: int) \<Longrightarrow> i = 4 * 2 ^ k \<Longrightarrow> sz \<le> 4 * 2 ^ m \<Longrightarrow> k \<le> m \<Longrightarrow>
    \<exists>n. next_power sz i = 4 * 2 ^ n \<and> n \<le> m \<and> sz \<le> 4 * 2 ^ n \<and> (n = k \<or> 2 ^ n * 2 < sz)"
proof (induction "m - k" arbitrary: i k)
  case 0
  then have "i \<ge> sz" by simp
  then have "next_power sz i = i" by (subst next_power.simps) simp
  then show ?case using 0 by auto
next
  case (Suc x)
  show ?case
  proof (cases "i \<ge> sz")
    case True
    then have "next_power sz i = i" by (subst next_power.simps) simp
    then show ?thesis using Suc.prems True by auto
  next
    case False
    have "next_power sz i = next_power sz (i * 2)"
      using False Suc.prems by (subst next_power.simps) simp
    moreover have "\<exists>n. next_power sz (i * 2) = 4 * 2 ^ n \<and> n \<le> m \<and> sz \<le> 4 * 2 ^ n \<and> (n = Suc k \<or> 2 ^ n * 2 < sz)"
    proof (rule Suc.hyps(1))
      show "x = m - Suc k" using Suc.hyps(2) by simp
      show "4 * 2 ^ j \<le> i * 2" using Suc.prems(1) by (smt (verit) zero_less_power)
      show "i * 2 = 4 * 2 ^ Suc k" using Suc.prems by simp
      show "Suc k \<le> m" using Suc.hyps(2) by simp
    qed (rule Suc.prems)
    ultimately obtain n where n: "next_power sz i = 4 * 2 ^ n" "n \<le> m" "sz \<le> 4 * 2 ^ n" "n = Suc k \<or> 2 ^ n * 2 < sz"
      by auto
    moreover have "2 ^ n * 2 < sz" using n(4) False Suc.prems(2) by auto
    ultimately show ?thesis by blast
  qed
qed

lemma dictNextPower_exp:
  assumes "2 \<le> n" "n \<le> 62"
  shows "dictNextPower (2 ^ n) = 2 ^ n"
proof -
  have le: "(2 :: int) ^ n \<le> 2 ^ 62" using assms by (intro power_increasing) auto
  obtain k where k: "n = Suc (Suc k)" using assms by (metis add_2_eq_Suc le_Suc_ex)
  obtain j where j: "next_power (2 ^ n) 4 = 4 * 2 ^ j" "j \<le> k" "(2::int) ^ n \<le> 4 * 2 ^ j"
    using next_power_exp [of 0 4 0 "2 ^ n" k] k by auto
  have "(2::int) ^ k \<le> 2 ^ j" using j(3) k by simp
  then have "j = k" using j(2) power_le_imp_le_exp [of "2 :: int" k j] by simp
  then show ?thesis using le j(1) k by (simp add: dictNextPower_def)
qed

section \<open>The interface of a dictionary type\<close>

locale hashed_keys =
  fixes ty :: "('k, 'v, 'p) dictType" and okk :: "'k \<Rightarrow> bool" and eqv :: "'k \<Rightarrow> 'k \<Rightarrow> bool"
  assumes compare: "okk k \<Longrightarrow> okk k' \<Longrightarrow> dictCompareHashKeys ty p k k' = eqv k k'"
    and eqv_refl: "okk k \<Longrightarrow> eqv k k"
    and eqv_sym: "okk k \<Longrightarrow> okk k' \<Longrightarrow> eqv k k' \<Longrightarrow> eqv k' k"
    and eqv_trans: "okk k \<Longrightarrow> okk k' \<Longrightarrow> okk k'' \<Longrightarrow> eqv k k' \<Longrightarrow> eqv k' k'' \<Longrightarrow> eqv k k''"
    and eqv_hash: "okk k \<Longrightarrow> okk k' \<Longrightarrow> eqv k k' \<Longrightarrow> hashFunction ty k = hashFunction ty k'"
    and dup_key: "okk k \<Longrightarrow> okk (snd (dictSetHashKey ty p k)) \<and> eqv k (snd (dictSetHashKey ty p k))"
begin

lemma slot_eqv: "okk k \<Longrightarrow> okk k' \<Longrightarrow> eqv k k' \<Longrightarrow> slot_of ty m k = slot_of ty m k'"
  using eqv_hash by (simp add: slot_of_def)

lemma apart_middle:
  "\<forall>e\<in>set (xs @ y # ys). okk (fst e) \<Longrightarrow> apart eqv (xs @ y # ys) \<longleftrightarrow> apart eqv (y # xs @ ys)"
  by (induction xs) (auto dest: eqv_sym)

lemma apart_mset:
  "mset xs = mset ys \<Longrightarrow> \<forall>e\<in>set xs. okk (fst e) \<Longrightarrow> apart eqv xs \<longleftrightarrow> apart eqv ys"
proof (induction xs arbitrary: ys)
  case Nil
  then show ?case by simp
next
  case (Cons x xs)
  from Cons.prems(1) have "x \<in> set ys" by (metis list.set_intros(1) set_mset_mset)
  then obtain us vs where ys: "ys = us @ x # vs" by (auto simp: in_set_conv_decomp)
  with Cons.prems(1) have m: "mset xs = mset (us @ vs)" by simp
  then have st: "set xs = set (us @ vs)" by (metis set_mset_mset)
  have "apart eqv xs = apart eqv (us @ vs)" using Cons.IH [OF m] Cons.prems(2) by simp
  moreover have "apart eqv ys = apart eqv (x # us @ vs)"
    unfolding ys by (rule apart_middle) (use Cons.prems(2) st in auto)
  ultimately show ?case using st by simp
qed

lemma apart_unique:
  "apart eqv es \<Longrightarrow> \<forall>e\<in>set es. okk (fst e) \<Longrightarrow> okk k \<Longrightarrow> e \<in> set es \<Longrightarrow> e' \<in> set es \<Longrightarrow>
     eqv k (fst e) \<Longrightarrow> eqv k (fst e') \<Longrightarrow> e = e'"
proof (induction es)
  case (Cons x es)
  have "eqv (fst e) (fst e')" "eqv (fst e') (fst e)"
    using Cons.prems by (meson eqv_sym eqv_trans)+
  then show ?case using Cons by auto
qed simp

lemma find_apart:
  assumes "apart eqv es" "\<forall>e\<in>set es. okk (fst e)" "okk k"
  shows "find (\<lambda>e. eqv k (fst e)) es = Some e \<longleftrightarrow> e \<in> set es \<and> eqv k (fst e)"
proof
  assume "find (\<lambda>e. eqv k (fst e)) es = Some e"
  then show "e \<in> set es \<and> eqv k (fst e)" by (auto simp: find_Some_iff)
next
  assume e: "e \<in> set es \<and> eqv k (fst e)"
  then obtain e' where e': "find (\<lambda>e. eqv k (fst e)) es = Some e'"
    by (metis find_None_set option.exhaust)
  then have "e' \<in> set es" "eqv k (fst e')" by (auto simp: find_Some_iff)
  with e e' apart_unique [OF assms] show "find (\<lambda>e. eqv k (fst e)) es = Some e" by metis
qed

lemma walk_find:
  "okk k \<Longrightarrow> \<forall>e\<in>set c. okk (fst e) \<Longrightarrow> walk ty p k c = find (\<lambda>e. eqv k (fst e)) c"
  unfolding walk_def by (induction c) (auto simp: compare)

text \<open>The entries of a table are its admissible keys, and a key is found in its own slot.\<close>

lemma table_okk: "table_ok ty okk eqv n t \<Longrightarrow> e \<in> set (concat t) \<Longrightarrow> okk (fst e)"
  unfolding table_ok_def set_concat by (metis UN_E in_set_conv_nth)

lemma find_in_slot:
  assumes t: "table_ok ty okk eqv n t" and k: "okk k" and i: "int i = slot_of ty (2 ^ n - 1) k" "i < 2 ^ n"
  shows "find (\<lambda>e. eqv k (fst e)) (concat t) = find (\<lambda>e. eqv k (fst e)) (t ! i)"
proof -
  have len: "length t = 2 ^ n" using t by (simp add: table_ok_def)
  have none: "find (\<lambda>e. eqv k (fst e)) (concat cs) = None"
    if cs: "\<And>c. c \<in> set cs \<Longrightarrow> \<exists>j<2 ^ n. j \<noteq> i \<and> c = t ! j" for cs
  proof -
    have "\<not> eqv k (fst e)" if "c \<in> set cs" "e \<in> set c" for c e
    proof
      assume eq: "eqv k (fst e)"
      obtain j where j: "j < 2 ^ n" "j \<noteq> i" "c = t ! j" using cs \<open>c \<in> set cs\<close> by blast
      then have "okk (fst e)" "slot_of ty (2 ^ n - 1) (fst e) = int j"
        using t \<open>e \<in> set c\<close> by (auto simp: table_ok_def)
      with slot_eqv [OF k _ eq, of "2 ^ n - 1"] i j(2) show False by simp
    qed
    then show ?thesis by (auto simp: find_None_set)
  qed
  have "find (\<lambda>e. eqv k (fst e)) (concat (take i t)) = None"
  proof (rule none)
    fix c assume "c \<in> set (take i t)"
    then obtain j where "j < i" "c = t ! j" by (auto simp: in_set_conv_nth)
    then show "\<exists>j<2 ^ n. j \<noteq> i \<and> c = t ! j" using i(2) by (intro exI [of _ j]) simp
  qed
  moreover have "find (\<lambda>e. eqv k (fst e)) (concat (drop (Suc i) t)) = None"
  proof (rule none)
    fix c assume "c \<in> set (drop (Suc i) t)"
    then obtain j where "j < length t - Suc i" "c = t ! (Suc i + j)" by (auto simp: in_set_conv_nth)
    then show "\<exists>j<2 ^ n. j \<noteq> i \<and> c = t ! j" using len by (intro exI [of _ "Suc i + j"]) simp
  qed
  ultimately show ?thesis
    using concat_split [of i t] i(2) len by (auto simp: find_append split: option.split)
qed

lemma dictFind_lookup:
  assumes d: "dict_ok okk eqv d" "ht_type d = ty" and k: "okk k"
  shows "dictFind d k = Inr (lookup_entry eqv d k)"
proof (cases "ht_size d = 0")
  case True
  then show ?thesis using d by (auto simp: dictFind_def dict_ok_def lookup_entry_def entries_def)
next
  case False
  then obtain n t where n: "2 \<le> n" "n \<le> 31" "ht_sizemask d = 2 ^ n - 1" "ht_table d = Some t" "table_ok ty okk eqv n t"
    using d by (auto simp: dict_ok_def)
  define i where "i = nat (slot_of ty (2 ^ n - 1) k)"
  have b: "int i = slot_of ty (2 ^ n - 1) k" "i < 2 ^ n"
    using slot_of_bounds [of n ty k] n(2) by (auto simp: i_def nat_less_iff)
  have len: "length t = 2 ^ n" and okc: "\<forall>e\<in>set (t ! i). okk (fst e)"
    using n(5) b by (auto simp: table_ok_def)
  have "get_slot (Some t) (slot_of ty (2 ^ n - 1) k) = Inr (t ! i)"
    using b len by (auto simp: get_slot_def simp flip: b(1))
  then show ?thesis
    using False n d(2) walk_find [OF k okc] find_in_slot [OF n(5) k b]
    by (simp add: dictFind_def lookup_entry_def entries_def)
qed

text \<open>Changing one slot: the invariant of the table is that of the bag of its entries.\<close>

lemma table_ok_update:
  assumes t: "table_ok ty okk eqv n t" and i: "i < 2 ^ n"
    and c: "\<forall>e\<in>set c. okk (fst e) \<and> slot_of ty (2 ^ n - 1) (fst e) = int i"
    and ap: "apart eqv (concat (t[i := c]))"
  shows "table_ok ty okk eqv n (t[i := c])"
  using assms by (auto simp: table_ok_def nth_list_update)

lemma mset_concat_push: "i < length t \<Longrightarrow> mset (concat (t[i := e # t ! i])) = add_mset e (mset (concat t))"
  using mset_concat_update [of i t "e # t ! i"] by simp

lemma table_ok_push:
  assumes t: "table_ok ty okk eqv n t" and n: "n \<le> 32" and e: "okk (fst e)"
    and i: "int i = slot_of ty (2 ^ n - 1) (fst e)" and new: "\<forall>e'\<in>set (concat t). \<not> eqv (fst e) (fst e')"
  shows "table_ok ty okk eqv n (t[i := e # t ! i])"
proof (rule table_ok_update [OF t])
  have len: "length t = 2 ^ n" using t by (simp add: table_ok_def)
  show i': "i < 2 ^ n" using slot_of_bounds [OF n, of ty "fst e"] i by (metis of_nat_less_numeral_power_cancel_iff)
  show "\<forall>e'\<in>set (e # t ! i). okk (fst e') \<and> slot_of ty (2 ^ n - 1) (fst e') = int i"
    using t i i' e by (auto simp: table_ok_def)
  have "mset (e # concat t) = mset (concat (t[i := e # t ! i]))"
    using mset_concat_push [of i t e] i' len by simp
  moreover have "apart eqv (e # concat t)" using new t by (simp add: table_ok_def)
  ultimately show "apart eqv (concat (t[i := e # t ! i]))"
    using apart_mset [of "e # concat t"] e table_okk [OF t] by auto
qed

lemma move_chain_ok:
  assumes "n \<le> 32" "table_ok ty okk eqv n nt" "\<forall>e\<in>set es. okk (fst e)" "apart eqv (es @ concat nt)"
    and "int (length es) \<le> used" "used < 2 ^ 64"
  shows "\<exists>nt'. move_chain ty (2 ^ n - 1) es (Some nt) used = Inr (Some nt', used - int (length es)) \<and>
     table_ok ty okk eqv n nt' \<and> mset (concat nt') = mset es + mset (concat nt)"
  using assms(2-)
proof (induction es arbitrary: nt used)
  case Nil
  then show ?case by simp
next
  case (Cons e es)
  define i where "i = nat (slot_of ty (2 ^ n - 1) (fst e))"
  have i: "int i = slot_of ty (2 ^ n - 1) (fst e)" "i < 2 ^ n"
    using slot_of_bounds [OF assms(1), of ty "fst e"] by (auto simp: i_def nat_less_iff)
  have len: "length nt = 2 ^ n" using Cons.prems(1) by (simp add: table_ok_def)
  let ?nt = "nt[i := e # nt ! i]"
  have m: "mset (concat ?nt) = add_mset e (mset (concat nt))"
    using mset_concat_push [of i nt e] i len by simp
  have t: "table_ok ty okk eqv n ?nt"
    using Cons.prems table_ok_push [OF Cons.prems(1) assms(1) _ i(1)] by auto
  have "mset (es @ concat ?nt) = mset (e # es @ concat nt)" using m by simp
  moreover have "\<forall>x\<in>set (e # es @ concat nt). okk (fst x)"
    using Cons.prems(2) table_okk [OF Cons.prems(1)] by (metis UnE set_append append_Cons)
  ultimately have "apart eqv (es @ concat ?nt)"
    using Cons.prems(3) apart_mset [of "e # es @ concat nt" "es @ concat ?nt"] by (metis append_Cons)
  then obtain nt' where "move_chain ty (2 ^ n - 1) es (Some ?nt) (used - 1) = Inr (Some nt', used - 1 - int (length es))"
      "table_ok ty okk eqv n nt'" "mset (concat nt') = mset es + mset (concat ?nt)"
    using Cons.IH [OF t, of "used - 1"] Cons.prems by auto
  moreover have "move_chain ty (2 ^ n - 1) (e # es) (Some nt) used =
      move_chain ty (2 ^ n - 1) es (Some ?nt) (used - 1)"
    using i len Cons.prems by (simp add: get_slot_def set_slot_def cint flip: i(1))
  ultimately show ?case using m by (simp add: algebra_simps)
qed

lemma expand_loop_ok:
  assumes n: "n \<le> 32" and okt: "\<forall>e\<in>set (concat t). okk (fst e)"
  shows "table_ok ty okk eqv n nt \<Longrightarrow> apart eqv (concat (drop i t) @ concat nt) \<Longrightarrow>
     used = int (length (concat (drop i t))) \<Longrightarrow> used < 2 ^ 64 \<Longrightarrow>
     \<exists>nt'. expand_loop ty (2 ^ n - 1) (Some t) (int (length t)) (int i) (Some nt) used = Inr (Some nt', 0) \<and>
       table_ok ty okk eqv n nt' \<and> mset (concat nt') = mset (concat (drop i t)) + mset (concat nt)"
proof (induction "length t - i" arbitrary: i nt used)
  case 0
  then show ?case by (subst expand_loop.simps) simp
next
  case (Suc x)
  then have i: "i < length t" by simp
  show ?case
  proof (cases "used > 0")
    case False
    then show ?thesis using Suc.prems by (subst expand_loop.simps) auto
  next
    case True
    have dr: "concat (drop i t) = t ! i @ concat (drop (Suc i) t)"
      using i by (simp add: Cons_nth_drop_Suc [symmetric])
    have okc: "\<forall>e\<in>set (t ! i). okk (fst e)" using okt i by auto
    have perm: "mset (t ! i @ concat nt @ concat (drop (Suc i) t)) = mset (concat (drop i t) @ concat nt)"
      using dr by simp
    have ok_all: "\<forall>e\<in>set (concat (drop i t) @ concat nt). okk (fst e)"
      using okt table_okk [OF Suc.prems(1)] by (auto dest: in_set_dropD)
    have ap: "apart eqv (t ! i @ concat nt @ concat (drop (Suc i) t))"
      using apart_mset [OF perm [symmetric] ok_all] Suc.prems(2) by simp
    have ap1: "apart eqv (xs @ ys) \<Longrightarrow> apart eqv xs" for xs ys :: "('k \<times> 'v) list"
      by (induction xs) auto
    obtain nt1 where nt1: "move_chain ty (2 ^ n - 1) (t ! i) (Some nt) used = Inr (Some nt1, used - int (length (t ! i)))"
        "table_ok ty okk eqv n nt1" "mset (concat nt1) = mset (t ! i) + mset (concat nt)"
      using move_chain_ok [OF n Suc.prems(1) okc, of used] ap ap1 [of "t ! i @ concat nt"] Suc.prems dr by auto
    have "mset (concat (drop (Suc i) t) @ concat nt1) = mset (concat (drop i t) @ concat nt)"
      using nt1(3) dr by simp
    then have ap': "apart eqv (concat (drop (Suc i) t) @ concat nt1)"
      using apart_mset [OF _ ok_all] Suc.prems(2) by metis
    have "\<exists>nt'. expand_loop ty (2 ^ n - 1) (Some t) (int (length t)) (int (Suc i)) (Some nt1) (used - int (length (t ! i))) =
        Inr (Some nt', 0) \<and> table_ok ty okk eqv n nt' \<and> mset (concat nt') = mset (concat (drop (Suc i) t)) + mset (concat nt1)"
      by (rule Suc.hyps(1) [OF _ nt1(2) ap']) (use Suc.hyps(2) Suc.prems dr in auto)
    then show ?thesis
      using True i nt1 dr by (subst expand_loop.simps) (simp add: get_slot_def add.commute ac_simps)
  qed
qed

text \<open>An empty table of any power of two is well formed.\<close>

lemma table_ok_empty: "table_ok ty okk eqv n (replicate (2 ^ n) [])"
proof -
  have "concat (replicate m []) = ([] :: ('k \<times> 'v) list)" for m by (induction m) auto
  then show ?thesis by (simp add: table_ok_def)
qed

lemma dictExpand_ok:
  assumes A: "\<forall>k. can_alloc A k" and d: "dict_ok okk eqv d" "ht_type d = ty"
    and m: "2 \<le> m" "m \<le> 31" "ht_used d \<le> 2 ^ m"
  shows "\<exists>d'. dictExpand A d (2 ^ m) = Inr (DICT_OK, d') \<and> dict_ok okk eqv d' \<and> ht_size d' = 2 ^ m \<and>
     ht_used d' = ht_used d \<and> ht_type d' = ty \<and> ht_privdata d' = ht_privdata d \<and> mset (entries d') = mset (entries d)"
proof -
  have rs: "dictNextPower (2 ^ m) = 2 ^ m" using m by (intro dictNextPower_exp) auto
  have le: "(2 :: int) ^ m \<le> 2 ^ 31" using m(2) by (intro power_increasing) auto
  have pos: "1 \<le> (2 :: int) ^ m" by simp
  have msk: "uint64 (2 ^ m - 1) = 2 ^ m - 1" using le pos by (intro uint64_id) simp_all
  have nat: "nat (2 ^ m) = (2 ^ m :: nat)" by (simp add: nat_power_eq)
  define nt where "nt = (replicate (2 ^ m) [] :: ('k, 'v) chain list)"
  have nt0: "concat nt = []" unfolding nt_def by (induction "2 ^ m :: nat") auto
  have "\<exists>nt'. expand_loop ty (2 ^ m - 1) (ht_table d) (ht_size d) 0 (Some nt) (ht_used d) = Inr (Some nt', 0) \<and>
      table_ok ty okk eqv m nt' \<and> mset (concat nt') = mset (entries d)"
  proof (cases "ht_size d = 0")
    case True
    then have "ht_used d = 0" "ht_table d = None" using d by (auto simp: dict_ok_def)
    then show ?thesis
      using True nt0 table_ok_empty [of m] by (subst expand_loop.simps) (simp add: entries_def nt_def)
  next
    case False
    then obtain n t where t: "ht_size d = 2 ^ n" "n \<le> 31" "ht_table d = Some t" "ht_used d = int (length (concat t))"
        "ht_used d \<le> ht_size d" "table_ok ty okk eqv n t"
      using d by (auto simp: dict_ok_def)
    have "(2 :: int) ^ n \<le> 2 ^ 31" using t(2) by (intro power_increasing) auto
    then have "ht_used d \<le> 2 ^ 31" using t(1,5) by linarith
    then have "ht_used d < 2 ^ 64" by (rule le_less_trans) simp
    moreover have "length t = 2 ^ n" "apart eqv (concat t)" using t(6) by (auto simp: table_ok_def)
    ultimately show ?thesis
      using expand_loop_ok [of m t nt 0 "ht_used d"] t m(2) table_okk [OF t(6)] table_ok_empty [of m] nt0
      by (auto simp: nt_def entries_def)
  qed
  then obtain nt' where nt': "expand_loop ty (2 ^ m - 1) (ht_table d) (ht_size d) 0 (Some nt) (ht_used d) = Inr (Some nt', 0)"
      "table_ok ty okk eqv m nt'" "mset (concat nt') = mset (entries d)" by blast
  have used: "ht_used d = int (length (entries d))" using d by (auto simp: dict_ok_def entries_def)
  have len: "length (concat nt') = length (entries d)" using nt'(3) by (metis size_mset)
  let ?d = "d\<lparr>ht_table := Some nt', ht_size := 2 ^ m, ht_sizemask := 2 ^ m - 1\<rparr>"
  have "dictExpand A d (2 ^ m) = Inr (DICT_OK, ?d)"
    using A m(3) d(2) rs msk nat nt'(1)
    by (cases d) (simp add: dictExpand_def dictInit_def dictReset_def nt_def nat Let_def)
  moreover have "dict_ok okk eqv ?d"
    unfolding dict_ok_def
    by (intro disjI2 exI [of _ m] exI [of _ nt']) (use m d(2) used len nt' in simp)
  ultimately show ?thesis using d(2) nt'(3) by (intro exI [of _ ?d]) (simp add: entries_def)
qed

lemma entries_okk: "dict_ok okk eqv d \<Longrightarrow> ht_type d = ty \<Longrightarrow> \<forall>e\<in>set (entries d). okk (fst e)"
  unfolding dict_ok_def entries_def using table_okk by fastforce

lemma entries_apart: "dict_ok okk eqv d \<Longrightarrow> apart eqv (entries d)"
  by (auto simp: dict_ok_def entries_def table_ok_def)

lemma lookup_Some:
  assumes "dict_ok okk eqv d" "ht_type d = ty" "okk k"
  shows "lookup_entry eqv d k = Some e \<longleftrightarrow> e \<in> set (entries d) \<and> eqv k (fst e)"
  using find_apart [OF entries_apart [OF assms(1)] entries_okk [OF assms(1,2)] assms(3)]
  by (simp add: lookup_entry_def)

lemma lookup_None: "lookup_entry eqv d k = None \<longleftrightarrow> (\<forall>e\<in>set (entries d). \<not> eqv k (fst e))"
  by (simp add: lookup_entry_def find_None_set)

text \<open>Two tables whose entries are related bag-wise have the same lookups.\<close>

lemma lookup_cong:
  assumes "dict_ok okk eqv d" "ht_type d = ty" "dict_ok okk eqv d'" "ht_type d' = ty" "okk k"
    and "\<And>e. eqv k (fst e) \<Longrightarrow> e \<in> set (entries d') \<longleftrightarrow> e \<in> set (entries d)"
  shows "lookup_entry eqv d' k = lookup_entry eqv d k"
proof (cases "lookup_entry eqv d k")
  case None
  then have "lookup_entry eqv d' k = None" using assms(6) by (auto simp: lookup_None)
  then show ?thesis using None by simp
next
  case (Some e)
  then have "lookup_entry eqv d' k = Some e"
    using lookup_Some [OF assms(1,2,5)] lookup_Some [OF assms(3,4,5)] assms(6) by metis
  then show ?thesis using Some by simp
qed

lemma dictExpandIfNeeded_ok:
  assumes A: "\<forall>k. can_alloc A k" and d: "dict_ok okk eqv d" "ht_type d = ty" "ht_used d < 2 ^ 31"
  shows "\<exists>d'. dictExpandIfNeeded A d = Inr (DICT_OK, d') \<and> dict_ok okk eqv d' \<and> ht_used d < ht_size d' \<and>
     ht_used d' = ht_used d \<and> ht_type d' = ty \<and> ht_privdata d' = ht_privdata d \<and> mset (entries d') = mset (entries d)"
proof (cases "ht_size d = 0")
  case True
  then have "ht_used d = 0" using d(1) by (auto simp: dict_ok_def)
  then show ?thesis
    using dictExpand_ok [OF A d(1,2), of 2] True by (auto simp: dictExpandIfNeeded_def)
next
  case False
  then obtain n t where n: "2 \<le> n" "n \<le> 31" "ht_size d = 2 ^ n" "ht_used d \<le> ht_size d"
    using d(1) by (auto simp: dict_ok_def)
  show ?thesis
  proof (cases "ht_used d = ht_size d")
    case True
    then have "(2 :: int) ^ n < 2 ^ 31" using d(3) n(3) by simp
    then have "n < 31" by (rule power_less_imp_less_exp [rotated]) simp
    then have le: "(2 :: int) ^ Suc n \<le> 2 ^ 31" by (intro power_increasing) auto
    have "(0 :: int) \<le> 2 ^ Suc n" by simp
    with le have "uint64 (ht_size d * 2) = 2 ^ Suc n" unfolding n(3) by (simp add: uint64_def)
    then show ?thesis
      using dictExpand_ok [OF A d(1,2), of "Suc n"] False True n \<open>n < 31\<close> by (auto simp: dictExpandIfNeeded_def)
  next
    case False
    then show ?thesis using d n \<open>ht_size d \<noteq> 0\<close> by (auto simp: dictExpandIfNeeded_def)
  qed
qed

text \<open>Replacing one chain of a table that has one, as every writing operation does.\<close>

lemma dict_ok_set_chain:
  assumes n: "2 \<le> n" "n \<le> 31" "ht_size d = 2 ^ n" "ht_sizemask d = 2 ^ n - 1" "ht_type d = ty"
    and t: "ht_table d = Some t'" "table_ok ty okk eqv n t'" "ht_used d = int (length (concat t'))"
      "ht_used d \<le> ht_size d"
  shows "dict_ok okk eqv d"
  unfolding dict_ok_def by (intro disjI2 exI [of _ n] exI [of _ t']) (use assms in simp)

lemma dict_ok_chain:
  assumes d: "dict_ok okk eqv d" "ht_type d = ty" "ht_size d \<noteq> 0" and k: "okk k"
  obtains n t i where "2 \<le> n" "n \<le> 31" "ht_size d = 2 ^ n" "ht_sizemask d = 2 ^ n - 1" "ht_table d = Some t"
    "ht_used d = int (length (concat t))" "table_ok ty okk eqv n t" "entries d = concat t"
    "i < length t" "length t = 2 ^ n" "slot_of ty (ht_sizemask d) k = int i" "int32 (int i) = int i" "ht_used d \<le> ht_size d"
    "get_slot (ht_table d) (int i) = Inr (t ! i)" "\<And>c. set_slot (ht_table d) (int i) c = Inr (Some (t[i := c]))"
    "walk ty (ht_privdata d) k (t ! i) = lookup_entry eqv d k"
proof -
  obtain n t where n: "2 \<le> n" "n \<le> 31" "ht_size d = 2 ^ n" "ht_sizemask d = 2 ^ n - 1" "ht_table d = Some t"
      "ht_used d = int (length (concat t))" "ht_used d \<le> ht_size d" "table_ok ty okk eqv n t"
    using d by (auto simp: dict_ok_def)
  define i where "i = nat (slot_of ty (2 ^ n - 1) k)"
  have i: "int i = slot_of ty (2 ^ n - 1) k" "i < 2 ^ n"
    using slot_of_bounds [of n ty k] n(2) by (auto simp: i_def nat_less_iff)
  have len: "length t = 2 ^ n" and okc: "\<forall>e\<in>set (t ! i). okk (fst e)"
    using n(8) i by (auto simp: table_ok_def)
  have "int i < 2 ^ 31"
  proof -
    have "(2 :: int) ^ n \<le> 2 ^ 31" using n(2) by (intro power_increasing) auto
    moreover have "int i < 2 ^ n" using i(2) by simp
    ultimately show ?thesis by linarith
  qed
  then have "int32 (int i) = int i" by (intro int32_id) simp_all
  with n i(1) [symmetric] i(2) len walk_find [OF k okc] find_in_slot [OF n(8) k i] show thesis
    by (intro that [of n t i]) (auto simp: entries_def get_slot_def set_slot_def lookup_entry_def)
qed

lemma dictAdd_ok:
  assumes A: "\<forall>k. can_alloc A k" and d: "dict_ok okk eqv d" "ht_type d = ty" "ht_used d < 2 ^ 31" and k: "okk k"
  shows "\<exists>r d'. dictAdd A d k v = Inr (r, d') \<and> dict_ok okk eqv d' \<and> ht_type d' = ty \<and>
     (if lookup_entry eqv d k = None
      then r = DICT_OK \<and> ht_used d' = ht_used d + 1 \<and>
           mset (entries d') = add_mset (snd (dictSetHashKey ty (ht_privdata d) k),
             snd (dictSetHashVal ty (fst (dictSetHashKey ty (ht_privdata d) k)) v)) (mset (entries d))
      else r = DICT_ERR \<and> ht_used d' = ht_used d \<and> ht_privdata d' = ht_privdata d \<and>
           mset (entries d') = mset (entries d))"
proof -
  obtain d1 where e: "dictExpandIfNeeded A d = Inr (DICT_OK, d1)" and d1: "dict_ok okk eqv d1" "ht_type d1 = ty"
      and fit: "ht_used d < ht_size d1" and same: "ht_used d1 = ht_used d" "ht_privdata d1 = ht_privdata d"
      and ms: "mset (entries d1) = mset (entries d)"
    using dictExpandIfNeeded_ok [OF A d] by blast
  have "set (entries d1) = set (entries d)" using ms by (metis set_mset_mset)
  then have lk: "lookup_entry eqv d1 k = lookup_entry eqv d k"
    using lookup_cong [OF d(1,2) d1 k] by simp
  have "0 \<le> ht_used d1" using d1 by (auto simp: dict_ok_def)
  then have "ht_size d1 \<noteq> 0" using fit same by auto
  from d1 this k obtain n t i where n: "2 \<le> n" "n \<le> 31" "ht_size d1 = 2 ^ n" "ht_sizemask d1 = 2 ^ n - 1"
      and t: "ht_table d1 = Some t" "ht_used d1 = int (length (concat t))" "table_ok ty okk eqv n t" "entries d1 = concat t"
      and i: "i < length t" "length t = 2 ^ n" "slot_of ty (ht_sizemask d1) k = int i" "int32 (int i) = int i"
      and io: "get_slot (ht_table d1) (int i) = Inr (t ! i)" "\<And>c. set_slot (ht_table d1) (int i) c = Inr (Some (t[i := c]))"
      and w: "walk ty (ht_privdata d1) k (t ! i) = lookup_entry eqv d1 k"
    by (rule dict_ok_chain) blast
  have ki: "dictKeyIndex A d k = Inr (if lookup_entry eqv d k \<noteq> None then - 1 else int i, d1)"
    using e d1(2) i io w lk by (simp add: dictKeyIndex_def)
  show ?thesis
  proof (cases "lookup_entry eqv d k = None")
    case False
    then show ?thesis using ki d1 same ms by (simp add: dictAdd_def)
  next
    case True
    obtain p1 k1 where k1: "dictSetHashKey ty (ht_privdata d) k = (p1, k1)" by fastforce
    obtain p2 v1 where v1: "dictSetHashVal ty p1 v = (p2, v1)" by fastforce
    have ok1: "okk k1" "eqv k k1" using dup_key [OF k, of "ht_privdata d"] k1 by auto
    let ?t = "t[i := (k1, v1) # t ! i]"
    let ?d = "d1\<lparr>ht_table := Some ?t, ht_privdata := p2, ht_used := ht_used d1 + 1\<rparr>"
    have "ht_used d1 + 1 < 2 ^ 64" using same(1) d(3) by simp
    then have "uint64 (ht_used d1 + 1) = ht_used d1 + 1" using \<open>0 \<le> ht_used d1\<close> by (intro uint64_id) simp_all
    then have "dictAdd A d k v = Inr (DICT_OK, ?d)"
      using ki True A io d1(2) same(2) k1 v1 by (simp add: dictAdd_def)
    moreover have m: "mset (concat ?t) = add_mset (k1, v1) (mset (concat t))"
      using mset_concat_push [of i t] i by simp
    moreover have "table_ok ty okk eqv n ?t"
    proof -
      have "\<not> eqv k1 (fst e')" if "e' \<in> set (concat t)" for e'
      proof -
        have "lookup_entry eqv d1 k = None" using True lk by simp
        then have "\<not> eqv k (fst e')" using that t(4) by (metis lookup_None)
        then show ?thesis using eqv_trans [OF k ok1(1) table_okk [OF t(3) that] ok1(2)] by blast
      qed
      moreover have "int i = slot_of ty (2 ^ n - 1) k1" using slot_eqv [OF k ok1] i(3) n(4) by simp
      ultimately show ?thesis using table_ok_push [OF t(3), of "(k1, v1)" i] ok1 n(2) by simp
    qed
    moreover have "length (concat ?t) = Suc (length (concat t))" using m by (metis size_mset size_add_mset)
    moreover have "ht_used d1 + 1 \<le> ht_size d1" using fit same(1) by simp
    ultimately have ok: "dict_ok okk eqv ?d"
      using n d1(2) t(2) by (intro dict_ok_set_chain [of n _ ?t]) auto
    show ?thesis
      using True k1 v1 ok d1(2) same(1) m ms t(4) \<open>dictAdd A d k v = Inr (DICT_OK, ?d)\<close>
      by (intro exI [of _ DICT_OK] exI [of _ ?d]) (simp add: entries_def)
  qed
qed

lemma unlink_walk:
  "\<forall>e\<in>set c. okk (fst e) \<Longrightarrow> okk k \<Longrightarrow>
     (case unlink ty p k c of
        None \<Rightarrow> find (\<lambda>e. eqv k (fst e)) c = None
      | Some (e, c') \<Rightarrow> find (\<lambda>e. eqv k (fst e)) c = Some e \<and> mset c = add_mset e (mset c'))"
  by (induction c) (auto simp: compare split: option.splits)

lemma dictDelete_ok:
  assumes d: "dict_ok okk eqv d" "ht_type d = ty" and k: "okk k"
  shows "\<exists>r d'. dictDelete d k = Inr (r, d') \<and> dict_ok okk eqv d' \<and> ht_type d' = ty \<and>
     (case lookup_entry eqv d k of
        None \<Rightarrow> r = DICT_ERR \<and> d' = d
      | Some e \<Rightarrow> r = DICT_OK \<and> ht_used d' = ht_used d - 1 \<and> mset (entries d) = add_mset e (mset (entries d')) \<and>
          ht_privdata d' = dictFreeEntryVal ty (dictFreeEntryKey ty (ht_privdata d) (fst e)) (snd e))"
proof (cases "ht_size d = 0")
  case True
  then have "lookup_entry eqv d k = None" using d by (auto simp: dict_ok_def lookup_entry_def entries_def)
  then show ?thesis using True d by (simp add: dictDelete_def)
next
  case False
  from d False k obtain n t i where n: "2 \<le> n" "n \<le> 31" "ht_size d = 2 ^ n" "ht_sizemask d = 2 ^ n - 1"
      and t: "ht_table d = Some t" "ht_used d = int (length (concat t))" "table_ok ty okk eqv n t" "entries d = concat t"
      and i: "i < length t" "length t = 2 ^ n" "slot_of ty (ht_sizemask d) k = int i" and fit: "ht_used d \<le> ht_size d"
      and io: "get_slot (ht_table d) (int i) = Inr (t ! i)" "\<And>c. set_slot (ht_table d) (int i) c = Inr (Some (t[i := c]))"
      and w: "walk ty (ht_privdata d) k (t ! i) = lookup_entry eqv d k"
    by (rule dict_ok_chain) blast
  have okc: "\<forall>e\<in>set (t ! i). okk (fst e) \<and> slot_of ty (2 ^ n - 1) (fst e) = int i"
    using t(3) i by (auto simp: table_ok_def)
  have w': "find (\<lambda>e. eqv k (fst e)) (t ! i) = lookup_entry eqv d k"
    using w walk_find [OF k, of "t ! i"] okc by simp
  note ul = unlink_walk [of "t ! i" k "ht_privdata d"]
  show ?thesis
  proof (cases "unlink ty (ht_privdata d) k (t ! i)")
    case None
    then show ?thesis using ul okc k w' False d i io by (simp add: dictDelete_def)
  next
    case (Some ec)
    obtain e c where ec: "ec = (e, c)" by fastforce
    have e: "lookup_entry eqv d k = Some e" "mset (t ! i) = add_mset e (mset c)"
      using ul okc k w' Some ec by auto
    let ?t = "t[i := c]"
    let ?d = "d\<lparr>ht_table := Some ?t, ht_privdata := dictFreeEntryVal ty (dictFreeEntryKey ty (ht_privdata d) (fst e)) (snd e),
       ht_used := ht_used d - 1\<rparr>"
    have m: "mset (concat t) = add_mset e (mset (concat ?t))"
      using mset_concat_update [OF i(1), of c] e(2) by simp
    have sz: "length (concat t) = Suc (length (concat ?t))" using m by (metis size_mset size_add_mset)
    have "(2 :: int) ^ n \<le> 2 ^ 31" using n(2) by (intro power_increasing) auto
    then have "ht_used d \<le> 2 ^ 31" using fit n(3) by linarith
    then have "uint64 (ht_used d - 1) = ht_used d - 1" using t(2) sz by (intro uint64_id) auto
    then have eq: "dictDelete d k = Inr (DICT_OK, ?d)"
      using False Some ec io i d(2) by (simp add: dictDelete_def)
    have "apart eqv (e # concat ?t)"
      using apart_mset [of "concat t" "e # concat ?t"] m t(3) table_okk [OF t(3)] by (simp add: table_ok_def)
    moreover have "set c \<subseteq> set (t ! i)" using e(2) by (metis set_mset_mset set_mset_add_mset_insert subset_insertI)
    ultimately have "table_ok ty okk eqv n ?t"
      by (intro table_ok_update [OF t(3)]) (use i okc in auto)
    moreover have "length (concat t) \<le> 2 ^ n" using fit n(3) t(2) by simp
    ultimately have "dict_ok okk eqv ?d"
      using n d(2) t(2) sz by (intro dict_ok_set_chain [of n _ ?t]) auto
    then show ?thesis
      using eq d(2) e(1) m t(4) by (intro exI [of _ DICT_OK] exI [of _ ?d]) (simp add: entries_def)
  qed
qed

lemma set_val_mset:
  "\<forall>e\<in>set c. okk (fst e) \<Longrightarrow> okk k \<Longrightarrow> find (\<lambda>e. eqv k (fst e)) c = Some e \<Longrightarrow>
     \<exists>M. mset c = add_mset e M \<and> mset (set_val ty p k v c) = add_mset (fst e, v) M"
proof (induction c)
  case (Cons x c)
  then show ?case
  proof (cases "eqv k (fst x)")
    case True
    then show ?thesis using Cons.prems by (auto simp: compare)
  next
    case False
    with Cons obtain M where "mset c = add_mset e M" "mset (set_val ty p k v c) = add_mset (fst e, v) M"
      by auto
    then show ?thesis using False Cons.prems
      by (intro exI [of _ "add_mset x M"]) (auto simp: compare)
  qed
qed simp

lemma set_val_slot: "(\<forall>e\<in>set c. Q (fst e)) \<Longrightarrow> \<forall>e\<in>set (set_val ty p k v c). Q (fst e)"
  by (induction c) auto

text \<open>Replacing the value of an existing entry.\<close>

lemma dictReplace_existing:
  assumes d: "dict_ok okk eqv d" "ht_type d = ty" and k: "okk k" and e: "lookup_entry eqv d k = Some e"
    and add: "dictAdd A d0 k v = Inr (DICT_ERR, d)" and v1: "dictSetHashVal ty (ht_privdata d) v = (p2, v1)"
  shows "\<exists>d' M. dictReplace A d0 k v = Inr (0, d') \<and> dict_ok okk eqv d' \<and> ht_type d' = ty \<and>
     mset (entries d) = add_mset e M \<and> mset (entries d') = add_mset (fst e, v1) M \<and>
     ht_privdata d' = dictFreeEntryVal ty p2 (snd e)"
proof -
  have "ht_size d \<noteq> 0" using d e by (auto simp: dict_ok_def lookup_entry_def entries_def)
  from d this k obtain n t i where n: "2 \<le> n" "n \<le> 31" "ht_size d = 2 ^ n" "ht_sizemask d = 2 ^ n - 1"
      and t: "ht_table d = Some t" "ht_used d = int (length (concat t))" "table_ok ty okk eqv n t" "entries d = concat t"
      and i: "i < length t" "length t = 2 ^ n" "slot_of ty (ht_sizemask d) k = int i" and fit: "ht_used d \<le> ht_size d"
      and io: "get_slot (ht_table d) (int i) = Inr (t ! i)" "\<And>c. set_slot (ht_table d) (int i) c = Inr (Some (t[i := c]))"
      and w: "walk ty (ht_privdata d) k (t ! i) = lookup_entry eqv d k"
    by (rule dict_ok_chain) blast
  have okc: "\<forall>e\<in>set (t ! i). okk (fst e) \<and> slot_of ty (2 ^ n - 1) (fst e) = int i"
    using t(3) i by (auto simp: table_ok_def)
  have "find (\<lambda>e. eqv k (fst e)) (t ! i) = Some e"
    using w walk_find [OF k, of "t ! i"] okc e by simp
  then obtain M where M: "mset (t ! i) = add_mset e M"
      "mset (set_val ty (ht_privdata d) k v1 (t ! i)) = add_mset (fst e, v1) M"
    using set_val_mset [of "t ! i" k e] okc k by blast
  let ?c = "set_val ty (ht_privdata d) k v1 (t ! i)"
  let ?t = "t[i := ?c]"
  let ?d = "d\<lparr>ht_table := Some ?t, ht_privdata := dictFreeEntryVal ty p2 (snd e)\<rparr>"
  define N where "N = mset (concat t) - {#e#}"
  have "e \<in># mset (t ! i)" using M by simp
  then have "e \<in># mset (concat t)" using nth_set_concat [OF i(1)] by (metis set_mset_mset)
  then have N: "mset (concat t) = add_mset e N" by (simp add: N_def)
  have N': "mset (concat ?t) = add_mset (fst e, v1) N"
    using mset_concat_update [OF i(1), of ?c] M N by simp
  have sz: "length (concat ?t) = length (concat t)" using N N' by (metis size_mset size_add_mset)
  have "apart eqv (concat ?t)"
  proof -
    obtain ys where ys: "mset ys = N" by (metis ex_mset)
    have m: "mset (concat t) = mset (e # ys)" using N ys by simp
    then have st: "set (concat t) = set (e # ys)" by (metis set_mset_mset)
    have "apart eqv (e # ys)" using apart_mset [OF m] table_okk [OF t(3)] t(3) by (simp add: table_ok_def)
    then have "apart eqv ((fst e, v1) # ys)" by simp
    moreover have "\<forall>x\<in>set ((fst e, v1) # ys). okk (fst x)"
      using table_okk [OF t(3)] unfolding st by simp
    moreover have "mset ((fst e, v1) # ys) = mset (concat ?t)" using N' ys by simp
    ultimately show ?thesis using apart_mset [of "(fst e, v1) # ys" "concat ?t"] by metis
  qed
  then have "table_ok ty okk eqv n ?t"
    using set_val_slot [of "t ! i" "\<lambda>x. okk x \<and> slot_of ty (2 ^ n - 1) x = int i"] okc i
    by (intro table_ok_update [OF t(3)]) auto
  moreover have "length (concat t) \<le> 2 ^ n" using fit n(3) t(2) by simp
  ultimately have "dict_ok okk eqv ?d"
    using n d(2) t(2) sz by (intro dict_ok_set_chain [of n _ ?t]) auto
  moreover have "dictReplace A d0 k v = Inr (0, ?d)"
    using add dictFind_lookup [OF d k] e d(2) i io v1 by (simp add: dictReplace_def)
  ultimately show ?thesis using d(2) N N' t(4) by (intro exI [of _ ?d] exI [of _ N]) (simp add: entries_def)
qed

text \<open>The three ways a bag of entries changes, as changes of the map.\<close>

lemma lookup_put:
  assumes "dict_ok okk eqv d" "ht_type d = ty" "dict_ok okk eqv d'" "ht_type d' = ty" "okk k" "okk k'"
    and "set (entries d') = insert e S" "\<And>x. x \<in> S \<longleftrightarrow> x \<in> set (entries d) \<and> \<not> eqv k (fst x)"
    and "okk (fst e)" "eqv k (fst e)"
  shows "lookup_entry eqv d' k' = (if eqv k k' then Some e else lookup_entry eqv d k')"
proof (cases "eqv k k'")
  case True
  then have "eqv k' (fst e)" using assms eqv_sym eqv_trans by blast
  then show ?thesis using True lookup_Some [OF assms(3,4,6)] assms(7) by simp
next
  case False
  have "lookup_entry eqv d' k' = lookup_entry eqv d k'"
  proof (rule lookup_cong [OF assms(1-4,6)])
    fix x :: "'k \<times> 'v" assume x: "eqv k' (fst x)"
    have ne: "\<not> eqv k (fst x)" if "okk (fst x)"
      using False x that assms(5,6) eqv_sym eqv_trans by blast
    show "x \<in> set (entries d') \<longleftrightarrow> x \<in> set (entries d)"
    proof
      assume "x \<in> set (entries d')"
      then have "x = e \<or> x \<in> S" using assms(7) by simp
      then show "x \<in> set (entries d)" using ne assms(8-10) by auto
    next
      assume "x \<in> set (entries d)"
      then show "x \<in> set (entries d')" using ne entries_okk [OF assms(1,2)] assms(7,8) by auto
    qed
  qed
  then show ?thesis using False by simp
qed

lemma lookup_remove:
  assumes "dict_ok okk eqv d" "ht_type d = ty" "dict_ok okk eqv d'" "ht_type d' = ty" "okk k" "okk k'"
    and "\<And>x. x \<in> set (entries d') \<longleftrightarrow> x \<in> set (entries d) \<and> \<not> eqv k (fst x)"
  shows "lookup_entry eqv d' k' = (if eqv k k' then None else lookup_entry eqv d k')"
proof (cases "eqv k k'")
  case True
  have "\<not> eqv k' (fst x)" if "x \<in> set (entries d')" for x
    using that True assms(5-7) eqv_trans entries_okk [OF assms(3,4)] by blast
  then show ?thesis using True by (simp add: lookup_None)
next
  case False
  have "lookup_entry eqv d' k' = lookup_entry eqv d k'"
  proof (rule lookup_cong [OF assms(1-4,6)])
    fix x :: "'k \<times> 'v" assume "eqv k' (fst x)"
    then show "x \<in> set (entries d') \<longleftrightarrow> x \<in> set (entries d)"
      using False assms(5-7) eqv_sym eqv_trans entries_okk [OF assms(1,2)] entries_okk [OF assms(3,4)] by blast
  qed
  then show ?thesis using False by simp
qed

text \<open>An entry taken out of a well-formed bag leaves no other entry of an equivalent key.\<close>

lemma apart_others:
  assumes "dict_ok okk eqv d" "ht_type d = ty" "okk k" "mset (entries d) = add_mset e M" "eqv k (fst e)"
  shows "x \<in># M \<longleftrightarrow> x \<in> set (entries d) \<and> \<not> eqv k (fst x)"
proof -
  obtain ys where ys: "mset ys = M" by (metis ex_mset)
  have m: "mset (entries d) = mset (e # ys)" using assms(4) ys by simp
  then have st: "set (entries d) = insert e (set ys)" by (metis list.simps(15) set_mset_mset)
  have ap: "apart eqv (e # ys)"
    using apart_mset [OF m entries_okk [OF assms(1,2)]] entries_apart [OF assms(1)] by simp
  have okx: "okk (fst e)" using entries_okk [OF assms(1,2)] st by simp
  have "\<not> eqv k (fst y)" if "y \<in> set ys" for y
    using ap that assms(3,5) okx entries_okk [OF assms(1,2)] st eqv_sym eqv_trans by (metis apart.simps(2) insert_iff)
  moreover have "set ys = set_mset M" using ys by (metis set_mset_mset)
  ultimately show ?thesis using st assms(5) by (metis insert_iff)
qed

section \<open>The operations as changes of the map\<close>

lemma dictAdd_map:
  assumes A: "\<forall>k. can_alloc A k" and d: "dict_ok okk eqv d" "ht_type d = ty" "ht_used d < 2 ^ 31" and k: "okk k"
    and v: "\<And>p. snd (dictSetHashVal ty p v) = v'"
  shows "\<exists>r d'. dictAdd A d k v = Inr (r, d') \<and> dict_ok okk eqv d' \<and> ht_type d' = ty \<and>
     r = (if lookup_entry eqv d k = None then DICT_OK else DICT_ERR) \<and>
     (\<forall>k'. okk k' \<longrightarrow> map_option snd (lookup_entry eqv d' k') =
        (if r = DICT_OK \<and> eqv k k' then Some v' else map_option snd (lookup_entry eqv d k'))) \<and>
     (r = DICT_ERR \<longrightarrow> ht_privdata d' = ht_privdata d \<and> mset (entries d') = mset (entries d))"
proof -
  let ?k1 = "snd (dictSetHashKey ty (ht_privdata d) k)"
  obtain r d' where r: "dictAdd A d k v = Inr (r, d')" "dict_ok okk eqv d'" "ht_type d' = ty"
      "if lookup_entry eqv d k = None
       then r = DICT_OK \<and> ht_used d' = ht_used d + 1 \<and> mset (entries d') = add_mset (?k1, v') (mset (entries d))
       else r = DICT_ERR \<and> ht_used d' = ht_used d \<and> ht_privdata d' = ht_privdata d \<and> mset (entries d') = mset (entries d)"
    using dictAdd_ok [OF A d k, of v] unfolding v by blast
  show ?thesis
  proof (cases "lookup_entry eqv d k = None")
    case True
    then have m: "r = DICT_OK" "mset (entries d') = add_mset (?k1, v') (mset (entries d))" using r(4) by auto
    then have st: "set (entries d') = insert (?k1, v') (set (entries d))"
      by (metis set_mset_mset set_mset_add_mset_insert)
    have "lookup_entry eqv d' k' = (if eqv k k' then Some (?k1, v') else lookup_entry eqv d k')" if "okk k'" for k'
      by (rule lookup_put [OF d(1,2) r(2,3) k that st])
        (use True dup_key [OF k] in \<open>auto simp: lookup_None\<close>)
    then show ?thesis using r m(1) True by auto
  next
    case False
    then have m: "r = DICT_ERR" "mset (entries d') = mset (entries d)" "ht_privdata d' = ht_privdata d" using r(4) by auto
    then have "set (entries d') = set (entries d)" by (metis set_mset_mset)
    then have "lookup_entry eqv d' k' = lookup_entry eqv d k'" if "okk k'" for k'
      using lookup_cong [OF d(1,2) r(2,3) that] by simp
    then show ?thesis using r m False by auto
  qed
qed

lemma dictReplace_map:
  assumes A: "\<forall>k. can_alloc A k" and d: "dict_ok okk eqv d" "ht_type d = ty" "ht_used d < 2 ^ 31" and k: "okk k"
    and v: "\<And>p. snd (dictSetHashVal ty p v) = v'"
  shows "\<exists>r d'. dictReplace A d k v = Inr (r, d') \<and> dict_ok okk eqv d' \<and> ht_type d' = ty \<and>
     r = (if lookup_entry eqv d k = None then 1 else 0) \<and>
     (\<forall>k'. okk k' \<longrightarrow> map_option snd (lookup_entry eqv d' k') =
        (if eqv k k' then Some v' else map_option snd (lookup_entry eqv d k')))"
proof -
  obtain r d1 where r: "dictAdd A d k v = Inr (r, d1)" "dict_ok okk eqv d1" "ht_type d1 = ty"
      "r = (if lookup_entry eqv d k = None then DICT_OK else DICT_ERR)"
      "\<And>k'. okk k' \<Longrightarrow> map_option snd (lookup_entry eqv d1 k') =
        (if r = DICT_OK \<and> eqv k k' then Some v' else map_option snd (lookup_entry eqv d k'))"
      "r = DICT_ERR \<Longrightarrow> mset (entries d1) = mset (entries d)"
    using dictAdd_map [OF A d k v] by blast
  show ?thesis
  proof (cases "lookup_entry eqv d k")
    case None
    then show ?thesis using r by (intro exI [of _ 1] exI [of _ d1]) (simp add: dictReplace_def)
  next
    case (Some e)
    then have r1: "r = DICT_ERR" using r(4) by simp
    then have "set (entries d1) = set (entries d)" using r(6) by (metis set_mset_mset)
    then have same: "lookup_entry eqv d1 k' = lookup_entry eqv d k'" if "okk k'" for k'
      using lookup_cong [OF d(1,2) r(2,3) that] by simp
    obtain p2 where p2: "dictSetHashVal ty (ht_privdata d1) v = (p2, v')" using v by (metis prod.collapse)
    obtain d' M where d': "dictReplace A d k v = Inr (0, d')" "dict_ok okk eqv d'" "ht_type d' = ty"
        "mset (entries d1) = add_mset e M" "mset (entries d') = add_mset (fst e, v') M"
      using dictReplace_existing [OF r(2,3) k _ r(1) [unfolded r1] p2, of e] same [OF k] Some by auto
    have e: "e \<in> set (entries d)" "eqv k (fst e)" "okk (fst e)"
      using Some lookup_Some [OF d(1,2) k] entries_okk [OF d(1,2)] by auto
    have st: "set (entries d') = insert (fst e, v') (set_mset M)" using d'(5) by (metis set_mset_mset set_mset_add_mset_insert)
    have "lookup_entry eqv d' k' = (if eqv k k' then Some (fst e, v') else lookup_entry eqv d1 k')" if "okk k'" for k'
      by (rule lookup_put [OF r(2,3) d'(2,3) k that st apart_others [OF r(2,3) k d'(4) e(2)]]) (use e in auto)
    then show ?thesis using d' Some same by (intro exI [of _ 0] exI [of _ d']) auto
  qed
qed

lemma dictDelete_map:
  assumes d: "dict_ok okk eqv d" "ht_type d = ty" and k: "okk k"
  shows "\<exists>r d'. dictDelete d k = Inr (r, d') \<and> dict_ok okk eqv d' \<and> ht_type d' = ty \<and>
     r = (if lookup_entry eqv d k = None then DICT_ERR else DICT_OK) \<and>
     (\<forall>k'. okk k' \<longrightarrow> lookup_entry eqv d' k' = (if eqv k k' then None else lookup_entry eqv d k'))"
proof -
  obtain r d' where r: "dictDelete d k = Inr (r, d')" "dict_ok okk eqv d'" "ht_type d' = ty"
      "case lookup_entry eqv d k of None \<Rightarrow> r = DICT_ERR \<and> d' = d
       | Some e \<Rightarrow> r = DICT_OK \<and> ht_used d' = ht_used d - 1 \<and> mset (entries d) = add_mset e (mset (entries d')) \<and>
          ht_privdata d' = dictFreeEntryVal ty (dictFreeEntryKey ty (ht_privdata d) (fst e)) (snd e)"
    using dictDelete_ok [OF d k] by blast
  show ?thesis
  proof (cases "lookup_entry eqv d k")
    case None
    have "lookup_entry eqv d k' = None" if "okk k'" "eqv k k'" for k'
    proof -
      have "\<not> eqv k' (fst e)" if "e \<in> set (entries d)" for e
        using None that \<open>okk k'\<close> \<open>eqv k k'\<close> k eqv_trans entries_okk [OF d] by (metis lookup_None)
      then show ?thesis by (simp add: lookup_None)
    qed
    then show ?thesis using None r by auto
  next
    case (Some e)
    then have m: "r = DICT_OK" "mset (entries d) = add_mset e (mset (entries d'))" using r(4) by auto
    have "eqv k (fst e)" using Some lookup_Some [OF d k] by simp
    note ot = apart_others [OF d k m(2) this, unfolded set_mset_mset]
    have "lookup_entry eqv d' k' = (if eqv k k' then None else lookup_entry eqv d k')" if "okk k'" for k'
      by (rule lookup_remove [OF d r(2,3) k that ot])
    then show ?thesis using r(1-3) m(1) Some by auto
  qed
qed

end

end
