(* ===== verification/Sds.thy ===== *)
theory Sds
  imports Prelude
begin

text \<open>
  The dynamic strings of \<^verbatim>\<open>redis/hiredis/sds.c\<close>: the header \<^verbatim>\<open>struct sdshdr\<close> with its two
  \<^verbatim>\<open>int\<close> fields and the bytes of its flexible array member, one definition per function
  of the file, and what they do to the string a header stands for (\<open>sds_str\<close>).

  A returned NULL (the allocator refused) is \<open>Inr None\<close>; a fault is \<open>Inl\<close>. Sizes are
  \<open>int\<close> with the conversions between \<^verbatim>\<open>int\<close> and \<^verbatim>\<open>size_t\<close> of the source written out.
  Strings passed as \<^verbatim>\<open>const void *\<close> or \<^verbatim>\<open>const char *\<close> are the bytes readable from the
  pointer on, \<open>None\<close> for NULL. Freeing needs no definition: the caller drops the value.
\<close>

section \<open>The header and its invariant\<close>

record sds =
  sh_len :: int
  sh_free :: int
  sh_buf :: bytes

abbreviation SDS_MAX_PREALLOC :: int where "SDS_MAX_PREALLOC \<equiv> 1048576"
abbreviation sdshdr_size :: int where "sdshdr_size \<equiv> 8"

definition sdslen :: "sds \<Rightarrow> int" where
  "sdslen s = uint64 (sh_len s)"

definition sdsavail :: "sds \<Rightarrow> int" where
  "sdsavail s = uint64 (sh_free s)"

text \<open>The invariant every function keeps: the block holds the string, the free space and
  the terminating zero byte, which stands right after the string.\<close>

definition sds_ok :: "sds \<Rightarrow> bool" where
  "sds_ok s \<longleftrightarrow> 0 \<le> sh_len s \<and> 0 \<le> sh_free s \<and> sh_len s + sh_free s < 2 ^ 31 \<and>
     int (length (sh_buf s)) = sh_len s + sh_free s + 1 \<and> sh_buf s ! nat (sh_len s) = NUL"

definition sds_str :: "sds \<Rightarrow> bytes" where
  "sds_str s = take (nat (sh_len s)) (sh_buf s)"

text \<open>Appends that keep the length below this bound never overflow the header's fields.\<close>

abbreviation sds_limit :: int where "sds_limit \<equiv> 2 ^ 31 - SDS_MAX_PREALLOC"

section \<open>Creating and copying\<close>

definition sdsnewlen :: "allocator \<Rightarrow> bytes option \<Rightarrow> int \<Rightarrow> sds option res" where
  "sdsnewlen A init initlen =
     (case (if init \<noteq> None then malloc A sdshdr_size (uint64 (sdshdr_size + initlen + 1))
            else calloc A sdshdr_size (uint64 (sdshdr_size + initlen + 1))) of
        None \<Rightarrow> Inr None
      | Some buf \<Rightarrow>
          bindR (case init of
                   Some src \<Rightarrow> if initlen \<noteq> 0 then memcpy buf 0 src 0 initlen else Inr buf
                 | None \<Rightarrow> Inr buf) (\<lambda>buf.
          bindR (wr buf initlen NUL) (\<lambda>buf.
          Inr (Some \<lparr>sh_len = int32 initlen, sh_free = 0, sh_buf = buf\<rparr>))))"

definition sdsempty :: "allocator \<Rightarrow> sds option res" where
  "sdsempty A = sdsnewlen A (Some [NUL]) 0"

definition sdsnew :: "allocator \<Rightarrow> bytes option \<Rightarrow> sds option res" where
  "sdsnew A init =
     (case init of
        None \<Rightarrow> sdsnewlen A init 0
      | Some b \<Rightarrow> bindR (strlen b) (\<lambda>initlen. sdsnewlen A init initlen))"

definition sdsdup :: "allocator \<Rightarrow> sds \<Rightarrow> sds option res" where
  "sdsdup A s = sdsnewlen A (Some (sh_buf s)) (sdslen s)"

section \<open>Changing the length in place\<close>

definition sdsupdatelen :: "sds \<Rightarrow> sds res" where
  "sdsupdatelen s =
     bindR (strlen (sh_buf s)) (\<lambda>n. let reallen = int32 n in
     bindR (ck32 (sh_len s - reallen)) (\<lambda>d.
     bindR (ck32 (sh_free s + d)) (\<lambda>f.
     Inr (s\<lparr>sh_free := f, sh_len := reallen\<rparr>))))"

definition sdsclear :: "sds \<Rightarrow> sds res" where
  "sdsclear s =
     bindR (ck32 (sh_free s + sh_len s)) (\<lambda>f.
     bindR (wr (sh_buf s) 0 NUL) (\<lambda>b.
     Inr (s\<lparr>sh_free := f, sh_len := 0, sh_buf := b\<rparr>)))"

definition sdsIncrLen :: "sds \<Rightarrow> int \<Rightarrow> sds res" where
  "sdsIncrLen s incr =
     bindR (assertR (sh_free s \<ge> incr)) (\<lambda>_.
     bindR (ck32 (sh_len s + incr)) (\<lambda>l.
     bindR (ck32 (sh_free s - incr)) (\<lambda>f.
     bindR (assertR (f \<ge> 0)) (\<lambda>_.
     bindR (wr (sh_buf s) l NUL) (\<lambda>b.
     Inr (s\<lparr>sh_len := l, sh_free := f, sh_buf := b\<rparr>))))))"

section \<open>Growing\<close>

definition sdsMakeRoomFor :: "allocator \<Rightarrow> sds \<Rightarrow> int \<Rightarrow> sds option res" where
  "sdsMakeRoomFor A s addlen =
     (if sdsavail s \<ge> addlen then Inr (Some s)
      else let len = sdslen s; newlen = uint64 (len + addlen);
               newlen = (if newlen < SDS_MAX_PREALLOC then uint64 (newlen * 2)
                         else uint64 (newlen + SDS_MAX_PREALLOC))
           in case realloc A sdshdr_size (sh_buf s) (uint64 (sdshdr_size + newlen + 1)) of
                None \<Rightarrow> Inr None
              | Some b \<Rightarrow> Inr (Some (s\<lparr>sh_free := int32 (newlen - len), sh_buf := b\<rparr>)))"

definition sdsRemoveFreeSpace :: "allocator \<Rightarrow> sds \<Rightarrow> sds res" where
  "sdsRemoveFreeSpace A s =
     (case realloc A sdshdr_size (sh_buf s) (uint64 (sdshdr_size + sh_len s + 1)) of
        None \<Rightarrow> Inl NullDeref
      | Some b \<Rightarrow> Inr (s\<lparr>sh_free := 0, sh_buf := b\<rparr>))"

definition sdsAllocSize :: "sds \<Rightarrow> int" where
  "sdsAllocSize s = uint64 (sdshdr_size + sh_len s + sh_free s + 1)"

definition sdsgrowzero :: "allocator \<Rightarrow> sds \<Rightarrow> int \<Rightarrow> sds option res" where
  "sdsgrowzero A s len =
     (let curlen = uint64 (sh_len s) in
      if len \<le> curlen then Inr (Some s)
      else bindR (sdsMakeRoomFor A s (uint64 (len - curlen))) (\<lambda>r.
        case r of
          None \<Rightarrow> Inr None
        | Some s \<Rightarrow>
            bindR (memset (sh_buf s) curlen NUL (uint64 (len - curlen + 1))) (\<lambda>b.
            bindR (ck32 (sh_len s + sh_free s)) (\<lambda>totlen.
            let l = int32 len in
            Inr (Some (s\<lparr>sh_len := l, sh_free := int32 (uint64 totlen - uint64 l), sh_buf := b\<rparr>))))))"

definition sdscatlen :: "allocator \<Rightarrow> sds \<Rightarrow> bytes \<Rightarrow> int \<Rightarrow> sds option res" where
  "sdscatlen A s t len =
     (let curlen = sdslen s in
      bindR (sdsMakeRoomFor A s len) (\<lambda>r.
        case r of
          None \<Rightarrow> Inr None
        | Some s \<Rightarrow>
            bindR (memcpy (sh_buf s) curlen t 0 len) (\<lambda>b.
            bindR (wr b (uint64 (curlen + len)) NUL) (\<lambda>b.
            Inr (Some (s\<lparr>sh_len := int32 (curlen + len),
                         sh_free := int32 (sh_free s - len), sh_buf := b\<rparr>))))))"

definition sdscat :: "allocator \<Rightarrow> sds \<Rightarrow> bytes \<Rightarrow> sds option res" where
  "sdscat A s t = bindR (strlen t) (\<lambda>n. sdscatlen A s t n)"

definition sdscatsds :: "allocator \<Rightarrow> sds \<Rightarrow> sds \<Rightarrow> sds option res" where
  "sdscatsds A s t = sdscatlen A s (sh_buf t) (sdslen t)"

definition sdscpylen :: "allocator \<Rightarrow> sds \<Rightarrow> bytes \<Rightarrow> int \<Rightarrow> sds option res" where
  "sdscpylen A s t len =
     bindR (ck32 (sh_free s + sh_len s)) (\<lambda>tot0.
     bindR (if uint64 tot0 < len
            then bindR (sdsMakeRoomFor A s (uint64 (len - sh_len s))) (\<lambda>r.
                   case r of
                     None \<Rightarrow> Inr None
                   | Some s \<Rightarrow> bindR (ck32 (sh_free s + sh_len s)) (\<lambda>tot. Inr (Some (s, uint64 tot))))
            else Inr (Some (s, uint64 tot0))) (\<lambda>r.
     case r of
       None \<Rightarrow> Inr None
     | Some (s, totlen) \<Rightarrow>
         bindR (memcpy (sh_buf s) 0 t 0 len) (\<lambda>b.
         bindR (wr b len NUL) (\<lambda>b.
         Inr (Some (s\<lparr>sh_len := int32 len, sh_free := int32 (totlen - len), sh_buf := b\<rparr>))))))"

definition sdscpy :: "allocator \<Rightarrow> sds \<Rightarrow> bytes \<Rightarrow> sds option res" where
  "sdscpy A s t = bindR (strlen t) (\<lambda>n. sdscpylen A s t n)"

section \<open>The invariant, and what each operation does to the string\<close>

lemma sds_okE:
  assumes "sds_ok s"
  obtains l f b where "s = \<lparr>sh_len = int l, sh_free = int f, sh_buf = b\<rparr>"
    "length b = l + f + 1" "b ! l = NUL" "int l + int f < 2 ^ 31"
proof -
  obtain l f b where s: "s = \<lparr>sh_len = l, sh_free = f, sh_buf = b\<rparr>" by (cases s)
  show ?thesis
    by (rule that [of "nat l" "nat f" b]) (use assms s in \<open>auto simp: sds_ok_def\<close>)
qed

lemma sds_okI:
  "length b = l + f + 1 \<Longrightarrow> b ! l = NUL \<Longrightarrow> int l + int f < 2 ^ 31 \<Longrightarrow>
     sds_ok \<lparr>sh_len = int l, sh_free = int f, sh_buf = b\<rparr>"
  by (simp add: sds_ok_def)

lemma sdslen_str: "sds_ok s \<Longrightarrow> sdslen s = int (length (sds_str s))"
  by (erule sds_okE) (simp add: sdslen_def sds_str_def cint)

lemma sh_len_str: "sds_ok s \<Longrightarrow> sh_len s = int (length (sds_str s))"
  by (erule sds_okE) (simp add: sds_str_def)

lemma sdsavail_ok: "sds_ok s \<Longrightarrow> sdsavail s = sh_free s"
  by (erule sds_okE) (simp add: sdsavail_def cint)

text \<open>When the allocator has room for an append of \<open>n\<close> bytes.\<close>

definition sds_newlen :: "int \<Rightarrow> int" where
  "sds_newlen l = (if l < SDS_MAX_PREALLOC then l * 2 else l + SDS_MAX_PREALLOC)"

definition sds_fits :: "allocator \<Rightarrow> sds \<Rightarrow> int \<Rightarrow> bool" where
  "sds_fits A s n \<longleftrightarrow>
     n \<le> sh_free s \<or> can_alloc A (sdshdr_size + sds_newlen (sh_len s + n) + 1)"

lemma sdsnewlen_spec:
  assumes "n < 2 ^ 31" and "n \<le> length src"
  shows "sdsnewlen A (Some src) (int n) =
    (if can_alloc A (sdshdr_size + int n + 1)
     then Inr (Some \<lparr>sh_len = int n, sh_free = 0, sh_buf = take n src @ [NUL]\<rparr>) else Inr None)"
proof -
  have drop1: "drop n (map (junk A) [0..<Suc n]) = [junk A n]"
    by simp
  show ?thesis
    using assms drop1
    by (auto simp: sdsnewlen_def malloc_def memcpy_def cint mem nat_add_distrib list_update_append)
qed

lemma sds_ok_new: "n < 2 ^ 31 \<Longrightarrow> length xs = n \<Longrightarrow>
    sds_ok \<lparr>sh_len = int n, sh_free = 0, sh_buf = xs @ [NUL]\<rparr>"
  by (simp add: sds_ok_def nth_append)

lemma sdsempty_spec:
  "sdsempty A = (if can_alloc A (sdshdr_size + 1)
     then Inr (Some \<lparr>sh_len = 0, sh_free = 0, sh_buf = [NUL]\<rparr>) else Inr None)"
  using sdsnewlen_spec [of 0 "[NUL]" A] by (simp add: sdsempty_def)

lemma sdsMakeRoomFor_cases:
  assumes ok: "sds_ok s" and n: "0 \<le> n" "sh_len s + n < sds_limit"
  obtains (oom) "sdsMakeRoomFor A s n = Inr None" "\<not> sds_fits A s n"
  | (room) s' where "sdsMakeRoomFor A s n = Inr (Some s')" "sds_fits A s n"
      "sds_ok s'" "sh_len s' = sh_len s" "n \<le> sh_free s'" "sds_str s' = sds_str s"
proof (cases "n \<le> sh_free s")
  case True
  then have "sdsMakeRoomFor A s n = Inr (Some s)"
    using ok by (simp add: sdsMakeRoomFor_def sdsavail_ok)
  then show ?thesis using ok True by (intro room) (auto simp: sds_fits_def)
next
  case False
  obtain l f b where s: "s = \<lparr>sh_len = int l, sh_free = int f, sh_buf = b\<rparr>"
    and b: "length b = l + f + 1" "b ! l = NUL" and lf: "int l + int f < 2 ^ 31"
    using ok by (rule sds_okE)
  define m where "m = nat (sds_newlen (int l + n))"
  have m: "int m = sds_newlen (int l + n)" "l + f < m" "int m < 2 ^ 31" "int l + n \<le> int m"
    using n False s by (auto simp: m_def sds_newlen_def)
  have eq: "sdsMakeRoomFor A s n =
      (case realloc A sdshdr_size b (sdshdr_size + int m + 1) of None \<Rightarrow> Inr None
       | Some b' \<Rightarrow> Inr (Some (s\<lparr>sh_free := int m - int l, sh_buf := b'\<rparr>)))"
  proof -
    have "int m = (if int l + n < SDS_MAX_PREALLOC then (int l + n) * 2 else int l + n + SDS_MAX_PREALLOC)"
      using m(1) by (simp add: sds_newlen_def)
    then show ?thesis
      using False ok s m(2-) lf n
      by (cases "int l + n < SDS_MAX_PREALLOC")
        (simp_all add: sdsMakeRoomFor_def sdsavail_ok sdslen_def cint Let_def split: option.split)
  qed
  show ?thesis
  proof (cases "can_alloc A (sdshdr_size + int m + 1)")
    case False
    with eq m(1) s \<open>\<not> n \<le> sh_free s\<close> show ?thesis
      by (intro oom) (auto simp: realloc_def sds_fits_def)
  next
    case True
    define b' where "b' = b @ map (junk A) [length b..<m + 1]"
    have len': "nat (1 + int m) = Suc m" by simp
    have b': "realloc A sdshdr_size b (sdshdr_size + int m + 1) = Some b'"
      using True m(2) b by (simp add: realloc_def b'_def len' del: upt_Suc)
    have lb: "length b' = m + 1" using m(2) b by (simp add: b'_def del: upt_Suc)
    show ?thesis
    proof (rule room)
      show "sdsMakeRoomFor A s n = Inr (Some (s\<lparr>sh_free := int m - int l, sh_buf := b'\<rparr>))"
        using eq b' by simp
      show "sds_fits A s n" using True m(1) s by (simp add: sds_fits_def)
      show "sds_ok (s\<lparr>sh_free := int m - int l, sh_buf := b'\<rparr>)"
        using s b m lb by (simp add: sds_ok_def b'_def nth_append)
      show "sds_str (s\<lparr>sh_free := int m - int l, sh_buf := b'\<rparr>) = sds_str s"
        using s b by (simp add: sds_str_def b'_def)
    qed (use s m in auto)
  qed
qed

lemma sds_ok_store:
  assumes "sds_ok s" and "length xs \<le> nat (sh_len s + sh_free s) - i" "i \<le> nat (sh_len s)"
    and b: "b = (take i (sh_buf s) @ xs @ drop (i + length xs) (sh_buf s))[i + length xs := NUL]"
  shows "sds_ok (s\<lparr>sh_len := int (i + length xs),
      sh_free := sh_len s + sh_free s - int (i + length xs), sh_buf := b\<rparr>)"
    and "sds_str (s\<lparr>sh_len := int (i + length xs), sh_free := g, sh_buf := b\<rparr>) = take i (sds_str s) @ xs"
proof -
  obtain l f c where s: "s = \<lparr>sh_len = int l, sh_free = int f, sh_buf = c\<rparr>"
    and c: "length c = l + f + 1" "c ! l = NUL" and lf: "int l + int f < 2 ^ 31"
    using assms(1) by (rule sds_okE)
  have le: "i + length xs \<le> l + f" "i \<le> l" using assms s by auto
  then have lb: "length b = l + f + 1" using b s c by simp
  show "sds_ok (s\<lparr>sh_len := int (i + length xs),
      sh_free := sh_len s + sh_free s - int (i + length xs), sh_buf := b\<rparr>)"
    using s lb le lf c b by (simp add: sds_ok_def nat_add_distrib)
  show "sds_str (s\<lparr>sh_len := int (i + length xs), sh_free := g, sh_buf := b\<rparr>) = take i (sds_str s) @ xs"
    using b s c le by (simp add: sds_str_def nat_add_distrib)
qed

lemma sdscatlen_cases:
  assumes ok: "sds_ok s" and n: "n \<le> length t" "sh_len s + int n < sds_limit"
  obtains (oom) "sdscatlen A s t (int n) = Inr None" "\<not> sds_fits A s (int n)"
  | (room) s' where "sdscatlen A s t (int n) = Inr (Some s')" "sds_fits A s (int n)"
      "sds_ok s'" "sds_str s' = sds_str s @ take n t"
proof (rule sdsMakeRoomFor_cases [of s "int n" A, OF ok])
  show "sdsMakeRoomFor A s (int n) = Inr None \<Longrightarrow> \<not> sds_fits A s (int n) \<Longrightarrow> thesis"
    by (rule oom) (simp add: sdscatlen_def)
next
  fix r assume r: "sdsMakeRoomFor A s (int n) = Inr (Some r)" and fits: "sds_fits A s (int n)"
    and rok: "sds_ok r" and rl: "sh_len r = sh_len s" "int n \<le> sh_free r" and rs: "sds_str r = sds_str s"
  obtain l f b where rr: "r = \<lparr>sh_len = int l, sh_free = int f, sh_buf = b\<rparr>"
    and b: "length b = l + f + 1" "b ! l = NUL" and lf: "int l + int f < 2 ^ 31"
    using rok by (rule sds_okE)
  define b' where "b' = (take l b @ take n t @ drop (l + n) b)[l + n := NUL]"
  have len: "length (take n t) = n" using n by simp
  have sl: "sdslen s = int l" "sh_len s = int l" using ok rl rr by (simp_all add: sdslen_def cint sds_ok_def)
  have "sdscatlen A s t (int n) = Inr (Some (r\<lparr>sh_len := int l + int n, sh_free := int f - int n, sh_buf := b'\<rparr>))"
    using r sl n rl rr b lf
    by (simp add: sdscatlen_def memcpy_def cint mem nat_add_distrib b'_def)
  moreover have "sds_ok (r\<lparr>sh_len := int l + int n, sh_free := int f - int n, sh_buf := b'\<rparr>)"
    using sds_ok_store(1) [OF rok, of "take n t" l b'] rl rr len by (simp add: b'_def)
  moreover have "sds_str (r\<lparr>sh_len := int l + int n, sh_free := int f - int n, sh_buf := b'\<rparr>) = sds_str s @ take n t"
  proof -
    have "take l (sds_str r) = sds_str r" using rr by (simp add: sds_str_def)
    then have "take l (sds_str r) = sds_str s" using rs by simp
    moreover have "n \<le> f" using rl rr by simp
    ultimately show ?thesis
      using sds_ok_store(2) [OF rok, of "take n t" l b' "int f - int n"] rr len
      by (simp add: b'_def)
  qed
  ultimately show thesis using fits by (intro room) auto
qed (use n in auto)

lemma sdscpylen_cases:
  assumes ok: "sds_ok s" and n: "n \<le> length t" "int n < sds_limit"
  obtains (oom) "sdscpylen A s t (int n) = Inr None" "sh_len s + sh_free s < int n"
      "\<not> sds_fits A s (int n - sh_len s)"
  | (room) s' where "sdscpylen A s t (int n) = Inr (Some s')" "sds_ok s'" "sds_str s' = take n t"
proof -
  have len: "length (take n t) = n" using n by simp
  have store: thesis
    if rok: "sds_ok r" and le: "int n \<le> sh_len r + sh_free r"
      and eq: "sdscpylen A s t (int n) =
        bindR (memcpy (sh_buf r) 0 t 0 (int n)) (\<lambda>b. bindR (wr b (int n) NUL) (\<lambda>b.
          Inr (Some (r\<lparr>sh_len := int32 (int n), sh_free := int32 (sh_len r + sh_free r - int n), sh_buf := b\<rparr>))))"
    for r
  proof -
    obtain l f b where rr: "r = \<lparr>sh_len = int l, sh_free = int f, sh_buf = b\<rparr>"
      and b: "length b = l + f + 1" "b ! l = NUL" and lf: "int l + int f < 2 ^ 31"
      using rok by (rule sds_okE)
    define b' where "b' = (take 0 b @ take n t @ drop (0 + n) b)[0 + n := NUL]"
    have "sdscpylen A s t (int n) =
        Inr (Some (r\<lparr>sh_len := int n, sh_free := int l + int f - int n, sh_buf := b'\<rparr>))"
      using eq n le rr b lf by (simp add: memcpy_def cint mem b'_def)
    then show thesis
      using sds_ok_store(1) [OF rok, of "take n t" 0 b'] le rr len
        sds_ok_store(2) [OF rok, of "take n t" 0 b' "int l + int f - int n"]
      by (intro room) (auto simp: b'_def)
  qed
  show thesis
  proof (cases "sh_len s + sh_free s < int n")
    case False
    show thesis
      by (rule store [of s])
        (use ok False n in \<open>auto simp: sdscpylen_def cint sds_ok_def add.commute\<close>)
  next
    case True
    have d: "uint64 (int n - sh_len s) = int n - sh_len s" using True ok n by (simp add: cint sds_ok_def)
    have nn: "0 \<le> int n - sh_len s" "sh_len s + (int n - sh_len s) < sds_limit"
      using True ok n by (simp_all add: sds_ok_def)
    show thesis
    proof (rule sdsMakeRoomFor_cases [OF ok nn, of A])
      assume "sdsMakeRoomFor A s (int n - sh_len s) = Inr None" "\<not> sds_fits A s (int n - sh_len s)"
      then show thesis using True ok n d
        by (intro oom) (auto simp: sdscpylen_def cint sds_ok_def)
    next
      fix r assume r: "sdsMakeRoomFor A s (int n - sh_len s) = Inr (Some r)" "sds_ok r"
        "sh_len r = sh_len s" "int n - sh_len s \<le> sh_free r"
      show thesis
        by (rule store [of r])
          (use ok True n d r in \<open>auto simp: sdscpylen_def cint sds_ok_def add.commute\<close>)
    qed
  qed
qed

lemma sdsclear_spec:
  assumes "sds_ok s"
  obtains s' where "sdsclear s = Inr s'" "sds_ok s'" "sds_str s' = []"
    "sh_free s' = sh_len s + sh_free s"
proof -
  obtain l f b where s: "s = \<lparr>sh_len = int l, sh_free = int f, sh_buf = b\<rparr>"
    and b: "length b = l + f + 1" "b ! l = NUL" and lf: "int l + int f < 2 ^ 31"
    using assms by (rule sds_okE)
  show ?thesis
    by (rule that [of "s\<lparr>sh_free := int f + int l, sh_len := 0, sh_buf := b[0 := NUL]\<rparr>"])
      (use s b lf in \<open>auto simp: sdsclear_def cint mem sds_ok_def sds_str_def\<close>)
qed

lemma sdsupdatelen_spec:
  assumes "sds_ok s"
  obtains s' where "sdsupdatelen s = Inr s'" "sds_ok s'" "sds_str s' = takeWhile ((\<noteq>) NUL) (sds_str s)"
    "sh_len s' + sh_free s' = sh_len s + sh_free s"
proof -
  obtain l f b where s: "s = \<lparr>sh_len = int l, sh_free = int f, sh_buf = b\<rparr>"
    and b: "length b = l + f + 1" "b ! l = NUL" and lf: "int l + int f < 2 ^ 31"
    using assms by (rule sds_okE)
  have "NUL \<in> set b" using b nth_mem [of l b] by simp
  then obtain m where m: "strlen b = Inr m" using strlen_total by blast
  define k where "k = nat m"
  have k: "m = int k" "k < length b" "b ! k = NUL" "NUL \<notin> set (take k b)"
    using strlen_Inr [OF m] by (auto simp: k_def)
  have kl: "k \<le> l"
  proof (rule ccontr)
    assume "\<not> k \<le> l"
    then have "b ! l \<in> set (take k b)" using b k by (auto simp: in_set_conv_nth intro!: exI [of _ l])
    with b k show False by simp
  qed
  have "takeWhile ((\<noteq>) NUL) (take l b) = take k b"
    using kl k by (intro takeWhile_take_first) auto
  then show ?thesis
    by (intro that [of "s\<lparr>sh_free := int f + (int l - int k), sh_len := int k\<rparr>"])
      (use s b lf m k kl in \<open>auto simp: sdsupdatelen_def cint Let_def sds_ok_def sds_str_def\<close>)
qed

lemma sdsIncrLen_spec:
  assumes ok: "sds_ok s" and i: "- sh_len s \<le> i" "i \<le> sh_free s"
  obtains s' where "sdsIncrLen s i = Inr s'" "sds_ok s'" "sh_len s' = sh_len s + i"
    "sds_str s' = take (nat (sh_len s + i)) (sh_buf s)"
proof -
  obtain l f b where s: "s = \<lparr>sh_len = int l, sh_free = int f, sh_buf = b\<rparr>"
    and b: "length b = l + f + 1" "b ! l = NUL" and lf: "int l + int f < 2 ^ 31"
    using ok by (rule sds_okE)
  show ?thesis
    by (rule that [of "s\<lparr>sh_len := int l + i, sh_free := int f - i, sh_buf := b[nat (int l + i) := NUL]\<rparr>"])
      (use s b lf i in \<open>auto simp: sdsIncrLen_def cint mem sds_ok_def sds_str_def nat_less_iff\<close>)
qed

lemma sdsgrowzero_cases:
  assumes ok: "sds_ok s" and n: "sh_len s < int n" "int n < sds_limit"
  obtains (oom) "sdsgrowzero A s (int n) = Inr None" "\<not> sds_fits A s (int n - sh_len s)"
  | (room) s' where "sdsgrowzero A s (int n) = Inr (Some s')" "sds_ok s'"
      "sds_str s' = sds_str s @ replicate (n - length (sds_str s)) NUL"
proof -
  have nn: "0 \<le> int n - sh_len s" "sh_len s + (int n - sh_len s) < sds_limit" using n by auto
  have u: "uint64 (int n - sh_len s) = int n - sh_len s" "uint64 (sh_len s) = sh_len s"
    "uint64 (int n - sh_len s + 1) = int n - sh_len s + 1"
    using n ok by (simp_all add: cint sds_ok_def)
  show thesis
  proof (rule sdsMakeRoomFor_cases [OF ok nn, of A])
    assume "sdsMakeRoomFor A s (int n - sh_len s) = Inr None" "\<not> sds_fits A s (int n - sh_len s)"
    then show thesis using n u by (intro oom) (auto simp: sdsgrowzero_def Let_def)
  next
    fix r assume r: "sdsMakeRoomFor A s (int n - sh_len s) = Inr (Some r)" "sds_ok r"
      "sh_len r = sh_len s" "int n - sh_len s \<le> sh_free r" "sds_str r = sds_str s"
    obtain l f b where rr: "r = \<lparr>sh_len = int l, sh_free = int f, sh_buf = b\<rparr>"
      and b: "length b = l + f + 1" "b ! l = NUL" and lf: "int l + int f < 2 ^ 31"
      using r(2) by (rule sds_okE)
    have le: "l < n" "n \<le> l + f" using r(3,4) n rr by auto
    define b' where "b' = take l b @ replicate (Suc (n - l)) NUL @ drop (Suc n) b"
    have n1: "nat (int n - int l + 1) = Suc (n - l)" using le by simp
    have "sdsgrowzero A s (int n) = Inr (Some (r\<lparr>sh_len := int n, sh_free := int l + int f - int n, sh_buf := b'\<rparr>))"
      using r rr b lf le n u
      by (simp add: sdsgrowzero_def Let_def memset_def n1 mem cint b'_def flip: r(3))
    moreover have "sds_ok (r\<lparr>sh_len := int n, sh_free := int l + int f - int n, sh_buf := b'\<rparr>)"
      using rr b lf le by (auto simp: sds_ok_def b'_def nth_append nth_Cons' simp del: replicate_Suc)
    moreover have "sds_str (r\<lparr>sh_len := int n, sh_free := int l + int f - int n, sh_buf := b'\<rparr>) =
        sds_str s @ replicate (n - length (sds_str s)) NUL"
    proof -
      have str: "sds_str s = take l b" using r(5) rr by (simp add: sds_str_def)
      show ?thesis unfolding str using rr b le by (simp add: b'_def sds_str_def del: replicate_Suc)
    qed
    ultimately show thesis by (rule room)
  qed
qed

text \<open>The same facts when no request is refused, in the form the clients apply.\<close>

lemma sdscatlen_total:
  assumes "\<forall>k. can_alloc A k" "sds_ok s" "n \<le> length t" "int (length (sds_str s) + n) < sds_limit"
  shows "\<exists>s'. sdscatlen A s t (int n) = Inr (Some s') \<and> sds_ok s' \<and> sds_str s' = sds_str s @ take n t"
proof (rule sdscatlen_cases [of s n t A])
  show "sh_len s + int n < sds_limit" using assms sh_len_str [of s] by simp
  show "\<not> sds_fits A s (int n) \<Longrightarrow> ?thesis" using assms(1) by (simp add: sds_fits_def)
qed (use assms in blast)+

lemma sdscat_total:
  assumes "\<forall>k. can_alloc A k" "sds_ok s" "NUL \<notin> set t" "int (length (sds_str s) + length t) < sds_limit"
  shows "\<exists>s'. sdscat A s (t @ NUL # u) = Inr (Some s') \<and> sds_ok s' \<and> sds_str s' = sds_str s @ t"
  using sdscatlen_total [OF assms(1,2), of "length t" "t @ NUL # u"] assms(3,4)
  by (simp add: sdscat_def strlen_append_NUL)

lemma sds_str_le_buf:
  "sds_ok s \<Longrightarrow> length (sds_str s) \<le> length (sh_buf s) \<and> take (length (sds_str s)) (sh_buf s) = sds_str s"
  by (auto simp: sds_str_def min_def)

lemma sdscatsds_total:
  assumes "\<forall>k. can_alloc A k" "sds_ok s" "sds_ok t" "int (length (sds_str s) + length (sds_str t)) < sds_limit"
  shows "\<exists>s'. sdscatsds A s t = Inr (Some s') \<and> sds_ok s' \<and> sds_str s' = sds_str s @ sds_str t"
  using sdscatlen_total [OF assms(1,2), of "length (sds_str t)" "sh_buf t"] assms(3,4)
    sds_str_le_buf [OF assms(3)] sdslen_str [OF assms(3)]
  by (simp add: sdscatsds_def)

end
