(* ===== verification/SdsText.thy ===== *)
theory SdsText
  imports Sds
begin

text \<open>
  The text functions of \<^verbatim>\<open>redis/hiredis/sds.c\<close> on top of the string core: slicing and
  trimming in place, letter case, comparison, splitting and joining, decimal
  conversion, the two formatters, and the quoted representation with its parser.
  Every loop of the file is a recursive definition of its own, over the same indexes.
\<close>

section \<open>Library calls on bytes\<close>

text \<open>\<^verbatim>\<open>strchr(s, x) != NULL\<close>: also true for the terminating zero byte itself.\<close>

fun strchr :: "bytes \<Rightarrow> char \<Rightarrow> bool res" where
  "strchr [] x = Inl OutOfBounds"
| "strchr (c # cs) x = (if c = x then Inr True else if c = NUL then Inr False else strchr cs x)"

text \<open>\<^verbatim>\<open>memcmp\<close> of two runs of the same length: the sign is that of the first difference.\<close>

fun memcmp :: "bytes \<Rightarrow> bytes \<Rightarrow> int" where
  "memcmp (x # xs) (y # ys) =
     (if x = y then memcmp xs ys else int (of_char x) - int (of_char y))"
| "memcmp _ _ = 0"

definition tolower :: "char \<Rightarrow> char" where
  "tolower c = (let k = of_char c :: nat in if 65 \<le> k \<and> k \<le> 90 then char_of (k + 32) else c)"

definition toupper :: "char \<Rightarrow> char" where
  "toupper c = (let k = of_char c :: nat in if 97 \<le> k \<and> k \<le> 122 then char_of (k - 32) else c)"

definition isprint :: "char \<Rightarrow> bool" where
  "isprint c \<longleftrightarrow> (32 :: nat) \<le> of_char c \<and> (of_char c :: nat) \<le> 126"

section \<open>Slicing and trimming\<close>

definition sdsrange :: "sds \<Rightarrow> int \<Rightarrow> int \<Rightarrow> sds res" where
  "sdsrange s start end =
     (let len = sdslen s in
      if len = 0 then Inr s
      else
        let start = (if start < 0 then max 0 (int32 (len + start)) else start);
            end = (if end < 0 then max 0 (int32 (len + end)) else end)
        in bindR (if start > end then Inr 0 else bindR (ck32 (end - start)) (\<lambda>d. ck32 (d + 1))) (\<lambda>newlen.
           let (start, newlen) =
                 (if newlen \<noteq> 0 then
                    if start \<ge> int32 len then (start, 0)
                    else if end \<ge> int32 len
                    then let end = int32 (len - 1) in (start, if start > end then 0 else (end - start) + 1)
                    else (start, newlen)
                  else (0, newlen))
           in bindR (if start \<noteq> 0 \<and> newlen \<noteq> 0 then memmove (sh_buf s) 0 start newlen
                     else Inr (sh_buf s)) (\<lambda>b.
              bindR (wr b newlen NUL) (\<lambda>b.
              Inr (s\<lparr>sh_free := int32 (sh_free s + (sh_len s - newlen)),
                     sh_len := int32 newlen, sh_buf := b\<rparr>)))))"

function trim_sp :: "bytes \<Rightarrow> bytes \<Rightarrow> int \<Rightarrow> int \<Rightarrow> int res" where
  "trim_sp b cset sp e =
     (if sp \<le> e
      then bindR (rd b sp) (\<lambda>c. bindR (strchr cset c) (\<lambda>hit.
             if hit then trim_sp b cset (sp + 1) e else Inr sp))
      else Inr sp)"
  by pat_completeness auto
termination by (relation "measure (\<lambda>(b, cset, sp, e). nat (e + 1 - sp))") auto

declare trim_sp.simps [simp del]

function trim_ep :: "bytes \<Rightarrow> bytes \<Rightarrow> int \<Rightarrow> int \<Rightarrow> int res" where
  "trim_ep b cset ep start =
     (if ep > start
      then bindR (rd b ep) (\<lambda>c. bindR (strchr cset c) (\<lambda>hit.
             if hit then trim_ep b cset (ep - 1) start else Inr ep))
      else Inr ep)"
  by pat_completeness auto
termination by (relation "measure (\<lambda>(b, cset, ep, start). nat (ep - start))") auto

declare trim_ep.simps [simp del]

definition sdstrim :: "sds \<Rightarrow> bytes \<Rightarrow> sds res" where
  "sdstrim s cset =
     (let start = 0; end = sdslen s - 1 in
      bindR (trim_sp (sh_buf s) cset start end) (\<lambda>sp.
      bindR (trim_ep (sh_buf s) cset end start) (\<lambda>ep.
      let len = (if sp > ep then 0 else (ep - sp) + 1) in
      bindR (if sp \<noteq> 0 then memmove (sh_buf s) 0 sp len else Inr (sh_buf s)) (\<lambda>b.
      bindR (wr b len NUL) (\<lambda>b.
      Inr (s\<lparr>sh_free := int32 (sh_free s + (sh_len s - len)), sh_len := int32 len, sh_buf := b\<rparr>))))))"

section \<open>Letter case, character mapping, comparison\<close>

text \<open>\<^verbatim>\<open>for (j = 0; j < len; j++) s[j] = f(s[j])\<close>.\<close>

function map_loop :: "(char \<Rightarrow> char res) \<Rightarrow> bytes \<Rightarrow> int \<Rightarrow> int \<Rightarrow> bytes res" where
  "map_loop f b j len =
     (if j < len
      then bindR (rd b j) (\<lambda>c. bindR (f c) (\<lambda>c'. bindR (wr b j c') (\<lambda>b. map_loop f b (j + 1) len)))
      else Inr b)"
  by pat_completeness auto
termination by (relation "measure (\<lambda>(f, b, j, len). nat (len - j))") auto

declare map_loop.simps [simp del]

definition sdstolower :: "sds \<Rightarrow> sds res" where
  "sdstolower s =
     bindR (map_loop (\<lambda>c. Inr (tolower c)) (sh_buf s) 0 (int32 (sdslen s))) (\<lambda>b. Inr (s\<lparr>sh_buf := b\<rparr>))"

definition sdstoupper :: "sds \<Rightarrow> sds res" where
  "sdstoupper s =
     bindR (map_loop (\<lambda>c. Inr (toupper c)) (sh_buf s) 0 (int32 (sdslen s))) (\<lambda>b. Inr (s\<lparr>sh_buf := b\<rparr>))"

text \<open>The inner loop of \<^verbatim>\<open>sdsmapchars\<close>: the first position of \<open>c\<close> in \<open>from\<close> decides.\<close>

function mapchars_inner :: "bytes \<Rightarrow> bytes \<Rightarrow> int \<Rightarrow> int \<Rightarrow> char \<Rightarrow> char res" where
  "mapchars_inner from to i setlen c =
     (if i < setlen
      then bindR (rd from i) (\<lambda>d. if c = d then rd to i else mapchars_inner from to (i + 1) setlen c)
      else Inr c)"
  by pat_completeness auto
termination by (relation "measure (\<lambda>(from, to, i, setlen, c). nat (setlen - i))") auto

declare mapchars_inner.simps [simp del]

definition sdsmapchars :: "sds \<Rightarrow> bytes \<Rightarrow> bytes \<Rightarrow> int \<Rightarrow> sds res" where
  "sdsmapchars s from to setlen =
     bindR (map_loop (mapchars_inner from to 0 setlen) (sh_buf s) 0 (sdslen s)) (\<lambda>b. Inr (s\<lparr>sh_buf := b\<rparr>))"

definition sdscmp :: "sds \<Rightarrow> sds \<Rightarrow> int res" where
  "sdscmp s1 s2 =
     (let l1 = sdslen s1; l2 = sdslen s2; minlen = (if l1 < l2 then l1 else l2) in
      bindR (rdn (sh_buf s1) 0 minlen) (\<lambda>x. bindR (rdn (sh_buf s2) 0 minlen) (\<lambda>y.
      let cmp = memcmp x y in if cmp = 0 then Inr (int32 (l1 - l2)) else Inr cmp)))"

section \<open>Splitting and joining\<close>

text \<open>
  The loop of \<^verbatim>\<open>sdssplitlen\<close>: position \<open>j\<close>, start of the current token, the tokens so far
  and the slots of the array that holds them. \<open>Inr None\<close> is the jump to \<^verbatim>\<open>cleanup\<close>.
  The caller has checked \<open>1 \<le> seplen\<close>, which the guard repeats.
\<close>

function split_loop ::
  "allocator \<Rightarrow> bytes \<Rightarrow> int \<Rightarrow> bytes \<Rightarrow> int \<Rightarrow> int \<Rightarrow> int \<Rightarrow> sds list \<Rightarrow> int \<Rightarrow> (sds list \<times> int) option res" where
  "split_loop A s len sep seplen j start tokens slots =
     (if 1 \<le> seplen \<and> j < len - (seplen - 1)
      then
        let grow = (slots < int (length tokens) + 2);
            slots = (if grow then slots * 2 else slots)
        in if grow \<and> \<not> can_alloc A (uint64 (8 * slots)) then Inr None
           else
             bindR (rd s j) (\<lambda>c. bindR (rd sep 0) (\<lambda>d.
             bindR (if seplen = 1 \<and> c = d then Inr True
                    else bindR (rdn s j seplen) (\<lambda>x. bindR (rdn sep 0 seplen) (\<lambda>y. Inr (memcmp x y = 0)))) (\<lambda>hit.
             if hit
             then bindR (rdn s start (j - start)) (\<lambda>x. bindR (sdsnewlen A (Some x) (uint64 (j - start))) (\<lambda>tok.
                    case tok of
                      None \<Rightarrow> Inr None
                    | Some t \<Rightarrow> split_loop A s len sep seplen (j + seplen - 1 + 1) (j + seplen) (tokens @ [t]) slots))
             else split_loop A s len sep seplen (j + 1) start tokens slots)))
      else Inr (Some (tokens, start)))"
  by pat_completeness auto
termination
  by (relation "measure (\<lambda>(A, s, len, sep, seplen, j, start, tokens, slots). nat (len - (seplen - 1) - j))")
    (auto simp: Let_def)

declare split_loop.simps [simp del]

text \<open>The result and the value stored through \<^verbatim>\<open>count\<close> (\<open>None\<close> when nothing is stored).\<close>

definition sdssplitlen ::
  "allocator \<Rightarrow> bytes \<Rightarrow> int \<Rightarrow> bytes \<Rightarrow> int \<Rightarrow> (sds list option \<times> int option) res" where
  "sdssplitlen A s len sep seplen =
     (if seplen < 1 \<or> len < 0 then Inr (None, None)
      else if \<not> can_alloc A (uint64 (8 * 5)) then Inr (None, None)
      else if len = 0 then Inr (Some [], Some 0)
      else bindR (split_loop A s len sep seplen 0 0 [] 5) (\<lambda>r.
        case r of
          None \<Rightarrow> Inr (None, Some 0)
        | Some (tokens, start) \<Rightarrow>
            bindR (rdn s start (len - start)) (\<lambda>x. bindR (sdsnewlen A (Some x) (uint64 (len - start))) (\<lambda>tok.
            case tok of
              None \<Rightarrow> Inr (None, Some 0)
            | Some t \<Rightarrow> Inr (Some (tokens @ [t]), Some (int (length tokens) + 1))))))"

text \<open>A possibly NULL string used as the first argument of an append.\<close>

definition deref :: "'a option \<Rightarrow> 'a res" where
  "deref p = (case p of None \<Rightarrow> Inl NullDeref | Some x \<Rightarrow> Inr x)"

lemma deref_simps [simp]: "deref None = Inl NullDeref" "deref (Some x) = Inr x"
  by (simp_all add: deref_def)

fun join_loop :: "allocator \<Rightarrow> sds option \<Rightarrow> bytes list \<Rightarrow> bytes \<Rightarrow> int \<Rightarrow> sds option res" where
  "join_loop A join [] sep seplen = Inr join"
| "join_loop A join (a # as) sep seplen =
     bindR (deref join) (\<lambda>s. bindR (sdscat A s a) (\<lambda>join.
     bindR (if as \<noteq> [] then bindR (deref join) (\<lambda>s. sdscatlen A s sep seplen) else Inr join) (\<lambda>join.
     join_loop A join as sep seplen)))"

definition sdsjoin :: "allocator \<Rightarrow> bytes list \<Rightarrow> bytes \<Rightarrow> int \<Rightarrow> sds option res" where
  "sdsjoin A argv sep seplen = bindR (sdsempty A) (\<lambda>join. join_loop A join argv sep seplen)"

fun joinsds_loop :: "allocator \<Rightarrow> sds option \<Rightarrow> sds list \<Rightarrow> bytes \<Rightarrow> int \<Rightarrow> sds option res" where
  "joinsds_loop A join [] sep seplen = Inr join"
| "joinsds_loop A join (a # as) sep seplen =
     bindR (deref join) (\<lambda>s. bindR (sdscatsds A s a) (\<lambda>join.
     bindR (if as \<noteq> [] then bindR (deref join) (\<lambda>s. sdscatlen A s sep seplen) else Inr join) (\<lambda>join.
     joinsds_loop A join as sep seplen)))"

definition sdsjoinsds :: "allocator \<Rightarrow> sds list \<Rightarrow> bytes \<Rightarrow> int \<Rightarrow> sds option res" where
  "sdsjoinsds A argv sep seplen = bindR (sdsempty A) (\<lambda>join. joinsds_loop A join argv sep seplen)"

section \<open>What slicing and trimming do\<close>

text \<open>Keeping the \<open>m\<close> bytes from offset \<open>i\<close> on, the tail of \<^verbatim>\<open>sdsrange\<close> and \<^verbatim>\<open>sdstrim\<close>.\<close>

lemma sds_cut:
  assumes ok: "sds_ok s" and im: "0 \<le> i" "0 \<le> m" "i + m \<le> sh_len s" and move: "c \<or> i = 0 \<or> m = 0"
  obtains s' where "bindR (if c then memmove (sh_buf s) 0 i m else Inr (sh_buf s)) (\<lambda>b.
      bindR (wr b m NUL) (\<lambda>b.
      Inr (s\<lparr>sh_free := int32 (sh_free s + (sh_len s - m)), sh_len := int32 m, sh_buf := b\<rparr>))) = Inr s'"
    "sds_ok s'" "sds_str s' = take (nat m) (drop (nat i) (sds_str s))"
    "sh_len s' + sh_free s' = sh_len s + sh_free s"
proof -
  obtain l f b where s: "s = \<lparr>sh_len = int l, sh_free = int f, sh_buf = b\<rparr>"
    and b: "length b = l + f + 1" "b ! l = NUL" and lf: "int l + int f < 2 ^ 31"
    using ok by (rule sds_okE)
  define b1 where "b1 = (if c then take (nat m) (drop (nat i) b) @ drop (nat m) b else b)"
  have lb1: "length b1 = length b" using b s im by (simp add: b1_def)
  have tb1: "take (nat m) b1 = take (nat m) (drop (nat i) b)"
    using b s im move by (auto simp: b1_def)
  have tl: "take (nat m) (drop (nat i) (take l b)) = take (nat m) (drop (nat i) b)"
    using im s by (simp add: drop_take min_def nat_le_iff)
  show thesis
  proof (rule that [of "s\<lparr>sh_free := int f + (int l - m), sh_len := m, sh_buf := b1[nat m := NUL]\<rparr>"])
    have "memmove b 0 i m = Inr b1" if c
      using that s b im by (simp add: memmove_def mem b1_def)
    then have eq: "(if c then memmove (sh_buf s) 0 i m else Inr (sh_buf s)) = Inr b1"
      using s by (auto simp: b1_def)
    show "bindR (if c then memmove (sh_buf s) 0 i m else Inr (sh_buf s)) (\<lambda>b.
      bindR (wr b m NUL) (\<lambda>b.
      Inr (s\<lparr>sh_free := int32 (sh_free s + (sh_len s - m)), sh_len := int32 m, sh_buf := b\<rparr>))) =
      Inr (s\<lparr>sh_free := int f + (int l - m), sh_len := m, sh_buf := b1[nat m := NUL]\<rparr>)"
      unfolding eq using s b lb1 im lf by (simp add: mem cint)
    show "sds_ok (s\<lparr>sh_free := int f + (int l - m), sh_len := m, sh_buf := b1[nat m := NUL]\<rparr>)"
      using s b lb1 im lf by (auto simp: sds_ok_def nat_less_iff)
    show "sds_str (s\<lparr>sh_free := int f + (int l - m), sh_len := m, sh_buf := b1[nat m := NUL]\<rparr>) =
        take (nat m) (drop (nat i) (sds_str s))"
      using s tb1 tl by (simp add: sds_str_def)
  qed (use s in simp)
qed

text \<open>The bytes between two inclusive indexes, where negative indexes count from the end
  and an index before the first byte is the first byte.\<close>

definition slice :: "bytes \<Rightarrow> int \<Rightarrow> int \<Rightarrow> bytes" where
  "slice xs start end =
     (let n = int (length xs);
          i = (if start < 0 then max 0 (n + start) else start);
          j = (if end < 0 then max 0 (n + end) else end)
      in take (nat (j + 1 - i)) (drop (nat i) xs))"

lemma sdsrange_spec:
  assumes ok: "sds_ok s" and a: "- (2 ^ 31) \<le> a" "a < 2 ^ 31" and e: "- (2 ^ 31) \<le> e" "e < 2 ^ 31 - 1"
  obtains s' where "sdsrange s a e = Inr s'" "sds_ok s'" "sds_str s' = slice (sds_str s) a e"
    "sh_len s' + sh_free s' = sh_len s + sh_free s"
proof -
  define n where "n = sh_len s"
  have n: "0 \<le> n" "n < 2 ^ 31" "sdslen s = n" "int (length (sds_str s)) = n"
    using ok sh_len_str [OF ok] by (auto simp: n_def sds_ok_def sdslen_def cint)
  define i where "i = (if a < 0 then max 0 (n + a) else a)"
  define j where "j = (if e < 0 then max 0 (n + e) else e)"
  define m where "m = (if i > j \<or> i \<ge> n then 0 else min j (n - 1) - i + 1)"
  define i' where "i' = (if i > j then 0 else i)"
  have ij: "0 \<le> i" "0 \<le> j" "j < 2 ^ 31 - 1" "0 \<le> m" "m = 0 \<or> i' + m \<le> n" "0 \<le> i'"
    using n a e by (auto simp: i_def j_def m_def i'_def)
  have slice: "slice (sds_str s) a e = take (nat m) (drop (nat (if m = 0 then 0 else i')) (sds_str s))"
  proof -
    have "slice (sds_str s) a e = take (nat (j + 1 - i)) (drop (nat i) (sds_str s))"
      using n by (simp add: slice_def i_def j_def Let_def)
    also have "\<dots> = take (nat m) (drop (nat (if m = 0 then 0 else i')) (sds_str s))"
    proof (cases "i > j \<or> i \<ge> n")
      case True
      then show ?thesis using n by (auto simp: m_def nat_le_iff)
    next
      case False
      then have "nat m = min (nat (j + 1 - i)) (length (drop (nat i) (sds_str s)))"
        using n ij by (auto simp: m_def min_def nat_le_iff)
      moreover have "i' = i" "m \<noteq> 0" using False ij by (auto simp: i'_def m_def)
      ultimately show ?thesis by (simp add: min_def)
    qed
    finally show ?thesis .
  qed
  show thesis
  proof (cases "n = 0")
    case True
    then have "sds_str s = []" using n by auto
    then show thesis using True n ok by (intro that [of s]) (auto simp: sdsrange_def slice_def)
  next
    case False
    have nl: "(if i > j then Inr 0 else bindR (ck32 (j - i)) (\<lambda>d. ck32 (d + 1))) =
        Inr (if i > j then 0 else j - i + 1)"
      using ij by (simp add: cint)
    have ib: "(if a < 0 then max 0 (int32 (n + a)) else a) = i"
      "(if e < 0 then max 0 (int32 (n + e)) else e) = j" "int32 n = n" "int32 (n - 1) = n - 1"
      using n a e by (auto simp: i_def j_def cint)
    have "sdsrange s a e =
       bindR (if i' \<noteq> 0 \<and> m \<noteq> 0 then memmove (sh_buf s) 0 i' m else Inr (sh_buf s)) (\<lambda>b.
       bindR (wr b m NUL) (\<lambda>b.
       Inr (s\<lparr>sh_free := int32 (sh_free s + (sh_len s - m)), sh_len := int32 m, sh_buf := b\<rparr>)))"
      using False ij unfolding sdsrange_def Let_def n(3) ib nl
      by (auto simp: m_def i'_def)
    moreover obtain s' where
      "bindR (if i' \<noteq> 0 \<and> m \<noteq> 0 then memmove (sh_buf s) 0 (if m = 0 then 0 else i') m else Inr (sh_buf s)) (\<lambda>b.
       bindR (wr b m NUL) (\<lambda>b.
       Inr (s\<lparr>sh_free := int32 (sh_free s + (sh_len s - m)), sh_len := int32 m, sh_buf := b\<rparr>))) = Inr s'"
      "sds_ok s'" "sds_str s' = take (nat m) (drop (nat (if m = 0 then 0 else i')) (sds_str s))"
      "sh_len s' + sh_free s' = sh_len s + sh_free s"
      by (rule sds_cut [OF ok, of "if m = 0 then 0 else i'" m "i' \<noteq> 0 \<and> m \<noteq> 0"])
        (use ij n in \<open>auto simp: n_def split: if_splits\<close>)
    ultimately show thesis using slice by (intro that [of s']) (auto split: if_splits)
  qed
qed

definition in_cset :: "bytes \<Rightarrow> char \<Rightarrow> bool" where
  "in_cset cs c \<longleftrightarrow> c = NUL \<or> c \<in> set cs"

lemma strchr_cstr: "NUL \<notin> set cs \<Longrightarrow> strchr (cs @ [NUL]) x = Inr (in_cset cs x)"
  by (induction cs) (auto simp: in_cset_def)

lemma trim_sp_takeWhile:
  assumes "NUL \<notin> set cs" "l \<le> length b" "k \<le> l"
  shows "trim_sp b (cs @ [NUL]) (int k) (int l - 1) =
    Inr (int (k + length (takeWhile (in_cset cs) (drop k (take l b)))))"
  using assms(3)
proof (induction "l - k" arbitrary: k)
  case 0
  then show ?case by (subst trim_sp.simps) auto
next
  case (Suc d)
  then have k: "k < l" by simp
  have dk: "drop k (take l b) = b ! k # drop (Suc k) (take l b)"
    using k assms(2) by (metis Cons_nth_drop_Suc length_take min.absorb2 nth_take)
  have "trim_sp b (cs @ [NUL]) (int (Suc k)) (int l - 1) =
      Inr (int (Suc k + length (takeWhile (in_cset cs) (drop (Suc k) (take l b)))))"
    by (rule Suc.hyps(1)) (use Suc k in auto)
  then show ?case
    using k assms(1,2)
    by (subst trim_sp.simps) (auto simp: rd_def strchr_cstr dk add.commute)
qed

lemma trim_ep_dropWhile:
  assumes "NUL \<notin> set cs" "k < length b"
  shows "trim_ep b (cs @ [NUL]) (int k) 0 =
    Inr (int (length (dropWhile (in_cset cs) (rev (take (Suc k) b))) - 1))"
  using assms(2)
proof (induction k)
  case 0
  then show ?case by (subst trim_ep.simps) (auto simp: take_Suc_conv_app_nth)
next
  case (Suc k)
  have tk: "rev (take (Suc (Suc k)) b) = b ! Suc k # rev (take (Suc k) b)"
    using Suc.prems by (simp add: take_Suc_conv_app_nth)
  have "nat (1 + int k) = Suc k" by simp
  with Suc show ?case
    using assms(1)
    by (subst trim_ep.simps) (auto simp: rd_def strchr_cstr tk)
qed

lemma sdstrim_spec:
  assumes ok: "sds_ok s" and cs: "NUL \<notin> set cs"
  obtains s' where "sdstrim s (cs @ [NUL]) = Inr s'" "sds_ok s'"
    "sds_str s' = dropWhile (in_cset cs) (rev (dropWhile (in_cset cs) (rev (sds_str s))))"
    "sh_len s' + sh_free s' = sh_len s + sh_free s"
proof -
  obtain l f b where s: "s = \<lparr>sh_len = int l, sh_free = int f, sh_buf = b\<rparr>"
    and b: "length b = l + f + 1" "b ! l = NUL" and lf: "int l + int f < 2 ^ 31"
    using ok by (rule sds_okE)
  define xs where "xs = sds_str s"
  have xs: "xs = take l b" "length xs = l" using s b by (auto simp: xs_def sds_str_def)
  define sp where "sp = length (takeWhile (in_cset cs) xs)"
  define dw where "dw = rev (dropWhile (in_cset cs) (rev xs))"
  define ep where "ep = (if l = 0 then - 1 else int (length dw - 1))"
  have spl: "sp \<le> l" using xs length_takeWhile_le [of "in_cset cs" xs] by (simp add: sp_def)
  have sp: "trim_sp b (cs @ [NUL]) 0 (int l - 1) = Inr (int sp)"
    using trim_sp_takeWhile [OF cs, of l b 0] b xs by (simp add: sp_def)
  have ep: "trim_ep b (cs @ [NUL]) (int l - 1) 0 = Inr ep"
  proof (cases l)
    case 0
    then show ?thesis by (subst trim_ep.simps) (simp add: ep_def)
  next
    case (Suc k)
    then show ?thesis using trim_ep_dropWhile [OF cs, of k b] b xs by (simp add: ep_def dw_def)
  qed
  have dwp: "dw = take (length dw) xs"
  proof -
    have "rev xs = takeWhile (in_cset cs) (rev xs) @ rev dw" by (simp add: dw_def)
    then have "xs = dw @ rev (takeWhile (in_cset cs) (rev xs))"
      by (metis rev_append rev_rev_ident)
    then show ?thesis by (metis append_eq_conv_conj)
  qed
  have m: "(if int sp > ep then 0 else ep - int sp + 1) = int (length dw - sp)"
    and cut: "take (length dw - sp) (drop sp xs) = dropWhile (in_cset cs) dw"
  proof -
    have dwsp: "dropWhile (in_cset cs) dw = drop (length (takeWhile (in_cset cs) dw)) dw"
      by (rule dropWhile_eq_drop)
    show "(if int sp > ep then 0 else ep - int sp + 1) = int (length dw - sp)"
      "take (length dw - sp) (drop sp xs) = dropWhile (in_cset cs) dw"
    proof (atomize (full), cases "dw = []")
      case True
      then have "\<forall>c\<in>set xs. in_cset cs c" by (simp add: dw_def dropWhile_eq_Nil_conv)
      then have "sp = l" using xs by (simp add: sp_def takeWhile_eq_all_conv [THEN iffD2])
      then show "(if int sp > ep then 0 else ep - int sp + 1) = int (length dw - sp) \<and>
        take (length dw - sp) (drop sp xs) = dropWhile (in_cset cs) dw"
        using True by (auto simp: ep_def)
    next
      case False
      have last: "\<not> in_cset cs (last dw)"
        using False by (metis dw_def hd_dropWhile last_rev rev_is_Nil_conv)
      have tw: "takeWhile (in_cset cs) dw = takeWhile (in_cset cs) xs"
      proof -
        have "\<exists>x\<in>set dw. \<not> in_cset cs x" using last False last_in_set by blast
        then show ?thesis using dwp by (metis append_take_drop_id takeWhile_append1)
      qed
      have "sp < length dw"
        using last False tw
        by (metis last_in_set length_takeWhile_le nat_less_le sp_def takeWhile_eq_all_conv
            takeWhile_eq_take take_all_iff order_refl)
      moreover have "l \<noteq> 0" using False dwp xs(2) by (metis length_0_conv take_Nil)
      moreover have "take (length dw - sp) (drop sp xs) = drop sp dw"
        by (subst (2) dwp) (simp add: drop_take)
      ultimately show "(if int sp > ep then 0 else ep - int sp + 1) = int (length dw - sp) \<and>
        take (length dw - sp) (drop sp xs) = dropWhile (in_cset cs) dw"
        using dwsp tw by (auto simp: ep_def sp_def)
    qed
  qed
  have dl: "length dw \<le> l" using dwp xs by (metis length_take min.cobounded1)
  obtain s' where s': "bindR (if int sp \<noteq> 0 then memmove (sh_buf s) 0 (int sp) (int (length dw - sp)) else Inr (sh_buf s)) (\<lambda>b.
      bindR (wr b (int (length dw - sp)) NUL) (\<lambda>b.
      Inr (s\<lparr>sh_free := int32 (sh_free s + (sh_len s - int (length dw - sp))),
             sh_len := int32 (int (length dw - sp)), sh_buf := b\<rparr>))) = Inr s'"
    "sds_ok s'" "sds_str s' = take (nat (int (length dw - sp))) (drop (nat (int sp)) (sds_str s))"
    "sh_len s' + sh_free s' = sh_len s + sh_free s"
    by (rule sds_cut [OF ok, of "int sp" "int (length dw - sp)" "int sp \<noteq> 0"])
      (use spl dl s in auto)
  have "sdstrim s (cs @ [NUL]) = Inr s'"
    unfolding s'(1) [symmetric] using sp ep m s lf by (simp add: sdstrim_def sdslen_def cint Let_def)
  then show thesis
    using s'(2-) cut by (intro that [of s']) (auto simp: xs_def dw_def)
qed

section \<open>Splitting and joining are inverse\<close>

lemma memcmp_eq_0: "length xs = length ys \<Longrightarrow> memcmp xs ys = 0 \<longleftrightarrow> xs = ys"
  by (induction xs ys rule: list_induct2) auto

lemma sep_hit:
  assumes "sp \<noteq> []" "take (length sp) sep = sp" "j + length sp \<le> length s"
  shows "bindR (rd s (int j)) (\<lambda>c. bindR (rd sep 0) (\<lambda>d.
      bindR (if int (length sp) = 1 \<and> c = d then Inr True
        else bindR (rdn s (int j) (int (length sp))) (\<lambda>x. bindR (rdn sep 0 (int (length sp))) (\<lambda>y. Inr (memcmp x y = 0)))) k)) =
    k (take (length sp) (drop j s) = sp)"
proof -
  have l: "0 < length sep" "length sp \<le> length sep" "j < length s"
    using assms by (cases sep; fastforce) (metis assms(2) nat_le_linear take_all, use assms in \<open>cases sp; auto\<close>)
  have one: "take (length sp) (drop j s) = sp" if "length sp = 1" "s ! j = sep ! 0"
  proof -
    have "take 1 (drop j s) = [s ! j]" using l by (simp add: take_Suc_conv_app_nth)
    moreover have "take 1 sep = [sep ! 0]" using l by (simp add: take_Suc_conv_app_nth)
    ultimately show ?thesis using that assms by simp
  qed
  have "rd s (int j) = Inr (s ! j)" "rd sep 0 = Inr (sep ! 0)"
    "rdn s (int j) (int (length sp)) = Inr (take (length sp) (drop j s))"
    "rdn sep 0 (int (length sp)) = Inr sp"
    using l assms by (simp_all add: mem)
  moreover have "memcmp (take (length sp) (drop j s)) sp = 0 \<longleftrightarrow> take (length sp) (drop j s) = sp"
    using assms by (intro memcmp_eq_0) simp
  ultimately show ?thesis using one by auto
qed

text \<open>The tokens of a string: the bytes before the first occurrence of the separator, then the tokens of what follows it.\<close>

function splits :: "bytes \<Rightarrow> bytes \<Rightarrow> bytes list" where
  "splits sp xs =
     (if sp = [] then [xs]
      else case List.find (\<lambda>i. take (length sp) (drop i xs) = sp) [0..<length xs] of
        None \<Rightarrow> [xs]
      | Some i \<Rightarrow> take i xs # splits sp (drop (i + length sp) xs))"
  by pat_completeness auto
termination
proof (relation "measure (\<lambda>(sp, xs). length xs)", goal_cases)
  case (2 sp xs i)
  then show ?case by (cases sp) (auto simp: find_Some_iff)
qed simp

declare splits.simps [simp del]

lemma splits_none: "\<forall>i. take (length sp) (drop i xs) \<noteq> sp \<Longrightarrow> splits sp xs = [xs]"
  by (subst splits.simps) (auto split: option.split simp: find_Some_iff)

lemma splits_hit:
  assumes "sp \<noteq> []" "take (length sp) (drop k xs) = sp" "\<forall>i<k. take (length sp) (drop i xs) \<noteq> sp"
  shows "splits sp xs = take k xs # splits sp (drop (k + length sp) xs)"
proof -
  have "k < length xs" using assms(1,2) by (cases "k < length xs") auto
  then have "List.find (\<lambda>i. take (length sp) (drop i xs) = sp) [0..<length xs] = Some k"
    using assms(2,3) by (auto simp: find_Some_iff intro!: exI [of _ k])
  then show ?thesis using assms(1) by (subst splits.simps) simp
qed

lemma splits_cases:
  obtains (none) "\<forall>i. take (length sp) (drop i xs) \<noteq> sp" "splits sp xs = [xs]"
  | (empty) "sp = []" "splits sp xs = [xs]"
  | (hit) k where "sp \<noteq> []" "take (length sp) (drop k xs) = sp" "\<forall>i<k. take (length sp) (drop i xs) \<noteq> sp"
      "splits sp xs = take k xs # splits sp (drop (k + length sp) xs)"
proof (cases "\<exists>k. take (length sp) (drop k xs) = sp")
  case False
  then show thesis using none splits_none by blast
next
  case True
  show thesis
  proof (cases "sp = []")
    case True
    then show thesis by (intro empty) (simp_all add: splits.simps)
  next
    case False
    let ?P = "\<lambda>k. take (length sp) (drop k xs) = sp"
    have l: "?P (LEAST k. ?P k)" "\<forall>i<(LEAST k. ?P k). \<not> ?P i" using True by (auto intro: LeastI_ex dest: not_less_Least)
    show thesis by (rule hit [OF False l(1,2) splits_hit [OF False l(1,2)]])
  qed
qed

text \<open>The string the tokens make with the separator between them; no token holds the separator.\<close>

fun joined :: "bytes \<Rightarrow> bytes list \<Rightarrow> bytes" where
  "joined sp [] = []"
| "joined sp [x] = x"
| "joined sp (x # y # xs) = x @ sp @ joined sp (y # xs)"

definition contains :: "bytes \<Rightarrow> bytes \<Rightarrow> bool" where
  "contains xs sp \<longleftrightarrow> (\<exists>a b. xs = a @ sp @ b)"

lemma contains_at: "contains xs sp \<longleftrightarrow> (\<exists>i. take (length sp) (drop i xs) = sp)"
proof
  assume "contains xs sp"
  then obtain a b where "xs = a @ sp @ b" by (auto simp: contains_def)
  then show "\<exists>i. take (length sp) (drop i xs) = sp" by (intro exI [of _ "length a"]) simp
next
  assume "\<exists>i. take (length sp) (drop i xs) = sp"
  then obtain i where i: "take (length sp) (drop i xs) = sp" by blast
  have "xs = take i xs @ take (length sp) (drop i xs) @ drop (length sp) (drop i xs)" by (simp only: append_take_drop_id)
  then show "contains xs sp" unfolding contains_def i by blast
qed

lemma splits_ne [simp]: "splits sp xs \<noteq> []"
  by (rule splits_cases [of sp xs]) simp_all

lemma joined_splits: "joined sp (splits sp xs) = xs"
proof (induction xs rule: measure_induct_rule [of length])
  case (less xs)
  show ?case
  proof (rule splits_cases [of sp xs])
    fix k assume k: "sp \<noteq> []" "take (length sp) (drop k xs) = sp" "splits sp xs = take k xs # splits sp (drop (k + length sp) xs)"
    then have "k < length xs" by (cases "k < length xs") auto
    then have "length (drop (k + length sp) xs) < length xs" using k(1) by (cases sp) auto
    then have j: "joined sp (splits sp (drop (k + length sp) xs)) = drop (k + length sp) xs" by (rule less)
    have "xs = take k xs @ take (length sp) (drop k xs) @ drop (length sp) (drop k xs)" by (simp only: append_take_drop_id)
    then show ?thesis using j unfolding k(2,3) by (cases "splits sp (drop (k + length sp) xs)") (simp_all add: add.commute)
  qed simp_all
qed

lemma splits_no_separator: "sp \<noteq> [] \<Longrightarrow> t \<in> set (splits sp xs) \<Longrightarrow> \<not> contains t sp"
proof (induction xs rule: measure_induct_rule [of length])
  case (less xs)
  show ?case
  proof (rule splits_cases [of sp xs])
    assume "\<forall>i. take (length sp) (drop i xs) \<noteq> sp" "splits sp xs = [xs]"
    then show ?thesis using less.prems by (simp add: contains_at)
  next
    fix k assume k: "take (length sp) (drop k xs) = sp" "\<forall>i<k. take (length sp) (drop i xs) \<noteq> sp"
      "splits sp xs = take k xs # splits sp (drop (k + length sp) xs)"
    then have kl: "k < length xs" using less.prems(1) by (cases "k < length xs") auto
    show ?thesis
    proof (cases "t = take k xs")
      case True
      have "take (length sp) (drop i t) \<noteq> sp" for i
      proof
        assume e: "take (length sp) (drop i t) = sp"
        then have "length (take (length sp) (drop i t)) = length sp" by (rule arg_cong)
        then have le: "i + length sp \<le> k" using less.prems(1) kl unfolding True by (cases sp) (simp_all add: min_def split: if_splits)
        then have "take (length sp) (drop i xs) = sp" using e unfolding True by (simp add: drop_take)
        moreover have "i < k" using le less.prems(1) by (cases sp) auto
        ultimately show False using k(2) by blast
      qed
      then show ?thesis by (simp add: contains_at)
    next
      case False
      have "length (drop (k + length sp) xs) < length xs" using less.prems(1) kl by (cases sp) auto
      moreover have "t \<in> set (splits sp (drop (k + length sp) xs))" using False less.prems(2) unfolding k(3) by simp
      ultimately show ?thesis by (rule less.IH [OF _ less.prems(1)])
    qed
  qed (use less.prems in simp)
qed

text \<open>The requests a split makes: the array and its doublings, and a string for each token.\<close>

definition split_requests :: "bytes list \<Rightarrow> int set" where
  "split_requests ts = {40} \<union> {8 * (5 * 2 ^ i) | i. 5 * 2 ^ i \<le> 2 * int (length ts)} \<union> {sdshdr_size + int (length t) + 1 | t. t \<in> set ts}"

lemma length_joined: "sp \<noteq> [] \<Longrightarrow> length ts \<le> length (joined sp ts) + 1"
proof (induction sp ts rule: joined.induct)
  case (3 sp x y xs)
  then show ?case by (cases sp) auto
qed simp_all

lemma length_splits: "sp \<noteq> [] \<Longrightarrow> length (splits sp xs) \<le> length xs + 1"
  using length_joined [of sp "splits sp xs"] by (simp add: joined_splits)

lemma split_loop_spec:
  assumes sp: "sp \<noteq> []" "take (length sp) sep = sp" and n: "n \<le> length s" "n < 2 ^ 31"
    and "start \<le> j" "start \<le> n" "\<forall>t\<in>set tokens. sds_ok t" "\<forall>i. start \<le> i \<and> i < j \<longrightarrow> take (length sp) (drop i (take n s)) \<noteq> sp"
    "map sds_str tokens @ splits sp (drop start (take n s)) = splits sp (take n s)" "slots = 5 * 2 ^ g"
  shows "case split_loop A s (int n) sep (int (length sp)) (int j) (int start) tokens slots of
      Inl e \<Rightarrow> False
    | Inr None \<Rightarrow> \<exists>k\<in>split_requests (splits sp (take n s)). \<not> can_alloc A k
    | Inr (Some (tokens', st)) \<Rightarrow> \<exists>start'. st = int start' \<and> start' \<le> n \<and> (\<forall>t\<in>set tokens'. sds_ok t) \<and>
        map sds_str tokens' @ [drop start' (take n s)] = splits sp (take n s)"
  using assms(5-)
proof (induction "n - j" arbitrary: j start tokens slots g rule: less_induct)
  case less
  let ?S = "take n s"
  show ?case
  proof (cases "j + length sp \<le> n")
    case False
    then have "split_loop A s (int n) sep (int (length sp)) (int j) (int start) tokens slots =
        Inr (Some (tokens, int start))"
      by (subst split_loop.simps) auto
    moreover have "take (length sp) (drop i (drop start ?S)) \<noteq> sp" for i
    proof (cases "start + i < j")
      case True
      then show ?thesis using less.prems(4) [rule_format, of "start + i"] by (simp add: add.commute)
    next
      case ge: False
      have "0 < length sp" using sp(1) by simp
      then have "n - (start + i) < length sp" using ge False by arith
      then have "length (drop i (drop start ?S)) < length sp" using n(1) by (simp add: add.commute)
      then show ?thesis by (metis length_take min.strict_order_iff min.commute less_irrefl)
    qed
    ultimately show ?thesis using less.prems splits_none [of sp "drop start ?S"] by auto
  next
    case True
    define slots' where "slots' = (if slots < int (length tokens) + 2 then slots * 2 else slots)"
    have g': "\<exists>g. slots' = 5 * 2 ^ g"
    proof (cases "slots < int (length tokens) + 2")
      case True
      then show ?thesis using less.prems(6) by (intro exI [of _ "Suc g"]) (simp add: slots'_def)
    next
      case False
      then show ?thesis using less.prems(6) by (intro exI [of _ g]) (simp add: slots'_def)
    qed
    then obtain g' where g': "slots' = 5 * 2 ^ g'" by blast
    show ?thesis
    proof (cases "slots < int (length tokens) + 2 \<and> \<not> can_alloc A (uint64 (8 * slots'))")
      case oom: True
      then have f: "split_loop A s (int n) sep (int (length sp)) (int j) (int start) tokens slots = Inr None"
        using True sp(1) by (subst split_loop.simps) (auto simp: slots'_def Let_def Suc_le_eq)
      have "length tokens < length (splits sp ?S)"
        unfolding less.prems(5) [symmetric] by (simp add: length_greater_0_conv [symmetric] del: length_greater_0_conv) simp
      then have b: "slots' \<le> 2 * int (length (splits sp ?S))" using oom by (simp add: slots'_def)
      then have "slots' \<le> 2 ^ 33" using length_splits [OF sp(1), of ?S] n by simp
      moreover have "0 \<le> slots'" using g' by simp
      ultimately have "uint64 (8 * slots') = 8 * (5 * 2 ^ g')" using g' by (simp add: cint)
      moreover have "8 * (5 * 2 ^ g') \<in> split_requests (splits sp ?S)" using b g' by (auto simp: split_requests_def)
      ultimately show ?thesis using oom f by auto
    next
      case go: False
      let ?k = "\<lambda>hit. if hit
             then bindR (rdn s (int start) (int j - int start)) (\<lambda>x.
                  bindR (sdsnewlen A (Some x) (uint64 (int j - int start))) (\<lambda>tok.
                    case tok of None \<Rightarrow> Inr None
                    | Some t \<Rightarrow> split_loop A s (int n) sep (int (length sp)) (int j + int (length sp) - 1 + 1)
                        (int j + int (length sp)) (tokens @ [t]) slots'))
             else split_loop A s (int n) sep (int (length sp)) (int j + 1) (int start) tokens slots'"
      have eq: "split_loop A s (int n) sep (int (length sp)) (int j) (int start) tokens slots =
          ?k (take (length sp) (drop j s) = sp)"
      proof -
        have g: "1 \<le> int (length sp) \<and> int j < int n - (int (length sp) - 1)"
          using True sp(1) by (simp add: Suc_le_eq)
        have jl: "j + length sp \<le> length s" using True n by simp
        show ?thesis
          unfolding split_loop.simps [of A s "int n" sep "int (length sp)" "int j"] Let_def
            slots'_def [symmetric] if_P [OF g] if_not_P [OF go]
          by (rule sep_hit [OF sp jl])
      qed
      have at: "take (length sp) (drop j ?S) = take (length sp) (drop j s)" using True by (simp add: drop_take)
      show ?thesis
      proof (cases "take (length sp) (drop j s) = sp")
        case False
        have "n - Suc j < n - j" using True sp(1) by (cases sp) auto
        moreover have "\<forall>i. start \<le> i \<and> i < Suc j \<longrightarrow> take (length sp) (drop i ?S) \<noteq> sp"
          using less.prems(4) False at by (metis less_Suc_eq)
        ultimately show ?thesis
          using eq False less.hyps [of "Suc j" start tokens slots' g'] less.prems(1-3,5) g'
          by (simp add: add.commute)
      next
        case hit: True
        let ?x = "take (j - start) (drop start s)"
        have x: "rdn s (int start) (int j - int start) = Inr ?x" "length ?x = j - start"
          using less.prems True n by (simp_all add: mem nat_diff_distrib)
        have u: "uint64 (int j - int start) = int (j - start)"
          using less.prems True n by (simp add: cint of_nat_diff)
        define t where "t = \<lparr>sh_len = int (j - start), sh_free = 0, sh_buf = ?x @ [NUL]\<rparr>"
        have nl: "sdsnewlen A (Some ?x) (int (j - start)) = (if can_alloc A (sdshdr_size + int (j - start) + 1) then Inr (Some t) else Inr None)"
          using sdsnewlen_spec [of "j - start" ?x A] less.prems(1) True n x by (simp add: t_def)
        have t: "sds_ok t" "sds_str t = ?x"
          using sds_ok_new [OF _ x(2)] less.prems True n by (auto simp: t_def sds_str_def nat_diff_distrib)
        have "take (length sp) (drop (j - start) (drop start ?S)) = sp" using hit at less.prems(1) by simp
        moreover have "\<forall>i<j - start. take (length sp) (drop i (drop start ?S)) \<noteq> sp"
          using less.prems(4) by (auto simp: add.commute)
        ultimately have "splits sp (drop start ?S) = take (j - start) (drop start ?S) # splits sp (drop (j - start + length sp) (drop start ?S))"
          by (rule splits_hit [OF sp(1)])
        moreover have "take (j - start) (drop start ?S) = ?x" using True less.prems(1) by (simp add: drop_take)
        ultimately have tk: "map sds_str tokens @ ?x # splits sp (drop (j + length sp) ?S) = splits sp ?S"
          using less.prems(1,5) by (simp add: add.commute)
        have r: "sdshdr_size + int (j - start) + 1 \<in> split_requests (splits sp ?S)"
          unfolding tk [symmetric] using x(2) by (auto simp: split_requests_def intro!: exI [of _ ?x])
        have "n - (j + length sp) < n - j" using True sp(1) by (cases sp) auto
        then have "case split_loop A s (int n) sep (int (length sp)) (int (j + length sp)) (int (j + length sp)) (tokens @ [t]) slots' of
              Inl e \<Rightarrow> False
            | Inr None \<Rightarrow> \<exists>k\<in>split_requests (splits sp ?S). \<not> can_alloc A k
            | Inr (Some (tokens', st)) \<Rightarrow> \<exists>start'. st = int start' \<and> start' \<le> n \<and> (\<forall>t\<in>set tokens'. sds_ok t) \<and>
                map sds_str tokens' @ [drop start' ?S] = splits sp ?S"
          by (rule less.hyps [where g = g']) (use less.prems(3) True t tk g' in auto)
        then show ?thesis using eq hit x(1) u nl r by auto
      qed
    qed
  qed
qed

lemma sdssplitlen_spec:
  assumes sp: "sp \<noteq> []" "take (length sp) sep = sp" and n: "n \<le> length s" "0 < n" "n < 2 ^ 31"
  obtains (oom) k c where "k \<in> split_requests (splits sp (take n s))" "\<not> can_alloc A k"
      "sdssplitlen A s (int n) sep (int (length sp)) = Inr (None, c)"
  | (tokens) ts where
      "sdssplitlen A s (int n) sep (int (length sp)) = Inr (Some ts, Some (int (length ts)))"
      "\<forall>t\<in>set ts. sds_ok t" "map sds_str ts = splits sp (take n s)"
proof (cases "can_alloc A (uint64 (8 * 5))")
  case False
  then show thesis using sp n by (intro oom [of 40]) (auto simp: sdssplitlen_def Suc_le_eq split_requests_def cint)
next
  case True
  have eq: "sdssplitlen A s (int n) sep (int (length sp)) =
      bindR (split_loop A s (int n) sep (int (length sp)) 0 0 [] 5) (\<lambda>r.
        case r of
          None \<Rightarrow> Inr (None, Some 0)
        | Some (tokens, start) \<Rightarrow>
            bindR (rdn s start (int n - start)) (\<lambda>x. bindR (sdsnewlen A (Some x) (uint64 (int n - start))) (\<lambda>tok.
            case tok of
              None \<Rightarrow> Inr (None, Some 0)
            | Some t \<Rightarrow> Inr (Some (tokens @ [t]), Some (int (length tokens) + 1)))))"
    using True sp n by (simp add: sdssplitlen_def Suc_le_eq)
  have loop: "case split_loop A s (int n) sep (int (length sp)) (int 0) (int 0) [] 5 of
      Inl e \<Rightarrow> False
    | Inr None \<Rightarrow> \<exists>k\<in>split_requests (splits sp (take n s)). \<not> can_alloc A k
    | Inr (Some (tokens', st)) \<Rightarrow> \<exists>start'. st = int start' \<and> start' \<le> n \<and> (\<forall>t\<in>set tokens'. sds_ok t) \<and>
        map sds_str tokens' @ [drop start' (take n s)] = splits sp (take n s)"
    by (rule split_loop_spec [where g = 0]) (use sp n in auto)
  show thesis
  proof (cases "split_loop A s (int n) sep (int (length sp)) 0 0 [] 5")
    case (Inl e)
    with loop show thesis by simp
  next
    case (Inr r)
    show thesis
    proof (cases r)
      case None
      then obtain k where "k \<in> split_requests (splits sp (take n s))" "\<not> can_alloc A k" using Inr loop by auto
      then show thesis using None Inr eq by (intro oom) auto
    next
      case (Some p)
      then obtain ts st where r: "r = Some (ts, int st)" and st: "st \<le> n"
        and ts: "\<forall>t\<in>set ts. sds_ok t" "map sds_str ts @ [drop st (take n s)] = splits sp (take n s)"
        using Inr loop by (cases p) auto
      let ?x = "take (n - st) (drop st s)"
      have x: "rdn s (int st) (int n - int st) = Inr ?x" "length ?x = n - st"
        using st n by (simp_all add: mem nat_diff_distrib)
      have u: "uint64 (int n - int st) = int (n - st)" using st n by (simp add: cint of_nat_diff)
      define t where "t = \<lparr>sh_len = int (n - st), sh_free = 0, sh_buf = ?x @ [NUL]\<rparr>"
      have t: "sds_ok t" "sds_str t = drop st (take n s)"
        using sds_ok_new [OF _ x(2)] n st by (auto simp: t_def sds_str_def nat_diff_distrib drop_take)
      have nl: "sdsnewlen A (Some ?x) (int (n - st)) =
         (if can_alloc A (sdshdr_size + int (n - st) + 1) then Inr (Some t) else Inr None)"
        using sdsnewlen_spec [of "n - st" ?x A] n x by (simp add: t_def)
      show thesis
      proof (cases "can_alloc A (sdshdr_size + int (n - st) + 1)")
        case False
        have "sdshdr_size + int (n - st) + 1 \<in> split_requests (splits sp (take n s))"
          unfolding ts(2) [symmetric] using n(1) by (auto simp: split_requests_def intro!: exI [of _ "drop st (take n s)"])
        then show thesis using False eq Inr r x u nl by (intro oom) auto
      next
        case True
        then show thesis using eq Inr r x u nl t ts by (intro tokens [of "ts @ [t]"]) auto
      qed
    qed
  qed
qed

lemma joinsds_loop_spec:
  assumes "\<forall>k. can_alloc A k" "n \<le> length sep" "sds_ok j" "\<forall>t\<in>set ts. sds_ok t"
    and "int (length (sds_str j) + length (joined (take n sep) (map sds_str ts))) < sds_limit"
  shows "\<exists>j'. joinsds_loop A (Some j) ts sep (int n) = Inr (Some j') \<and> sds_ok j' \<and>
     sds_str j' = sds_str j @ joined (take n sep) (map sds_str ts)"
  using assms(3-)
proof (induction ts arbitrary: j)
  case Nil
  then show ?case by simp
next
  case (Cons t ts)
  have l: "length (joined (take n sep) (map sds_str (t # ts))) =
      length (sds_str t) + (if ts = [] then 0 else n + length (joined (take n sep) (map sds_str ts)))"
    using assms(2) by (cases ts) auto
  obtain j1 where j1: "sdscatsds A j t = Inr (Some j1)" "sds_ok j1" "sds_str j1 = sds_str j @ sds_str t"
    using sdscatsds_total [OF assms(1), of j t] Cons.prems l by (auto split: if_splits)
  show ?case
  proof (cases ts)
    case Nil
    then show ?thesis using j1 by simp
  next
    case ne: (Cons u us)
    obtain j2 where j2: "sdscatlen A j1 sep (int n) = Inr (Some j2)" "sds_ok j2"
        "sds_str j2 = sds_str j @ sds_str t @ take n sep"
      using sdscatlen_total [OF assms(1) j1(2) assms(2)] Cons.prems j1(3) l ne by auto
    from Cons.IH [OF j2(2)] Cons.prems l ne j2(3) assms(2)
    show ?thesis using j1 j2 by auto
  qed
qed

end
