(* ===== verification/SdsFmt.thy ===== *)
theory SdsFmt
  imports SdsText
begin

text \<open>
  Numbers and formatting of \<^verbatim>\<open>redis/hiredis/sds.c\<close>: \<^verbatim>\<open>sdsll2str\<close>, \<^verbatim>\<open>sdsull2str\<close> and
  \<^verbatim>\<open>sdsfromlonglong\<close>, the \<^verbatim>\<open>printf\<close>-like \<^verbatim>\<open>sdscatvprintf\<close> and \<^verbatim>\<open>sdscatfmt\<close>, the quoted
  representation \<^verbatim>\<open>sdscatrepr\<close> and the argument splitter \<^verbatim>\<open>sdssplitargs\<close>.
\<close>

section \<open>Integers to text\<close>

text \<open>\<^verbatim>\<open>do { *p++ = '0'+(v%10); v /= 10; } while(v);\<close>\<close>

function put_digits :: "bytes \<Rightarrow> int \<Rightarrow> nat \<Rightarrow> (bytes \<times> int) res" where
  "put_digits b p v =
     bindR (wr b p (digit_char (v mod 10))) (\<lambda>b.
     if v div 10 \<noteq> 0 then put_digits b (p + 1) (v div 10) else Inr (b, p + 1))"
  by pat_completeness auto
termination by (relation "measure (\<lambda>(b, p, v). v)") auto

declare put_digits.simps [simp del]

text \<open>\<^verbatim>\<open>while(s < p) { swap *s and *p; s++; p--; }\<close>\<close>

function rev_loop :: "bytes \<Rightarrow> int \<Rightarrow> int \<Rightarrow> bytes res" where
  "rev_loop b s p =
     (if s < p
      then bindR (rd b s) (\<lambda>aux. bindR (rd b p) (\<lambda>c.
           bindR (wr b s c) (\<lambda>b. bindR (wr b p aux) (\<lambda>b. rev_loop b (s + 1) (p - 1)))))
      else Inr b)"
  by pat_completeness auto
termination by (relation "measure (\<lambda>(b, s, p). nat (p - s))") auto

declare rev_loop.simps [simp del]

definition sdsll2str :: "bytes \<Rightarrow> int \<Rightarrow> (bytes \<times> int) res" where
  "sdsll2str b value =
     bindR (if value < 0 then ck64 (- value) else Inr value) (\<lambda>v.
     bindR (put_digits b 0 (nat v)) (\<lambda>(b, p).
     bindR (if value < 0 then bindR (wr b p CHR ''-'') (\<lambda>b. Inr (b, p + 1)) else Inr (b, p)) (\<lambda>(b, p).
     bindR (wr b p NUL) (\<lambda>b.
     bindR (rev_loop b 0 (p - 1)) (\<lambda>b. Inr (b, int32 p))))))"

definition sdsull2str :: "bytes \<Rightarrow> int \<Rightarrow> (bytes \<times> int) res" where
  "sdsull2str b v =
     bindR (put_digits b 0 (nat v)) (\<lambda>(b, p).
     bindR (wr b p NUL) (\<lambda>b.
     bindR (rev_loop b 0 (p - 1)) (\<lambda>b. Inr (b, int32 p))))"

text \<open>\<^verbatim>\<open>do { *p-- = '0'+(v%10); v /= 10; } while(v);\<close>\<close>

function put_digits_back :: "bytes \<Rightarrow> int \<Rightarrow> nat \<Rightarrow> (bytes \<times> int) res" where
  "put_digits_back b p v =
     bindR (wr b p (digit_char (v mod 10))) (\<lambda>b.
     if v div 10 \<noteq> 0 then put_digits_back b (p - 1) (v div 10) else Inr (b, p - 1))"
  by pat_completeness auto
termination by (relation "measure (\<lambda>(b, p, v). v)") auto

declare put_digits_back.simps [simp del]

definition sdsfromlonglong :: "allocator \<Rightarrow> int \<Rightarrow> sds option res" where
  "sdsfromlonglong A value =
     bindR (if value < 0 then ck64 (- value) else Inr value) (\<lambda>v.
     bindR (put_digits_back (map (junk A) [0..<32]) 31 (nat v)) (\<lambda>(b, p).
     bindR (if value < 0 then bindR (wr b p CHR ''-'') (\<lambda>b. Inr (b, p - 1)) else Inr (b, p)) (\<lambda>(b, p).
     let p = p + 1 in
     bindR (rdn b p (32 - p)) (\<lambda>x. sdsnewlen A (Some x) (32 - p)))))"

section \<open>Formatting\<close>

text \<open>
  \<^verbatim>\<open>sdscatvprintf\<close> formats into a temporary buffer that is doubled until the text fits.
  \<open>out\<close> is the whole expansion of the format, of which \<^verbatim>\<open>vsnprintf\<close> stores as much as
  fits. The byte at \<open>buflen - 2\<close> tells whether the buffer was large enough.
\<close>

definition vsnprintf :: "bytes \<Rightarrow> nat \<Rightarrow> bytes \<Rightarrow> bytes" where
  "vsnprintf b buflen out =
     (let w = take (buflen - 1) out @ [NUL] in w @ drop (length w) b)"

function vprintf_loop :: "allocator \<Rightarrow> bytes \<Rightarrow> nat \<Rightarrow> bytes option res" where
  "vprintf_loop A out buflen =
     (if buflen < 2 then Inl OutOfBounds
      else if \<not> can_alloc A (int buflen) then Inr None
      else let buf = vsnprintf ((map (junk A) [0..<buflen])[buflen - 2 := NUL]) buflen out
           in if buf ! (buflen - 2) \<noteq> NUL then vprintf_loop A out (buflen * 2) else Inr (Some buf))"
  by pat_completeness auto
termination
proof (relation "measure (\<lambda>(A, out, buflen). length out + 2 - buflen)", goal_cases)
  case 1
  show ?case by simp
next
  case (2 A out buflen buf)
  have "buflen - 2 < length out"
  proof (rule ccontr)
    assume "\<not> buflen - 2 < length out"
    then have le: "length out \<le> buflen - 2" by simp
    let ?b = "(map (junk A) [0..<buflen])[buflen - 2 := NUL]"
    have buf: "buf = out @ NUL # drop (Suc (length out)) ?b"
      using 2 le by (simp add: vsnprintf_def Let_def)
    have "buf ! (buflen - 2) = NUL"
    proof (cases "length out = buflen - 2")
      case True
      then show ?thesis by (simp add: buf nth_append)
    next
      case False
      then have "Suc (length out + (buflen - 2 - Suc (length out))) = buflen - 2" using le by simp
      moreover have "\<not> buflen < 2" using 2 by blast
      ultimately show ?thesis using le False by (simp add: buf nth_append nth_Cons' nth_drop)
    qed
    with 2 show False by simp
  qed
  with 2 show ?case by simp
qed

declare vprintf_loop.simps [simp del]

definition sdscatvprintf :: "allocator \<Rightarrow> sds \<Rightarrow> bytes \<Rightarrow> sds option res" where
  "sdscatvprintf A s out =
     bindR (vprintf_loop A out 16) (\<lambda>r.
     case r of None \<Rightarrow> Inr None | Some buf \<Rightarrow> sdscat A s buf)"

text \<open>The variadic arguments of \<^verbatim>\<open>sdscatfmt\<close>, tagged with the type they were passed with.\<close>

datatype fmt_arg =
    FStr bytes
  | FSds sds
  | FInt int
  | FLongLong int
  | FUInt int
  | FULongLong int
  | FSize int

text \<open>\<open>memcpy(s+i,str,l)\<close> after making room, with the length fields and \<^verbatim>\<open>i\<close> moved on.\<close>

definition fmt_put :: "allocator \<Rightarrow> sds \<Rightarrow> int \<Rightarrow> bytes \<Rightarrow> int \<Rightarrow> (sds \<times> int) res" where
  "fmt_put A s i str l =
     bindR (if sh_free s < l then bindR (sdsMakeRoomFor A s (uint64 l)) deref else Inr s) (\<lambda>s.
     bindR (memcpy (sh_buf s) i str 0 (uint64 l)) (\<lambda>b.
     bindR (ck32 (sh_len s + l)) (\<lambda>n. bindR (ck32 (sh_free s - l)) (\<lambda>f. bindR (ck32 (i + l)) (\<lambda>i.
     Inr (s\<lparr>sh_len := n, sh_free := f, sh_buf := b\<rparr>, i))))))"

definition fmt_char :: "sds \<Rightarrow> int \<Rightarrow> char \<Rightarrow> (sds \<times> int) res" where
  "fmt_char s i c =
     bindR (wr (sh_buf s) i c) (\<lambda>b.
     bindR (ck32 (sh_len s + 1)) (\<lambda>n. bindR (ck32 (sh_free s - 1)) (\<lambda>f. bindR (ck32 (i + 1)) (\<lambda>i.
     Inr (s\<lparr>sh_len := n, sh_free := f, sh_buf := b\<rparr>, i)))))"

definition fmt_num :: "allocator \<Rightarrow> sds \<Rightarrow> int \<Rightarrow> (bytes \<times> int) res \<Rightarrow> (sds \<times> int) res" where
  "fmt_num A s i conv = bindR conv (\<lambda>(buf, l). fmt_put A s i buf l)"

text \<open>The inner \<^verbatim>\<open>switch(next)\<close>; \<^verbatim>\<open>va_arg\<close> with another type than was passed is a fault.\<close>

definition fmt_conv ::
  "allocator \<Rightarrow> char \<Rightarrow> sds \<Rightarrow> int \<Rightarrow> fmt_arg list \<Rightarrow> (sds \<times> int \<times> fmt_arg list) res" where
  "fmt_conv A nxt s i ap =
     (let pop = (\<lambda>r. bindR r (\<lambda>(s, i). Inr (s, i, tl ap)));
          buf = map (junk A) [0..<21] in
      if nxt = CHR ''s'' then
        (case ap of FStr str # _ \<Rightarrow> pop (bindR (strlen str) (\<lambda>l. fmt_put A s i str (int32 l))) | _ \<Rightarrow> Inl BadVaArg)
      else if nxt = CHR ''S'' then
        (case ap of FSds t # _ \<Rightarrow> pop (fmt_put A s i (sh_buf t) (int32 (sdslen t))) | _ \<Rightarrow> Inl BadVaArg)
      else if nxt = CHR ''i'' then
        (case ap of FInt n # _ \<Rightarrow> pop (fmt_num A s i (sdsll2str buf n)) | _ \<Rightarrow> Inl BadVaArg)
      else if nxt = CHR ''I'' then
        (case ap of FLongLong n # _ \<Rightarrow> pop (fmt_num A s i (sdsll2str buf n)) | _ \<Rightarrow> Inl BadVaArg)
      else if nxt = CHR ''u'' then
        (case ap of FUInt n # _ \<Rightarrow> pop (fmt_num A s i (sdsull2str buf n)) | _ \<Rightarrow> Inl BadVaArg)
      else if nxt = CHR ''U'' then
        (case ap of FULongLong n # _ \<Rightarrow> pop (fmt_num A s i (sdsull2str buf n)) | _ \<Rightarrow> Inl BadVaArg)
      else if nxt = CHR ''T'' then
        (case ap of FSize n # _ \<Rightarrow> pop (fmt_num A s i (sdsull2str buf n)) | _ \<Rightarrow> Inl BadVaArg)
      else bindR (fmt_char s i nxt) (\<lambda>(s, i). Inr (s, i, ap)))"

function catfmt_loop :: "allocator \<Rightarrow> bytes \<Rightarrow> int \<Rightarrow> sds \<Rightarrow> int \<Rightarrow> fmt_arg list \<Rightarrow> (sds \<times> int) res" where
  "catfmt_loop A fmt f s i ap =
     bindR (rd fmt f) (\<lambda>c.
     if c = NUL then Inr (s, i)
     else
       bindR (if sh_free s = 0 then bindR (sdsMakeRoomFor A s 1) deref else Inr s) (\<lambda>s.
       if c = CHR ''%''
       then bindR (rd fmt (f + 1)) (\<lambda>nxt.
            bindR (fmt_conv A nxt s i ap) (\<lambda>(s, i, ap). catfmt_loop A fmt (f + 1 + 1) s i ap))
       else bindR (fmt_char s i c) (\<lambda>(s, i). catfmt_loop A fmt (f + 1) s i ap)))"
  by pat_completeness auto
termination
  by (relation "measure (\<lambda>(A, fmt, f, s, i, ap). nat (int (length fmt) - f))")
    (auto simp: rd_def split: if_splits)

declare catfmt_loop.simps [simp del]

definition sdscatfmt :: "allocator \<Rightarrow> sds \<Rightarrow> bytes \<Rightarrow> fmt_arg list \<Rightarrow> sds res" where
  "sdscatfmt A s fmt ap =
     bindR (catfmt_loop A fmt 0 s (int32 (sdslen s)) ap) (\<lambda>(s, i).
     bindR (wr (sh_buf s) i NUL) (\<lambda>b. Inr (s\<lparr>sh_buf := b\<rparr>)))"

section \<open>Quoted representation\<close>

definition hex_char :: "nat \<Rightarrow> char" where
  "hex_char d = (if d < 10 then char_of (48 + d) else char_of (87 + d))"

text \<open>One byte as \<^verbatim>\<open>sdscatrepr\<close> prints it.\<close>

definition repr_char :: "allocator \<Rightarrow> sds \<Rightarrow> char \<Rightarrow> sds option res" where
  "repr_char A s c =
     (if c = CHR 0x5C \<or> c = CHR 0x22 then sdscatvprintf A s [CHR 0x5C, c]
      else if c = CHR 0x0A then sdscatlen A s [CHR 0x5C, CHR ''n'', NUL] 2
      else if c = CHR 0x0D then sdscatlen A s [CHR 0x5C, CHR ''r'', NUL] 2
      else if c = CHR 0x09 then sdscatlen A s [CHR 0x5C, CHR ''t'', NUL] 2
      else if c = CHR 0x07 then sdscatlen A s [CHR 0x5C, CHR ''a'', NUL] 2
      else if c = CHR 0x08 then sdscatlen A s [CHR 0x5C, CHR ''b'', NUL] 2
      else if isprint c then sdscatvprintf A s [c]
      else sdscatvprintf A s
             [CHR 0x5C, CHR ''x'', hex_char (of_char c div 16), hex_char (of_char c mod 16)])"

fun catrepr_loop :: "allocator \<Rightarrow> sds option \<Rightarrow> bytes \<Rightarrow> nat \<Rightarrow> sds option res" where
  "catrepr_loop A s p 0 = Inr s"
| "catrepr_loop A s [] (Suc n) = Inl OutOfBounds"
| "catrepr_loop A s (c # p) (Suc n) =
     bindR (deref s) (\<lambda>s. bindR (repr_char A s c) (\<lambda>s. catrepr_loop A s p n))"

definition sdscatrepr :: "allocator \<Rightarrow> sds \<Rightarrow> bytes \<Rightarrow> nat \<Rightarrow> sds option res" where
  "sdscatrepr A s p n =
     bindR (sdscatlen A s [CHR 0x22, NUL] 1) (\<lambda>s.
     bindR (catrepr_loop A s p n) (\<lambda>s.
     bindR (deref s) (\<lambda>s. sdscatlen A s [CHR 0x22, NUL] 1)))"

section \<open>Splitting a command line\<close>

definition is_hex_digit :: "char \<Rightarrow> bool" where
  "is_hex_digit c \<longleftrightarrow>
     (let k = of_char c :: nat in (48 \<le> k \<and> k \<le> 57) \<or> (97 \<le> k \<and> k \<le> 102) \<or> (65 \<le> k \<and> k \<le> 70))"

definition hex_digit_to_int :: "char \<Rightarrow> nat" where
  "hex_digit_to_int c =
     (let k = of_char c :: nat in
      if 48 \<le> k \<and> k \<le> 57 then k - 48
      else if 97 \<le> k \<and> k \<le> 102 then k - 87
      else if 65 \<le> k \<and> k \<le> 70 then k - 55 else 0)"

definition unescape :: "char \<Rightarrow> char" where
  "unescape c =
     (if c = CHR ''n'' then CHR 0x0A else if c = CHR ''r'' then CHR 0x0D
      else if c = CHR ''t'' then CHR 0x09 else if c = CHR ''b'' then CHR 0x08
      else if c = CHR ''a'' then CHR 0x07 else c)"

datatype quoting = Unquoted | InDouble | InSingle

text \<open>\<^verbatim>\<open>current = sdscatlen(current,&c,1)\<close>; a NULL \<^verbatim>\<open>current\<close> is dereferenced.\<close>

definition cat1 :: "allocator \<Rightarrow> sds option \<Rightarrow> char \<Rightarrow> sds option res" where
  "cat1 A current c = bindR (deref current) (\<lambda>s. sdscatlen A s [c] 1)"

text \<open>
  What one round of \<^verbatim>\<open>while(!done)\<close> does at position \<open>p\<close>: finish the token, jump to
  \<^verbatim>\<open>err\<close>, or go on at a later position. The condition of the hexadecimal escape reads the
  bytes after the backslash one by one, as \<^verbatim>\<open>&&\<close> does.
\<close>

datatype token_step =
    Done "sds option" int
  | Err
  | Go quoting "sds option" int

definition hex_escape :: "bytes \<Rightarrow> int \<Rightarrow> (nat option) res" where
  "hex_escape line p =
     bindR (rd line p) (\<lambda>c0. if c0 \<noteq> CHR 0x5C then Inr None else
     bindR (rd line (p + 1)) (\<lambda>c1. if c1 \<noteq> CHR ''x'' then Inr None else
     bindR (rd line (p + 2)) (\<lambda>c2. if \<not> is_hex_digit c2 then Inr None else
     bindR (rd line (p + 3)) (\<lambda>c3. if \<not> is_hex_digit c3 then Inr None else
     Inr (Some (hex_digit_to_int c2 * 16 + hex_digit_to_int c3))))))"

definition closing_quote :: "bytes \<Rightarrow> int \<Rightarrow> sds option \<Rightarrow> token_step res" where
  "closing_quote line p current =
     bindR (rd line (p + 1)) (\<lambda>d.
     if d \<noteq> NUL \<and> \<not> isspace d then Inr Err else Inr (Done current (p + 1)))"

definition step_double :: "allocator \<Rightarrow> bytes \<Rightarrow> int \<Rightarrow> sds option \<Rightarrow> token_step res" where
  "step_double A line p current =
     bindR (rd line p) (\<lambda>c. bindR (hex_escape line p) (\<lambda>h.
     case h of
       Some byte \<Rightarrow> bindR (cat1 A current (char_of byte)) (\<lambda>cur. Inr (Go InDouble cur (p + 3 + 1)))
     | None \<Rightarrow>
         bindR (if c = CHR 0x5C then rd line (p + 1) else Inr NUL) (\<lambda>d.
         if c = CHR 0x5C \<and> d \<noteq> NUL then
           bindR (cat1 A current (unescape d)) (\<lambda>cur. Inr (Go InDouble cur (p + 1 + 1)))
         else if c = CHR 0x22 then closing_quote line p current
         else if c = NUL then Inr Err
         else bindR (cat1 A current c) (\<lambda>cur. Inr (Go InDouble cur (p + 1))))))"

definition step_single :: "allocator \<Rightarrow> bytes \<Rightarrow> int \<Rightarrow> sds option \<Rightarrow> token_step res" where
  "step_single A line p current =
     bindR (rd line p) (\<lambda>c.
     bindR (if c = CHR 0x5C then rd line (p + 1) else Inr NUL) (\<lambda>d.
     if c = CHR 0x5C \<and> d = CHR 0x27 then
       bindR (cat1 A current (CHR 0x27)) (\<lambda>cur. Inr (Go InSingle cur (p + 1 + 1)))
     else if c = CHR 0x27 then closing_quote line p current
     else if c = NUL then Inr Err
     else bindR (cat1 A current c) (\<lambda>cur. Inr (Go InSingle cur (p + 1)))))"

definition step_plain :: "allocator \<Rightarrow> bytes \<Rightarrow> int \<Rightarrow> sds option \<Rightarrow> token_step res" where
  "step_plain A line p current =
     bindR (rd line p) (\<lambda>c.
     if c = CHR '' '' \<or> c = CHR 0x0A \<or> c = CHR 0x0D \<or> c = CHR 0x09 then Inr (Done current (p + 1))
     else if c = NUL then Inr (Done current p)
     else if c = CHR 0x22 then Inr (Go InDouble current (p + 1))
     else if c = CHR 0x27 then Inr (Go InSingle current (p + 1))
     else bindR (cat1 A current c) (\<lambda>cur. Inr (Go Unquoted cur (p + 1))))"

definition token_round :: "allocator \<Rightarrow> bytes \<Rightarrow> quoting \<Rightarrow> int \<Rightarrow> sds option \<Rightarrow> token_step res" where
  "token_round A line q p current =
     (case q of
        InDouble \<Rightarrow> step_double A line p current
      | InSingle \<Rightarrow> step_single A line p current
      | Unquoted \<Rightarrow> step_plain A line p current)"

text \<open>
  \<open>token_loop\<close> is \<^verbatim>\<open>while(!done)\<close>. Every round that goes on moves \<open>p\<close> forward inside the
  block, which bounds the number of rounds.
\<close>

lemma token_round_Go:
  "token_round A line q p current = Inr (Go q' cur p') \<Longrightarrow> 0 \<le> p \<and> p < p' \<and> p < int (length line)"
  by (auto simp: token_round_def step_double_def step_single_def step_plain_def closing_quote_def
      bindR_eq_Inr rd_def split: quoting.splits if_splits option.splits)

function token_loop ::
  "allocator \<Rightarrow> bytes \<Rightarrow> quoting \<Rightarrow> int \<Rightarrow> sds option \<Rightarrow> (sds option \<times> int) option res" where
  "token_loop A line q p current =
     (case token_round A line q p current of
        Inl e \<Rightarrow> Inl e
      | Inr Err \<Rightarrow> Inr None
      | Inr (Done cur p') \<Rightarrow> Inr (Some (cur, p'))
      | Inr (Go q' cur p') \<Rightarrow> token_loop A line q' p' cur)"
  by pat_completeness auto
termination
  by (relation "measure (\<lambda>(A, line, q, p, current). nat (int (length line) - p))")
    (auto dest: token_round_Go)

declare token_loop.simps [simp del]

text \<open>\<^verbatim>\<open>while(*p && isspace(*p)) p++\<close>\<close>

function skip_blanks :: "bytes \<Rightarrow> int \<Rightarrow> int res" where
  "skip_blanks line p =
     bindR (rd line p) (\<lambda>c. if c \<noteq> NUL \<and> isspace c then skip_blanks line (p + 1) else Inr p)"
  by pat_completeness auto
termination
  by (relation "measure (\<lambda>(line, p). nat (int (length line) - p))") (auto simp: rd_def split: if_splits)

declare skip_blanks.simps [simp del]

lemma skip_blanks_bounds: "skip_blanks line p = Inr p' \<Longrightarrow> p \<le> p' \<and> 0 \<le> p' \<and> p' < int (length line)"
proof (induction line p rule: skip_blanks.induct)
  case (1 line p)
  then show ?case
    by (subst (asm) (2) skip_blanks.simps) (fastforce simp: bindR_eq_Inr rd_def split: if_splits)
qed

lemma token_round_Done: "token_round A line q p current = Inr (Done cur p') \<Longrightarrow> p \<le> p'"
  by (auto simp: token_round_def step_double_def step_single_def step_plain_def closing_quote_def
      bindR_eq_Inr split: quoting.splits if_splits option.splits)

lemma token_loop_ge: "token_loop A line q p current = Inr (Some (cur, p')) \<Longrightarrow> p \<le> p'"
proof (induction A line q p current rule: token_loop.induct)
  case (1 A line q p current)
  then show ?case
    by (subst (asm) (2) token_loop.simps)
      (force split: sum.splits token_step.splits dest: token_round_Go token_round_Done)
qed

lemma token_loop_gt:
  assumes "token_loop A line Unquoted p current = Inr (Some (cur, p'))"
    and "rd line p = Inr c" "c \<noteq> NUL"
  shows "p < p'"
proof -
  have "token_round A line Unquoted p current = Inr (Done cur p') \<longrightarrow> p < p'"
    using assms(2,3) by (auto simp: token_round_def step_plain_def bindR_eq_Inr split: if_splits)
  then show ?thesis
    using assms(1)
    by (subst (asm) token_loop.simps)
      (force split: sum.splits token_step.splits dest: token_round_Go token_loop_ge)
qed

text \<open>
  The outer loop, with the tokens collected so far. The array that holds them is grown by
  \<^verbatim>\<open>realloc\<close> without a check, so a refused request is a NULL dereference.
\<close>

function splitargs_loop :: "allocator \<Rightarrow> bytes \<Rightarrow> int \<Rightarrow> sds option list \<Rightarrow> sds option list option res" where
  "splitargs_loop A line p vec =
     (case skip_blanks line p of
        Inl e \<Rightarrow> Inl e
      | Inr p' \<Rightarrow>
          (case rd line p' of
             Inl e \<Rightarrow> Inl e
           | Inr c \<Rightarrow>
               if c \<noteq> NUL then
                 (case sdsempty A of
                    Inl e \<Rightarrow> Inl e
                  | Inr current \<Rightarrow>
                      (case token_loop A line Unquoted p' current of
                         Inl e \<Rightarrow> Inl e
                       | Inr None \<Rightarrow> Inr None
                       | Inr (Some (cur, p'')) \<Rightarrow>
                           if can_alloc A (uint64 (8 * (int (length vec) + 1)))
                           then splitargs_loop A line p'' (vec @ [cur])
                           else Inl NullDeref))
               else if vec = [] \<and> \<not> can_alloc A 8 then Inr None
               else Inr (Some vec)))"
  by pat_completeness auto
termination
proof (relation "measure (\<lambda>(A, line, p, vec). nat (int (length line) - p))", goal_cases)
  case 1
  show ?case by simp
next
  case (2 A line p vec p' c current x2 y cur p'')
  then have "p \<le> p'" "p' < int (length line)" "p' < p''"
    using skip_blanks_bounds [of line p p'] token_loop_gt [of A line p' current cur p'' c] by auto
  then show ?case by simp
qed

declare splitargs_loop.simps [simp del]

text \<open>\<^verbatim>\<open>Inr None\<close> is a NULL result: unbalanced quotes, with \<^verbatim>\<open>*argc\<close> set to 0.\<close>

definition sdssplitargs :: "allocator \<Rightarrow> bytes \<Rightarrow> sds option list option res" where
  "sdssplitargs A line = splitargs_loop A line 0 []"

section \<open>The digits are the decimal numeral\<close>

lemma put_digits_decimal:
  "p + length (decimal v) \<le> length b \<Longrightarrow>
     put_digits b (int p) v =
       Inr (take p b @ rev (decimal v) @ drop (p + length (decimal v)) b, int (p + length (decimal v)))"
proof (induction v arbitrary: b p rule: less_induct)
  case (less v)
  have len: "length (decimal v) = (if v < 10 then 1 else Suc (length (decimal (v div 10))))"
    by (subst decimal.simps) simp
  have pb: "p < length b" using less.prems len by (auto split: if_splits)
  show ?case
  proof (cases "v < 10")
    case True
    then show ?thesis
      using pb by (subst put_digits.simps) (simp add: mem decimal.simps [of v] upd_conv_take_nth_drop)
  next
    case False
    let ?b = "b[p := digit_char (v mod 10)]"
    have "put_digits ?b (int (Suc p)) (v div 10) =
        Inr (take (Suc p) ?b @ rev (decimal (v div 10)) @ drop (Suc p + length (decimal (v div 10))) ?b,
          int (Suc p + length (decimal (v div 10))))"
      by (rule less.IH) (use False less.prems len in auto)
    moreover have "take (Suc p) ?b = take p b @ [digit_char (v mod 10)]"
      using pb by (simp add: take_Suc_conv_app_nth)
    moreover have "rev (decimal v) = digit_char (v mod 10) # rev (decimal (v div 10))"
      using False by (subst decimal.simps) simp
    ultimately show ?thesis
      using pb False len by (subst put_digits.simps) (simp add: mem add.commute)
  qed
qed

lemma rev_loop_rev:
  "i \<le> j \<Longrightarrow> j \<le> length b \<Longrightarrow>
     rev_loop b (int i) (int j - 1) = Inr (take i b @ rev (take (j - i) (drop i b)) @ drop j b)"
proof (induction "j - i" arbitrary: i j b rule: less_induct)
  case less
  show ?case
  proof (cases "Suc i < j")
    case False
    then have "length (take (j - i) (drop i b)) \<le> 1" by simp
    then have "rev (take (j - i) (drop i b)) = take (j - i) (drop i b)"
      by (cases "take (j - i) (drop i b)") (auto simp: le_Suc_eq)
    moreover have "b = take i b @ take (j - i) (drop i b) @ drop j b"
      using less.prems by (metis add_diff_inverse_nat append_assoc append_take_drop_id linorder_not_less take_add)
    ultimately have "b = take i b @ rev (take (j - i) (drop i b)) @ drop j b" by simp
    then show ?thesis using False by (subst rev_loop.simps) auto
  next
    case True
    define k where "k = j - 1"
    have k: "j = Suc k" "i < k" "k < length b" using True less.prems by (auto simp: k_def)
    let ?b = "b[i := b ! k, k := b ! i]"
    have "rev_loop ?b (int (Suc i)) (int k - 1) =
        Inr (take (Suc i) ?b @ rev (take (k - Suc i) (drop (Suc i) ?b)) @ drop k ?b)"
      by (rule less.hyps) (use k in auto)
    moreover have "take (Suc i) ?b = take i b @ [b ! k]"
      using k by (simp add: take_Suc_conv_app_nth)
    moreover have "take (k - Suc i) (drop (Suc i) ?b) = take (k - Suc i) (drop (Suc i) b)"
      using k by (simp add: drop_update_swap)
    moreover have "drop k ?b = b ! i # drop (Suc k) b"
      using k by (simp add: Cons_nth_drop_Suc [symmetric])
    moreover have "rev (take (j - i) (drop i b)) = b ! k # rev (take (k - Suc i) (drop (Suc i) b)) @ [b ! i]"
    proof -
      have "take (j - i) (drop i b) = b ! i # take (k - Suc i) (drop (Suc i) b) @ [b ! k]"
      proof -
        have "drop i b = b ! i # drop (Suc i) b" using k by (simp add: Cons_nth_drop_Suc)
        moreover have "j - i = Suc (Suc (k - Suc i))" using k by simp
        ultimately show ?thesis using k by (simp add: take_Suc_conv_app_nth)
      qed
      then show ?thesis by simp
    qed
    ultimately show ?thesis
      using k by (subst rev_loop.simps) (simp add: mem add.commute nth_list_update)
  qed
qed

lemma terminate_and_reverse:
  assumes "length t < length b" "length t < 2 ^ 31"
  shows "bindR (wr (t @ drop (length t) b) (int (length t)) NUL) (\<lambda>b.
      bindR (rev_loop b 0 (int (length t) - 1)) (\<lambda>b. Inr (b, int32 (int (length t))))) =
    Inr (rev t @ NUL # drop (Suc (length t)) b, int (length t))"
proof -
  have "drop (length t) b = b ! length t # drop (Suc (length t)) b"
    using assms by (simp add: Cons_nth_drop_Suc)
  then have "(t @ drop (length t) b)[length t := NUL] = t @ NUL # drop (Suc (length t)) b"
    by (simp add: list_update_append)
  then show ?thesis
    using assms rev_loop_rev [of 0 "length t" "t @ NUL # drop (Suc (length t)) b"]
    by (simp add: mem cint)
qed

lemma length_decimal_int: "- (2 ^ 63) < v \<Longrightarrow> v < 2 ^ 63 \<Longrightarrow> length (decimal_int v) \<le> 20"
  using length_decimal [of "nat (- v)" 18] length_decimal [of "nat v" 18]
  by (auto simp: decimal_int_def nat_less_iff)

lemma sdsll2str_spec:
  assumes "21 \<le> length b" "- (2 ^ 63) < v" "v < 2 ^ 63"
  shows "sdsll2str b v =
    Inr (decimal_int v @ NUL # drop (Suc (length (decimal_int v))) b, int (length (decimal_int v)))"
proof (cases "v < 0")
  case False
  let ?t = "rev (decimal (nat v))"
  have dec: "decimal_int v = decimal (nat v)" using False by (simp add: decimal_int_def)
  have l: "length ?t < length b" "length ?t \<le> 20"
    using length_decimal_int [OF assms(2,3)] assms(1) by (auto simp: dec)
  have "put_digits b 0 (nat v) = Inr (?t @ drop (length ?t) b, int (length ?t))"
    using put_digits_decimal [of 0 "nat v" b] l by simp
  with terminate_and_reverse [of ?t b] l False show ?thesis
    by (simp add: sdsll2str_def dec)
next
  case True
  let ?d = "rev (decimal (nat (- v)))"
  let ?t = "?d @ [CHR ''-'']"
  have dec: "decimal_int v = CHR ''-'' # decimal (nat (- v))" using True by (simp add: decimal_int_def)
  have l: "length ?t < length b" "length ?t \<le> 20"
    using length_decimal_int [OF assms(2,3)] assms(1) by (auto simp: dec)
  have "put_digits b 0 (nat (- v)) = Inr (?d @ drop (length ?d) b, int (length ?d))"
    using put_digits_decimal [of 0 "nat (- v)" b] l by simp
  moreover have "wr (?d @ drop (length ?d) b) (int (length ?d)) CHR ''-'' = Inr (?t @ drop (length ?t) b)"
    using l by (simp add: mem list_update_append Cons_nth_drop_Suc [symmetric])
  moreover have "int (length ?d) + 1 = int (length ?t)" by simp
  ultimately show ?thesis
    using terminate_and_reverse [of ?t b] l True assms
    by (simp add: sdsll2str_def dec cint add.commute)
qed

lemma sdsull2str_spec:
  assumes "21 \<le> length b" "0 \<le> v" "v < 2 ^ 64"
  shows "sdsull2str b v =
    Inr (decimal (nat v) @ NUL # drop (Suc (length (decimal (nat v)))) b, int (length (decimal (nat v))))"
proof -
  let ?t = "rev (decimal (nat v))"
  have l: "length ?t < length b" "length ?t \<le> 20"
    using length_decimal [of "nat v" 19] assms by (auto simp: nat_less_iff)
  have "put_digits b 0 (nat v) = Inr (?t @ drop (length ?t) b, int (length ?t))"
    using put_digits_decimal [of 0 "nat v" b] l by simp
  with terminate_and_reverse [of ?t b] l show ?thesis
    by (simp add: sdsull2str_def)
qed

lemma put_digits_back_decimal:
  "length (decimal v) \<le> Suc p \<Longrightarrow> p < length b \<Longrightarrow>
     put_digits_back b (int p) v =
       Inr (take (Suc p - length (decimal v)) b @ decimal v @ drop (Suc p) b,
            int p - int (length (decimal v)))"
proof (induction v arbitrary: b p rule: less_induct)
  case (less v)
  show ?case
  proof (cases "v < 10")
    case True
    then show ?thesis
      using less.prems by (subst put_digits_back.simps)
        (simp add: mem decimal.simps [of v] upd_conv_take_nth_drop)
  next
    case False
    let ?d = "decimal (v div 10)" and ?c = "digit_char (v mod 10)"
    have dv: "decimal v = ?d @ [?c]" using False by (subst decimal.simps) simp
    have "0 < length ?d" by simp
    then obtain q where q: "p = Suc q" "length ?d \<le> Suc q" using less.prems dv by (cases p) auto
    let ?b = "b[p := ?c]"
    have "put_digits_back ?b (int q) (v div 10) =
        Inr (take (Suc q - length ?d) ?b @ ?d @ drop (Suc q) ?b, int q - int (length ?d))"
      by (rule less.IH) (use False less.prems q in auto)
    moreover have "drop (Suc q) ?b = ?c # drop (Suc p) b"
      using q less.prems by (simp add: Cons_nth_drop_Suc [symmetric])
    moreover have "take (Suc q - length ?d) ?b = take (Suc p - length (decimal v)) b"
      using q dv by simp
    ultimately show ?thesis
      using False q less.prems dv by (subst put_digits_back.simps) (simp add: mem div_greater_zero_iff nat_add_distrib)
  qed
qed

lemma sdsfromlonglong_spec:
  assumes "- (2 ^ 63) < v" "v < 2 ^ 63"
  shows "sdsfromlonglong A v =
    (if can_alloc A (sdshdr_size + int (length (decimal_int v)) + 1)
     then Inr (Some \<lparr>sh_len = int (length (decimal_int v)), sh_free = 0, sh_buf = decimal_int v @ [NUL]\<rparr>)
     else Inr None)"
proof -
  define d where "d = decimal (nat \<bar>v\<bar>)"
  define b where "b = map (junk A) [0..<32]"
  have lb: "length b = 32" by (simp add: b_def)
  have l: "length (decimal_int v) \<le> 20" by (rule length_decimal_int [OF assms])
  have dec: "decimal_int v = (if v < 0 then CHR ''-'' # d else d)" by (simp add: decimal_int_def d_def)
  then have ld: "length d \<le> 20" using l by (auto split: if_splits)
  have v: "(if v < 0 then ck64 (- v) else Inr v) = Inr \<bar>v\<bar>" using assms by (simp add: cint)
  have p: "put_digits_back b 31 (nat \<bar>v\<bar>) = Inr (take (32 - length d) b @ d, 31 - int (length d))"
    using put_digits_back_decimal [of "nat \<bar>v\<bar>" 31 b] ld lb by (simp add: d_def)
  let ?n = "length (decimal_int v)"
  have tail: "bindR (if v < 0 then bindR (wr (take (32 - length d) b @ d) (31 - int (length d)) CHR ''-'')
          (\<lambda>b. Inr (b, 31 - int (length d) - 1)) else Inr (take (32 - length d) b @ d, 31 - int (length d)))
        (\<lambda>(b, p). let p = p + 1 in bindR (rdn b p (32 - p)) (\<lambda>x. sdsnewlen A (Some x) (32 - p))) =
      sdsnewlen A (Some (decimal_int v)) (int ?n)"
  proof (cases "v < 0")
    case False
    then have "rdn (take (32 - length d) b @ d) (32 - int (length d)) (int (length d)) = Inr d"
      using ld lb by (simp add: mem nat_diff_distrib)
    with False dec show ?thesis by (simp add: algebra_simps)
  next
    case True
    let ?k = "31 - length d"
    have i: "31 - int (length d) = int ?k" using ld by simp
    have wr: "wr (take (32 - length d) b @ d) (int ?k) CHR ''-'' = Inr (take ?k b @ CHR ''-'' # d)"
    proof -
      have "32 - length d = Suc ?k" using ld by simp
      then have "take (32 - length d) b = take ?k b @ [b ! ?k]" using lb by (simp add: take_Suc_conv_app_nth)
      then show ?thesis using lb by (simp add: mem list_update_append)
    qed
    have "rdn (take ?k b @ CHR ''-'' # d) (int ?k) (int (Suc (length d))) = Inr (CHR ''-'' # d)"
      using ld lb by (simp add: mem)
    moreover have e: "32 - int ?k = int (Suc (length d))" using ld by simp
    ultimately show ?thesis using True dec i wr by (simp add: e del: of_nat_Suc of_nat_diff)
  qed
  have "sdsfromlonglong A v = sdsnewlen A (Some (decimal_int v)) (int ?n)"
    unfolding sdsfromlonglong_def v b_def [symmetric] bindR_simps p prod.case by (rule tail)
  then show ?thesis
    using l sdsnewlen_spec [of ?n "decimal_int v" A] by simp
qed

end
