(* ===== verification/SdsRepr.thy ===== *)
theory SdsRepr
  imports SdsFmt
begin

text \<open>
  What the formatters of \<^verbatim>\<open>sds.c\<close> append, and the round trip its comments promise: the
  quoted text \<^verbatim>\<open>sdscatrepr\<close> prints is parsed back by \<^verbatim>\<open>sdssplitargs\<close> to the same bytes.
\<close>

section \<open>The formatted append\<close>

lemma vprintf_loop_total:
  assumes "\<forall>k. can_alloc A k" "NUL \<notin> set out" "2 \<le> buflen"
  shows "\<exists>u. vprintf_loop A out buflen = Inr (Some (out @ NUL # u))"
  using assms
proof (induction A out buflen rule: vprintf_loop.induct)
  case (1 A out buflen)
  define buf where "buf = vsnprintf ((map (junk A) [0..<buflen])[buflen - 2 := NUL]) buflen out"
  have eq: "vprintf_loop A out buflen =
      (if buf ! (buflen - 2) \<noteq> NUL then vprintf_loop A out (buflen * 2) else Inr (Some buf))"
    using "1.prems" by (subst vprintf_loop.simps) (simp add: buf_def Let_def)
  show ?case
  proof (cases "buf ! (buflen - 2) \<noteq> NUL")
    case True
    then show ?thesis using "1.IH" [OF _ _ buf_def] "1.prems" eq by simp
  next
    case False
    have "length out \<le> buflen - 2"
    proof (rule ccontr)
      assume *: "\<not> length out \<le> buflen - 2"
      then have "buf ! (buflen - 2) = out ! (buflen - 2)"
        using "1.prems"(3) by (simp add: buf_def vsnprintf_def Let_def nth_append diff_less_mono2)
      moreover have "out ! (buflen - 2) \<in> set out" using * by simp
      ultimately show False using False "1.prems"(2) by metis
    qed
    then show ?thesis using eq False by (auto simp: buf_def vsnprintf_def Let_def)
  qed
qed

lemma sdscatvprintf_total:
  assumes "\<forall>k. can_alloc A k" "sds_ok s" "NUL \<notin> set out" "int (length (sds_str s) + length out) < sds_limit"
  shows "\<exists>s'. sdscatvprintf A s out = Inr (Some s') \<and> sds_ok s' \<and> sds_str s' = sds_str s @ out"
proof -
  obtain u where "vprintf_loop A out 16 = Inr (Some (out @ NUL # u))"
    using vprintf_loop_total [OF assms(1,3), of 16] by auto
  then show ?thesis using sdscat_total [OF assms, of u] by (simp add: sdscatvprintf_def)
qed

section \<open>The quoted text\<close>

definition repr1 :: "char \<Rightarrow> bytes" where
  "repr1 c =
     (if c = CHR 0x5C \<or> c = CHR 0x22 then [CHR 0x5C, c]
      else if c = CHR 0x0A then [CHR 0x5C, CHR ''n'']
      else if c = CHR 0x0D then [CHR 0x5C, CHR ''r'']
      else if c = CHR 0x09 then [CHR 0x5C, CHR ''t'']
      else if c = CHR 0x07 then [CHR 0x5C, CHR ''a'']
      else if c = CHR 0x08 then [CHR 0x5C, CHR ''b'']
      else if isprint c then [c]
      else [CHR 0x5C, CHR ''x'', hex_char (of_char c div 16), hex_char (of_char c mod 16)])"

lemma length_repr1: "length (repr1 c) \<le> 4"
  by (simp add: repr1_def)

lemma of_char_bound: "(of_char c :: nat) < 256"
  using of_char_mod_256 [of c, where 'a = nat] by (metis mod_less_divisor zero_less_numeral)

lemma of_hex_char: "d < 16 \<Longrightarrow> (of_char (hex_char d) :: nat) = (if d < 10 then 48 + d else 87 + d)"
  by (simp add: hex_char_def)

lemma hex_char_neq_NUL: "d < 16 \<Longrightarrow> hex_char d \<noteq> NUL"
  using of_hex_char [of d] by (auto split: if_splits)

lemma isprint_NUL [simp]: "\<not> isprint NUL"
  by (simp add: isprint_def)

lemma nibbles: "of_char c div 16 < (16 :: nat)" "of_char c mod 16 < (16 :: nat)"
  using of_char_bound [of c] by (simp_all add: less_mult_imp_div_less)

lemma NUL_notin_repr1: "NUL \<notin> set (repr1 c)"
  using hex_char_neq_NUL [OF nibbles(1) [of c], symmetric] hex_char_neq_NUL [OF nibbles(2) [of c], symmetric]
  by (auto simp: repr1_def)

lemma repr_char_total:
  assumes "\<forall>k. can_alloc A k" "sds_ok s" "int (length (sds_str s)) + 4 < sds_limit"
  shows "\<exists>s'. repr_char A s c = Inr (Some s') \<and> sds_ok s' \<and> sds_str s' = sds_str s @ repr1 c"
proof -
  have two: "\<exists>s'. sdscatlen A s [CHR 0x5C, d, NUL] 2 = Inr (Some s') \<and> sds_ok s' \<and> sds_str s' = sds_str s @ [CHR 0x5C, d]" for d
    using sdscatlen_total [OF assms(1,2), of 2 "[CHR 0x5C, d, NUL]"] assms(3) by simp
  have pf: "\<exists>s'. sdscatvprintf A s (repr1 c) = Inr (Some s') \<and> sds_ok s' \<and> sds_str s' = sds_str s @ repr1 c"
    by (rule sdscatvprintf_total) (use assms length_repr1 [of c] NUL_notin_repr1 in auto)
  have "repr_char A s c = sdscatvprintf A s (repr1 c) \<or>
      (\<exists>d. repr_char A s c = sdscatlen A s [CHR 0x5C, d, NUL] 2 \<and> repr1 c = [CHR 0x5C, d])"
    by (simp add: repr_char_def repr1_def)
  then show ?thesis using two pf by metis
qed

lemma catrepr_loop_total:
  assumes "\<forall>k. can_alloc A k" "sds_ok s" "n \<le> length p" "int (length (sds_str s)) + 4 * int n < sds_limit"
  shows "\<exists>s'. catrepr_loop A (Some s) p n = Inr (Some s') \<and> sds_ok s' \<and>
     sds_str s' = sds_str s @ concat (map repr1 (take n p))"
  using assms(2-)
proof (induction n arbitrary: s p)
  case 0
  then show ?case by simp
next
  case (Suc n)
  then obtain c q where p: "p = c # q" by (cases p) auto
  obtain s1 where s1: "repr_char A s c = Inr (Some s1)" "sds_ok s1" "sds_str s1 = sds_str s @ repr1 c"
    using repr_char_total [OF assms(1) Suc.prems(1), of c] Suc.prems by auto
  with Suc.IH [of s1 q] Suc.prems p length_repr1 [of c] show ?case by auto
qed

lemma sdscatrepr_total:
  assumes "\<forall>k. can_alloc A k" "sds_ok s" "n \<le> length p" "int (length (sds_str s)) + 4 * int n + 2 < sds_limit"
  shows "\<exists>s'. sdscatrepr A s p n = Inr (Some s') \<and> sds_ok s' \<and>
     sds_str s' = sds_str s @ CHR 0x22 # concat (map repr1 (take n p)) @ [CHR 0x22]"
proof -
  have len: "length (concat (map repr1 (take n p))) \<le> 4 * n"
  proof -
    have "length (concat (map repr1 xs)) \<le> 4 * length xs" for xs
    proof (induction xs)
      case (Cons x xs)
      then show ?case using length_repr1 [of x] by simp
    qed simp
    from this [of "take n p"] show ?thesis using assms(3) by simp
  qed
  obtain s1 where s1: "sdscatlen A s [CHR 0x22, NUL] 1 = Inr (Some s1)" "sds_ok s1" "sds_str s1 = sds_str s @ [CHR 0x22]"
    using sdscatlen_total [OF assms(1,2), of 1 "[CHR 0x22, NUL]"] assms(4) by auto
  obtain s2 where s2: "catrepr_loop A (Some s1) p n = Inr (Some s2)" "sds_ok s2"
      "sds_str s2 = sds_str s1 @ concat (map repr1 (take n p))"
    using catrepr_loop_total [OF assms(1) s1(2) assms(3)] s1(3) assms(4) by auto
  obtain s3 where "sdscatlen A s2 [CHR 0x22, NUL] 1 = Inr (Some s3)" "sds_ok s3" "sds_str s3 = sds_str s2 @ [CHR 0x22]"
    using sdscatlen_total [OF assms(1) s2(2), of 1 "[CHR 0x22, NUL]"] s1(3) s2(3) len assms(4) by auto
  then show ?thesis using s1 s2 by (simp add: sdscatrepr_def)
qed

section \<open>Parsing it back\<close>

lemma rd_append: "0 \<le> k \<Longrightarrow> rd (pre @ ys) (int (length pre) + k) = rd ys k"
  by (auto simp: rd_def nth_append nat_add_distrib)

lemma is_hex_digit_hex_char: "d < 16 \<Longrightarrow> is_hex_digit (hex_char d)"
  by (simp add: is_hex_digit_def of_hex_char Let_def)

lemma hex_digit_to_int_hex_char: "d < 16 \<Longrightarrow> hex_digit_to_int (hex_char d) = d"
  by (simp add: hex_digit_to_int_def of_hex_char Let_def)

lemma cat1_total:
  assumes "\<forall>k. can_alloc A k" "sds_ok s" "int (length (sds_str s)) + 1 < sds_limit"
  shows "\<exists>s'. cat1 A (Some s) c = Inr (Some s') \<and> sds_ok s' \<and> sds_str s' = sds_str s @ [c]"
  using sdscatlen_total [OF assms(1,2), of 1 "[c]"] assms(3) by (simp add: cat1_def)

lemma double_round:
  assumes "\<forall>k. can_alloc A k" "sds_ok s" "int (length (sds_str s)) + 1 < sds_limit"
    and line: "line = pre @ repr1 c @ ys"
  shows "\<exists>s'. token_round A line InDouble (int (length pre)) (Some s) =
      Inr (Go InDouble (Some s') (int (length (pre @ repr1 c)))) \<and> sds_ok s' \<and> sds_str s' = sds_str s @ [c]"
proof -
  let ?p = "int (length pre)"
  obtain s' where s': "cat1 A (Some s) c = Inr (Some s')" "sds_ok s'" "sds_str s' = sds_str s @ [c]"
    using cat1_total [OF assms(1-3)] by blast
  have rd: "rd line (?p + k) = rd (repr1 c @ ys) k" if "0 \<le> k" for k
    using line rd_append [OF that, of pre] by simp
  have rd0: "rd line ?p = rd (repr1 c @ ys) 0" using rd [of 0] by simp
  have escaped: "step_double A line ?p (Some s) = Inr (Go InDouble (Some s') (?p + 2))"
    if "repr1 c = [CHR 0x5C, d]" "d \<noteq> CHR ''x''" "d \<noteq> NUL" "unescape d = c" for d
    using that s' rd [of 1] rd0 by (simp add: step_double_def hex_escape_def rd_def)
  consider (esc) d where "repr1 c = [CHR 0x5C, d]" "d \<noteq> CHR ''x''" "d \<noteq> NUL" "unescape d = c"
    | (plain) "repr1 c = [c]" "c \<noteq> CHR 0x5C" "c \<noteq> CHR 0x22" "c \<noteq> NUL"
    | (hex) "repr1 c = [CHR 0x5C, CHR ''x'', hex_char (of_char c div 16), hex_char (of_char c mod 16)]"
  proof -
    have "c = CHR 0x5C \<or> c = CHR 0x22 \<or> c \<in> {CHR 0x0A, CHR 0x0D, CHR 0x09, CHR 0x07, CHR 0x08} \<or>
        (c \<noteq> CHR 0x5C \<and> c \<noteq> CHR 0x22 \<and> c \<notin> {CHR 0x0A, CHR 0x0D, CHR 0x09, CHR 0x07, CHR 0x08})"
      by blast
    moreover have "isprint c \<Longrightarrow> c \<noteq> NUL" by auto
    ultimately show thesis
      using esc plain hex by (cases "isprint c") (auto simp: repr1_def unescape_def)
  qed
  then show ?thesis
  proof cases
    case (esc d)
    then show ?thesis using s' escaped [of d] by (simp add: token_round_def)
  next
    case plain
    then show ?thesis using s' rd0 by (simp add: token_round_def step_double_def hex_escape_def rd_def)
  next
    case hex
    note d = nibbles [of c]
    have "hex_escape line ?p = Inr (Some (of_char c))"
      using hex rd0 rd [of 1] rd [of 2] rd [of 3] d
      by (simp add: hex_escape_def rd_def is_hex_digit_hex_char hex_digit_to_int_hex_char)
    then show ?thesis using hex s' rd0 by (simp add: token_round_def step_double_def rd_def)
  qed
qed

lemma double_loop:
  assumes "\<forall>k. can_alloc A k" "sds_ok s" "int (length (sds_str s) + length xs) < sds_limit"
    and line: "line = pre @ concat (map repr1 xs) @ CHR 0x22 # NUL # u"
  shows "\<exists>s'. token_loop A line InDouble (int (length pre)) (Some s) =
      Inr (Some (Some s', int (length line - Suc (length u)))) \<and> sds_ok s' \<and> sds_str s' = sds_str s @ xs"
  using assms(2-)
proof (induction xs arbitrary: s pre)
  case Nil
  have "rd line (int (length pre)) = Inr CHR 0x22" "rd line (int (length pre) + 1) = Inr NUL"
    using Nil.prems(3) rd_append [of 0 pre "CHR 0x22 # NUL # u"] rd_append [of 1 pre "CHR 0x22 # NUL # u"]
    by (simp_all add: rd_def)
  then have "token_round A line InDouble (int (length pre)) (Some s) = Inr (Done (Some s) (int (length pre) + 1))"
    by (simp add: token_round_def step_double_def hex_escape_def closing_quote_def)
  then show ?case using Nil.prems by (subst token_loop.simps) simp
next
  case (Cons c xs)
  have line: "line = pre @ repr1 c @ (concat (map repr1 xs) @ CHR 0x22 # NUL # u)"
    using Cons.prems(3) by simp
  obtain s1 where s1: "token_round A line InDouble (int (length pre)) (Some s) =
      Inr (Go InDouble (Some s1) (int (length (pre @ repr1 c))))" "sds_ok s1" "sds_str s1 = sds_str s @ [c]"
    using double_round [OF assms(1) Cons.prems(1) _ line] Cons.prems(2) by auto
  from Cons.IH [OF s1(2), of "pre @ repr1 c"] Cons.prems(2) s1(3) line
  obtain s' where "token_loop A line InDouble (int (length (pre @ repr1 c))) (Some s1) =
      Inr (Some (Some s', int (length line - Suc (length u))))" "sds_ok s'" "sds_str s' = sds_str s1 @ xs"
    by auto
  then show ?case using s1 by (subst token_loop.simps) simp
qed

lemma splitargs_quoted:
  assumes "\<forall>k. can_alloc A k" "int (length xs) < sds_limit"
    and line: "line = CHR 0x22 # concat (map repr1 xs) @ CHR 0x22 # NUL # u"
  shows "\<exists>t. sdssplitargs A line = Inr (Some [Some t]) \<and> sds_ok t \<and> sds_str t = xs"
proof -
  define e where "e = \<lparr>sh_len = 0, sh_free = 0, sh_buf = [NUL]\<rparr>"
  have e: "sdsempty A = Inr (Some e)" "sds_ok e" "sds_str e = []"
    using assms(1) by (simp_all add: e_def sdsempty_spec sds_ok_def sds_str_def)
  obtain t where t: "token_loop A line InDouble (int (length [CHR 0x22])) (Some e) =
      Inr (Some (Some t, int (length line - Suc (length u))))" "sds_ok t" "sds_str t = sds_str e @ xs"
    using double_loop [OF assms(1) e(2), of xs line "[CHR 0x22]"] assms(2) line e(3) by auto
  have rd0: "rd line 0 = Inr CHR 0x22" using line by (simp add: rd_def)
  then have skip0: "skip_blanks line 0 = Inr 0"
    by (subst skip_blanks.simps) (simp add: isspace_def)
  have rdl: "rd line (int (length line - Suc (length u))) = Inr NUL"
    using line rd_append [of 0 "CHR 0x22 # concat (map repr1 xs) @ [CHR 0x22]" "NUL # u"]
    by (simp add: rd_def [of "NUL # u"] del: length_concat)
  then have skipl: "skip_blanks line (int (length line - Suc (length u))) = Inr (int (length line - Suc (length u)))"
    by (subst skip_blanks.simps) simp
  have "token_loop A line Unquoted 0 (Some e) = Inr (Some (Some t, int (length line - Suc (length u))))"
    using t(1) rd0 by (subst token_loop.simps) (simp add: token_round_def step_plain_def)
  moreover have "splitargs_loop A line (int (length line - Suc (length u))) [Some t] = Inr (Some [Some t])"
    using skipl rdl by (subst splitargs_loop.simps) simp
  ultimately have "splitargs_loop A line 0 [] = Inr (Some [Some t])"
    using skip0 rd0 e(1) assms(1) by (subst splitargs_loop.simps) simp
  then show ?thesis using t e(3) by (simp add: sdssplitargs_def)
qed

text \<open>The bytes of a string a caller passes on as a C string are its text and the zero byte.\<close>

lemma sds_buf_prefix: "sds_ok s \<Longrightarrow> \<exists>u. sh_buf s = sds_str s @ NUL # u"
proof (erule sds_okE)
  fix l f b assume s: "s = \<lparr>sh_len = int l, sh_free = int f, sh_buf = b\<rparr>" "length b = l + f + 1" "b ! l = NUL"
  then have "b = take l b @ NUL # drop (Suc l) b" by (metis Suc_eq_plus1 id_take_nth_drop le_add1 le_imp_less_Suc)
  then show ?thesis using s(1) by (auto simp: sds_str_def)
qed

end
