(* ===== verification/SdsContract.thy ===== *)
theory SdsContract
  imports SdsRepr
begin

text \<open>
  What \<^verbatim>\<open>sds.c\<close> promises its clients. The locale \<open>string_buffer\<close> is the interface the reply
  reader and the connection rely on (an append that either stores exactly the bytes it is
  given or is refused by the allocator), interpreted on \<open>sdscatlen\<close>; the theorems are the
  contract of the single functions, for every allocator.
\<close>

section \<open>The interface of a growing buffer\<close>

text \<open>A sequence of appends, given up at the first one the allocator refuses.\<close>

fun appends :: "('b \<Rightarrow> bytes \<Rightarrow> int \<Rightarrow> 'b option res) \<Rightarrow> 'b \<Rightarrow> bytes list \<Rightarrow> 'b option res" where
  "appends app b [] = Inr (Some b)"
| "appends app b (x # xs) =
     bindR (app b x (int (length x))) (\<lambda>r. case r of None \<Rightarrow> Inr None | Some b' \<Rightarrow> appends app b' xs)"

locale string_buffer =
  fixes ok :: "'b \<Rightarrow> bool" and contents :: "'b \<Rightarrow> bytes"
    and app :: "'b \<Rightarrow> bytes \<Rightarrow> int \<Rightarrow> 'b option res" and cap :: int
  assumes app_law: "ok b \<Longrightarrow> n \<le> length t \<Longrightarrow> int (length (contents b) + n) < cap \<Longrightarrow>
      app b t (int n) = Inr None \<or>
      (\<exists>b'. app b t (int n) = Inr (Some b') \<and> ok b' \<and> contents b' = contents b @ take n t)"
begin

lemma app_cases:
  assumes "ok b" "n \<le> length t" "int (length (contents b) + n) < cap"
  obtains (refused) "app b t (int n) = Inr None"
  | (stored) b' where "app b t (int n) = Inr (Some b')" "ok b'" "contents b' = contents b @ take n t"
  using app_law [OF assms] by blast

lemma appends_law:
  "ok b \<Longrightarrow> int (length (contents b) + length (concat xs)) < cap \<Longrightarrow>
     appends app b xs = Inr None \<or>
     (\<exists>b'. appends app b xs = Inr (Some b') \<and> ok b' \<and> contents b' = contents b @ concat xs)"
proof (induction xs arbitrary: b)
  case Nil
  then show ?case by simp
next
  case (Cons x xs)
  have "length x \<le> length x" "int (length (contents b) + length x) < cap"
    using Cons.prems by auto
  from Cons.prems(1) this show ?case
  proof (cases rule: app_cases)
    case refused
    then show ?thesis by simp
  next
    case (stored b')
    with Cons.IH [of b'] Cons.prems(2) show ?thesis by simp
  qed
qed

end

lemma sdscatlen_law:
  assumes "sds_ok s" "n \<le> length t" "int (length (sds_str s) + n) < sds_limit"
  shows "sdscatlen A s t (int n) = Inr None \<or>
      (\<exists>s'. sdscatlen A s t (int n) = Inr (Some s') \<and> sds_ok s' \<and> sds_str s' = sds_str s @ take n t)"
proof (rule sdscatlen_cases [OF assms(1,2), of A])
  show "sh_len s + int n < sds_limit" using assms sh_len_str [of s] by simp
qed auto

interpretation sb: string_buffer sds_ok sds_str "sdscatlen A" sds_limit for A
  by unfold_locales (rule sdscatlen_law)

section \<open>Concrete values of the witnesses\<close>

definition libc :: allocator where
  "libc = \<lparr>can_alloc = (\<lambda>_. True), junk = (\<lambda>_. CHR ''?'')\<rparr>"

lemma libc_sel [simp]: "can_alloc libc k" "junk libc i = CHR ''?''"
  by (simp_all add: libc_def)

definition sds_of :: "bytes \<Rightarrow> sds" where
  "sds_of xs = \<lparr>sh_len = int (length xs), sh_free = 0, sh_buf = xs @ [NUL]\<rparr>"

lemma sds_of: "int (length xs) < 2 ^ 31 \<Longrightarrow> sds_ok (sds_of xs)" "sds_str (sds_of xs) = xs"
  by (simp_all add: sds_of_def sds_ok_def sds_str_def nth_append)

section \<open>Appending, copying, growing\<close>

text \<open>
  C22. \<^verbatim>\<open>sdscatlen\<close> never faults below the length limit: it fails exactly when the string has
  no free room and the allocator refuses the doubled block, and otherwise returns a
  well-formed string that is the old text followed by the \<open>n\<close> bytes given.
\<close>

theorem sdscatlen_appends:
  assumes "sds_ok s" "n \<le> length t" "sh_len s + int n < sds_limit"
  shows "case sdscatlen A s t (int n) of
      Inl e \<Rightarrow> False
    | Inr None \<Rightarrow> \<not> sds_fits A s (int n)
    | Inr (Some s') \<Rightarrow> sds_fits A s (int n) \<and> sds_ok s' \<and> sds_str s' = sds_str s @ take n t"
  by (rule sdscatlen_cases [OF assms, of A]) simp_all

theorem sdscatlen_appends_witness:
  "case sdscatlen libc (sds_of ''GET '') ''key'' 3 of
      Inl e \<Rightarrow> False
    | Inr None \<Rightarrow> \<not> sds_fits libc (sds_of ''GET '') 3
    | Inr (Some s') \<Rightarrow> sds_fits libc (sds_of ''GET '') 3 \<and> sds_ok s' \<and> sds_str s' = ''GET key''"
  using sdscatlen_appends [of "sds_of ''GET ''" 3 "''key''" libc] sds_of [of "''GET ''"]
  by (simp add: sds_of_def split: sum.splits option.splits)

text \<open>
  \<^verbatim>\<open>sdsMakeRoomFor\<close> only enlarges the block: the text and its length stay, the string
  stays well formed, and afterwards at least the requested room is free. It fails exactly
  when the room is missing and the allocator refuses the block.
\<close>

theorem sdsMakeRoomFor_room:
  assumes "sds_ok s" "0 \<le> n" "sh_len s + n < sds_limit"
  shows "case sdsMakeRoomFor A s n of
      Inl e \<Rightarrow> False
    | Inr None \<Rightarrow> \<not> sds_fits A s n
    | Inr (Some s') \<Rightarrow> sds_fits A s n \<and> sds_ok s' \<and> sds_str s' = sds_str s \<and> n \<le> sh_free s' \<and>
        sdsAllocSize s \<le> sdsAllocSize s'"
proof (rule sdsMakeRoomFor_cases [OF assms, of A])
  fix s' assume s': "sdsMakeRoomFor A s n = Inr (Some s')" "sds_fits A s n" "sds_ok s'"
    "sh_len s' = sh_len s" "n \<le> sh_free s'" "sds_str s' = sds_str s"
  have "sh_free s \<le> sh_free s'"
  proof (cases "sdsavail s \<ge> n")
    case True
    then show ?thesis using s'(1) by (simp add: sdsMakeRoomFor_def)
  next
    case False
    then show ?thesis using assms(1) s'(5) by (simp add: sdsavail_ok)
  qed
  then have "sdsAllocSize s \<le> sdsAllocSize s'"
    using assms(1) s'(3,4) by (simp add: sdsAllocSize_def sds_ok_def cint)
  with s' show ?thesis by simp
qed simp

theorem sdsMakeRoomFor_room_witness:
  "case sdsMakeRoomFor libc (sds_of ''ab'') 5 of
      Inl e \<Rightarrow> False
    | Inr None \<Rightarrow> \<not> sds_fits libc (sds_of ''ab'') 5
    | Inr (Some s') \<Rightarrow> sds_fits libc (sds_of ''ab'') 5 \<and> sds_ok s' \<and> sds_str s' = ''ab'' \<and> 5 \<le> sh_free s' \<and>
        sdsAllocSize (sds_of ''ab'') \<le> sdsAllocSize s'"
  using sdsMakeRoomFor_room [of "sds_of ''ab''" 5 libc] sds_of [of "''ab''"]
  by (simp add: sds_of_def split: sum.splits option.splits)

text \<open>
  \<^verbatim>\<open>sdscpylen\<close> replaces the text by the \<open>n\<close> bytes given, whatever was there, reusing the
  block when it is large enough: it can only fail when the block is too small and the
  allocator refuses a larger one.
\<close>

theorem sdscpylen_replaces:
  assumes "sds_ok s" "n \<le> length t" "int n < sds_limit"
  shows "case sdscpylen A s t (int n) of
      Inl e \<Rightarrow> False
    | Inr None \<Rightarrow> sh_len s + sh_free s < int n \<and> \<not> sds_fits A s (int n - sh_len s)
    | Inr (Some s') \<Rightarrow> sds_ok s' \<and> sds_str s' = take n t"
  by (rule sdscpylen_cases [OF assms, of A]) simp_all

theorem sdscpylen_replaces_witness:
  "case sdscpylen libc (sds_of ''old'') ''longer'' 6 of
      Inl e \<Rightarrow> False
    | Inr None \<Rightarrow> 3 < (6 :: int) \<and> \<not> sds_fits libc (sds_of ''old'') 3
    | Inr (Some s') \<Rightarrow> sds_ok s' \<and> sds_str s' = ''longer''"
  using sdscpylen_replaces [of "sds_of ''old''" 6 "''longer''" libc] sds_of [of "''old''"]
  by (simp add: sds_of_def split: sum.splits option.splits)

text \<open>
  \<^verbatim>\<open>sdsgrowzero\<close> pads the text with zero bytes up to the given length (and leaves a longer
  string alone), failing only when the allocator refuses.
\<close>

theorem sdsgrowzero_pads:
  assumes "sds_ok s" "int n < sds_limit"
  shows "case sdsgrowzero A s (int n) of
      Inl e \<Rightarrow> False
    | Inr None \<Rightarrow> sh_len s < int n \<and> \<not> sds_fits A s (int n - sh_len s)
    | Inr (Some s') \<Rightarrow> sds_ok s' \<and> sds_str s' = sds_str s @ replicate (n - length (sds_str s)) NUL"
proof (cases "sh_len s < int n")
  case True
  then show ?thesis by (rule sdsgrowzero_cases [OF assms(1) _ assms(2), of A]) (simp_all add: True)
next
  case False
  then have "sdsgrowzero A s (int n) = Inr (Some s)" "n - length (sds_str s) = 0"
    using assms(1) sh_len_str [OF assms(1)] by (simp_all add: sdsgrowzero_def sds_ok_def cint)
  then show ?thesis using assms(1) by simp
qed

theorem sdsgrowzero_pads_witness:
  "case sdsgrowzero libc (sds_of ''ab'') 4 of
      Inl e \<Rightarrow> False
    | Inr None \<Rightarrow> (2 :: int) < 4 \<and> \<not> sds_fits libc (sds_of ''ab'') 2
    | Inr (Some s') \<Rightarrow> sds_ok s' \<and> sds_str s' = ''ab'' @ [NUL, NUL]"
  using sdsgrowzero_pads [of "sds_of ''ab''" 4 libc] sds_of [of "''ab''"]
  by (simp add: sds_of_def numeral_2_eq_2 split: sum.splits option.splits)

section \<open>Cutting and trimming\<close>

text \<open>
  C38. \<^verbatim>\<open>sdsrange\<close> keeps exactly the bytes between the two inclusive indexes, negative ones
  counted from the end and clamped to the first byte, for every pair of \<^verbatim>\<open>int\<close> indexes but
  an end of \<^verbatim>\<open>INT_MAX\<close>; the block keeps its size.
\<close>

theorem sdsrange_is_slice:
  assumes "sds_ok s" "- (2 ^ 31) \<le> a" "a < 2 ^ 31" "- (2 ^ 31) \<le> e" "e < 2 ^ 31 - 1"
  shows "\<exists>s'. sdsrange s a e = Inr s' \<and> sds_ok s' \<and> sds_str s' = slice (sds_str s) a e \<and>
      sdsAllocSize s' = sdsAllocSize s"
  by (rule sdsrange_spec [OF assms]) (auto simp: sdsAllocSize_def add.assoc)

theorem sdsrange_is_slice_witness:
  "\<exists>s'. sdsrange (sds_of ''Hello World'') 1 (- 1) = Inr s' \<and> sds_ok s' \<and> sds_str s' = ''ello World'' \<and>
      sdsAllocSize s' = sdsAllocSize (sds_of ''Hello World'')"
  using sdsrange_is_slice [of "sds_of ''Hello World''" 1 "- 1"] sds_of [of "''Hello World''"]
  by (simp add: slice_def)

text \<open>
  \<^verbatim>\<open>sdstrim\<close> removes from both ends, and only there, the bytes of the given set (a zero
  byte counts as one of them, because \<^verbatim>\<open>strchr\<close> finds the terminator).
\<close>

theorem sdstrim_trims:
  assumes "sds_ok s" "NUL \<notin> set cs"
  shows "\<exists>s'. sdstrim s (cs @ [NUL]) = Inr s' \<and> sds_ok s' \<and>
      sds_str s' = dropWhile (in_cset cs) (rev (dropWhile (in_cset cs) (rev (sds_str s)))) \<and>
      sdsAllocSize s' = sdsAllocSize s"
  by (rule sdstrim_spec [OF assms]) (auto simp: sdsAllocSize_def add.assoc)

theorem sdstrim_trims_witness:
  "\<exists>s'. sdstrim (sds_of ''AA...xAx.:'') (''Aa. :'' @ [NUL]) = Inr s' \<and> sds_ok s' \<and> sds_str s' = ''xAx'' \<and>
      sdsAllocSize s' = sdsAllocSize (sds_of ''AA...xAx.:'')"
  using sdstrim_trims [of "sds_of ''AA...xAx.:''" "''Aa. :''"] sds_of [of "''AA...xAx.:''"]
  by (simp add: in_cset_def)

section \<open>Round trips\<close>

text \<open>
  C37. Splitting and joining: the tokens \<^verbatim>\<open>sdssplitlen\<close> returns are the bytes before the first occurrence of the separator, before
  the next one behind it and so on, and what is left; none of them holds the separator, the count is their number, and
  \<^verbatim>\<open>sdsjoinsds\<close> with the same separator gives the original bytes back. It returns NULL only if the allocator refused one of its own
  requests: the array, a doubling of it, or the string of one of these tokens.
\<close>

theorem sdssplitlen_join:
  assumes "0 < seplen" "seplen \<le> length sep" "n \<le> length s" "0 < n" "int n < sds_limit"
  shows "case sdssplitlen A s (int n) sep (int seplen) of
      Inl e \<Rightarrow> False
    | Inr (None, c) \<Rightarrow> \<exists>k\<in>split_requests (splits (take seplen sep) (take n s)). \<not> can_alloc A k
    | Inr (Some ts, c) \<Rightarrow> map sds_str ts = splits (take seplen sep) (take n s) \<and> c = Some (int (length ts)) \<and>
        (\<forall>t\<in>set ts. sds_ok t \<and> \<not> contains (sds_str t) (take seplen sep)) \<and>
        ((\<forall>k. can_alloc A k) \<longrightarrow>
          (\<exists>j. sdsjoinsds A ts sep (int seplen) = Inr (Some j) \<and> sds_ok j \<and> sds_str j = take n s))"
proof -
  let ?sp = "take seplen sep"
  have sp: "?sp \<noteq> []" "take (length ?sp) sep = ?sp" "length ?sp = seplen" using assms by auto
  have n: "n < 2 ^ 31" using assms(5) by simp
  show ?thesis
  proof (rule sdssplitlen_spec [OF sp(1,2) assms(3,4) n, of A])
    fix k c assume "k \<in> split_requests (splits ?sp (take n s))" "\<not> can_alloc A k"
      "sdssplitlen A s (int n) sep (int (length ?sp)) = Inr (None, c)"
    then show ?thesis using sp(3) by auto
  next
    fix ts assume ts: "sdssplitlen A s (int n) sep (int (length ?sp)) = Inr (Some ts, Some (int (length ts)))"
      "\<forall>t\<in>set ts. sds_ok t" "map sds_str ts = splits ?sp (take n s)"
    have "\<not> contains (sds_str t) ?sp" if "t \<in> set ts" for t
      using splits_no_separator [OF sp(1), of "sds_str t" "take n s"] that unfolding ts(3) [symmetric] by simp
    moreover have j: "joined ?sp (map sds_str ts) = take n s" unfolding ts(3) by (rule joined_splits)
    have "\<exists>j. sdsjoinsds A ts sep (int seplen) = Inr (Some j) \<and> sds_ok j \<and> sds_str j = take n s"
      if A: "\<forall>k. can_alloc A k"
    proof -
      let ?e = "sds_of []"
      have "sdsempty A = Inr (Some ?e)" using A by (simp add: sdsempty_spec sds_of_def)
      then show ?thesis
        using joinsds_loop_spec [OF A assms(2), of ?e ts] ts(2) j sds_of [of "[]"] assms(3,5)
        by (simp add: sdsjoinsds_def)
    qed
    ultimately show ?thesis using ts sp(3) by simp
  qed
qed

theorem sdssplitlen_join_witness:
  "case sdssplitlen libc ''a--b----'' 8 ''--'' 2 of
      Inl e \<Rightarrow> False
    | Inr (None, c) \<Rightarrow> False
    | Inr (Some ts, c) \<Rightarrow> c = Some 4 \<and> map sds_str ts = [''a'', ''b'', '''', ''''] \<and>
        (\<exists>j. sdsjoinsds libc ts ''--'' 2 = Inr (Some j) \<and> sds_str j = ''a--b----'')"
proof -
  have *: "0 < (2 :: nat)" "2 \<le> length ''--''" "8 \<le> length ''a--b----''" "0 < (8 :: nat)" "int 8 < sds_limit"
    by simp_all
  have t: "splits (take 2 ''--'') (take 8 ''a--b----'') = [''a'', ''b'', '''', '''']" by code_simp
  show ?thesis
    using sdssplitlen_join [OF *, of libc] unfolding t by (auto split: sum.splits option.splits dest: arg_cong [of "map _ _" _ length])
qed

text \<open>
  C36. The quoted representation is read back: when \<^verbatim>\<open>sdscatrepr\<close> prints any bytes (zero
  bytes, quotes and control characters included) into an empty string, \<^verbatim>\<open>sdssplitargs\<close> on
  that string returns one argument, equal to the bytes.
\<close>

theorem sdscatrepr_splitargs:
  assumes "\<forall>k. can_alloc A k" "sds_ok s" "sds_str s = []" "n \<le> length p" "4 * int n + 2 < sds_limit"
  shows "\<exists>s' t. sdscatrepr A s p n = Inr (Some s') \<and> sdssplitargs A (sh_buf s') = Inr (Some [Some t]) \<and>
      sds_ok t \<and> sds_str t = take n p"
proof -
  obtain s' where s': "sdscatrepr A s p n = Inr (Some s')" "sds_ok s'"
      "sds_str s' = CHR 0x22 # concat (map repr1 (take n p)) @ [CHR 0x22]"
    using sdscatrepr_total [OF assms(1,2,4)] assms(3,5) by auto
  obtain u where "sh_buf s' = CHR 0x22 # concat (map repr1 (take n p)) @ CHR 0x22 # NUL # u"
    using sds_buf_prefix [OF s'(2)] s'(3) by auto
  from splitargs_quoted [OF assms(1) _ this] assms(4,5) s'(1) show ?thesis by auto
qed

theorem sdscatrepr_splitargs_witness:
  "\<exists>s' t. sdscatrepr libc (sds_of []) [CHR 0x00, CHR 0x22, CHR 0x0A] 3 = Inr (Some s') \<and>
      sdssplitargs libc (sh_buf s') = Inr (Some [Some t]) \<and> sds_ok t \<and> sds_str t = [CHR 0x00, CHR 0x22, CHR 0x0A]"
  using sdscatrepr_splitargs [of libc "sds_of []" 3 "[CHR 0x00, CHR 0x22, CHR 0x0A]"] sds_of [of "[]"]
  by simp

text \<open>
  C40. The integer printers \<^verbatim>\<open>sdsll2str\<close>, \<^verbatim>\<open>sdsull2str\<close> and \<^verbatim>\<open>sdsfromlonglong\<close> stay inside
  their 21- and 32-byte buffers for every value but \<^verbatim>\<open>LLONG_MIN\<close>, and leave the decimal
  numeral of the value, terminated; \<^verbatim>\<open>sdsfromlonglong\<close> answers NULL exactly when the request for its string is refused.
\<close>

theorem sds_numbers_decimal:
  assumes "21 \<le> length b" "- (2 ^ 63) < v" "v < 2 ^ 63" "0 \<le> u" "u < 2 ^ 64"
  shows "sdsll2str b v = Inr (decimal_int v @ NUL # drop (Suc (length (decimal_int v))) b, int (length (decimal_int v))) \<and>
    sdsull2str b u = Inr (decimal (nat u) @ NUL # drop (Suc (length (decimal (nat u)))) b, int (length (decimal (nat u)))) \<and>
    sdsfromlonglong A v =
      Inr (if can_alloc A (sdshdr_size + int (length (decimal_int v)) + 1) then Some (sds_of (decimal_int v)) else None)"
  using sdsll2str_spec [OF assms(1-3)] sdsull2str_spec [OF assms(1,4,5)] sdsfromlonglong_spec [OF assms(2,3)]
  by (simp add: sds_of_def)

theorem sds_numbers_decimal_witness:
  "sdsll2str (replicate 21 NUL) (- 9223372036854775807) =
     Inr (decimal_int (- 9223372036854775807) @ NUL # drop (Suc (length (decimal_int (- 9223372036854775807)))) (replicate 21 NUL),
       int (length (decimal_int (- 9223372036854775807)))) \<and>
   sdsfromlonglong libc (- 9223372036854775807) = Inr (Some (sds_of (decimal_int (- 9223372036854775807))))"
  using sds_numbers_decimal [of "replicate 21 NUL" "- 9223372036854775807" 18446744073709551615 libc]
  by simp

end
