(* ===== verification/CallbackDict.thy ===== *)
theory CallbackDict
  imports DictMap SdsContract
begin

text \<open>
  The dictionary of pub/sub callbacks of \<^verbatim>\<open>redis/hiredis/async.c\<close>: channel names (dynamic
  strings) to callback records, over the hash table of \<^verbatim>\<open>dict.c\<close>. Its type satisfies the
  interface \<open>hashed_keys\<close>, so the table is a map from channel names to callbacks. The private
  data stands for the heap: the list of blocks the destructors have freed, in order. The
  copy made by \<^verbatim>\<open>callbackValDup\<close> is taken as granted by the allocator.
\<close>

section \<open>The callbacks\<close>

record redisCallback =
  cb_next :: nat
  cb_fn :: nat
  cb_privdata :: nat

datatype freed = FreedKey sds | FreedVal redisCallback

definition callbackHash :: "sds \<Rightarrow> 32 word" where
  "callbackHash key = (case dictGenHashFunction (sh_buf key) (nat (int32 (sdslen key))) of Inl _ \<Rightarrow> 0 | Inr h \<Rightarrow> h)"

definition callbackValDup :: "freed list \<Rightarrow> redisCallback \<Rightarrow> freed list \<times> redisCallback" where
  "callbackValDup privdata src =
     (privdata, \<lparr>cb_next = cb_next src, cb_fn = cb_fn src, cb_privdata = cb_privdata src\<rparr>)"

definition callbackKeyCompare :: "freed list \<Rightarrow> sds \<Rightarrow> sds \<Rightarrow> bool" where
  "callbackKeyCompare privdata key1 key2 =
     (let l1 = int32 (sdslen key1); l2 = int32 (sdslen key2) in
      if l1 \<noteq> l2 then False
      else memcmp (take (nat l1) (sh_buf key1)) (take (nat l1) (sh_buf key2)) = 0)"

definition callbackKeyDestructor :: "freed list \<Rightarrow> sds \<Rightarrow> freed list" where
  "callbackKeyDestructor privdata key = privdata @ [FreedKey key]"

definition callbackValDestructor :: "freed list \<Rightarrow> redisCallback \<Rightarrow> freed list" where
  "callbackValDestructor privdata val = privdata @ [FreedVal val]"

definition callbackDict :: "(sds, redisCallback, freed list) dictType" where
  "callbackDict =
     \<lparr>hashFunction = callbackHash, keyDup = None, valDup = Some callbackValDup,
      keyCompare = Some callbackKeyCompare, keyDestructor = Some callbackKeyDestructor,
      valDestructor = Some callbackValDestructor\<rparr>"

section \<open>The type satisfies the interface\<close>

definition same_name :: "sds \<Rightarrow> sds \<Rightarrow> bool" where
  "same_name k1 k2 \<longleftrightarrow> sds_str k1 = sds_str k2"

lemma int32_sdslen: "sds_ok k \<Longrightarrow> int32 (sdslen k) = int (length (sds_str k))"
  by (erule sds_okE) (simp add: sdslen_def sds_str_def cint)

lemma take_sds: "sds_ok k \<Longrightarrow> take (length (sds_str k)) (sh_buf k) = sds_str k"
  using sds_str_le_buf by blast

lemma callbackHash_str:
  assumes "sds_ok k"
  shows "callbackHash k = gen_hash_loop 5381 (sds_str k)"
  using assms take_sds [OF assms] sds_str_le_buf [OF assms]
  by (simp add: callbackHash_def dictGenHashFunction_def int32_sdslen mem)

lemma callbackKeyCompare_str:
  assumes "sds_ok k1" "sds_ok k2"
  shows "callbackKeyCompare p k1 k2 \<longleftrightarrow> same_name k1 k2"
  using assms take_sds [OF assms(1)] take_sds [OF assms(2)]
  by (auto simp: callbackKeyCompare_def int32_sdslen same_name_def Let_def) (metis memcmp_eq_0)+

lemma dictSetHashVal_callback [simp]: "dictSetHashVal callbackDict p v = (p, v)"
  by (simp add: dictSetHashVal_def callbackDict_def callbackValDup_def)

interpretation channels: hashed_keys callbackDict sds_ok same_name
  by unfold_locales
    (auto simp: dictCompareHashKeys_def callbackDict_def dictSetHashKey_def callbackKeyCompare_str
      callbackHash_str same_name_def)

section \<open>Walking and releasing a table\<close>

text \<open>What an iterator has still to return.\<close>

definition remaining :: "('k, 'v) chain list \<Rightarrow> ('k, 'v) dictIterator \<Rightarrow> ('k, 'v) chain" where
  "remaining t iter =
     (if it_entry iter = [] then [] else it_next iter) @ concat (drop (nat (it_index iter + 1)) t)"

lemma dictNext_remaining:
  assumes "ht_table d = Some t" "ht_size d = int (length t)" "int (length t) < 2 ^ 31" "- 1 \<le> it_index iter"
  shows "\<exists>iter'. dictNext d iter =
      Inr (case remaining t iter of [] \<Rightarrow> None | e # _ \<Rightarrow> Some e, iter') \<and>
    - 1 \<le> it_index iter' \<and> remaining t iter' = tl (remaining t iter)"
  using assms
proof (induction d iter rule: dictNext.induct)
  case (1 ht iter)
  let ?i = "it_index iter + 1"
  have sz: "int32 (ht_size ht) = int (length t)" using "1.prems"(2,3) by (simp add: cint)
  show ?case
  proof (cases "it_entry iter")
    case Nil
    show ?thesis
    proof (cases "?i \<ge> int (length t)")
      case True
      then show ?thesis
        using Nil sz "1.prems"(4) by (subst dictNext.simps) (auto simp: remaining_def)
    next
      case False
      then have i: "nat ?i < length t" "0 \<le> ?i" using "1.prems"(4) by auto
      have slot: "get_slot (ht_table ht) ?i = Inr (t ! nat ?i)" using i "1.prems"(1) by (simp add: get_slot_def)
      have dr: "drop (nat ?i) t = t ! nat ?i # drop (nat (?i + 1)) t"
      proof -
        have "nat (?i + 1) = Suc (nat ?i)" using i(2) by simp
        then show ?thesis using i(1) by (simp only: Cons_nth_drop_Suc)
      qed
      show ?thesis
      proof (cases "t ! nat ?i")
        case cNil: Nil
        have "\<exists>iter'. dictNext ht (iter\<lparr>it_index := ?i, it_entry := []\<rparr>) =
            Inr (case remaining t (iter\<lparr>it_index := ?i, it_entry := []\<rparr>) of [] \<Rightarrow> None | e # _ \<Rightarrow> Some e, iter') \<and>
          - 1 \<le> it_index iter' \<and> remaining t iter' = tl (remaining t (iter\<lparr>it_index := ?i, it_entry := []\<rparr>))"
          using "1.IH"(1) [OF Nil refl _ _ cNil] slot False sz "1.prems" by simp
        moreover have "remaining t (iter\<lparr>it_index := ?i, it_entry := []\<rparr>) = remaining t iter"
          using Nil cNil dr by (simp add: remaining_def)
        ultimately show ?thesis
          using Nil False sz slot cNil by (subst dictNext.simps) simp
      next
        case (Cons e es)
        then show ?thesis
          using Nil False sz slot dr "1.prems"(4) by (subst dictNext.simps) (simp add: remaining_def)
      qed
    qed
  next
    case en: (Cons x xs)
    show ?thesis
    proof (cases "it_next iter")
      case Nil
      have "\<exists>iter'. dictNext ht (iter\<lparr>it_entry := []\<rparr>) =
          Inr (case remaining t (iter\<lparr>it_entry := []\<rparr>) of [] \<Rightarrow> None | e # _ \<Rightarrow> Some e, iter') \<and>
        - 1 \<le> it_index iter' \<and> remaining t iter' = tl (remaining t (iter\<lparr>it_entry := []\<rparr>))"
        using "1.IH"(2) [OF en Nil] "1.prems" by simp
      moreover have "remaining t (iter\<lparr>it_entry := []\<rparr>) = remaining t iter" using en Nil by (simp add: remaining_def)
      ultimately show ?thesis using en Nil by (subst dictNext.simps) simp
    next
      case (Cons e es)
      then show ?thesis using en "1.prems"(4) by (subst dictNext.simps) (simp add: remaining_def)
    qed
  qed
qed

text \<open>\<open>n\<close> calls of \<^verbatim>\<open>dictNext\<close> and what they returned.\<close>

fun iterate :: "nat \<Rightarrow> ('k, 'v, 'p) dict \<Rightarrow> ('k, 'v) dictIterator \<Rightarrow> ('k \<times> 'v) option list res" where
  "iterate 0 d iter = Inr []"
| "iterate (Suc n) d iter =
     bindR (dictNext d iter) (\<lambda>(e, iter). bindR (iterate n d iter) (\<lambda>es. Inr (e # es)))"

lemma iterate_remaining:
  assumes "ht_table d = Some t" "ht_size d = int (length t)" "int (length t) < 2 ^ 31"
  shows "- 1 \<le> it_index iter \<Longrightarrow>
    iterate n d iter = Inr (take n (map Some (remaining t iter)) @ replicate (n - length (remaining t iter)) None)"
proof (induction n arbitrary: iter)
  case (Suc n)
  obtain iter' where "dictNext d iter = Inr (case remaining t iter of [] \<Rightarrow> None | e # _ \<Rightarrow> Some e, iter')"
      "- 1 \<le> it_index iter'" "remaining t iter' = tl (remaining t iter)"
    using dictNext_remaining [OF assms Suc.prems] by blast
  then show ?case using Suc.IH [of iter'] by (cases "remaining t iter") auto
qed simp

lemma clear_chain_fold:
  "0 \<le> used - int (length c) \<Longrightarrow> used < 2 ^ 64 \<Longrightarrow> clear_chain ty c p used =
     (fold (\<lambda>e p. dictFreeEntryVal ty (dictFreeEntryKey ty p (fst e)) (snd e)) c p, used - int (length c))"
  by (induction c arbitrary: p used) (auto simp: cint)

lemma clear_loop_fold:
  "used = int (length (concat (drop i t))) \<Longrightarrow> used < 2 ^ 64 \<Longrightarrow>
     clear_loop ty (Some t) (int (length t)) (int i) p used =
       Inr (fold (\<lambda>e p. dictFreeEntryVal ty (dictFreeEntryKey ty p (fst e)) (snd e)) (concat (drop i t)) p, 0)"
proof (induction "length t - i" arbitrary: i p used)
  case 0
  then show ?case by (subst clear_loop.simps) simp
next
  case (Suc x)
  then have i: "i < length t" by simp
  have dr: "concat (drop i t) = t ! i @ concat (drop (Suc i) t)"
    using i by (simp add: Cons_nth_drop_Suc [symmetric])
  show ?case
  proof (cases "used > 0")
    case False
    then have c: "concat (drop i t) = []" and u: "used = 0" using Suc.prems(1) by simp_all
    show ?thesis unfolding c u by (subst clear_loop.simps) simp
  next
    case True
    have "clear_chain ty (t ! i) p used =
        (fold (\<lambda>e p. dictFreeEntryVal ty (dictFreeEntryKey ty p (fst e)) (snd e)) (t ! i) p, used - int (length (t ! i)))"
      by (rule clear_chain_fold) (use Suc.prems dr in auto)
    then show ?thesis
      using Suc.hyps(1) [of "Suc i"] Suc.hyps(2) Suc.prems True i dr
      by (subst clear_loop.simps) (simp add: get_slot_def add.commute)
  qed
qed

section \<open>The dictionary of callbacks is a map\<close>

text \<open>A dictionary of callbacks as \<^verbatim>\<open>redisAsyncInitialize\<close> creates it, for the witnesses.\<close>

definition no_callbacks :: "(sds, redisCallback, freed list) dict" where
  "no_callbacks = \<lparr>ht_table = None, ht_type = callbackDict, ht_size = 0, ht_sizemask = 0, ht_used = 0, ht_privdata = []\<rparr>"

definition cb1 :: redisCallback where
  "cb1 = \<lparr>cb_next = 0, cb_fn = 7, cb_privdata = 9\<rparr>"

lemma no_callbacks_ok: "dict_ok sds_ok same_name no_callbacks" "ht_type no_callbacks = callbackDict"
  "ht_used no_callbacks = 0" "dictFind no_callbacks k = Inr None"
  by (simp_all add: no_callbacks_def dict_ok_def dictFind_def)

lemma sds_ok_short: "sds_ok (sds_of ''news'')" "sds_ok (sds_of ''chat'')" "\<not> same_name (sds_of ''news'') (sds_of ''chat'')"
  using sds_of by (auto simp: same_name_def)

definition one_callback :: "(sds, redisCallback, freed list) dict" where
  "one_callback = no_callbacks\<lparr>ht_table := Some [[], [], [(sds_of ''a'', cb1)], []],
     ht_size := 4, ht_sizemask := 3, ht_used := 1\<rparr>"

lemma one_callback_ok: "dict_ok sds_ok same_name one_callback" "ht_type one_callback = callbackDict"
  "entries one_callback = [(sds_of ''a'', cb1)]" "ht_size one_callback = 4" "ht_privdata one_callback = []"
proof -
  have a: "sds_ok (sds_of ''a'')" "sds_str (sds_of ''a'') = ''a''" using sds_of [of "''a''"] by simp_all
  have "slot_of callbackDict 3 (sds_of ''a'') = 2"
    using a by (simp add: slot_of_def callbackDict_def callbackHash_str push_bit_eq_mult)
  then have "table_ok callbackDict sds_ok same_name 2 [[], [], [(sds_of ''a'', cb1)], []]"
    using a by (auto simp: table_ok_def less_Suc_eq numeral_eq_Suc)
  then show "dict_ok sds_ok same_name one_callback"
    unfolding dict_ok_def one_callback_def no_callbacks_def
    by (intro disjI2 exI [of _ 2] exI [of _ "[[], [], [(sds_of ''a'', cb1)], []]"]) simp
qed (simp_all add: one_callback_def no_callbacks_def entries_def)

text \<open>
  C20. \<^verbatim>\<open>dictAdd\<close> on the callback dictionary: a new channel name is bound and every other
  binding kept, an existing name is refused with \<^verbatim>\<open>DICT_ERR\<close> and nothing changes; the
  rehashing the call may do is invisible to \<^verbatim>\<open>dictFind\<close>, and the table stays well formed.
\<close>

theorem dictAdd_find:
  assumes "\<forall>n. can_alloc A n" "dict_ok sds_ok same_name d" "ht_type d = callbackDict" "ht_used d < 2 ^ 31"
    "sds_ok k" "sds_ok k'"
  shows "\<exists>r d' e e'. dictAdd A d k v = Inr (r, d') \<and> dict_ok sds_ok same_name d' \<and> ht_type d' = callbackDict \<and>
     r = (if dictFind d k = Inr None then DICT_OK else DICT_ERR) \<and> dictFind d k' = Inr e \<and> dictFind d' k' = Inr e' \<and>
     map_option snd e' = (if r = DICT_OK \<and> same_name k k' then Some v else map_option snd e)"
proof -
  obtain r d' where r: "dictAdd A d k v = Inr (r, d')" "dict_ok sds_ok same_name d'" "ht_type d' = callbackDict"
      "r = (if lookup_entry same_name d k = None then DICT_OK else DICT_ERR)"
      "map_option snd (lookup_entry same_name d' k') =
        (if r = DICT_OK \<and> same_name k k' then Some v else map_option snd (lookup_entry same_name d k'))"
    using channels.dictAdd_map [OF assms(1-5), of v v] assms(6) by auto
  then show ?thesis
    using channels.dictFind_lookup [OF assms(2,3,5)] channels.dictFind_lookup [OF assms(2,3,6)]
      channels.dictFind_lookup [OF r(2,3) assms(6)] by auto
qed

theorem dictAdd_find_witness:
  "\<exists>r d' e'. dictAdd libc no_callbacks (sds_of ''news'') cb1 = Inr (r, d') \<and> r = DICT_OK \<and>
     dictFind d' (sds_of ''news'') = Inr e' \<and> map_option snd e' = Some cb1"
  using dictAdd_find [of libc no_callbacks "sds_of ''news''" "sds_of ''news''" cb1] no_callbacks_ok sds_ok_short
  by (auto simp: same_name_def)

text \<open>
  \<^verbatim>\<open>dictReplace\<close> binds the channel name to the new callback whether or not it was bound,
  answers 1 exactly when it was not, and keeps every other binding.
\<close>

theorem dictReplace_find:
  assumes "\<forall>n. can_alloc A n" "dict_ok sds_ok same_name d" "ht_type d = callbackDict" "ht_used d < 2 ^ 31"
    "sds_ok k" "sds_ok k'"
  shows "\<exists>d' e e'. dictReplace A d k v = Inr (if dictFind d k = Inr None then 1 else 0, d') \<and>
     dict_ok sds_ok same_name d' \<and> ht_type d' = callbackDict \<and> dictFind d k' = Inr e \<and> dictFind d' k' = Inr e' \<and>
     map_option snd e' = (if same_name k k' then Some v else map_option snd e)"
proof -
  obtain r d' where r: "dictReplace A d k v = Inr (r, d')" "dict_ok sds_ok same_name d'" "ht_type d' = callbackDict"
      "r = (if lookup_entry same_name d k = None then 1 else 0)"
      "map_option snd (lookup_entry same_name d' k') =
        (if same_name k k' then Some v else map_option snd (lookup_entry same_name d k'))"
    using channels.dictReplace_map [OF assms(1-5), of v v] assms(6) by auto
  then show ?thesis
    using channels.dictFind_lookup [OF assms(2,3,5)] channels.dictFind_lookup [OF assms(2,3,6)]
      channels.dictFind_lookup [OF r(2,3) assms(6)] by auto
qed

theorem dictReplace_find_witness:
  "\<exists>d' e'. dictReplace libc no_callbacks (sds_of ''news'') cb1 = Inr (1, d') \<and> dictFind d' (sds_of ''chat'') = Inr e' \<and>
     map_option snd e' = None"
  using dictReplace_find [of libc no_callbacks "sds_of ''news''" "sds_of ''chat''" cb1] no_callbacks_ok sds_ok_short
  by auto

text \<open>
  C21. \<^verbatim>\<open>dictDelete\<close> removes the binding of the channel name and no other, answers
  \<^verbatim>\<open>DICT_ERR\<close> exactly when there was none, and never faults on a well-formed table.
\<close>

theorem dictDelete_find:
  assumes "dict_ok sds_ok same_name d" "ht_type d = callbackDict" "sds_ok k" "sds_ok k'"
  shows "\<exists>d' e. dictDelete d k = Inr (if dictFind d k = Inr None then DICT_ERR else DICT_OK, d') \<and>
     dict_ok sds_ok same_name d' \<and> ht_type d' = callbackDict \<and> dictFind d k' = Inr e \<and>
     dictFind d' k' = Inr (if same_name k k' then None else e)"
proof -
  obtain r d' where r: "dictDelete d k = Inr (r, d')" "dict_ok sds_ok same_name d'" "ht_type d' = callbackDict"
      "r = (if lookup_entry same_name d k = None then DICT_ERR else DICT_OK)"
      "lookup_entry same_name d' k' = (if same_name k k' then None else lookup_entry same_name d k')"
    using channels.dictDelete_map [OF assms(1-3)] assms(4) by blast
  then show ?thesis
    using channels.dictFind_lookup [OF assms(1,2,3)] channels.dictFind_lookup [OF assms(1,2,4)]
      channels.dictFind_lookup [OF r(2,3) assms(4)] by auto
qed

theorem dictDelete_find_witness:
  "\<exists>d' e. dictDelete no_callbacks (sds_of ''news'') = Inr (DICT_ERR, d') \<and> dictFind no_callbacks (sds_of ''chat'') = Inr e \<and>
     dictFind d' (sds_of ''chat'') = Inr e"
  using dictDelete_find [of no_callbacks "sds_of ''news''" "sds_of ''chat''"] no_callbacks_ok sds_ok_short
  by auto

text \<open>
  An iterator visits every entry exactly once: the calls of \<^verbatim>\<open>dictNext\<close> from a fresh
  iterator return the entries of the table in slot order and then NULL, for tables of fewer
  than \<open>2 ^ 31\<close> slots (the slot count is compared as an \<^verbatim>\<open>int\<close>).
\<close>

theorem dictNext_visits_all:
  assumes "dict_ok okk eqv d" "ht_size d < 2 ^ 31"
  shows "iterate (length (entries d) + 1) d dictGetIterator = Inr (map Some (entries d) @ [None])"
proof (cases "ht_table d")
  case None
  then have "ht_size d = 0" using assms(1) by (auto simp: dict_ok_def)
  then show ?thesis using None
    by (simp add: entries_def dictGetIterator_def, subst dictNext.simps) (simp add: int32_def)
next
  case (Some t)
  then have "ht_size d = int (length t)" using assms(1) by (auto simp: dict_ok_def table_ok_def)
  moreover have "remaining t dictGetIterator = concat t" by (simp add: remaining_def dictGetIterator_def)
  ultimately show ?thesis
    using iterate_remaining [OF Some, of dictGetIterator "length (entries d) + 1"] assms(2) Some
    by (simp add: entries_def dictGetIterator_def)
qed

theorem dictNext_visits_all_witness:
  "iterate 2 one_callback dictGetIterator = Inr [Some (sds_of ''a'', cb1), None]"
  using dictNext_visits_all [OF one_callback_ok(1)] one_callback_ok by (simp add: numeral_2_eq_2)

text \<open>
  C39. \<^verbatim>\<open>dictRelease\<close> frees the key and the value of every entry exactly once, in slot order,
  and calls no other destructor. (The frees of the entries, of the array of chains and of the
  table have no effect in the model, where these are values.)
\<close>

theorem dictRelease_frees_all:
  assumes "dict_ok sds_ok same_name d" "ht_type d = callbackDict"
  shows "dictRelease d =
    Inr (ht_privdata d @ concat (map (\<lambda>e. [FreedKey (fst e), FreedVal (snd e)]) (entries d)))"
proof -
  let ?f = "\<lambda>e p. dictFreeEntryVal callbackDict (dictFreeEntryKey callbackDict p (fst e)) (snd e)"
  have fold: "fold ?f es p = p @ concat (map (\<lambda>e. [FreedKey (fst e), FreedVal (snd e)]) es)" for es p
    by (induction es arbitrary: p)
      (auto simp: dictFreeEntryVal_def dictFreeEntryKey_def callbackDict_def callbackKeyDestructor_def callbackValDestructor_def)
  have "clear_loop callbackDict (ht_table d) (ht_size d) 0 (ht_privdata d) (ht_used d) =
      Inr (fold ?f (entries d) (ht_privdata d), 0)"
  proof (cases "ht_table d")
    case None
    then have "ht_size d = 0" "ht_used d = 0" using assms(1) by (auto simp: dict_ok_def)
    then show ?thesis using None by (subst clear_loop.simps) (simp add: entries_def)
  next
    case (Some t)
    then obtain n where n: "n \<le> 31" "ht_size d = 2 ^ n" "ht_used d = int (length (concat t))" "ht_used d \<le> ht_size d"
        "length t = 2 ^ n"
      using assms(1) by (auto simp: dict_ok_def table_ok_def)
    have "(2 :: int) ^ n \<le> 2 ^ 31" using n(1) by (intro power_increasing) auto
    then have "ht_used d \<le> 2 ^ 31" using n(2,4) by linarith
    then have "ht_used d < 2 ^ 64" by (rule le_less_trans) simp
    then show ?thesis using clear_loop_fold [of "ht_used d" 0 t] n Some by (simp add: entries_def)
  qed
  then show ?thesis using assms(2) fold by (simp add: dictRelease_def dictClear_def dictReset_def)
qed

theorem dictRelease_frees_all_witness:
  "dictRelease one_callback = Inr [FreedKey (sds_of ''a''), FreedVal cb1]"
  using dictRelease_frees_all [OF one_callback_ok(1,2)] one_callback_ok by simp

end
