(* ===== verification/RecoveryDefs.thy ===== *)
theory RecoveryDefs
  imports Prelude
begin

text \<open>
  The record format of the recovery engines, \<^verbatim>\<open>recovery/recovery_defs.h\<close> and
  \<^verbatim>\<open>recovery/recovery_defs.cc\<close>: the packed \<^verbatim>\<open>Tuple\<close> of a deletion mark, a 64-bit key and ten
  fields of 100 bytes, the conversions between a record's field/value pairs and a tuple, and
  the bytes a tuple occupies in persistent memory and in the disk log.

  C++ exceptions are values like the faults; an \<^verbatim>\<open>assert\<close> that fails aborts.
\<close>

section \<open>Exceptions and string conversions of the C++ library\<close>

datatype exn = InvalidArgument | OutOfRange | RuntimeError string | UtilsException string

datatype err = Fault fault | Exn exn

text \<open>A computation that can only fault, used where exceptions are possible too.\<close>

definition lift :: "'a res \<Rightarrow> err + 'a" where
  "lift m = (case m of Inl e \<Rightarrow> Inl (Fault e) | Inr x \<Rightarrow> Inr x)"

lemma lift_simps [simp]: "lift (Inr x) = Inr x" "lift (Inl e) = Inl (Fault e)"
  by (simp_all add: lift_def)

lemma lift_eq_Inr [simp]: "lift m = Inr x \<longleftrightarrow> m = Inr x"
  by (cases m) auto

text \<open>
  The sign and the digits \<^verbatim>\<open>strtol\<close> and \<^verbatim>\<open>strtoul\<close> read: blanks are skipped, what follows the
  digits is ignored, no digits at all is an \<^verbatim>\<open>invalid_argument\<close>.
\<close>

definition parse_number :: "string \<Rightarrow> exn + bool \<times> nat" where
  "parse_number s =
     (let s = dropWhile isspace s;
          neg = (s \<noteq> [] \<and> hd s = CHR ''-'');
          ds = takeWhile is_digit (if s \<noteq> [] \<and> (hd s = CHR ''-'' \<or> hd s = CHR ''+'') then tl s else s)
      in if ds = [] then Inl InvalidArgument else Inr (neg, num_of 0 ds))"

definition stoi :: "string \<Rightarrow> exn + int" where
  "stoi s =
     bindR (parse_number s) (\<lambda>(neg, n).
     let v = (if neg then - int n else int n) in
     if - (2 ^ 31) \<le> v \<and> v < 2 ^ 31 then Inr v else Inl OutOfRange)"

definition stoul :: "string \<Rightarrow> exn + int" where
  "stoul s =
     bindR (parse_number s) (\<lambda>(neg, n).
     if int n < 2 ^ 64 then Inr (uint64 (if neg then - int n else int n)) else Inl OutOfRange)"

text \<open>\<^verbatim>\<open>s.substr(pos, n)\<close> throws when \<open>pos\<close> is past the end.\<close>

definition substr :: "string \<Rightarrow> nat \<Rightarrow> nat \<Rightarrow> exn + string" where
  "substr s pos n = (if length s < pos then Inl OutOfRange else Inr (take n (drop pos s)))"

definition throws :: "exn + 'a \<Rightarrow> err + 'a" where
  "throws m = (case m of Inl e \<Rightarrow> Inl (Exn e) | Inr x \<Rightarrow> Inr x)"

lemma throws_simps [simp]: "throws (Inr x) = Inr x" "throws (Inl e) = Inl (Exn e)"
  by (simp_all add: throws_def)

text \<open>\<^verbatim>\<open>strncpy(dst, src, n)\<close>: bytes up to the first zero byte, then zero bytes up to \<open>n\<close>.\<close>

definition strncpy :: "bytes \<Rightarrow> bytes \<Rightarrow> nat \<Rightarrow> bytes res" where
  "strncpy dst src n =
     (let t = takeWhile ((\<noteq>) NUL) (take n src) in wrn dst 0 (t @ replicate (n - length t) NUL))"

section \<open>Tuples\<close>

type_synonym kvpair = "string \<times> string"

datatype RecoveryStatus = kFail | kSuccess

abbreviation kFieldSize :: nat where "kFieldSize \<equiv> 100"
abbreviation kNumOfFields :: nat where "kNumOfFields \<equiv> 10"

definition kDefautFieldName :: string where
  "kDefautFieldName = ''field''"

record tuple =
  tp_deleted :: bool
  tp_key :: int
  tp_fields :: "bytes list"

definition Tuple :: tuple where
  "Tuple = \<lparr>tp_deleted = False, tp_key = 0, tp_fields = replicate kNumOfFields (replicate kFieldSize NUL)\<rparr>"

fun raw_loop :: "bytes list \<Rightarrow> nat \<Rightarrow> kvpair list res" where
  "raw_loop [] i = Inr []"
| "raw_loop (f # fs) i =
     bindR (strlen f) (\<lambda>str_len.
     bindR (raw_loop fs (Suc i)) (\<lambda>rest.
     Inr (if str_len > 0 then (''field'' @ decimal i, take (nat str_len) f) # rest else rest)))"

definition RawToDB :: "tuple \<Rightarrow> kvpair list res" where
  "RawToDB t = raw_loop (tp_fields t) 0"

text \<open>One round of the loop of \<^verbatim>\<open>DBToRaw\<close>: the field number is parsed out of the name.\<close>

definition put_field :: "tuple \<Rightarrow> kvpair \<Rightarrow> err + tuple" where
  "put_field t value =
     (let pos = length kDefautFieldName in
      bindR (throws (substr (fst value) pos (length (fst value) - pos))) (\<lambda>sub.
      bindR (throws (stoi sub)) (\<lambda>n.
      let i = uint64 n in
      bindR (lift (assertR (i < int kNumOfFields \<and> length (snd value) \<le> kFieldSize))) (\<lambda>_.
      bindR (lift (strncpy (tp_fields t ! nat i) (snd value) (length (snd value)))) (\<lambda>f.
      Inr (t\<lparr>tp_fields := (tp_fields t)[nat i := f]\<rparr>))))))"

fun raw_of_loop :: "tuple \<Rightarrow> kvpair list \<Rightarrow> err + tuple" where
  "raw_of_loop t [] = Inr t"
| "raw_of_loop t (v # vs) = bindR (put_field t v) (\<lambda>t. raw_of_loop t vs)"

definition DBToRaw :: "kvpair list \<Rightarrow> err + tuple" where
  "DBToRaw values = raw_of_loop Tuple values"

section \<open>The bytes of a packed tuple\<close>

abbreviation sizeof_Tuple :: nat where "sizeof_Tuple \<equiv> 1009"

text \<open>The eight bytes of a \<^verbatim>\<open>uint64_t\<close>, least significant first (x86).\<close>

fun le_bytes :: "nat \<Rightarrow> nat \<Rightarrow> bytes" where
  "le_bytes 0 n = []"
| "le_bytes (Suc m) n = char_of (n mod 256) # le_bytes m (n div 256)"

fun of_le_bytes :: "bytes \<Rightarrow> nat" where
  "of_le_bytes [] = 0"
| "of_le_bytes (c # cs) = of_char c + 256 * of_le_bytes cs"

definition tuple_bytes :: "tuple \<Rightarrow> bytes" where
  "tuple_bytes t =
     (if tp_deleted t then CHR 0x01 else CHR 0x00) # le_bytes 8 (nat (tp_key t)) @ concat (tp_fields t)"

definition tuple_ok :: "tuple \<Rightarrow> bool" where
  "tuple_ok t \<longleftrightarrow> 0 \<le> tp_key t \<and> tp_key t < 2 ^ 64 \<and> length (tp_fields t) = kNumOfFields \<and>
     (\<forall>f\<in>set (tp_fields t). length f = kFieldSize)"

text \<open>Reading a tuple back from its bytes, and a log of tuples.\<close>

fun chunks :: "nat \<Rightarrow> nat \<Rightarrow> bytes \<Rightarrow> bytes list" where
  "chunks 0 k b = []"
| "chunks (Suc n) k b = take k b # chunks n k (drop k b)"

definition tuple_of_bytes :: "bytes \<Rightarrow> tuple" where
  "tuple_of_bytes b =
     \<lparr>tp_deleted = (hd b \<noteq> CHR 0x00), tp_key = int (of_le_bytes (take 8 (drop 1 b))),
      tp_fields = chunks kNumOfFields kFieldSize (drop 9 b)\<rparr>"

definition log_tuples :: "bytes \<Rightarrow> tuple list" where
  "log_tuples b = map tuple_of_bytes (chunks (length b div sizeof_Tuple) sizeof_Tuple b)"

section \<open>Tuples are read back from their bytes\<close>

lemma length_le_bytes [simp]: "length (le_bytes m n) = m"
  by (induction m arbitrary: n) auto

lemma of_le_bytes_le_bytes: "n < 256 ^ m \<Longrightarrow> of_le_bytes (le_bytes m n) = n"
proof (induction m arbitrary: n)
  case (Suc m)
  then have "n div 256 < 256 ^ m" by (simp add: less_mult_imp_div_less mult.commute)
  with Suc.IH show ?case by simp
qed simp

lemma length_concat_fields:
  "\<forall>f\<in>set fs. length f = k \<Longrightarrow> length (concat fs) = length fs * k"
  by (induction fs) auto

lemma chunks_concat: "\<forall>f\<in>set fs. length f = k \<Longrightarrow> chunks (length fs) k (concat fs @ r) = fs"
  by (induction fs) auto

lemma length_tuple_bytes [simp]: "tuple_ok t \<Longrightarrow> length (tuple_bytes t) = sizeof_Tuple"
  using length_concat_fields [of "tp_fields t" kFieldSize] by (simp add: tuple_bytes_def tuple_ok_def)

lemma tuple_of_bytes_tuple_bytes [simp]: "tuple_ok t \<Longrightarrow> tuple_of_bytes (tuple_bytes t) = t"
proof -
  assume t: "tuple_ok t"
  have "nat (tp_key t) < 256 ^ 8" using t by (simp add: tuple_ok_def nat_less_iff)
  then have "of_le_bytes (le_bytes 8 (nat (tp_key t))) = nat (tp_key t)" by (rule of_le_bytes_le_bytes)
  moreover have "chunks kNumOfFields kFieldSize (concat (tp_fields t)) = tp_fields t"
    using t chunks_concat [of "tp_fields t" kFieldSize "[]"] by (simp add: tuple_ok_def)
  ultimately show ?thesis
    using t by (simp add: tuple_of_bytes_def tuple_bytes_def tuple_ok_def)
qed

lemma log_tuples_concat:
  assumes "\<forall>t\<in>set ts. tuple_ok t"
  shows "log_tuples (concat (map tuple_bytes ts)) = ts"
proof -
  have len: "length (concat (map tuple_bytes ts)) = length ts * sizeof_Tuple"
    using assms length_concat_fields [of "map tuple_bytes ts" sizeof_Tuple] by auto
  have "chunks (length ts) sizeof_Tuple (concat (map tuple_bytes ts)) = map tuple_bytes ts"
    using assms chunks_concat [of "map tuple_bytes ts" sizeof_Tuple "[]"] by auto
  moreover have "map (tuple_of_bytes \<circ> tuple_bytes) ts = ts"
    by (rule map_idI) (use assms in simp)
  ultimately show ?thesis by (simp only: log_tuples_def len) simp
qed

section \<open>Records survive the conversion\<close>

definition field_name :: "nat \<Rightarrow> string" where
  "field_name i = ''field'' @ decimal i"

lemma field_name_inject [simp]: "field_name i = field_name j \<longleftrightarrow> i = j"
  by (simp add: field_name_def)

text \<open>Values the fixed-size fields can hold: at most one value for each of the ten fields,
  without zero bytes and within the field's 100 bytes.\<close>

definition storable :: "kvpair list \<Rightarrow> bool" where
  "storable vs \<longleftrightarrow> distinct (map fst vs) \<and>
     (\<forall>(n, v)\<in>set vs. (\<exists>i<kNumOfFields. n = field_name i) \<and> NUL \<notin> set v \<and> length v \<le> kFieldSize)"

lemma parse_decimal: "parse_number (decimal i) = Inr (False, i)"
proof -
  have "is_digit (hd (decimal i))" by (rule decimal_hd_digit)
  then have "dropWhile isspace (decimal i) = decimal i" "hd (decimal i) \<noteq> CHR ''-''" "hd (decimal i) \<noteq> CHR ''+''"
    by (cases "decimal i"; auto simp: is_digit_def isspace_def)+
  moreover have tw: "takeWhile is_digit (decimal i) = decimal i" by (simp add: decimal_digits)
  ultimately show ?thesis unfolding parse_number_def Let_def by (simp add: num_of_decimal tw)
qed

lemma put_field_name:
  assumes "i < kNumOfFields" "length (tp_fields t) = kNumOfFields" "length (tp_fields t ! i) = kFieldSize"
    "NUL \<notin> set v" "length v \<le> kFieldSize"
  shows "put_field t (field_name i, v) =
     Inr (t\<lparr>tp_fields := (tp_fields t)[i := v @ drop (length v) (tp_fields t ! i)]\<rparr>)"
proof -
  have "stoi (decimal i) = Inr (int i)" using assms(1) by (simp add: stoi_def parse_decimal)
  moreover have tw: "takeWhile ((\<noteq>) NUL) v = v" using assms(4) by (auto simp: takeWhile_eq_all_conv)
  ultimately show ?thesis
    using assms by (simp add: put_field_def kDefautFieldName_def substr_def field_name_def Let_def strncpy_def tw cint mem)
qed

text \<open>The bytes of a field that holds \<open>v\<close>.\<close>

definition field_of :: "string option \<Rightarrow> bytes \<Rightarrow> bytes" where
  "field_of v f = (case v of None \<Rightarrow> f | Some v \<Rightarrow> v @ replicate (kFieldSize - length v) NUL)"

lemma raw_of_loop_spec:
  "storable vs \<Longrightarrow> length (tp_fields t) = kNumOfFields \<Longrightarrow> \<forall>f\<in>set (tp_fields t). length f = kFieldSize \<Longrightarrow>
   \<forall>i<kNumOfFields. field_name i \<in> fst ` set vs \<longrightarrow> tp_fields t ! i = replicate kFieldSize NUL \<Longrightarrow>
     raw_of_loop t vs = Inr (t\<lparr>tp_fields := map (\<lambda>i. field_of (map_of vs (field_name i)) (tp_fields t ! i)) [0..<kNumOfFields]\<rparr>)"
proof (induction vs arbitrary: t)
  case Nil
  then have "map (\<lambda>i. tp_fields t ! i) [0..<kNumOfFields] = tp_fields t" by (metis map_nth)
  then show ?case by (simp add: field_of_def)
next
  case (Cons nv vs)
  obtain n v where nv: "nv = (n, v)" by fastforce
  from Cons.prems(1) obtain i where i: "i < kNumOfFields" "n = field_name i" "NUL \<notin> set v" "length v \<le> kFieldSize"
      and vs: "storable vs" "n \<notin> fst ` set vs"
    by (auto simp: storable_def nv)
  have fi: "tp_fields t ! i = replicate kFieldSize NUL" using Cons.prems(4) i(1,2) nv by auto
  let ?t = "t\<lparr>tp_fields := (tp_fields t)[i := field_of (Some v) []]\<rparr>"
  have put: "put_field t (n, v) = Inr ?t"
    using put_field_name [OF i(1) Cons.prems(2) _ i(3,4)] fi i(2) by (simp add: field_of_def)
  have "length f = kFieldSize" if "f \<in> set (tp_fields ?t)" for f
    using that Cons.prems(3) i(4) by (auto simp: field_of_def dest!: set_update_subset_insert [THEN subsetD])
  moreover have "tp_fields ?t ! j = replicate kFieldSize NUL"
    if "j < kNumOfFields" "field_name j \<in> fst ` set vs" for j
  proof -
    have "j \<noteq> i" using that(2) vs(2) i(2) by auto
    then show ?thesis using that Cons.prems(4) nv by auto
  qed
  ultimately have "raw_of_loop ?t vs = Inr (?t\<lparr>tp_fields :=
      map (\<lambda>j. field_of (map_of vs (field_name j)) (tp_fields ?t ! j)) [0..<kNumOfFields]\<rparr>)"
    using vs Cons.prems(2) by (intro Cons.IH) auto
  moreover have "map (\<lambda>j. field_of (map_of vs (field_name j)) (tp_fields ?t ! j)) [0..<kNumOfFields] =
      map (\<lambda>j. field_of (map_of (nv # vs) (field_name j)) (tp_fields t ! j)) [0..<kNumOfFields]"
  proof (rule map_cong [OF refl])
    fix j assume "j \<in> set [0..<kNumOfFields]"
    moreover have "map_of vs (field_name i) = None" using vs(2) i(2) by (simp add: map_of_eq_None_iff)
    ultimately show "field_of (map_of vs (field_name j)) (tp_fields ?t ! j) =
        field_of (map_of (nv # vs) (field_name j)) (tp_fields t ! j)"
      using Cons.prems(2) i nv by (cases "j = i") (auto simp: field_of_def)
  qed
  ultimately show ?case using put nv by simp
qed

lemma DBToRaw_spec:
  assumes "storable vs"
  shows "DBToRaw vs = Inr (Tuple\<lparr>tp_fields :=
     map (\<lambda>i. field_of (map_of vs (field_name i)) (replicate kFieldSize NUL)) [0..<kNumOfFields]\<rparr>)"
proof -
  have "map (\<lambda>i. field_of (map_of vs (field_name i)) (replicate kNumOfFields (replicate kFieldSize NUL) ! i)) [0..<kNumOfFields] =
     map (\<lambda>i. field_of (map_of vs (field_name i)) (replicate kFieldSize NUL)) [0..<kNumOfFields]"
    by (rule map_cong) auto
  then show ?thesis
    using raw_of_loop_spec [OF assms, of Tuple] by (simp add: DBToRaw_def Tuple_def del: upt_rec_numeral)
qed

lemma DBToRaw_ok: "storable vs \<Longrightarrow> \<exists>t. DBToRaw vs = Inr t \<and> tuple_ok t \<and> \<not> tp_deleted t"
proof -
  assume vs: "storable vs"
  have "length (field_of (map_of vs (field_name i)) (replicate kFieldSize NUL)) = kFieldSize" for i
    using vs by (cases "map_of vs (field_name i)") (force simp: field_of_def storable_def dest: map_of_SomeD)+
  then show ?thesis
    using DBToRaw_spec [OF vs] by (auto simp: tuple_ok_def Tuple_def simp del: upt_rec_numeral)
qed

lemma raw_loop_fields:
  assumes "\<forall>(n, v)\<in>set vs. NUL \<notin> set v \<and> v \<noteq> [] \<and> length v < kFieldSize"
  shows "raw_loop (map (\<lambda>i. field_of (map_of vs (field_name i)) (replicate kFieldSize NUL)) [j..<j + m]) j =
     Inr (List.map_filter (\<lambda>i. map_option (Pair (field_name i)) (map_of vs (field_name i))) [j..<j + m])"
proof (induction m arbitrary: j)
  case 0
  then show ?case by (simp add: map_filter_simps)
next
  case (Suc m)
  have up: "[j..<j + Suc m] = j # [Suc j..<Suc j + m]" by (simp add: upt_conv_Cons)
  have rep: "replicate k NUL = NUL # replicate (k - 1) NUL" if "0 < k" for k
    using that by (cases k) auto
  show ?case
  proof (cases "map_of vs (field_name j)")
    case None
    then show ?thesis unfolding up using Suc.IH [of "Suc j"] rep [of kFieldSize]
      by (simp add: map_filter_simps field_of_def del: upt_Suc)
  next
    case (Some v)
    then have v: "NUL \<notin> set v" "v \<noteq> []" "length v < kFieldSize" using assms by (auto dest: map_of_SomeD)
    then have "strlen (field_of (Some v) f) = Inr (int (length v))" for f
      using rep [of "kFieldSize - length v"] by (simp add: field_of_def strlen_append_NUL)
    then show ?thesis unfolding up using Suc.IH [of "Suc j"] Some v
      by (simp add: map_filter_simps field_of_def field_name_def del: upt_Suc)
  qed
qed

text \<open>The pairs of a record in field order, as \<^verbatim>\<open>RawToDB\<close> returns them.\<close>

definition in_field_order :: "kvpair list \<Rightarrow> kvpair list" where
  "in_field_order vs =
     List.map_filter (\<lambda>i. map_option (Pair (field_name i)) (map_of vs (field_name i))) [0..<kNumOfFields]"

lemma RawToDB_DBToRaw:
  assumes "storable vs" "\<forall>(n, v)\<in>set vs. v \<noteq> [] \<and> length v < kFieldSize" "DBToRaw vs = Inr t"
  shows "RawToDB (t\<lparr>tp_key := k\<rparr>) = Inr (in_field_order vs)"
proof -
  have "\<forall>(n, v)\<in>set vs. NUL \<notin> set v \<and> v \<noteq> [] \<and> length v < kFieldSize"
    using assms(1,2) by (auto simp: storable_def)
  from raw_loop_fields [OF this, of 0 kNumOfFields] DBToRaw_spec [OF assms(1)] assms(3) show ?thesis
    by (auto simp: RawToDB_def in_field_order_def simp del: upt_rec_numeral)
qed

end
