(* ===== verification/OsFile.thy ===== *)
theory OsFile
  imports RecoveryDefs
begin

text \<open>
  \<^verbatim>\<open>recovery/os_file.cc\<close>: an append-only file behind a descriptor. The operating system is a
  parameter: whether \<^verbatim>\<open>open\<close> succeeds and what \<^verbatim>\<open>write\<close> answers (\<open>-1\<close> or the number of bytes it
  stored). The world keeps the contents of the files, what an \<^verbatim>\<open>fsync\<close> has made durable, and
  the open descriptors.
\<close>

record os =
  os_open :: "string \<Rightarrow> bool"
  os_write :: "string \<Rightarrow> bytes \<Rightarrow> nat \<Rightarrow> int"

record world =
  disk :: "string \<Rightarrow> bytes"
  durable :: "string \<Rightarrow> bytes"
  open_fds :: "int \<Rightarrow> string option"
  next_fd :: int

record OSFile =
  of_fd :: int

definition OSFile_open :: "os \<Rightarrow> string \<Rightarrow> world \<Rightarrow> err + OSFile \<times> world" where
  "OSFile_open os path w =
     (if os_open os path
      then Inr (\<lparr>of_fd = next_fd w\<rparr>,
                w\<lparr>open_fds := (open_fds w)(next_fd w \<mapsto> path), next_fd := next_fd w + 1\<rparr>)
      else Inl (Exn (RuntimeError ''File Open Failed'')))"

definition OSFile_close :: "OSFile \<Rightarrow> world \<Rightarrow> world" where
  "OSFile_close f w = (if of_fd f \<noteq> - 1 then w\<lparr>open_fds := (open_fds w)(of_fd f := None)\<rparr> else w)"

text \<open>\<^verbatim>\<open>Move\<close>: the descriptor changes hands; the moved-from object is left with \<open>-1\<close>.\<close>

definition OSFile_Move :: "OSFile \<Rightarrow> OSFile \<Rightarrow> OSFile \<times> OSFile" where
  "OSFile_Move this other = (this\<lparr>of_fd := of_fd other\<rparr>, other\<lparr>of_fd := - 1\<rparr>)"

definition OSFile_move_ctor :: "OSFile \<Rightarrow> OSFile \<times> OSFile" where
  "OSFile_move_ctor other = OSFile_Move \<lparr>of_fd = - 1\<rparr> other"

text \<open>Move assignment, told whether both names denote the same object.\<close>

definition OSFile_move_assign :: "bool \<Rightarrow> OSFile \<Rightarrow> OSFile \<Rightarrow> OSFile \<times> OSFile" where
  "OSFile_move_assign same this other = (if \<not> same then OSFile_Move this other else (this, other))"

definition OSFile_Write :: "os \<Rightarrow> OSFile \<Rightarrow> bytes \<Rightarrow> nat \<Rightarrow> world \<Rightarrow> int \<times> world" where
  "OSFile_Write os f data sz w =
     (case open_fds w (of_fd f) of
        None \<Rightarrow> (- 1, w)
      | Some path \<Rightarrow>
          let n = os_write os path (disk w path) sz in
          (int32 n, w\<lparr>disk := (disk w)(path := disk w path @ take (nat n) (take sz data))\<rparr>))"

text \<open>\<^verbatim>\<open>Sync\<close> calls \<^verbatim>\<open>fsync\<close> and returns no value; its callers ignore the result.\<close>

definition OSFile_Sync :: "OSFile \<Rightarrow> world \<Rightarrow> world" where
  "OSFile_Sync f w =
     (case open_fds w (of_fd f) of
        None \<Rightarrow> w
      | Some path \<Rightarrow> w\<lparr>durable := (durable w)(path := disk w path)\<rparr>)"

section \<open>A system that opens the log and stores what it is told to\<close>

definition os_ok :: "os \<Rightarrow> string \<Rightarrow> bool" where
  "os_ok os path \<longleftrightarrow> os_open os path \<and> (\<forall>b n. os_write os path b n = int n)"

definition world_ok :: "world \<Rightarrow> bool" where
  "world_ok w \<longleftrightarrow> 0 \<le> next_fd w"

text \<open>What the log file gains: the tuples written between opening and closing it.\<close>

definition appended :: "string \<Rightarrow> bytes \<Rightarrow> world \<Rightarrow> world \<Rightarrow> bool" where
  "appended path b w w' \<longleftrightarrow> disk w' = (disk w)(path := disk w path @ b) \<and>
     open_fds w' = open_fds w \<and> next_fd w' = next_fd w"

lemma appended_refl [simp]: "appended path [] w w"
  by (simp add: appended_def)

lemma appended_trans: "appended path b w w' \<Longrightarrow> appended path c w' w'' \<Longrightarrow> appended path (b @ c) w w''"
  by (simp add: appended_def)

lemma OSFile_Write_ok:
  assumes "os_ok os path" "open_fds w (of_fd f) = Some path" "length data = n" "n < 2 ^ 31"
  shows "\<exists>w'. OSFile_Write os f data n w = (int n, w') \<and> appended path data w w'"
  using assms by (simp add: OSFile_Write_def os_ok_def appended_def cint)

end
