(* ===== verification/Engine.thy ===== *)
theory Engine
  imports OsFile
begin

text \<open>
  The interface of \<^verbatim>\<open>recovery/recovery_engine.h\<close> and what its clients rely on. An engine keeps
  an image, for every key the tuple a recovery would find last; \<open>PersistUpdate\<close> and
  \<open>PersistDelete\<close> change it at one key. The locale \<open>recovery_engine\<close> is interpreted on the
  log engine and on the block engine.
\<close>

section \<open>The tuple an operation persists\<close>

text \<open>\<^verbatim>\<open>Tuple data = DBToRaw(values); data.key = key;\<close> and the mark of a deletion.\<close>

definition update_tuple :: "int \<Rightarrow> kvpair list \<Rightarrow> err + tuple" where
  "update_tuple k values = bindR (DBToRaw values) (\<lambda>t. Inr (t\<lparr>tp_key := k\<rparr>))"

definition delete_tuple :: "int \<Rightarrow> tuple" where
  "delete_tuple k = Tuple\<lparr>tp_deleted := True, tp_key := k\<rparr>"

lemma delete_tuple_ok [simp]: "0 \<le> k \<Longrightarrow> k < 2 ^ 64 \<Longrightarrow> tuple_ok (delete_tuple k)" "tp_key (delete_tuple k) = k"
  by (auto simp: delete_tuple_def tuple_ok_def Tuple_def)

lemma delete_tuple_fields:
  "Tuple\<lparr>tp_key := k, tp_deleted := True\<rparr> = delete_tuple k" "Tuple\<lparr>tp_deleted := True, tp_key := k\<rparr> = delete_tuple k"
  by (simp_all add: delete_tuple_def Tuple_def)

lemma update_tuple_ok:
  assumes "storable vs" "0 \<le> k" "k < 2 ^ 64"
  shows "\<exists>t. update_tuple k vs = Inr t \<and> tuple_ok t \<and> tp_key t = k \<and> \<not> tp_deleted t"
  using DBToRaw_ok [OF assms(1)] assms(2,3) by (auto simp: update_tuple_def tuple_ok_def)

text \<open>The last tuple of a log that has the key.\<close>

definition latest :: "tuple list \<Rightarrow> int \<Rightarrow> tuple option" where
  "latest ts k = find (\<lambda>t. tp_key t = k) (rev ts)"

lemma latest_Nil [simp]: "latest [] k = None"
  by (simp add: latest_def)

lemma latest_snoc [simp]: "latest (ts @ [t]) = (latest ts)(tp_key t := Some t)"
  by (auto simp: latest_def)

section \<open>The interface\<close>

locale recovery_engine =
  fixes inv :: "'e \<Rightarrow> bool" and image :: "'e \<Rightarrow> int \<Rightarrow> tuple option"
    and update :: "'e \<Rightarrow> int \<Rightarrow> kvpair list \<Rightarrow> err + RecoveryStatus \<times> 'e"
    and delete :: "'e \<Rightarrow> int \<Rightarrow> err + RecoveryStatus \<times> 'e"
  assumes update_law: "inv e \<Longrightarrow> 0 \<le> k \<Longrightarrow> k < 2 ^ 64 \<Longrightarrow> storable vs \<Longrightarrow> update_tuple k vs = Inr t \<Longrightarrow>
      \<exists>e'. update e k vs = Inr (kSuccess, e') \<and> inv e' \<and> image e' = (image e)(k := Some t)"
    and update_error: "update_tuple k vs = Inl x \<Longrightarrow> update e k vs = Inl x"
    and delete_law: "inv e \<Longrightarrow> 0 \<le> k \<Longrightarrow> k < 2 ^ 64 \<Longrightarrow>
      \<exists>e'. delete e k = Inr (kSuccess, e') \<and> inv e' \<and> image e' = (image e)(k := Some (delete_tuple k))"
begin

text \<open>Storing and reading back through the image.\<close>

lemma update_read_back:
  assumes "inv e" "0 \<le> k" "k < 2 ^ 64" "storable vs" "\<forall>(n, v)\<in>set vs. v \<noteq> [] \<and> length v < kFieldSize"
  shows "\<exists>e' t. update e k vs = Inr (kSuccess, e') \<and> inv e' \<and> image e' k = Some t \<and>
      \<not> tp_deleted t \<and> RawToDB t = Inr (in_field_order vs) \<and> (\<forall>k'. k' \<noteq> k \<longrightarrow> image e' k' = image e k')"
proof -
  obtain t where t: "update_tuple k vs = Inr t" "\<not> tp_deleted t" using update_tuple_ok [OF assms(4,2,3)] by blast
  then have "RawToDB t = Inr (in_field_order vs)"
    using RawToDB_DBToRaw [OF assms(4,5)] by (auto simp: update_tuple_def bindR_eq_Inr)
  with update_law [OF assms(1-4) t(1)] t(2) show ?thesis by auto
qed

end

end
