(* ===== verification/NvmLog.thy ===== *)
theory NvmLog
  imports Engine
begin

text \<open>
  \<^verbatim>\<open>recovery/nvmlog_engine.cc\<close>: every update is appended to a persistent-memory log, which is
  copied to the disk log and rewound when the next tuple does not fit. The functions of
  \<^verbatim>\<open>libpmemlog\<close> are a parameter (\<open>pmemlog\<close>); \<open>pmemlog_ok\<close> states what its manual promises of
  them, with \<open>data\<close> the bytes a pool holds.
\<close>

section \<open>The library\<close>

record 'lp pmemlog =
  pmemlog_create :: "string \<Rightarrow> nat \<Rightarrow> 'lp option"
  pmemlog_open :: "string \<Rightarrow> 'lp option"
  pmemlog_nbyte :: "'lp \<Rightarrow> nat"
  pmemlog_append :: "'lp \<Rightarrow> bytes \<Rightarrow> int \<times> 'lp"
  pmemlog_walk_chunks :: "'lp \<Rightarrow> nat \<Rightarrow> bytes list"
  pmemlog_rewind :: "'lp \<Rightarrow> 'lp"

definition pmemlog_ok :: "'lp pmemlog \<Rightarrow> ('lp \<Rightarrow> bytes) \<Rightarrow> bool" where
  "pmemlog_ok api data \<longleftrightarrow>
     (\<forall>p b. if length (data p) + length b \<le> pmemlog_nbyte api p
        then fst (pmemlog_append api p b) = 0 \<and> data (snd (pmemlog_append api p b)) = data p @ b
        else fst (pmemlog_append api p b) < 0 \<and> data (snd (pmemlog_append api p b)) = data p) \<and>
     (\<forall>p b. pmemlog_nbyte api (snd (pmemlog_append api p b)) = pmemlog_nbyte api p) \<and>
     (\<forall>p. data (pmemlog_rewind api p) = [] \<and> pmemlog_nbyte api (pmemlog_rewind api p) = pmemlog_nbyte api p) \<and>
     (\<forall>p k. 0 < k \<longrightarrow> concat (pmemlog_walk_chunks api p k) = data p \<and>
        (\<forall>c\<in>set (pmemlog_walk_chunks api p k). length c \<le> k))"

section \<open>The engine\<close>

definition kPMEMLogPath :: string where "kPMEMLogPath = ''/mnt/mem/pmem_log''"
definition kDiskLogPath :: string where "kDiskLogPath = ''disk_log.txt''"
abbreviation (input) kLogSize :: nat where "kLogSize \<equiv> 125000000"

record 'lp NVMLogEngine =
  log_pool :: "'lp option"
  current_length :: int
  available_bytes :: int

definition NVMLogEngine_ctor :: "'lp option \<Rightarrow> int \<Rightarrow> 'lp NVMLogEngine" where
  "NVMLogEngine_ctor pool n = \<lparr>log_pool = pool, current_length = 0, available_bytes = n\<rparr>"

text \<open>The move constructor and the move assignment: the new and the moved-from engine.\<close>

definition NVMLogEngine_move :: "'lp NVMLogEngine \<Rightarrow> 'lp NVMLogEngine \<times> 'lp NVMLogEngine" where
  "NVMLogEngine_move other =
     (\<lparr>log_pool = log_pool other, current_length = current_length other, available_bytes = available_bytes other\<rparr>,
      other\<lparr>log_pool := None\<rparr>)"

definition NVMLogEngine_move_assign ::
  "bool \<Rightarrow> 'lp NVMLogEngine \<Rightarrow> 'lp NVMLogEngine \<Rightarrow> 'lp NVMLogEngine \<times> 'lp NVMLogEngine" where
  "NVMLogEngine_move_assign same this other =
     (if \<not> same
      then (this\<lparr>log_pool := log_pool other, current_length := current_length other,
                 available_bytes := available_bytes other\<rparr>, other\<lparr>log_pool := None\<rparr>)
      else (this, other))"

definition NVMLogEngine_BuildEngine :: "'lp pmemlog \<Rightarrow> 'lp NVMLogEngine option" where
  "NVMLogEngine_BuildEngine api =
     (let pool = pmemlog_create api kPMEMLogPath kLogSize;
          pool = (if pool = None then pmemlog_open api kPMEMLogPath else pool)
      in case pool of
           None \<Rightarrow> None
         | Some p \<Rightarrow> Some (NVMLogEngine_ctor pool (int (pmemlog_nbyte api p))))"

text \<open>The callback of \<^verbatim>\<open>pmemlog_walk\<close>, and the walk: chunk after chunk while it answers 1.\<close>

definition flush_chunk :: "os \<Rightarrow> OSFile \<Rightarrow> bytes \<Rightarrow> world \<Rightarrow> err + int \<times> world" where
  "flush_chunk os osf buf w =
     (let (count, w) = OSFile_Write os osf buf (length buf) w in
      if uint64 count \<noteq> int (length buf) then Inl (Exn (RuntimeError ''Write error!'')) else Inr (1, w))"

fun walk_loop :: "os \<Rightarrow> OSFile \<Rightarrow> bytes list \<Rightarrow> world \<Rightarrow> err + world" where
  "walk_loop os osf [] w = Inr w"
| "walk_loop os osf (c # cs) w =
     bindR (flush_chunk os osf c w) (\<lambda>(go, w). if go = 0 then Inr w else walk_loop os osf cs w)"

definition log_FlushToDisk ::
  "'lp pmemlog \<Rightarrow> os \<Rightarrow> 'lp NVMLogEngine \<times> world \<Rightarrow> err + 'lp NVMLogEngine \<times> world" where
  "log_FlushToDisk api os ew =
     (let (e, w) = ew in
      bindR (OSFile_open os kDiskLogPath w) (\<lambda>(osf, w).
      case log_pool e of
        None \<Rightarrow> Inl (Fault NullDeref)
      | Some p \<Rightarrow>
          bindR (walk_loop os osf (pmemlog_walk_chunks api p sizeof_Tuple) w) (\<lambda>w.
          let w = OSFile_Sync osf w;
              e = e\<lparr>log_pool := Some (pmemlog_rewind api p), current_length := 0\<rparr>
          in Inr (e, OSFile_close osf w))))"

definition UpdateOnLog ::
  "'lp pmemlog \<Rightarrow> os \<Rightarrow> 'lp NVMLogEngine \<times> world \<Rightarrow> tuple \<Rightarrow> err + RecoveryStatus \<times> 'lp NVMLogEngine \<times> world" where
  "UpdateOnLog api os ew t =
     bindR (if uint64 (current_length (fst ew) + int sizeof_Tuple) > available_bytes (fst ew)
            then log_FlushToDisk api os ew else Inr ew) (\<lambda>(e, w).
     case log_pool e of
       None \<Rightarrow> Inl (Fault NullDeref)
     | Some p \<Rightarrow>
         let (r, p) = pmemlog_append api p (tuple_bytes t); e = e\<lparr>log_pool := Some p\<rparr> in
         if r < 0 then Inr (kFail, e, w)
         else Inr (kSuccess, e\<lparr>current_length := uint64 (current_length e + int sizeof_Tuple)\<rparr>, w))"

definition NVMLogEngine_PersistUpdate where
  "NVMLogEngine_PersistUpdate api os ew k values =
     bindR (DBToRaw values) (\<lambda>t. UpdateOnLog api os ew (t\<lparr>tp_key := k\<rparr>))"

definition NVMLogEngine_PersistDelete where
  "NVMLogEngine_PersistDelete api os ew k =
     UpdateOnLog api os ew (Tuple\<lparr>tp_key := k, tp_deleted := True\<rparr>)"

text \<open>\<^verbatim>\<open>Recover\<close> leaves the tables alone and reports success.\<close>

definition NVMLogEngine_Recover :: "'t \<Rightarrow> RecoveryStatus \<times> 't" where
  "NVMLogEngine_Recover tables = (kSuccess, tables)"

section \<open>The disk log followed by the pool is the history\<close>

text \<open>The engine's history: the tuples on disk followed by those in the pool.\<close>

definition log_history :: "('lp \<Rightarrow> bytes) \<Rightarrow> 'lp NVMLogEngine \<times> world \<Rightarrow> bytes" where
  "log_history data ew =
     disk (snd ew) kDiskLogPath @ (case log_pool (fst ew) of None \<Rightarrow> [] | Some p \<Rightarrow> data p)"

definition log_inv :: "'lp pmemlog \<Rightarrow> ('lp \<Rightarrow> bytes) \<Rightarrow> os \<Rightarrow> 'lp NVMLogEngine \<times> world \<Rightarrow> bool" where
  "log_inv api data os ew \<longleftrightarrow> pmemlog_ok api data \<and> os_ok os kDiskLogPath \<and> world_ok (snd ew) \<and>
     (\<exists>p. log_pool (fst ew) = Some p \<and> current_length (fst ew) = int (length (data p)) \<and>
        available_bytes (fst ew) = int (pmemlog_nbyte api p) \<and> length (data p) \<le> pmemlog_nbyte api p \<and>
        sizeof_Tuple \<le> pmemlog_nbyte api p \<and> int (pmemlog_nbyte api p) < 2 ^ 63) \<and>
     (\<exists>ts. (\<forall>t\<in>set ts. tuple_ok t) \<and> log_history data ew = concat (map tuple_bytes ts))"

definition log_image :: "('lp \<Rightarrow> bytes) \<Rightarrow> 'lp NVMLogEngine \<times> world \<Rightarrow> int \<Rightarrow> tuple option" where
  "log_image data ew = latest (log_tuples (log_history data ew))"

lemma walk_loop_ok:
  assumes "os_ok os path"
  shows "open_fds w (of_fd osf) = Some path \<Longrightarrow> \<forall>c\<in>set cs. length c < 2 ^ 31 \<Longrightarrow>
    \<exists>w'. walk_loop os osf cs w = Inr w' \<and> appended path (concat cs) w w'"
proof (induction cs arbitrary: w)
  case (Cons c cs)
  obtain w1 where w1: "OSFile_Write os osf c (length c) w = (int (length c), w1)" "appended path c w w1"
    using OSFile_Write_ok [OF assms Cons.prems(1), of c "length c"] Cons.prems(2) by auto
  have "uint64 (int (length c)) = int (length c)" using Cons.prems(2) by (simp add: cint)
  moreover obtain w2 where "walk_loop os osf cs w1 = Inr w2" "appended path (concat cs) w1 w2"
    using Cons.IH [of w1] Cons.prems w1(2) by (auto simp: appended_def)
  ultimately show ?case using w1 appended_trans [of path c w w1] by (simp add: flush_chunk_def)
qed simp

lemma log_FlushToDisk_ok:
  assumes "log_inv api data os (e, w)"
  shows "\<exists>e' w' p. log_FlushToDisk api os (e, w) = Inr (e', w') \<and> log_inv api data os (e', w') \<and>
     log_history data (e', w') = log_history data (e, w) \<and> log_pool e' = Some p \<and> data p = [] \<and>
     available_bytes e' = available_bytes e \<and> durable w' kDiskLogPath = log_history data (e, w)"
proof -
  obtain p where p: "log_pool e = Some p" "available_bytes e = int (pmemlog_nbyte api p)"
      "sizeof_Tuple \<le> pmemlog_nbyte api p" "int (pmemlog_nbyte api p) < 2 ^ 63"
    and env: "pmemlog_ok api data" "os_ok os kDiskLogPath" "world_ok w"
    using assms by (auto simp: log_inv_def)
  have open_ok: "os_open os kDiskLogPath" using env(2) by (simp add: os_ok_def)
  define w1 where "w1 = w\<lparr>open_fds := (open_fds w)(next_fd w \<mapsto> kDiskLogPath), next_fd := next_fd w + 1\<rparr>"
  define osf where "osf = \<lparr>of_fd = next_fd w\<rparr>"
  have w1: "OSFile_open os kDiskLogPath w = Inr (osf, w1)"
    using open_ok by (simp add: OSFile_open_def w1_def osf_def)
  let ?cs = "pmemlog_walk_chunks api p sizeof_Tuple"
  have cs: "concat ?cs = data p" "\<forall>c\<in>set ?cs. length c \<le> sizeof_Tuple"
    using env(1) by (auto simp: pmemlog_ok_def)
  then have "\<forall>c\<in>set ?cs. length c < 2 ^ 31" by force
  then obtain w2 where w2: "walk_loop os osf ?cs w1 = Inr w2" "appended kDiskLogPath (data p) w1 w2"
    using walk_loop_ok [OF env(2), of w1 osf ?cs] cs by (auto simp: w1_def osf_def)
  have fd: "open_fds w2 (next_fd w) = Some kDiskLogPath" "of_fd osf \<noteq> - 1"
    using w2(2) env(3) by (auto simp: appended_def w1_def osf_def world_ok_def)
  define w3 where "w3 = OSFile_close osf (OSFile_Sync osf w2)"
  have d3: "disk w3 kDiskLogPath = disk w kDiskLogPath @ data p" "durable w3 kDiskLogPath = disk w kDiskLogPath @ data p"
      "world_ok w3"
    using w2(2) fd env(3) by (auto simp: w3_def OSFile_close_def OSFile_Sync_def appended_def w1_def osf_def world_ok_def)
  let ?e = "e\<lparr>log_pool := Some (pmemlog_rewind api p), current_length := 0\<rparr>"
  have rw: "data (pmemlog_rewind api p) = []" "pmemlog_nbyte api (pmemlog_rewind api p) = pmemlog_nbyte api p"
    using env(1) by (auto simp: pmemlog_ok_def)
  have eq: "log_FlushToDisk api os (e, w) = Inr (?e, w3)"
    using w1 w2(1) p(1) by (simp add: log_FlushToDisk_def w3_def)
  have hist: "log_history data (?e, w3) = log_history data (e, w)"
    using d3(1) rw(1) p(1) by (simp add: log_history_def)
  then have "log_inv api data os (?e, w3)"
    using assms env p rw d3(3) by (auto simp: log_inv_def)
  then show ?thesis using eq hist rw d3(2) p(1) by (auto simp: log_history_def)
qed

lemma UpdateOnLog_ok:
  assumes inv: "log_inv api data os (e, w)" and t: "tuple_ok t"
  shows "\<exists>ew'. UpdateOnLog api os (e, w) t = Inr (kSuccess, ew') \<and> log_inv api data os ew' \<and>
     log_history data ew' = log_history data (e, w) @ tuple_bytes t"
proof -
  have "\<exists>e1 w1 p. (if uint64 (current_length e + int sizeof_Tuple) > available_bytes e
            then log_FlushToDisk api os (e, w) else Inr (e, w)) = Inr (e1, w1) \<and>
      log_inv api data os (e1, w1) \<and> log_history data (e1, w1) = log_history data (e, w) \<and> log_pool e1 = Some p \<and>
      length (data p) + sizeof_Tuple \<le> pmemlog_nbyte api p"
  proof (cases "uint64 (current_length e + int sizeof_Tuple) > available_bytes e")
    case True
    with log_FlushToDisk_ok [OF inv] show ?thesis by (fastforce simp: log_inv_def)
  next
    case False
    then show ?thesis using inv by (auto simp: log_inv_def cint)
  qed
  then obtain e1 w1 p where e1: "(if uint64 (current_length e + int sizeof_Tuple) > available_bytes e
        then log_FlushToDisk api os (e, w) else Inr (e, w)) = Inr (e1, w1)"
      and inv1: "log_inv api data os (e1, w1)" and h1: "log_history data (e1, w1) = log_history data (e, w)"
      and p: "log_pool e1 = Some p" "length (data p) + sizeof_Tuple \<le> pmemlog_nbyte api p"
    by blast
  obtain r p' where ap: "pmemlog_append api p (tuple_bytes t) = (r, p')" by fastforce
  have p': "r = 0" "data p' = data p @ tuple_bytes t" "pmemlog_nbyte api p' = pmemlog_nbyte api p"
  proof -
    have "pmemlog_ok api data" using inv1 by (simp add: log_inv_def)
    then show "r = 0" "data p' = data p @ tuple_bytes t" "pmemlog_nbyte api p' = pmemlog_nbyte api p"
      using ap p(2) t unfolding pmemlog_ok_def by (metis fst_conv snd_conv length_tuple_bytes)+
  qed
  let ?e = "e1\<lparr>log_pool := Some p', current_length := uint64 (current_length e1 + int sizeof_Tuple)\<rparr>"
  have eq: "UpdateOnLog api os (e, w) t = Inr (kSuccess, ?e, w1)"
    using e1 p(1) ap p'(1) by (simp add: UpdateOnLog_def)
  have hist: "log_history data (?e, w1) = log_history data (e, w) @ tuple_bytes t"
    using h1 p(1) p'(2) by (simp add: log_history_def)
  obtain ts where ts: "\<forall>t\<in>set ts. tuple_ok t" "log_history data (e, w) = concat (map tuple_bytes ts)"
    using inv by (auto simp: log_inv_def)
  have "\<exists>ts. (\<forall>t\<in>set ts. tuple_ok t) \<and> log_history data (?e, w1) = concat (map tuple_bytes ts)"
    by (rule exI [of _ "ts @ [t]"]) (use ts t hist in simp)
  moreover have "uint64 (current_length e1 + int sizeof_Tuple) = int (length (data p'))"
    using inv1 p p' t by (auto simp: log_inv_def cint)
  ultimately have "log_inv api data os (?e, w1)" using inv1 p p' t by (auto simp: log_inv_def)
  then show ?thesis using eq hist by blast
qed

lemma log_image_update:
  assumes "log_inv api data os (e, w)" "tuple_ok t"
  shows "\<exists>ew'. UpdateOnLog api os (e, w) t = Inr (kSuccess, ew') \<and> log_inv api data os ew' \<and>
     log_image data ew' = (log_image data (e, w))(tp_key t := Some t)"
proof -
  obtain ew' where ew': "UpdateOnLog api os (e, w) t = Inr (kSuccess, ew')" "log_inv api data os ew'"
      "log_history data ew' = log_history data (e, w) @ tuple_bytes t"
    using UpdateOnLog_ok [OF assms] by blast
  obtain ts where ts: "\<forall>t\<in>set ts. tuple_ok t" "log_history data (e, w) = concat (map tuple_bytes ts)"
    using assms(1) by (auto simp: log_inv_def)
  then have "log_tuples (log_history data (e, w)) = ts" by (simp add: log_tuples_concat)
  moreover have "log_tuples (log_history data ew') = ts @ [t]"
    using ts ew'(3) assms(2) log_tuples_concat [of "ts @ [t]"] by simp
  ultimately show ?thesis using ew' by (simp add: log_image_def)
qed

interpretation log_engine: recovery_engine "log_inv api data os" "log_image data"
  "NVMLogEngine_PersistUpdate api os" "NVMLogEngine_PersistDelete api os" for api data os
proof
  fix e :: "'a NVMLogEngine \<times> world" and k :: int and vs t
  assume e: "log_inv api data os e" and k: "0 \<le> k" "k < 2 ^ 64" and vs: "storable vs" "update_tuple k vs = Inr t"
  obtain d where d: "DBToRaw vs = Inr d" "t = d\<lparr>tp_key := k\<rparr>" using vs(2) by (auto simp: update_tuple_def bindR_eq_Inr)
  have "tuple_ok t" "tp_key t = k" using update_tuple_ok [OF vs(1) k] vs(2) by auto
  then show "\<exists>e'. NVMLogEngine_PersistUpdate api os e k vs = Inr (kSuccess, e') \<and> log_inv api data os e' \<and>
      log_image data e' = (log_image data e)(k := Some t)"
    using log_image_update [of api data os "fst e" "snd e" t] e d by (auto simp: NVMLogEngine_PersistUpdate_def)
next
  fix e :: "'a NVMLogEngine \<times> world" and k :: int
  assume "log_inv api data os e" "0 \<le> k" "k < 2 ^ 64"
  then show "\<exists>e'. NVMLogEngine_PersistDelete api os e k = Inr (kSuccess, e') \<and> log_inv api data os e' \<and>
      log_image data e' = (log_image data e)(k := Some (delete_tuple k))"
    using log_image_update [of api data os "fst e" "snd e" "delete_tuple k"]
    by (simp add: NVMLogEngine_PersistDelete_def delete_tuple_fields)
qed (auto simp: NVMLogEngine_PersistUpdate_def update_tuple_def bindR_eq_Inl)

end
