(* ===== verification/NvmBlk.thy ===== *)
theory NvmBlk
  imports NvmLog
begin

text \<open>
  \<^verbatim>\<open>recovery/nvmblk_engine.cc\<close>: every key owns a block of a persistent-memory block pool, found
  through a volatile table; when all blocks are taken the whole pool is copied to the disk
  log and the table cleared. \<^verbatim>\<open>libpmemblk\<close> is a parameter (\<open>pmemblk\<close>), its documented behaviour
  the predicate \<open>pmemblk_ok\<close> with \<open>blk p i\<close> the bytes of block \<open>i\<close>. Block numbers are \<open>nat\<close>:
  they stay below the number of blocks of the pool.
\<close>

section \<open>The library\<close>

record 'bp pmemblk =
  pmemblk_create :: "string \<Rightarrow> nat \<Rightarrow> nat \<Rightarrow> 'bp option"
  pmemblk_open :: "string \<Rightarrow> nat \<Rightarrow> 'bp option"
  pmemblk_nblock :: "'bp \<Rightarrow> nat"
  pmemblk_write :: "'bp \<Rightarrow> bytes \<Rightarrow> nat \<Rightarrow> int \<times> 'bp"
  pmemblk_read :: "'bp \<Rightarrow> nat \<Rightarrow> int \<times> bytes"

definition pmemblk_ok :: "'bp pmemblk \<Rightarrow> ('bp \<Rightarrow> nat \<Rightarrow> bytes) \<Rightarrow> bool" where
  "pmemblk_ok api blk \<longleftrightarrow>
     (\<forall>p b i. pmemblk_nblock api (snd (pmemblk_write api p b i)) = pmemblk_nblock api p \<and>
        (if i < pmemblk_nblock api p
         then fst (pmemblk_write api p b i) = 0 \<and> blk (snd (pmemblk_write api p b i)) = (blk p)(i := b)
         else fst (pmemblk_write api p b i) < 0 \<and> blk (snd (pmemblk_write api p b i)) = blk p)) \<and>
     (\<forall>p i. if i < pmemblk_nblock api p then pmemblk_read api p i = (0, blk p i)
        else fst (pmemblk_read api p i) < 0)"

section \<open>The engine\<close>

definition kPMEMBlkPath :: string where "kPMEMBlkPath = ''/mnt/mem/pmem_blk''"
abbreviation (input) kBlkPoolSize :: nat where "kBlkPoolSize \<equiv> 200000000"

record 'bp NVMBlkEngine =
  blk_pool :: 'bp
  lookup_table :: "int \<Rightarrow> nat option"
  max_num_blocks :: nat
  next_block :: nat

definition NVMBlkEngine_ctor :: "'bp \<Rightarrow> nat \<Rightarrow> 'bp NVMBlkEngine" where
  "NVMBlkEngine_ctor pool n =
     \<lparr>blk_pool = pool, lookup_table = (\<lambda>_. None), max_num_blocks = n, next_block = 0\<rparr>"

definition NVMBlkEngine_BuildEngine :: "'bp pmemblk \<Rightarrow> 'bp NVMBlkEngine option" where
  "NVMBlkEngine_BuildEngine api =
     (let pool = pmemblk_create api kPMEMBlkPath sizeof_Tuple kBlkPoolSize;
          pool = (if pool = None then pmemblk_open api kPMEMBlkPath sizeof_Tuple else pool)
      in case pool of
           None \<Rightarrow> None
         | Some p \<Rightarrow> Some (NVMBlkEngine_ctor p (pmemblk_nblock api p)))"

text \<open>The copying loop, block \<open>i\<close> of \<open>n\<close>: the result of \<^verbatim>\<open>Write\<close> is dropped.\<close>

function flush_blocks :: "'bp pmemblk \<Rightarrow> os \<Rightarrow> OSFile \<Rightarrow> 'bp \<Rightarrow> nat \<Rightarrow> nat \<Rightarrow> world \<Rightarrow> err + world" where
  "flush_blocks api os osf p i n w =
     (if i < n
      then let (r, current) = pmemblk_read api p i in
           if r < 0 then Inl (Exn (RuntimeError ''Disk flush failed''))
           else flush_blocks api os osf p (Suc i) n (snd (OSFile_Write os osf current sizeof_Tuple w))
      else Inr w)"
  by pat_completeness auto
termination by (relation "measure (\<lambda>(api, os, osf, p, i, n, w). n - i)") auto

declare flush_blocks.simps [simp del]

definition blk_FlushToDisk ::
  "'bp pmemblk \<Rightarrow> os \<Rightarrow> 'bp NVMBlkEngine \<times> world \<Rightarrow> err + 'bp NVMBlkEngine \<times> world" where
  "blk_FlushToDisk api os ew =
     (let (e, w) = ew in
      bindR (OSFile_open os kDiskLogPath w) (\<lambda>(osf, w).
      bindR (flush_blocks api os osf (blk_pool e) 0 (max_num_blocks e) w) (\<lambda>w.
      Inr (e\<lparr>lookup_table := (\<lambda>_. None), next_block := 0\<rparr>, OSFile_close osf (OSFile_Sync osf w)))))"

definition UpdateOnNewBlk ::
  "'bp pmemblk \<Rightarrow> os \<Rightarrow> 'bp NVMBlkEngine \<times> world \<Rightarrow> tuple \<Rightarrow> err + RecoveryStatus \<times> 'bp NVMBlkEngine \<times> world" where
  "UpdateOnNewBlk api os ew t =
     bindR (if next_block (fst ew) = max_num_blocks (fst ew) then blk_FlushToDisk api os ew else Inr ew) (\<lambda>(e, w).
     let (r, p) = pmemblk_write api (blk_pool e) (tuple_bytes t) (next_block e); e = e\<lparr>blk_pool := p\<rparr> in
     if r < 0 then Inr (kFail, e, w)
     else Inr (kSuccess, e\<lparr>lookup_table := (lookup_table e)(tp_key t \<mapsto> next_block e),
                          next_block := next_block e + 1\<rparr>, w))"

definition UpdateOnBlkPosition ::
  "'bp pmemblk \<Rightarrow> 'bp NVMBlkEngine \<times> world \<Rightarrow> tuple \<Rightarrow> nat \<Rightarrow> err + RecoveryStatus \<times> 'bp NVMBlkEngine \<times> world" where
  "UpdateOnBlkPosition api ew t position =
     (let (e, w) = ew; (r, p) = pmemblk_write api (blk_pool e) (tuple_bytes t) position; e = e\<lparr>blk_pool := p\<rparr> in
      if r < 0 then Inr (kFail, e, w) else Inr (kSuccess, e, w))"

definition UpdateTuple ::
  "'bp pmemblk \<Rightarrow> os \<Rightarrow> 'bp NVMBlkEngine \<times> world \<Rightarrow> tuple \<Rightarrow> err + RecoveryStatus \<times> 'bp NVMBlkEngine \<times> world" where
  "UpdateTuple api os ew t =
     (case lookup_table (fst ew) (tp_key t) of
        Some i \<Rightarrow> UpdateOnBlkPosition api ew t i
      | None \<Rightarrow> UpdateOnNewBlk api os ew t)"

definition NVMBlkEngine_PersistUpdate where
  "NVMBlkEngine_PersistUpdate api os ew k values =
     bindR (DBToRaw values) (\<lambda>data. UpdateTuple api os ew (data\<lparr>tp_key := k\<rparr>))"

definition NVMBlkEngine_PersistDelete where
  "NVMBlkEngine_PersistDelete api os ew k =
     UpdateTuple api os ew (Tuple\<lparr>tp_deleted := True, tp_key := k\<rparr>)"

definition NVMBlkEngine_Recover :: "'t \<Rightarrow> RecoveryStatus \<times> 't" where
  "NVMBlkEngine_Recover tables = (kFail, tables)"

section \<open>The image: the disk log followed by the blocks in use\<close>

lemma latest_append: "latest (xs @ ys) k = (case latest ys k of None \<Rightarrow> latest xs k | Some t \<Rightarrow> Some t)"
proof -
  have "find P (us @ vs) = (case find P us of None \<Rightarrow> find P vs | Some t \<Rightarrow> Some t)" for P and us vs :: "tuple list"
    by (induction us) auto
  then show ?thesis unfolding latest_def by simp
qed

lemma latest_SomeD: "latest ts k = Some t \<Longrightarrow> t \<in> set ts \<and> tp_key t = k"
proof -
  have "find P xs = Some x \<Longrightarrow> x \<in> set xs \<and> P x" for P xs and x :: tuple
    by (induction xs) (auto split: if_splits)
  from this [of "\<lambda>t. tp_key t = k" "rev ts" t] show "latest ts k = Some t \<Longrightarrow> t \<in> set ts \<and> tp_key t = k"
    by (simp add: latest_def)
qed

lemma latest_None: "latest ts k = None \<longleftrightarrow> k \<notin> tp_key ` set ts"
  by (auto simp: latest_def find_None_iff)

lemma latest_distinct:
  assumes "distinct (map tp_key ts)" "i < length ts"
  shows "latest ts (tp_key (ts ! i)) = Some (ts ! i)"
proof -
  obtain t where t: "latest ts (tp_key (ts ! i)) = Some t"
    using assms(2) latest_None [of ts "tp_key (ts ! i)"] by fastforce
  then have "t \<in> set ts" "tp_key t = tp_key (ts ! i)" by (auto dest: latest_SomeD)
  then show ?thesis using t assms by (metis distinct_map inj_onD nth_mem)
qed

definition blk_tuples :: "('bp \<Rightarrow> nat \<Rightarrow> bytes) \<Rightarrow> 'bp NVMBlkEngine \<Rightarrow> tuple list" where
  "blk_tuples blk e = map (\<lambda>i. tuple_of_bytes (blk (blk_pool e) i)) [0..<next_block e]"

definition blk_image :: "('bp \<Rightarrow> nat \<Rightarrow> bytes) \<Rightarrow> 'bp NVMBlkEngine \<times> world \<Rightarrow> int \<Rightarrow> tuple option" where
  "blk_image blk ew = latest (log_tuples (disk (snd ew) kDiskLogPath) @ blk_tuples blk (fst ew))"

text \<open>\<open>ts\<close> are the tuples of the blocks in use, each key in one block, the one the table gives.\<close>

definition blocks_hold ::
  "('bp \<Rightarrow> nat \<Rightarrow> bytes) \<Rightarrow> 'bp NVMBlkEngine \<Rightarrow> tuple list \<Rightarrow> bool" where
  "blocks_hold blk e ts \<longleftrightarrow> length ts = next_block e \<and> distinct (map tp_key ts) \<and>
     (\<forall>i<length ts. blk (blk_pool e) i = tuple_bytes (ts ! i) \<and> tuple_ok (ts ! i)) \<and>
     (\<forall>k i. lookup_table e k = Some i \<longleftrightarrow> i < length ts \<and> tp_key (ts ! i) = k)"

definition blk_inv :: "'bp pmemblk \<Rightarrow> ('bp \<Rightarrow> nat \<Rightarrow> bytes) \<Rightarrow> os \<Rightarrow> 'bp NVMBlkEngine \<times> world \<Rightarrow> bool" where
  "blk_inv api blk os ew \<longleftrightarrow> pmemblk_ok api blk \<and> os_ok os kDiskLogPath \<and> world_ok (snd ew) \<and>
     max_num_blocks (fst ew) = pmemblk_nblock api (blk_pool (fst ew)) \<and> 0 < max_num_blocks (fst ew) \<and>
     next_block (fst ew) \<le> max_num_blocks (fst ew) \<and> (\<exists>ts. blocks_hold blk (fst ew) ts) \<and>
     (\<exists>hs. (\<forall>t\<in>set hs. tuple_ok t) \<and> disk (snd ew) kDiskLogPath = concat (map tuple_bytes hs))"

lemma blk_tuples_hold: "blocks_hold blk e ts \<Longrightarrow> blk_tuples blk e = ts"
  by (rule nth_equalityI) (auto simp: blk_tuples_def blocks_hold_def)

lemma flush_blocks_ok:
  assumes "pmemblk_ok api blk" "os_ok os path" "n = pmemblk_nblock api p" "\<forall>i<n. length (blk p i) = sizeof_Tuple"
  shows "open_fds w (of_fd osf) = Some path \<Longrightarrow>
    \<exists>w'. flush_blocks api os osf p i n w = Inr w' \<and> appended path (concat (map (blk p) [i..<n])) w w'"
proof (induction "n - i" arbitrary: i w)
  case 0
  then show ?case by (subst flush_blocks.simps) simp
next
  case (Suc x)
  then have i: "i < n" by simp
  have x: "x = n - Suc i" using Suc.hyps(2) by simp
  have rd: "pmemblk_read api p i = (0, blk p i)" using assms(1,3) i by (auto simp: pmemblk_ok_def)
  obtain w1 where w1: "OSFile_Write os osf (blk p i) sizeof_Tuple w = (int sizeof_Tuple, w1)" "appended path (blk p i) w w1"
    using OSFile_Write_ok [OF assms(2) Suc.prems, of "blk p i" sizeof_Tuple] assms(4) i by auto
  obtain w2 where "flush_blocks api os osf p (Suc i) n w1 = Inr w2" "appended path (concat (map (blk p) [Suc i..<n])) w1 w2"
    using Suc.hyps(1) [OF x, of w1] Suc.prems w1(2) unfolding appended_def by metis
  then show ?case
    using i rd w1 appended_trans [of path "blk p i" w w1]
    by (subst flush_blocks.simps) (simp add: upt_conv_Cons)
qed

lemma blk_FlushToDisk_ok:
  assumes inv: "blk_inv api blk os (e, w)" and full: "next_block e = max_num_blocks e"
  shows "\<exists>e' w'. blk_FlushToDisk api os (e, w) = Inr (e', w') \<and> blk_inv api blk os (e', w') \<and>
     blk_image blk (e', w') = blk_image blk (e, w) \<and> next_block e' = 0 \<and> (\<forall>k. lookup_table e' k = None) \<and>
     durable w' kDiskLogPath = disk w' kDiskLogPath"
proof -
  obtain ts hs where ts: "blocks_hold blk e ts" and hs: "\<forall>t\<in>set hs. tuple_ok t"
      "disk w kDiskLogPath = concat (map tuple_bytes hs)"
    and env: "pmemblk_ok api blk" "os_ok os kDiskLogPath" "world_ok w"
      "max_num_blocks e = pmemblk_nblock api (blk_pool e)" "0 < max_num_blocks e"
    using inv by (auto simp: blk_inv_def)
  define w1 where "w1 = w\<lparr>open_fds := (open_fds w)(next_fd w \<mapsto> kDiskLogPath), next_fd := next_fd w + 1\<rparr>"
  define osf where "osf = \<lparr>of_fd = next_fd w\<rparr>"
  have w1: "OSFile_open os kDiskLogPath w = Inr (osf, w1)"
    using env(2) by (simp add: OSFile_open_def w1_def osf_def os_ok_def)
  have blocks: "map (blk (blk_pool e)) [0..<max_num_blocks e] = map tuple_bytes ts"
    using ts full by (auto simp: blocks_hold_def intro: nth_equalityI)
  have okt: "\<forall>t\<in>set ts. tuple_ok t" using ts by (auto simp: blocks_hold_def in_set_conv_nth)
  obtain w2 where w2: "flush_blocks api os osf (blk_pool e) 0 (max_num_blocks e) w1 = Inr w2"
      "appended kDiskLogPath (concat (map tuple_bytes ts)) w1 w2"
    using flush_blocks_ok [OF env(1,2,4), of w1 osf 0] ts full blocks
    by (auto simp: blocks_hold_def w1_def osf_def)
  have fd: "open_fds w2 (next_fd w) = Some kDiskLogPath" "of_fd osf \<noteq> - 1"
    using w2(2) env(3) by (auto simp: appended_def w1_def osf_def world_ok_def)
  define w3 where "w3 = OSFile_close osf (OSFile_Sync osf w2)"
  have d3: "disk w3 kDiskLogPath = concat (map tuple_bytes (hs @ ts))" "durable w3 kDiskLogPath = disk w3 kDiskLogPath" "world_ok w3"
    using w2(2) fd env(3) hs
    by (auto simp: w3_def OSFile_close_def OSFile_Sync_def appended_def w1_def osf_def world_ok_def)
  let ?e = "e\<lparr>lookup_table := (\<lambda>_. None), next_block := 0\<rparr>"
  have eq: "blk_FlushToDisk api os (e, w) = Inr (?e, w3)"
    using w1 w2(1) by (simp add: blk_FlushToDisk_def w3_def)
  have ht: "\<forall>t\<in>set (hs @ ts). tuple_ok t" using hs okt by auto
  have hold: "blocks_hold blk ?e []" by (simp add: blocks_hold_def)
  have "\<exists>hs. (\<forall>t\<in>set hs. tuple_ok t) \<and> disk w3 kDiskLogPath = concat (map tuple_bytes hs)"
    using ht d3(1) by (intro exI [of _ "hs @ ts"]) simp
  then have "blk_inv api blk os (?e, w3)"
    using env d3(3) hold by (auto simp: blk_inv_def)
  moreover have "blk_image blk (?e, w3) = blk_image blk (e, w)"
    using log_tuples_concat [OF ht] log_tuples_concat [OF hs(1)] d3(1) hs(2) blk_tuples_hold [OF ts] blk_tuples_hold [OF hold]
    by (simp add: blk_image_def)
  ultimately show ?thesis using eq d3(2) by auto
qed

text \<open>Writing a block: the tuple's own, or the next free one.\<close>

lemma pmemblk_write_ok:
  assumes "pmemblk_ok api blk" "i < pmemblk_nblock api p"
  obtains p' where "pmemblk_write api p b i = (0, p')" "blk p' = (blk p)(i := b)" "pmemblk_nblock api p' = pmemblk_nblock api p"
  using assms unfolding pmemblk_ok_def by (metis prod.collapse)

lemma latest_put:
  assumes d: "distinct (map tp_key ts)" and i: "i < length ts" "tp_key (ts ! i) = tp_key t"
  shows "latest (ts[i := t]) = (latest ts)(tp_key t := Some t)"
proof
  fix k
  let ?ts = "ts[i := t]"
  have keys: "map tp_key ?ts = map tp_key ts" using i by (metis list_update_id map_update nth_map)
  then have d': "distinct (map tp_key ?ts)" and set: "tp_key ` set ?ts = tp_key ` set ts"
    using d by (simp, metis set_map)
  show "latest ?ts k = ((latest ts)(tp_key t := Some t)) k"
  proof (cases "latest ts k")
    case None
    then have "k \<notin> tp_key ` set ts" by (simp add: latest_None)
    moreover have "latest ?ts k = None" using None set by (simp add: latest_None)
    moreover have "tp_key t \<in> tp_key ` set ts" using i by (metis image_eqI nth_mem)
    ultimately show ?thesis using None by auto
  next
    case (Some u)
    then obtain j where j: "j < length ts" "u = ts ! j" "k = tp_key (ts ! j)" by (metis latest_SomeD in_set_conv_nth)
    show ?thesis
    proof (cases "j = i")
      case True
      then show ?thesis using latest_distinct [OF d', of i] j(3) i by simp
    next
      case False
      then have "tp_key (ts ! j) \<noteq> tp_key t" using j(1) i d by (metis distinct_conv_nth length_map nth_map)
      then show ?thesis using Some j latest_distinct [OF d', of j] False by simp
    qed
  qed
qed

lemma UpdateOnBlkPosition_ok:
  assumes inv: "blk_inv api blk os (e, w)" and t: "tuple_ok t" and i: "lookup_table e (tp_key t) = Some i"
  shows "\<exists>ew'. UpdateOnBlkPosition api (e, w) t i = Inr (kSuccess, ew') \<and> blk_inv api blk os ew' \<and>
     blk_image blk ew' = (blk_image blk (e, w))(tp_key t := Some t)"
proof -
  obtain ts where ts: "blocks_hold blk e ts" using inv by (auto simp: blk_inv_def)
  have il: "i < length ts" "tp_key (ts ! i) = tp_key t" "length ts = next_block e" "distinct (map tp_key ts)"
    using ts i by (auto simp: blocks_hold_def)
  have "pmemblk_ok api blk" "i < pmemblk_nblock api (blk_pool e)" using inv il by (auto simp: blk_inv_def)
  then obtain p' where p': "pmemblk_write api (blk_pool e) (tuple_bytes t) i = (0, p')"
      "blk p' = (blk (blk_pool e))(i := tuple_bytes t)" "pmemblk_nblock api p' = pmemblk_nblock api (blk_pool e)"
    by (rule pmemblk_write_ok)
  let ?e = "e\<lparr>blk_pool := p'\<rparr>" and ?ts = "ts[i := t]"
  have keys: "map tp_key ?ts = map tp_key ts" using il(1,2) by (metis list_update_id map_update nth_map)
  then have key: "tp_key (?ts ! j) = tp_key (ts ! j)" if "j < length ts" for j
    using that by (metis length_list_update nth_map)
  have hold: "blocks_hold blk ?e ?ts"
    using ts t p'(2) keys key by (auto simp: blocks_hold_def nth_list_update)
  have "latest ?ts = (latest ts)(tp_key t := Some t)" using latest_put il(1,2,4) by blast
  then have "blk_image blk (?e, w) = (blk_image blk (e, w))(tp_key t := Some t)"
    using blk_tuples_hold [OF ts] blk_tuples_hold [OF hold]
    by (auto simp: blk_image_def latest_append fun_eq_iff)
  moreover have "blk_inv api blk os (?e, w)" using inv hold p'(3) by (auto simp: blk_inv_def)
  ultimately show ?thesis using p'(1) by (simp add: UpdateOnBlkPosition_def)
qed

lemma UpdateOnNewBlk_ok:
  assumes inv: "blk_inv api blk os (e, w)" and t: "tuple_ok t" and new: "lookup_table e (tp_key t) = None"
  shows "\<exists>ew'. UpdateOnNewBlk api os (e, w) t = Inr (kSuccess, ew') \<and> blk_inv api blk os ew' \<and>
     blk_image blk ew' = (blk_image blk (e, w))(tp_key t := Some t)"
proof -
  have "\<exists>e1 w1. (if next_block e = max_num_blocks e then blk_FlushToDisk api os (e, w) else Inr (e, w)) = Inr (e1, w1) \<and>
      blk_inv api blk os (e1, w1) \<and> blk_image blk (e1, w1) = blk_image blk (e, w) \<and>
      next_block e1 < max_num_blocks e1 \<and> lookup_table e1 (tp_key t) = None"
  proof (cases "next_block e = max_num_blocks e")
    case True
    then show ?thesis using blk_FlushToDisk_ok [OF inv True] by (fastforce simp: blk_inv_def)
  next
    case False
    then show ?thesis using inv new by (auto simp: blk_inv_def)
  qed
  then obtain e1 w1 where e1: "(if next_block e = max_num_blocks e then blk_FlushToDisk api os (e, w) else Inr (e, w)) = Inr (e1, w1)"
      "blk_inv api blk os (e1, w1)" "blk_image blk (e1, w1) = blk_image blk (e, w)"
      "next_block e1 < max_num_blocks e1" "lookup_table e1 (tp_key t) = None" by blast
  obtain ts where ts: "blocks_hold blk e1 ts" using e1(2) by (auto simp: blk_inv_def)
  have "pmemblk_ok api blk" "next_block e1 < pmemblk_nblock api (blk_pool e1)" using e1(2,4) by (auto simp: blk_inv_def)
  then obtain p' where p': "pmemblk_write api (blk_pool e1) (tuple_bytes t) (next_block e1) = (0, p')"
      "blk p' = (blk (blk_pool e1))(next_block e1 := tuple_bytes t)" "pmemblk_nblock api p' = pmemblk_nblock api (blk_pool e1)"
    by (rule pmemblk_write_ok)
  let ?e = "e1\<lparr>blk_pool := p', lookup_table := (lookup_table e1)(tp_key t \<mapsto> next_block e1), next_block := next_block e1 + 1\<rparr>"
  have notin: "tp_key t \<notin> tp_key ` set ts"
  proof
    assume "tp_key t \<in> tp_key ` set ts"
    then obtain i where "i < length ts" "tp_key (ts ! i) = tp_key t" by (metis imageE in_set_conv_nth)
    then have "lookup_table e1 (tp_key t) = Some i" using ts by (simp add: blocks_hold_def)
    with e1(5) show False by simp
  qed
  have nk: "tp_key (ts ! i) \<noteq> tp_key t" if "i < length ts" for i using notin that by (metis imageI nth_mem)
  have hold: "blocks_hold blk ?e (ts @ [t])"
    unfolding blocks_hold_def
  proof (intro conjI allI impI)
    show "distinct (map tp_key (ts @ [t]))" using ts notin by (auto simp: blocks_hold_def)
  next
    fix k i
    show "lookup_table ?e k = Some i \<longleftrightarrow> i < length (ts @ [t]) \<and> tp_key ((ts @ [t]) ! i) = k"
      using ts nk by (auto simp: blocks_hold_def nth_append)
  qed (use ts t p'(2) in \<open>auto simp: blocks_hold_def nth_append\<close>)
  have "blk_image blk (?e, w1) = (blk_image blk (e1, w1))(tp_key t := Some t)"
    using blk_tuples_hold [OF ts] blk_tuples_hold [OF hold]
    by (simp add: blk_image_def flip: append_assoc)
  moreover have "blk_inv api blk os (?e, w1)" using e1(2,4) hold p'(3) by (auto simp: blk_inv_def)
  moreover have "UpdateOnNewBlk api os (e, w) t = Inr (kSuccess, ?e, w1)"
    using e1(1) p'(1) by (simp add: UpdateOnNewBlk_def)
  ultimately show ?thesis using e1(3) by auto
qed

lemma UpdateTuple_ok:
  assumes "blk_inv api blk os ew" "tuple_ok t"
  shows "\<exists>ew'. UpdateTuple api os ew t = Inr (kSuccess, ew') \<and> blk_inv api blk os ew' \<and>
     blk_image blk ew' = (blk_image blk ew)(tp_key t := Some t)"
  using UpdateOnNewBlk_ok [of api blk os "fst ew" "snd ew" t] UpdateOnBlkPosition_ok [of api blk os "fst ew" "snd ew" t] assms
  by (cases "lookup_table (fst ew) (tp_key t)") (simp_all add: UpdateTuple_def)

interpretation blk_engine: recovery_engine "blk_inv api blk os" "blk_image blk"
  "NVMBlkEngine_PersistUpdate api os" "NVMBlkEngine_PersistDelete api os" for api blk os
proof
  fix e :: "'a NVMBlkEngine \<times> world" and k :: int and vs t
  assume e: "blk_inv api blk os e" and k: "0 \<le> k" "k < 2 ^ 64" and vs: "storable vs" "update_tuple k vs = Inr t"
  obtain d where d: "DBToRaw vs = Inr d" "t = d\<lparr>tp_key := k\<rparr>" using vs(2) by (auto simp: update_tuple_def bindR_eq_Inr)
  have "tuple_ok t" "tp_key t = k" using update_tuple_ok [OF vs(1) k] vs(2) by auto
  then show "\<exists>e'. NVMBlkEngine_PersistUpdate api os e k vs = Inr (kSuccess, e') \<and> blk_inv api blk os e' \<and>
      blk_image blk e' = (blk_image blk e)(k := Some t)"
    using UpdateTuple_ok [OF e, of t] d by (auto simp: NVMBlkEngine_PersistUpdate_def)
next
  fix e :: "'a NVMBlkEngine \<times> world" and k :: int
  assume "blk_inv api blk os e" "0 \<le> k" "k < 2 ^ 64"
  then show "\<exists>e'. NVMBlkEngine_PersistDelete api os e k = Inr (kSuccess, e') \<and> blk_inv api blk os e' \<and>
      blk_image blk e' = (blk_image blk e)(k := Some (delete_tuple k))"
    using UpdateTuple_ok [of api blk os e "delete_tuple k"]
    by (simp add: NVMBlkEngine_PersistDelete_def delete_tuple_fields)
qed (auto simp: NVMBlkEngine_PersistUpdate_def update_tuple_def bindR_eq_Inl)

end
