(* ===== verification/NvmDb.thy ===== *)
theory NvmDb
  imports NvmBlk "HOL-Library.List_Lexorder" "HOL-Library.Char_ord"
begin

text \<open>
  \<^verbatim>\<open>db/nvmdb.cc\<close>: the in-memory tables of records and, behind them, a recovery engine that
  every change is handed to. \<^verbatim>\<open>std::map\<close> is an association list sorted by key (strings in
  byte order), so \<^verbatim>\<open>Scan\<close> sees the records in the order the code does. The engine is reached
  through virtual calls: its two operations are arguments. Every operation holds the
  database's mutex from its first statement on, so concurrent clients see whole operations.
\<close>

section \<open>Ordered maps\<close>

fun map_put :: "'k :: linorder \<Rightarrow> 'v \<Rightarrow> ('k \<times> 'v) list \<Rightarrow> ('k \<times> 'v) list" where
  "map_put k v [] = [(k, v)]"
| "map_put k v ((k', v') # m) =
     (if k < k' then (k, v) # (k', v') # m else if k = k' then (k, v) # m else (k', v') # map_put k v m)"

fun map_erase :: "'k \<Rightarrow> ('k \<times> 'v) list \<Rightarrow> ('k \<times> 'v) list" where
  "map_erase k [] = []"
| "map_erase k ((k', v') # m) = (if k = k' then m else (k', v') # map_erase k m)"

definition map_ok :: "('k :: linorder \<times> 'v) list \<Rightarrow> bool" where
  "map_ok m \<longleftrightarrow> sorted_wrt (<) (map fst m)"

lemma set_map_put: "fst ` set (map_put k v m) = insert k (fst ` set m)"
  by (induction k v m rule: map_put.induct) auto

lemma map_ok_put: "map_ok m \<Longrightarrow> map_ok (map_put k v m)"
proof (induction k v m rule: map_put.induct)
  case (2 k v k' v' m)
  then show ?case using set_map_put [of k v m] by (fastforce simp: map_ok_def)
qed (simp add: map_ok_def)

lemma map_of_put [simp]: "map_of (map_put k v m) = (map_of m)(k \<mapsto> v)"
  by (induction k v m rule: map_put.induct) auto

lemma set_map_erase: "fst ` set (map_erase k m) \<subseteq> fst ` set m"
  by (induction k m rule: map_erase.induct) auto

lemma map_ok_erase: "map_ok m \<Longrightarrow> map_ok (map_erase k m)"
proof (induction k m rule: map_erase.induct)
  case (2 k k' v' m)
  then show ?case using set_map_erase [of k m] by (fastforce simp: map_ok_def)
qed simp

lemma map_of_erase: "map_ok m \<Longrightarrow> map_of (map_erase k m) = (map_of m)(k := None)"
proof (induction k m rule: map_erase.induct)
  case (2 k k' v' m)
  have "map_of m k' = None" using 2(2) by (force simp: map_ok_def map_of_eq_None_iff)
  then show ?case using 2 by (auto simp: map_ok_def fun_eq_iff)
qed simp

section \<open>The database\<close>

type_synonym db_table = "(string \<times> kvpair list) list"

abbreviation (input) kOK :: int where "kOK \<equiv> 0"
abbreviation (input) kErrorNoData :: int where "kErrorNoData \<equiv> 1"
abbreviation (input) kErrorConflict :: int where "kErrorConflict \<equiv> 2"

record 'e engine_ops =
  PersistUpdate :: "'e \<Rightarrow> int \<Rightarrow> kvpair list \<Rightarrow> err + RecoveryStatus \<times> 'e"
  PersistDelete :: "'e \<Rightarrow> int \<Rightarrow> err + RecoveryStatus \<times> 'e"

record 'e NVMDB =
  tables :: "(string \<times> db_table) list"
  rec_engine :: 'e

datatype kNVMDBType = kNVMBlk | kNVMLog | kNVMRec

text \<open>The constructor: the engine built for the type, or an exception when there is none.\<close>

definition NVMDB_ctor :: "(kNVMDBType \<Rightarrow> 'e option) \<Rightarrow> kNVMDBType \<Rightarrow> err + 'e NVMDB" where
  "NVMDB_ctor build ty =
     (case build ty of
        None \<Rightarrow> Inl (Exn (RuntimeError ''NVMDB intance error''))
      | Some e \<Rightarrow> Inr \<lparr>tables = [], rec_engine = e\<rparr>)"

text \<open>The table and the record of a key, when both exist.\<close>

definition FindByTableKey :: "'e NVMDB \<Rightarrow> string \<Rightarrow> string \<Rightarrow> (db_table \<times> kvpair list) option" where
  "FindByTableKey db table k =
     (case map_of (tables db) table of
        None \<Rightarrow> None
      | Some my_table \<Rightarrow> (case map_of my_table k of None \<Rightarrow> None | Some vs \<Rightarrow> Some (my_table, vs)))"

definition FilterByFields :: "kvpair list \<Rightarrow> string list \<Rightarrow> kvpair list" where
  "FilterByFields values flds = filter (\<lambda>v. fst v \<in> set flds) values"

definition NVMDB_Read ::
  "'e NVMDB \<Rightarrow> string \<Rightarrow> string \<Rightarrow> string list option \<Rightarrow> kvpair list \<Rightarrow> int \<times> kvpair list" where
  "NVMDB_Read db table k flds result =
     (case FindByTableKey db table k of
        None \<Rightarrow> (kErrorNoData, result)
      | Some (_, vs) \<Rightarrow> (kOK, case flds of None \<Rightarrow> vs | Some fs \<Rightarrow> FilterByFields vs fs))"

fun scan_loop :: "nat \<Rightarrow> db_table \<Rightarrow> kvpair list list \<Rightarrow> kvpair list list" where
  "scan_loop 0 it result = result"
| "scan_loop (Suc n) [] result = result"
| "scan_loop (Suc n) ((k, vs) # it) result = scan_loop n it (result @ [vs])"

text \<open>\<^verbatim>\<open>Scan\<close> has no \<^verbatim>\<open>return\<close> after its loop. \<open>NVMDB_Scan_body\<close> runs its statements: the value returned, if
  any, and the vector as they leave it. Flowing off the end of the function is undefined, a fault.\<close>

definition NVMDB_Scan_body ::
  "'e NVMDB \<Rightarrow> string \<Rightarrow> string \<Rightarrow> int \<Rightarrow> string list option \<Rightarrow> kvpair list list \<Rightarrow> int option \<times> kvpair list list" where
  "NVMDB_Scan_body db table k record_count flds result =
     (case FindByTableKey db table k of
        None \<Rightarrow> (Some kErrorNoData, result)
      | Some (my_table, _) \<Rightarrow>
          (None, scan_loop (nat record_count) (dropWhile (\<lambda>e. fst e \<noteq> k) my_table) result))"

definition NVMDB_Scan ::
  "'e NVMDB \<Rightarrow> string \<Rightarrow> string \<Rightarrow> int \<Rightarrow> string list option \<Rightarrow> kvpair list list \<Rightarrow> err + int \<times> kvpair list list" where
  "NVMDB_Scan db table k record_count flds result =
     (case NVMDB_Scan_body db table k record_count flds result of
        (Some s, result) \<Rightarrow> Inr (s, result)
      | (None, _) \<Rightarrow> Inl (Fault NoReturn))"

text \<open>One round of the loop of \<^verbatim>\<open>Update\<close>: the first pair of that name, or a new one at the end.\<close>

fun set_value :: "kvpair \<Rightarrow> kvpair list \<Rightarrow> kvpair list" where
  "set_value value [] = [value]"
| "set_value value (s # stored) =
     (if fst s = fst value then (fst s, snd value) # stored else s # set_value value stored)"

definition status_code :: "RecoveryStatus \<Rightarrow> int" where
  "status_code s = (if s = kSuccess then kOK else kErrorConflict)"

definition NVMDB_Update ::
  "'e engine_ops \<Rightarrow> 'e NVMDB \<Rightarrow> string \<Rightarrow> string \<Rightarrow> kvpair list \<Rightarrow> err + int \<times> 'e NVMDB" where
  "NVMDB_Update ops db table k values =
     (case FindByTableKey db table k of
        None \<Rightarrow> Inr (kErrorNoData, db)
      | Some (my_table, stored) \<Rightarrow>
          let stored = fold set_value values stored;
              db = db\<lparr>tables := map_put table (map_put k stored my_table) (tables db)\<rparr>
          in bindR (throws (stoul k)) (\<lambda>n.
             bindR (PersistUpdate ops (rec_engine db) n values) (\<lambda>(s, e).
             Inr (status_code s, db\<lparr>rec_engine := e\<rparr>))))"

definition NVMDB_Insert ::
  "'e engine_ops \<Rightarrow> 'e NVMDB \<Rightarrow> string \<Rightarrow> string \<Rightarrow> kvpair list \<Rightarrow> err + int \<times> 'e NVMDB" where
  "NVMDB_Insert ops db table k values =
     (let my_table = (case map_of (tables db) table of None \<Rightarrow> [] | Some t \<Rightarrow> t);
          db = db\<lparr>tables := map_put table (map_put k values my_table) (tables db)\<rparr>
      in bindR (throws (stoul k)) (\<lambda>n.
         bindR (PersistUpdate ops (rec_engine db) n values) (\<lambda>(s, e).
         Inr (status_code s, db\<lparr>rec_engine := e\<rparr>))))"

definition NVMDB_Delete :: "'e engine_ops \<Rightarrow> 'e NVMDB \<Rightarrow> string \<Rightarrow> string \<Rightarrow> err + int \<times> 'e NVMDB" where
  "NVMDB_Delete ops db table k =
     (case FindByTableKey db table k of
        None \<Rightarrow> Inr (kErrorNoData, db)
      | Some (my_table, _) \<Rightarrow>
          let db = db\<lparr>tables := map_put table (map_erase k my_table) (tables db)\<rparr>
          in bindR (throws (stoul k)) (\<lambda>n.
             bindR (PersistDelete ops (rec_engine db) n) (\<lambda>(s, e).
             Inr (status_code s, db\<lparr>rec_engine := e\<rparr>))))"

section \<open>The tables as a map\<close>

text \<open>From a key on, an ordered map holds the greater keys.\<close>

lemma scan_from:
  fixes m :: "('k :: linorder \<times> 'v) list"
  shows "map_ok m \<Longrightarrow> k \<in> fst ` set m \<Longrightarrow> dropWhile (\<lambda>e. fst e \<noteq> k) m = filter (\<lambda>e. k \<le> fst e) m"
proof (induction m)
  case (Cons e m)
  show ?case
  proof (cases "fst e = k")
    case True
    then have "\<forall>x\<in>set (e # m). k \<le> fst x" using Cons.prems(1) by (force simp: map_ok_def)
    then show ?thesis using True by (simp add: filter_True)
  next
    case False
    then have "k \<in> fst ` set m" using Cons.prems(2) by auto
    then have "fst e < k" using Cons.prems(1) by (auto simp: map_ok_def)
    then show ?thesis using False Cons.IH Cons.prems by (simp add: map_ok_def)
  qed
qed simp

definition db_ok :: "'e NVMDB \<Rightarrow> bool" where
  "db_ok db \<longleftrightarrow> map_ok (tables db) \<and> (\<forall>t\<in>snd ` set (tables db). map_ok t)"

definition db_get :: "'e NVMDB \<Rightarrow> string \<Rightarrow> string \<Rightarrow> kvpair list option" where
  "db_get db table k = (case map_of (tables db) table of None \<Rightarrow> None | Some t \<Rightarrow> map_of t k)"

lemma FindByTableKey_get: "map_option snd (FindByTableKey db table k) = db_get db table k"
  by (simp add: FindByTableKey_def db_get_def split: option.splits)

lemma FindByTableKey_None: "FindByTableKey db table k = None \<longleftrightarrow> db_get db table k = None"
  by (simp add: FindByTableKey_def db_get_def split: option.splits)

lemma FindByTableKey_Some:
  "FindByTableKey db table k = Some (t, vs) \<longleftrightarrow> map_of (tables db) table = Some t \<and> map_of t k = Some vs"
  by (auto simp: FindByTableKey_def split: option.splits)

lemma db_ok_table: "db_ok db \<Longrightarrow> map_of (tables db) table = Some t \<Longrightarrow> map_ok t"
  by (force simp: db_ok_def dest: map_of_SomeD)

lemma snd_set_map_put: "snd ` set (map_put k v m) \<subseteq> insert v (snd ` set m)"
  by (induction k v m rule: map_put.induct) auto

lemma db_ok_put: "db_ok db \<Longrightarrow> map_ok t \<Longrightarrow> db_ok (db\<lparr>tables := map_put table t (tables db)\<rparr>)"
proof -
  assume db: "db_ok db" "map_ok t"
  have "map_ok u" if "u \<in> snd ` set (map_put table t (tables db))" for u
    using that snd_set_map_put [of table t "tables db"] db unfolding db_ok_def by blast
  then show ?thesis using db by (simp add: db_ok_def map_ok_put)
qed

lemma db_get_put:
  "db_get (db\<lparr>tables := map_put table t (tables db)\<rparr>) table' = (if table' = table then map_of t else db_get db table')"
  by (auto simp: db_get_def fun_eq_iff)

lemma scan_loop_take: "scan_loop n it result = result @ map snd (take n it)"
  by (induction n it result rule: scan_loop.induct) auto

lemma map_of_set_value:
  "map_of (set_value v stored) = (map_of stored)(fst v \<mapsto> snd v)"
  by (induction stored) (auto simp: fun_eq_iff)

lemma map_of_fold_set_value:
  "map_of (fold set_value vs stored) = map_of stored ++ map_of (rev vs)"
  by (induction vs arbitrary: stored) (auto simp: map_of_set_value fun_eq_iff map_add_def split: option.splits)

lemma set_value_keys: "map fst (set_value v stored) = map fst stored @ (if fst v \<in> fst ` set stored then [] else [fst v])"
  by (induction stored) auto

section \<open>The operations over any engine that keeps its interface\<close>

text \<open>The engine's two entry points, as the database calls them.\<close>

definition ops_of ::
  "('e \<Rightarrow> int \<Rightarrow> kvpair list \<Rightarrow> err + RecoveryStatus \<times> 'e) \<Rightarrow> ('e \<Rightarrow> int \<Rightarrow> err + RecoveryStatus \<times> 'e) \<Rightarrow> 'e engine_ops" where
  "ops_of update delete = \<lparr>PersistUpdate = update, PersistDelete = delete\<rparr>"

lemma stoul_range: "stoul k = Inr n \<Longrightarrow> 0 \<le> n \<and> n < 2 ^ 64"
  by (auto simp: stoul_def bindR_eq_Inr uint64_def split: if_splits prod.splits)

context recovery_engine
begin

lemma Insert_ok:
  assumes "inv (rec_engine db)" "db_ok db" "stoul k = Inr n" "storable vs" "update_tuple n vs = Inr t"
  shows "\<exists>db'. NVMDB_Insert (ops_of update delete) db table k vs = Inr (kOK, db') \<and> inv (rec_engine db') \<and> db_ok db' \<and>
     (\<forall>table' k'. db_get db' table' k' = (if table' = table \<and> k' = k then Some vs else db_get db table' k')) \<and>
     image (rec_engine db') = (image (rec_engine db))(n := Some t)"
proof -
  let ?t = "case map_of (tables db) table of None \<Rightarrow> [] | Some t \<Rightarrow> t"
  let ?db = "db\<lparr>tables := map_put table (map_put k vs ?t) (tables db)\<rparr>"
  obtain e' where e': "update (rec_engine db) n vs = Inr (kSuccess, e')" "inv e'"
      "image e' = (image (rec_engine db))(n := Some t)"
    using update_law [OF assms(1) _ _ assms(4,5)] stoul_range [OF assms(3)] by blast
  have "map_ok ?t" using assms(2) by (auto simp: map_ok_def db_ok_table [unfolded map_ok_def] split: option.split)
  then have "db_ok ?db" by (intro db_ok_put assms(2) map_ok_put)
  moreover have "NVMDB_Insert (ops_of update delete) db table k vs = Inr (kOK, ?db\<lparr>rec_engine := e'\<rparr>)"
    using assms(3) e'(1) by (simp add: NVMDB_Insert_def ops_of_def status_code_def Let_def)
  moreover have "db_get ?db table' k' = (if table' = table \<and> k' = k then Some vs else db_get db table' k')" for table' k'
    unfolding db_get_put by (auto simp: db_get_def split: option.splits)
  ultimately show ?thesis
    using e'(2,3) by (intro exI [of _ "?db\<lparr>rec_engine := e'\<rparr>"]) (simp add: db_ok_def db_get_def)
qed

lemma Update_ok:
  assumes "inv (rec_engine db)" "db_ok db" "stoul k = Inr n" "storable vs" "update_tuple n vs = Inr t"
    and stored: "db_get db table k = Some stored"
  shows "\<exists>db'. NVMDB_Update (ops_of update delete) db table k vs = Inr (kOK, db') \<and> inv (rec_engine db') \<and> db_ok db' \<and>
     (\<forall>table' k'. db_get db' table' k' =
        (if table' = table \<and> k' = k then Some (fold set_value vs stored) else db_get db table' k')) \<and>
     image (rec_engine db') = (image (rec_engine db))(n := Some t)"
proof -
  obtain u where u: "map_of (tables db) table = Some u" "map_of u k = Some stored"
    using stored by (auto simp: db_get_def split: option.splits)
  let ?db = "db\<lparr>tables := map_put table (map_put k (fold set_value vs stored) u) (tables db)\<rparr>"
  obtain e' where e': "update (rec_engine db) n vs = Inr (kSuccess, e')" "inv e'"
      "image e' = (image (rec_engine db))(n := Some t)"
    using update_law [OF assms(1) _ _ assms(4,5)] stoul_range [OF assms(3)] by blast
  have "db_ok ?db" by (intro db_ok_put assms(2) map_ok_put db_ok_table [OF assms(2) u(1)])
  moreover have "NVMDB_Update (ops_of update delete) db table k vs = Inr (kOK, ?db\<lparr>rec_engine := e'\<rparr>)"
    using assms(3) e'(1) u by (simp add: NVMDB_Update_def FindByTableKey_def ops_of_def status_code_def Let_def)
  moreover have "db_get ?db table' k' =
      (if table' = table \<and> k' = k then Some (fold set_value vs stored) else db_get db table' k')" for table' k'
    unfolding db_get_put using u by (auto simp: db_get_def)
  ultimately show ?thesis
    using e'(2,3) by (intro exI [of _ "?db\<lparr>rec_engine := e'\<rparr>"]) (simp add: db_ok_def db_get_def)
qed

lemma Delete_ok:
  assumes "inv (rec_engine db)" "db_ok db" "stoul k = Inr n" "db_get db table k \<noteq> None"
  shows "\<exists>db'. NVMDB_Delete (ops_of update delete) db table k = Inr (kOK, db') \<and> inv (rec_engine db') \<and> db_ok db' \<and>
     (\<forall>table' k'. db_get db' table' k' = (if table' = table \<and> k' = k then None else db_get db table' k')) \<and>
     image (rec_engine db') = (image (rec_engine db))(n := Some (delete_tuple n))"
proof -
  obtain u vs where u: "map_of (tables db) table = Some u" "map_of u k = Some vs"
    using assms(4) by (auto simp: db_get_def split: option.splits)
  let ?db = "db\<lparr>tables := map_put table (map_erase k u) (tables db)\<rparr>"
  obtain e' where e': "delete (rec_engine db) n = Inr (kSuccess, e')" "inv e'"
      "image e' = (image (rec_engine db))(n := Some (delete_tuple n))"
    using delete_law [OF assms(1)] stoul_range [OF assms(3)] by blast
  have ok: "map_ok u" by (rule db_ok_table [OF assms(2) u(1)])
  then have "db_ok ?db" by (intro db_ok_put assms(2) map_ok_erase)
  moreover have "NVMDB_Delete (ops_of update delete) db table k = Inr (kOK, ?db\<lparr>rec_engine := e'\<rparr>)"
    using assms(3) e'(1) u by (simp add: NVMDB_Delete_def FindByTableKey_def ops_of_def status_code_def Let_def)
  moreover have "db_get ?db table' k' = (if table' = table \<and> k' = k then None else db_get db table' k')" for table' k'
    unfolding db_get_put using u map_of_erase [OF ok] by (auto simp: db_get_def)
  ultimately show ?thesis
    using e'(2,3) by (intro exI [of _ "?db\<lparr>rec_engine := e'\<rparr>"]) (simp add: db_ok_def db_get_def)
qed

end

end
