(* ===== verification/EngineContract.thy ===== *)
theory EngineContract
  imports NvmDb
begin

text \<open>
  What the recovery engines promise: records survive the conversion to tuples, tuples survive
  in the log, and after any update the image of an engine, the disk log followed by the
  persistent memory, holds the new tuple and all others. The witnesses run on libraries
  whose pools are plain byte lists and block arrays.
\<close>

section \<open>Libraries that behave as documented\<close>

definition mem_log :: "(nat \<times> bytes) pmemlog" where
  "mem_log = \<lparr>pmemlog_create = (\<lambda>_ n. Some (n, [])), pmemlog_open = (\<lambda>_. None), pmemlog_nbyte = fst,
     pmemlog_append = (\<lambda>p x. if length (snd p) + length x \<le> fst p then (0, fst p, snd p @ x) else (- 1, p)),
     pmemlog_walk_chunks = (\<lambda>p k. chunks (length (snd p) div k + 1) k (snd p)),
     pmemlog_rewind = (\<lambda>p. (fst p, []))\<rparr>"

definition mem_blk :: "(nat \<times> (nat \<Rightarrow> bytes)) pmemblk" where
  "mem_blk = \<lparr>pmemblk_create = (\<lambda>_ _ n. Some (n, \<lambda>_. [])), pmemblk_open = (\<lambda>_ _. None), pmemblk_nblock = fst,
     pmemblk_write = (\<lambda>p b i. if i < fst p then (0, fst p, (snd p)(i := b)) else (- 1, p)),
     pmemblk_read = (\<lambda>p i. if i < fst p then (0, snd p i) else (- 1, []))\<rparr>"

definition posix :: os where
  "posix = \<lparr>os_open = (\<lambda>_. True), os_write = (\<lambda>_ _ n. int n)\<rparr>"

definition boot :: world where
  "boot = \<lparr>disk = (\<lambda>_. []), durable = (\<lambda>_. []), open_fds = (\<lambda>_. None), next_fd = 3\<rparr>"

lemma concat_chunks: "concat (chunks m k b) = take (m * k) b"
proof (induction m arbitrary: b)
  case (Suc m)
  have "take (Suc m * k) b = take k b @ take (m * k) (drop k b)" by (simp add: take_add)
  then show ?case using Suc by simp
qed simp

lemma length_chunk: "c \<in> set (chunks m k b) \<Longrightarrow> length c \<le> k"
  by (induction m arbitrary: b) auto

lemma mem_log_ok: "pmemlog_ok mem_log snd"
proof -
  have whole: "concat (chunks (Suc (length b div n)) n b) = b" if "0 < n" for n b
    unfolding concat_chunks using that dividend_less_div_times [of n "length b"] by simp
  show ?thesis
    unfolding pmemlog_ok_def mem_log_def using length_chunk
    by (auto simp: whole simp del: chunks.simps)
qed

lemma mem_blk_ok: "pmemblk_ok mem_blk snd"
  by (auto simp: pmemblk_ok_def mem_blk_def)

lemma posix_ok: "os_ok posix path" "world_ok boot"
  by (simp_all add: os_ok_def posix_def world_ok_def boot_def)

definition log0 :: "(nat \<times> bytes) NVMLogEngine \<times> world" where
  "log0 = (NVMLogEngine_ctor (Some (2000, [])) 2000, boot)"

definition blk0 :: "(nat \<times> (nat \<Rightarrow> bytes)) NVMBlkEngine \<times> world" where
  "blk0 = (NVMBlkEngine_ctor (1, \<lambda>_. []) 1, boot)"

lemma log0_inv: "log_inv mem_log snd posix log0"
proof -
  have "\<exists>ts. (\<forall>t\<in>set ts. tuple_ok t) \<and> log_history snd log0 = concat (map tuple_bytes ts)"
    by (rule exI [of _ "[]"]) (simp add: log0_def NVMLogEngine_ctor_def log_history_def boot_def)
  then show ?thesis
    using mem_log_ok posix_ok by (simp add: log_inv_def log0_def NVMLogEngine_ctor_def mem_log_def)
qed

lemma blk0_inv: "blk_inv mem_blk snd posix blk0"
proof -
  have "\<exists>hs. (\<forall>t\<in>set hs. tuple_ok t) \<and> disk (snd blk0) kDiskLogPath = concat (map tuple_bytes hs)"
    by (rule exI [of _ "[]"]) (simp add: blk0_def boot_def)
  moreover have "blocks_hold snd (fst blk0) []" by (simp add: blk0_def NVMBlkEngine_ctor_def blocks_hold_def)
  ultimately show ?thesis
    using mem_blk_ok posix_ok by (auto simp: blk_inv_def blk0_def NVMBlkEngine_ctor_def mem_blk_def)
qed

definition rec1 :: "kvpair list" where
  "rec1 = [(''field3'', ''abc''), (''field0'', ''xyz'')]"

lemma decimal_small: "decimal 0 = ''0''" "decimal 3 = ''3''"
  by code_simp+

lemma rec1_storable: "storable rec1" "\<forall>(n, v)\<in>set rec1. v \<noteq> [] \<and> length v < kFieldSize"
proof -
  have "''field3'' = field_name 3" "''field0'' = field_name 0" by (simp_all add: field_name_def decimal_small)
  then have "\<exists>i<kNumOfFields. ''field3'' = field_name i" "\<exists>i<kNumOfFields. ''field0'' = field_name i"
    by (intro exI [of _ 3]; simp) (intro exI [of _ 0]; simp add: \<open>''field0'' = field_name 0\<close>)
  then show "storable rec1" by (simp add: storable_def rec1_def)
qed (simp add: rec1_def)

section \<open>Records and tuples\<close>

text \<open>
  C25. A record is read back from its tuple: for field names \<^verbatim>\<open>field0\<close> to \<^verbatim>\<open>field9\<close>, each at most
  once, and non-empty values of less than 100 bytes without a zero byte, \<^verbatim>\<open>DBToRaw\<close> succeeds and
  \<^verbatim>\<open>RawToDB\<close> of the tuple is the record with its pairs in field order, whatever key is stored.
\<close>

theorem RawToDB_reads_back:
  assumes "storable vs" "\<forall>(n, v)\<in>set vs. v \<noteq> [] \<and> length v < kFieldSize"
  shows "\<exists>t. DBToRaw vs = Inr t \<and> RawToDB (t\<lparr>tp_key := k\<rparr>) = Inr (in_field_order vs) \<and>
     map_of (in_field_order vs) = map_of vs"
proof -
  obtain t where t: "DBToRaw vs = Inr t" using DBToRaw_ok [OF assms(1)] by blast
  have "map_of (in_field_order vs) n = map_of vs n" for n
  proof (cases "\<exists>i<kNumOfFields. n = field_name i")
    case True
    then obtain i where i: "i < kNumOfFields" "n = field_name i" by blast
    have "map_of (List.map_filter (\<lambda>i. map_option (Pair (field_name i)) (map_of vs (field_name i))) is) (field_name i) =
        (if i \<in> set is then map_of vs (field_name i) else None)" for "is"
      by (induction "is") (auto simp: map_filter_simps split: option.splits)
    then show ?thesis using i by (simp add: in_field_order_def del: upt_rec_numeral)
  next
    case False
    have notin: "n \<notin> fst ` set (List.map_filter (\<lambda>i. map_option (Pair (field_name i)) (map_of vs (field_name i))) is)"
      if "set is \<subseteq> {..<kNumOfFields}" for "is"
      using that False by (induction "is") (auto simp: map_filter_simps split: option.splits)
    have "n \<notin> fst ` set (in_field_order vs)" unfolding in_field_order_def by (rule notin) auto
    moreover have "n \<notin> fst ` set vs" using assms(1) False by (fastforce simp: storable_def)
    ultimately show ?thesis by (simp add: map_of_eq_None_iff [THEN iffD2])
  qed
  then show ?thesis using RawToDB_DBToRaw [OF assms t] t by auto
qed

theorem RawToDB_reads_back_witness:
  "\<exists>t. DBToRaw rec1 = Inr t \<and> RawToDB (t\<lparr>tp_key := 7\<rparr>) = Inr (in_field_order rec1) \<and>
     map_of (in_field_order rec1) = map_of rec1"
  using RawToDB_reads_back [OF rec1_storable] .

text \<open>
  The packed bytes of tuples are uniquely readable: a log of tuples, 1009 bytes each, is
  decoded back to the same tuples in the same order.
\<close>

theorem tuple_log_decodes:
  assumes "\<forall>t\<in>set ts. tuple_ok t"
  shows "log_tuples (concat (map tuple_bytes ts)) = ts"
  by (rule log_tuples_concat [OF assms])

theorem tuple_log_decodes_witness:
  "log_tuples (concat (map tuple_bytes [delete_tuple 5, Tuple])) = [delete_tuple 5, Tuple]"
  using tuple_log_decodes [of "[delete_tuple 5, Tuple]"] by (simp add: tuple_ok_def Tuple_def delete_tuple_def)

section \<open>The engines\<close>

text \<open>
  C3. The log engine never loses a tuple: over a library and a system that work as
  documented, \<^verbatim>\<open>UpdateOnLog\<close> succeeds and the history, the disk log followed by the log in
  persistent memory, is the old history with the tuple appended, whether or not the call had
  to flush; the invariant (in particular the tracked length) is kept.
\<close>

theorem log_engine_history:
  assumes "log_inv api data os (e, w)" "tuple_ok t"
  shows "\<exists>e' w'. UpdateOnLog api os (e, w) t = Inr (kSuccess, e', w') \<and> log_inv api data os (e', w') \<and>
     log_history data (e', w') = log_history data (e, w) @ tuple_bytes t"
  using UpdateOnLog_ok [OF assms] by auto

theorem log_engine_history_witness:
  "\<exists>e' w'. UpdateOnLog mem_log posix log0 (delete_tuple 5) = Inr (kSuccess, e', w') \<and> log_inv mem_log snd posix (e', w') \<and>
     log_history snd (e', w') = log_history snd log0 @ tuple_bytes (delete_tuple 5)"
  using log_engine_history [of mem_log snd posix "fst log0" "snd log0" "delete_tuple 5"] log0_inv by simp

text \<open>
  C6. Flushing the log engine moves its whole history to the disk log, makes it durable and
  leaves the persistent-memory log empty, without changing the history.
\<close>

theorem log_flush_durable:
  assumes "log_inv api data os (e, w)"
  shows "\<exists>e' w'. log_FlushToDisk api os (e, w) = Inr (e', w') \<and> log_inv api data os (e', w') \<and>
     log_history data (e', w') = log_history data (e, w) \<and> durable w' kDiskLogPath = log_history data (e, w) \<and>
     current_length e' = 0"
proof -
  obtain e' w' p where f: "log_FlushToDisk api os (e, w) = Inr (e', w')" "log_inv api data os (e', w')"
      "log_history data (e', w') = log_history data (e, w)" "log_pool e' = Some p" "data p = []"
      "durable w' kDiskLogPath = log_history data (e, w)"
    using log_FlushToDisk_ok [OF assms] by blast
  then have "current_length e' = 0" by (auto simp: log_inv_def)
  then show ?thesis using f by blast
qed

theorem log_flush_durable_witness:
  "\<exists>e' w'. log_FlushToDisk mem_log posix log0 = Inr (e', w') \<and> log_inv mem_log snd posix (e', w') \<and>
     log_history snd (e', w') = log_history snd log0 \<and> durable w' kDiskLogPath = log_history snd log0 \<and>
     current_length e' = 0"
  using log_flush_durable [of mem_log snd posix "fst log0" "snd log0"] log0_inv by simp

text \<open>
  C4. The block engine's image: \<^verbatim>\<open>UpdateTuple\<close>, in place, in a fresh block or after a flush of
  a full pool, makes the tuple the latest one of its key and leaves the latest tuple of every
  other key unchanged; every key in use keeps exactly one block.
\<close>

theorem blk_engine_image:
  assumes "blk_inv api blk os (e, w)" "tuple_ok t"
  shows "\<exists>e' w'. UpdateTuple api os (e, w) t = Inr (kSuccess, e', w') \<and> blk_inv api blk os (e', w') \<and>
     blk_image blk (e', w') = (blk_image blk (e, w))(tp_key t := Some t)"
  using UpdateTuple_ok [OF assms] by auto

theorem blk_engine_image_witness:
  "\<exists>e' w'. UpdateTuple mem_blk posix blk0 (delete_tuple 5) = Inr (kSuccess, e', w') \<and> blk_inv mem_blk snd posix (e', w') \<and>
     blk_image snd (e', w') = (blk_image snd blk0)(5 := Some (delete_tuple 5))"
  using blk_engine_image [of mem_blk snd posix "fst blk0" "snd blk0" "delete_tuple 5"] blk0_inv by simp

text \<open>
  C34. The block engine drops write errors: when the disk accepts no byte (every \<^verbatim>\<open>write\<close>
  answers \<open>-1\<close>), flushing still reports nothing, clears the table and reuses the blocks,
  although the disk log has not grown.
\<close>

theorem blk_flush_ignores_write_errors:
  assumes "pmemblk_ok api blk" "os_open os kDiskLogPath" "\<forall>b n. os_write os kDiskLogPath b n = - 1"
    and "max_num_blocks e = pmemblk_nblock api (blk_pool e)"
  shows "\<exists>e' w'. blk_FlushToDisk api os (e, w) = Inr (e', w') \<and> next_block e' = 0 \<and> (\<forall>k. lookup_table e' k = None) \<and>
     disk w' = disk w"
proof -
  let ?w = "w\<lparr>open_fds := (open_fds w)(next_fd w \<mapsto> kDiskLogPath), next_fd := next_fd w + 1\<rparr>"
  have wr: "snd (OSFile_Write os \<lparr>of_fd = next_fd w\<rparr> b n v) = v" if "open_fds v (next_fd w) = Some kDiskLogPath" for b n v
    using that assms(3) by (simp add: OSFile_Write_def)
  have "flush_blocks api os \<lparr>of_fd = next_fd w\<rparr> (blk_pool e) i (max_num_blocks e) ?w = Inr ?w" for i
  proof (induction "max_num_blocks e - i" arbitrary: i)
    case 0
    then show ?case by (subst flush_blocks.simps) simp
  next
    case (Suc x)
    then have "i < pmemblk_nblock api (blk_pool e)" using assms(4) by simp
    then have "pmemblk_read api (blk_pool e) i = (0, blk (blk_pool e) i)" using assms(1) by (simp add: pmemblk_ok_def)
    then show ?case using Suc wr [of ?w] by (subst flush_blocks.simps) simp
  qed
  then show ?thesis
    using assms(2) by (simp add: blk_FlushToDisk_def OSFile_open_def OSFile_close_def OSFile_Sync_def)
qed

definition full_disk :: os where
  "full_disk = \<lparr>os_open = (\<lambda>_. True), os_write = (\<lambda>_ _ n. - 1)\<rparr>"

theorem blk_flush_ignores_write_errors_witness:
  "\<exists>e' w'. blk_FlushToDisk mem_blk full_disk blk0 = Inr (e', w') \<and> next_block e' = 0 \<and> (\<forall>k. lookup_table e' k = None) \<and>
     disk w' = disk (snd blk0)"
  using blk_flush_ignores_write_errors [of mem_blk snd full_disk "fst blk0" "snd blk0"] mem_blk_ok
  by (simp add: full_disk_def blk0_def NVMBlkEngine_ctor_def mem_blk_def)

end
