(* ===== verification/NvmDbContract.thy ===== *)
theory NvmDbContract
  imports EngineContract
begin

text \<open>
  The database over its engines: what a client of \<^verbatim>\<open>NVMDB\<close> reads after each operation, and
  what the engine's image holds at the same moment. The lemmas come from the interpretations
  of \<open>recovery_engine\<close> on the log engine and on the block engine.
\<close>

abbreviation log_ops where
  "log_ops api os \<equiv> ops_of (NVMLogEngine_PersistUpdate api os) (NVMLogEngine_PersistDelete api os)"

abbreviation blk_ops where
  "blk_ops api os \<equiv> ops_of (NVMBlkEngine_PersistUpdate api os) (NVMBlkEngine_PersistDelete api os)"

lemma NVMDB_Read_get:
  "NVMDB_Read db table k flds result =
     (case db_get db table k of
        None \<Rightarrow> (kErrorNoData, result)
      | Some vs \<Rightarrow> (kOK, case flds of None \<Rightarrow> vs | Some fs \<Rightarrow> FilterByFields vs fs))"
  by (simp add: NVMDB_Read_def FindByTableKey_get [symmetric] split: option.split)

lemma map_of_rev_distinct: "distinct (map fst vs) \<Longrightarrow> map_of (rev vs) = map_of vs"
proof
  fix x assume d: "distinct (map fst vs)"
  then have d': "distinct (map fst (rev vs))" by (simp flip: rev_map)
  show "map_of (rev vs) x = map_of vs x"
    using map_of_eq_Some_iff [OF d, of x] map_of_eq_Some_iff [OF d', of x] by (metis not_None_eq set_rev)
qed

definition db_log :: "((nat \<times> bytes) NVMLogEngine \<times> world) NVMDB" where
  "db_log = \<lparr>tables = [], rec_engine = log0\<rparr>"

definition db_blk :: "((nat \<times> (nat \<Rightarrow> bytes)) NVMBlkEngine \<times> world) NVMDB" where
  "db_blk = \<lparr>tables = [(''usertable'', [(''7'', [(''field0'', ''old''), (''field1'', ''kept'')])])], rec_engine = blk0\<rparr>"

lemma db_log_ok: "db_ok db_log" "rec_engine db_log = log0"
  by (simp_all add: db_log_def db_ok_def map_ok_def)

lemma db_blk_ok: "db_ok db_blk" "rec_engine db_blk = blk0"
  "db_get db_blk ''usertable'' ''7'' = Some [(''field0'', ''old''), (''field1'', ''kept'')]"
  by (simp_all add: db_blk_def db_ok_def map_ok_def db_get_def)

lemma stoul_7: "stoul ''7'' = Inr 7"
  by code_simp

text \<open>
  C2. Insert over the log engine: for a numeric key and storable values, \<^verbatim>\<open>Insert\<close> answers
  \<^verbatim>\<open>kOK\<close>, a following \<^verbatim>\<open>Read\<close> returns exactly the values, no other record of any table changes,
  and the engine's image holds a live tuple under the key from which \<^verbatim>\<open>RawToDB\<close> recovers the
  values, all other tuples unchanged.
\<close>

theorem nvmdb_insert_persists:
  assumes "log_inv api data os (rec_engine db)" "db_ok db" "stoul k = Inr n" "storable vs"
    "\<forall>(f, v)\<in>set vs. v \<noteq> [] \<and> length v < kFieldSize"
  shows "\<exists>db' t. NVMDB_Insert (log_ops api os) db table k vs = Inr (kOK, db') \<and>
     NVMDB_Read db' table k None [] = (kOK, vs) \<and>
     (\<forall>table' k'. (table', k') \<noteq> (table, k) \<longrightarrow> db_get db' table' k' = db_get db table' k') \<and>
     log_image data (rec_engine db') = (log_image data (rec_engine db))(n := Some t) \<and>
     \<not> tp_deleted t \<and> RawToDB t = Inr (in_field_order vs)"
proof -
  have n: "0 \<le> n" "n < 2 ^ 64" using stoul_range [OF assms(3)] by auto
  obtain t where t: "update_tuple n vs = Inr t" "\<not> tp_deleted t" using update_tuple_ok [OF assms(4) n] by blast
  have raw: "RawToDB t = Inr (in_field_order vs)"
    using t(1) RawToDB_DBToRaw [OF assms(4,5)] by (auto simp: update_tuple_def bindR_eq_Inr)
  obtain db' where db': "NVMDB_Insert (log_ops api os) db table k vs = Inr (kOK, db')"
      "\<And>table' k'. db_get db' table' k' = (if table' = table \<and> k' = k then Some vs else db_get db table' k')"
      "log_image data (rec_engine db') = (log_image data (rec_engine db))(n := Some t)"
    using log_engine.Insert_ok [OF assms(1-4) t(1), of table] by blast
  then have "NVMDB_Read db' table k None [] = (kOK, vs)" by (simp add: NVMDB_Read_get)
  with db' t(2) raw show ?thesis by auto
qed

theorem nvmdb_insert_persists_witness:
  "\<exists>db' t. NVMDB_Insert (log_ops mem_log posix) db_log ''usertable'' ''7'' rec1 = Inr (kOK, db') \<and>
     NVMDB_Read db' ''usertable'' ''7'' None [] = (kOK, rec1) \<and>
     log_image snd (rec_engine db') 7 = Some t \<and> RawToDB t = Inr (in_field_order rec1)"
  using nvmdb_insert_persists [of mem_log snd posix db_log "''7''" 7 rec1 "''usertable''"]
    log0_inv db_log_ok stoul_7 rec1_storable by auto

text \<open>
  C7. Update over the block engine merges in memory and replaces in the image: the record
  afterwards has the new value of every updated field and keeps the others, but the tuple the
  engine holds for the key is built from the updated fields alone, so a recovery from it would
  lose the fields that were not updated.
\<close>

theorem nvmdb_update_merges:
  assumes "blk_inv api blk os (rec_engine db)" "db_ok db" "stoul k = Inr n" "storable vs"
    "\<forall>(f, v)\<in>set vs. v \<noteq> [] \<and> length v < kFieldSize" "db_get db table k = Some stored"
  shows "\<exists>db' t new. NVMDB_Update (blk_ops api os) db table k vs = Inr (kOK, db') \<and>
     NVMDB_Read db' table k None [] = (kOK, new) \<and> map_of new = map_of stored ++ map_of vs \<and>
     blk_image blk (rec_engine db') = (blk_image blk (rec_engine db))(n := Some t) \<and>
     RawToDB t = Inr (in_field_order vs)"
proof -
  have n: "0 \<le> n" "n < 2 ^ 64" using stoul_range [OF assms(3)] by auto
  obtain t where t: "update_tuple n vs = Inr t" using update_tuple_ok [OF assms(4) n] by blast
  have raw: "RawToDB t = Inr (in_field_order vs)"
    using t(1) RawToDB_DBToRaw [OF assms(4,5)] by (auto simp: update_tuple_def bindR_eq_Inr)
  obtain db' where db': "NVMDB_Update (blk_ops api os) db table k vs = Inr (kOK, db')"
      "db_get db' table k = Some (fold set_value vs stored)"
      "blk_image blk (rec_engine db') = (blk_image blk (rec_engine db))(n := Some t)"
    using blk_engine.Update_ok [OF assms(1-4) t assms(6)] by auto
  have "map_of (rev vs) = map_of vs"
    by (rule map_of_rev_distinct) (use assms(4) in \<open>simp add: storable_def\<close>)
  then have "map_of (fold set_value vs stored) = map_of stored ++ map_of vs"
    by (simp add: map_of_fold_set_value)
  moreover have "NVMDB_Read db' table k None [] = (kOK, fold set_value vs stored)"
    using db'(2) by (simp add: NVMDB_Read_get)
  ultimately show ?thesis using db' raw by blast
qed

theorem nvmdb_update_merges_witness:
  "\<exists>db' t new. NVMDB_Update (blk_ops mem_blk posix) db_blk ''usertable'' ''7'' rec1 = Inr (kOK, db') \<and>
     NVMDB_Read db' ''usertable'' ''7'' None [] = (kOK, new) \<and> map_of new ''field1'' = Some ''kept'' \<and>
     blk_image snd (rec_engine db') 7 = Some t \<and> RawToDB t = Inr (in_field_order rec1)"
proof -
  have "map_of rec1 ''field1'' = None" by (simp add: rec1_def)
  then show ?thesis
    using nvmdb_update_merges [of mem_blk snd posix db_blk "''7''" 7 rec1 "''usertable''"]
      blk0_inv db_blk_ok stoul_7 rec1_storable by (auto simp: map_add_def)
qed

text \<open>
  C8. Delete over the block engine: a record that exists is gone from the tables (the next
  \<^verbatim>\<open>Read\<close> answers \<^verbatim>\<open>kErrorNoData\<close>), the image marks its key deleted, everything else stays; a
  record that does not exist is reported and nothing at all changes.
\<close>

theorem nvmdb_delete_persists:
  assumes "blk_inv api blk os (rec_engine db)" "db_ok db" "stoul k = Inr n"
  shows "\<exists>db'. NVMDB_Delete (blk_ops api os) db table k =
       Inr (if db_get db table k = None then kErrorNoData else kOK, db') \<and>
     NVMDB_Read db' table k flds r = (kErrorNoData, r) \<and>
     (\<forall>table' k'. (table', k') \<noteq> (table, k) \<longrightarrow> db_get db' table' k' = db_get db table' k') \<and>
     (if db_get db table k = None then db' = db
      else \<exists>t. blk_image blk (rec_engine db') = (blk_image blk (rec_engine db))(n := Some t) \<and> tp_deleted t \<and> tp_key t = n)"
proof (cases "db_get db table k = None")
  case True
  then show ?thesis by (simp add: NVMDB_Delete_def FindByTableKey_None [THEN iffD2] NVMDB_Read_get)
next
  case False
  obtain db' where db': "NVMDB_Delete (blk_ops api os) db table k = Inr (kOK, db')"
      "\<And>table' k'. db_get db' table' k' = (if table' = table \<and> k' = k then None else db_get db table' k')"
      "blk_image blk (rec_engine db') = (blk_image blk (rec_engine db))(n := Some (delete_tuple n))"
    using blk_engine.Delete_ok [OF assms False] by blast
  moreover have "tp_deleted (delete_tuple n)" by (simp add: delete_tuple_def)
  ultimately show ?thesis using False by (intro exI [of _ db']) (auto simp: NVMDB_Read_get)
qed

theorem nvmdb_delete_persists_witness:
  "\<exists>db'. NVMDB_Delete (blk_ops mem_blk posix) db_blk ''usertable'' ''7'' = Inr (kOK, db') \<and>
     NVMDB_Read db' ''usertable'' ''7'' None [] = (kErrorNoData, [])"
  using nvmdb_delete_persists [of mem_blk snd posix db_blk "''7''" 7 "''usertable''" None "[]"]
    blk0_inv db_blk_ok stoul_7 by auto

text \<open>
  C24. \<^verbatim>\<open>Scan\<close> of a key that is not there answers \<^verbatim>\<open>kErrorNoData\<close>. Of a key that is there, its loop appends the whole
  records of the table from that key on, in ascending key order, as many as asked for or as there are: the list of
  fields to read is not looked at. Then the function flows off its end without a \<^verbatim>\<open>return\<close>, which is
  undefined: no scan that finds its key returns.
\<close>

theorem nvmdb_scan_in_order:
  assumes "db_ok db"
  shows "case db_get db table k of
      None \<Rightarrow> NVMDB_Scan db table k cnt flds result = Inr (kErrorNoData, result)
    | Some _ \<Rightarrow> NVMDB_Scan db table k cnt flds result = Inl (Fault NoReturn) \<and>
        (\<exists>t. map_of (tables db) table = Some t \<and> sorted_wrt (<) (map fst t) \<and>
          NVMDB_Scan_body db table k cnt flds result = (None, result @ map snd (take (nat cnt) (filter (\<lambda>e. k \<le> fst e) t))))"
proof (cases "db_get db table k")
  case None
  then show ?thesis using FindByTableKey_None [of db table k] by (simp add: NVMDB_Scan_def NVMDB_Scan_body_def)
next
  case (Some vs)
  then obtain t where t: "map_of (tables db) table = Some t" "map_of t k = Some vs" by (auto simp: db_get_def split: option.splits)
  have ok: "map_ok t" by (rule db_ok_table [OF assms t(1)])
  have "k \<in> fst ` set t" using t(2) by (metis map_of_eq_None_iff option.distinct(1))
  then have "NVMDB_Scan_body db table k cnt flds result = (None, result @ map snd (take (nat cnt) (filter (\<lambda>e. k \<le> fst e) t)))"
    using t scan_from [OF ok] by (simp add: NVMDB_Scan_body_def FindByTableKey_def scan_loop_take)
  then show ?thesis using Some t(1) ok by (simp add: NVMDB_Scan_def map_ok_def)
qed

theorem nvmdb_scan_in_order_witness:
  "NVMDB_Scan_body db_blk ''usertable'' ''7'' 5 (Some [''field1'']) [] = (None, [[(''field0'', ''old''), (''field1'', ''kept'')]]) \<and>
   NVMDB_Scan db_blk ''usertable'' ''8'' 5 None [] = Inr (kErrorNoData, [])"
  using nvmdb_scan_in_order [OF db_blk_ok(1), of "''usertable''" "''7''" 5 "Some [''field1'']" "[]"]
    nvmdb_scan_in_order [OF db_blk_ok(1), of "''usertable''" "''8''" 5 None "[]"]
  by (simp add: db_blk_def db_get_def)

end
