(* ===== verification/NvmRec.thy ===== *)
theory NvmRec
  imports NvmBlk
begin

text \<open>
  \<^verbatim>\<open>recovery/nvrec_engine.cc\<close> and \<^verbatim>\<open>recovery/persistent_list.cc\<close>: updates go into a persistent list
  in a transaction; when the transaction fails, the pool is handed to a thread that writes the list
  to the disk log and deletes the pool, and a fresh pool takes its place. \<^verbatim>\<open>libpmemobj\<close> is a
  parameter (\<open>pmemobj\<close>): whether an allocation or an undo-log entry finds room, and whether pools can
  be opened, created and deleted; a transaction that throws leaves the pool as it was. Persistent
  pointers are the numbers of the objects in their pool. The thread runs in steps, so that it may
  interleave with later updates.
\<close>

section \<open>The persistent list\<close>

record ListNode =
  nd_next :: "nat option"
  nd_prev :: "nat option"
  nd_key :: int
  nd_obj :: tuple

record PersistentList =
  pl_head :: "nat option"
  pl_tail :: "nat option"

record obj_pool =
  po_nodes :: "ListNode list"
  po_root :: PersistentList

record pmemobj =
  obj_room :: "obj_pool \<Rightarrow> bool"
  obj_log :: "obj_pool \<Rightarrow> bool"
  obj_open :: "string \<Rightarrow> string \<Rightarrow> bool"
  obj_create :: "string \<Rightarrow> string \<Rightarrow> nat \<Rightarrow> bool"
  obj_unlink :: "string \<Rightarrow> string option"

record nv_world =
  nv_os :: world
  pools :: "string \<Rightarrow> obj_pool option"

definition empty_pool :: obj_pool where
  "empty_pool = \<lparr>po_nodes = [], po_root = \<lparr>pl_head = None, pl_tail = None\<rparr>\<rparr>"

text \<open>The pool that exists, or a new one.\<close>

definition MakePersistentListPool :: "pmemobj \<Rightarrow> string \<Rightarrow> nat \<Rightarrow> string \<Rightarrow> nv_world \<Rightarrow> err + string \<times> nv_world" where
  "MakePersistentListPool api pool_path pool_size layout w =
     (if pools w pool_path \<noteq> None
      then if obj_open api pool_path layout then Inr (pool_path, w) else Inl (Exn (RuntimeError ''Failed opening pool''))
      else if obj_create api pool_path layout pool_size
           then Inr (pool_path, w\<lparr>pools := (pools w)(pool_path \<mapsto> empty_pool)\<rparr>)
           else Inl (Exn (RuntimeError ''Failed creating pool'')))"

text \<open>A store to a persistent object inside a transaction is logged first.\<close>

definition logged :: "pmemobj \<Rightarrow> obj_pool \<Rightarrow> obj_pool \<Rightarrow> err + obj_pool" where
  "logged api p p' = (if obj_log api p then Inr p' else Inl (Exn (RuntimeError ''transaction'')))"

definition node_at :: "obj_pool \<Rightarrow> nat \<Rightarrow> err + ListNode" where
  "node_at p i = (if i < length (po_nodes p) then Inr (po_nodes p ! i) else Inl (Fault NullDeref))"

text \<open>\<^verbatim>\<open>PersistentList::Insert\<close>: the address of the new node, the pool. The object itself is new in the
  transaction, so only the stores to older objects are logged.\<close>

definition Insert :: "pmemobj \<Rightarrow> obj_pool \<Rightarrow> tuple \<Rightarrow> err + nat \<times> obj_pool" where
  "Insert api p entry =
     (if \<not> obj_room api p then Inl (Exn (RuntimeError ''transaction_alloc''))
      else
        let n = length (po_nodes p);
            node = \<lparr>nd_next = None, nd_prev = None, nd_key = tp_key entry, nd_obj = entry\<rparr>;
            root = po_root p; p = p\<lparr>po_nodes := po_nodes p @ [node]\<rparr>
        in case pl_head root of
             None \<Rightarrow> bindR (logged api p (p\<lparr>po_root := \<lparr>pl_head = Some n, pl_tail = Some n\<rparr>\<rparr>)) (\<lambda>p. Inr (n, p))
           | Some h \<Rightarrow>
               let p = p\<lparr>po_nodes := (po_nodes p)[n := node\<lparr>nd_next := Some h\<rparr>]\<rparr> in
               bindR (node_at p h) (\<lambda>old.
               bindR (logged api p (p\<lparr>po_nodes := (po_nodes p)[h := old\<lparr>nd_prev := Some n\<rparr>]\<rparr>)) (\<lambda>p.
               bindR (logged api p (p\<lparr>po_root := root\<lparr>pl_head := Some n\<rparr>\<rparr>)) (\<lambda>p.
               Inr (n, p)))))"

section \<open>The engine\<close>

definition kPoolPath :: string where "kPoolPath = ''/mnt/mem/pmem''"
definition kLayout :: string where "kLayout = ''linked_list''"
definition kFileName :: string where "kFileName = ''disk_log.txt''"
abbreviation (input) kPoolSize :: nat where "kPoolSize \<equiv> 62500000"

text \<open>The flush thread: not started, about to write the node at an address, finished with a result.\<close>

datatype flush_state = FlushStart | FlushWrite OSFile "nat option" | FlushEnd "err + RecoveryStatus"

record flush_job =
  fj_path :: string
  fj_pool :: string
  fj_state :: flush_state

record NVRecEngine =
  nv_pool :: string
  nv_lookup :: "int \<Rightarrow> nat option"
  pool_counter :: int
  pool_path :: string
  flush_result :: "flush_job option"

definition NVRecEngine_ctor :: "pmemobj \<Rightarrow> nv_world \<Rightarrow> err + NVRecEngine \<times> nv_world" where
  "NVRecEngine_ctor api w =
     bindR (MakePersistentListPool api kPoolPath kPoolSize kLayout w) (\<lambda>(pool, w).
     Inr (\<lparr>nv_pool = pool, nv_lookup = (\<lambda>_. None), pool_counter = 0, pool_path = ''/mnt/mem/pmem'', flush_result = None\<rparr>, w))"

text \<open>\<^verbatim>\<open>FlushToDisk\<close> in steps: up to the opening of the file, one round of the loop, the end. An exception
  closes the file.\<close>

definition flush_start :: "os \<Rightarrow> obj_pool \<Rightarrow> nv_world \<Rightarrow> flush_state \<times> nv_world" where
  "flush_start os p w =
     (let current = pl_head (po_root p) in
      case OSFile_open os kFileName (nv_os w) of
        Inl x \<Rightarrow> (FlushEnd (Inl x), w)
      | Inr (osf, v) \<Rightarrow> (FlushWrite osf current, w\<lparr>nv_os := v\<rparr>))"

definition flush_write :: "os \<Rightarrow> obj_pool \<Rightarrow> OSFile \<Rightarrow> nat \<Rightarrow> nv_world \<Rightarrow> flush_state \<times> nv_world" where
  "flush_write os p osf i w =
     (case node_at p i of
        Inl x \<Rightarrow> (FlushEnd (Inl x), w)
      | Inr node \<Rightarrow>
          let (count, v) = OSFile_Write os osf (tuple_bytes (nd_obj node)) sizeof_Tuple (nv_os w) in
          if count \<noteq> int sizeof_Tuple
          then (FlushEnd (Inl (Exn (RuntimeError ''Write operation failed''))), w\<lparr>nv_os := OSFile_close osf v\<rparr>)
          else (FlushWrite osf (nd_next node), w\<lparr>nv_os := v\<rparr>))"

definition flush_finish :: "pmemobj \<Rightarrow> string \<Rightarrow> OSFile \<Rightarrow> nv_world \<Rightarrow> flush_state \<times> nv_world" where
  "flush_finish api path osf w =
     (let v = OSFile_Sync osf (nv_os w) in
      case obj_unlink api path of
        Some e \<Rightarrow>
          (FlushEnd (Inl (Exn (RuntimeError (''Cannot delete pool file: '' @ e @ CHR 0x0A # '' File name: '' @ path)))),
           w\<lparr>nv_os := OSFile_close osf v\<rparr>)
      | None \<Rightarrow> (FlushEnd (Inr kSuccess), w\<lparr>nv_os := OSFile_close osf v, pools := (pools w)(path := None)\<rparr>))"

definition FlushToDisk_step :: "pmemobj \<Rightarrow> os \<Rightarrow> flush_job \<times> nv_world \<Rightarrow> flush_job \<times> nv_world" where
  "FlushToDisk_step api os jw =
     (let (j, w) = jw;
          (s, w) =
            (case fj_state j of
               FlushEnd r \<Rightarrow> (FlushEnd r, w)
             | FlushWrite osf None \<Rightarrow> flush_finish api (fj_path j) osf w
             | st \<Rightarrow>
                 (case pools w (fj_pool j) of
                    None \<Rightarrow> (FlushEnd (Inl (Fault NullDeref)), w)
                  | Some p \<Rightarrow> (case st of FlushWrite osf (Some i) \<Rightarrow> flush_write os p osf i w | _ \<Rightarrow> flush_start os p w)))
      in (j\<lparr>fj_state := s\<rparr>, w))"

text \<open>The thread on its own until it ends, which a list without an end would prevent.\<close>

partial_function (option) FlushToDisk :: "pmemobj \<Rightarrow> os \<Rightarrow> flush_job \<times> nv_world \<Rightarrow> ((err + RecoveryStatus) \<times> nv_world) option" where
  "FlushToDisk api os jw =
     (case fj_state (fst jw) of
        FlushEnd r \<Rightarrow> Some (r, snd jw)
      | _ \<Rightarrow> FlushToDisk api os (FlushToDisk_step api os jw))"

text \<open>\<^verbatim>\<open>if (flush_result_.valid()) flush_result_.get();\<close> waits for the thread and throws what it threw.\<close>

definition wait_flush :: "pmemobj \<Rightarrow> os \<Rightarrow> NVRecEngine \<times> nv_world \<Rightarrow> (err + NVRecEngine \<times> nv_world) option" where
  "wait_flush api os ew =
     (let (e, w) = ew in
      case flush_result e of
        None \<Rightarrow> Some (Inr (e, w))
      | Some j \<Rightarrow> map_option (\<lambda>(r, w). bindR r (\<lambda>_. Inr (e\<lparr>flush_result := None\<rparr>, w))) (FlushToDisk api os (j, w)))"

definition current_pool_path :: "NVRecEngine \<Rightarrow> string" where
  "current_pool_path e = (if pool_counter e = 0 then pool_path e else pool_path e @ decimal (nat (pool_counter e)))"

definition NextPoolPath :: "NVRecEngine \<Rightarrow> string \<times> NVRecEngine" where
  "NextPoolPath e =
     (let e = e\<lparr>pool_counter := uint64 (pool_counter e + 1)\<rparr> in (pool_path e @ decimal (nat (pool_counter e)), e))"

text \<open>The old pool goes to the thread, a new one takes its place.\<close>

definition start_flush :: "pmemobj \<Rightarrow> NVRecEngine \<times> nv_world \<Rightarrow> err + NVRecEngine \<times> nv_world" where
  "start_flush api ew =
     (let (e, w) = ew;
          e = e\<lparr>flush_result := Some \<lparr>fj_path = current_pool_path e, fj_pool = nv_pool e, fj_state = FlushStart\<rparr>\<rparr>;
          (next_path, e) = NextPoolPath e
      in bindR (MakePersistentListPool api next_path kPoolSize kLayout w) (\<lambda>(pool, w).
         Inr (e\<lparr>nv_pool := pool, nv_lookup := (\<lambda>_. None)\<rparr>, w)))"

text \<open>The body of the transaction.\<close>

definition persist_tx :: "pmemobj \<Rightarrow> tuple \<Rightarrow> (int \<Rightarrow> nat option) \<Rightarrow> obj_pool \<Rightarrow> err + (int \<Rightarrow> nat option) \<times> obj_pool" where
  "persist_tx api value lookup p =
     (case lookup (tp_key value) of
        None \<Rightarrow> bindR (Insert api p value) (\<lambda>(ptr, p). Inr (lookup(tp_key value \<mapsto> ptr), p))
      | Some i \<Rightarrow>
          bindR (node_at p i) (\<lambda>node.
          bindR (logged api p (p\<lparr>po_nodes := (po_nodes p)[i := node\<lparr>nd_obj := value\<rparr>]\<rparr>)) (\<lambda>p. Inr (lookup, p))))"

partial_function (option) PersistRaw ::
  "pmemobj \<Rightarrow> os \<Rightarrow> NVRecEngine \<times> nv_world \<Rightarrow> tuple \<Rightarrow> (err + RecoveryStatus \<times> NVRecEngine \<times> nv_world) option" where
  "PersistRaw api os ew value =
     (case pools (snd ew) (nv_pool (fst ew)) of
        None \<Rightarrow> Some (Inl (Fault NullDeref))
      | Some p \<Rightarrow>
          (case persist_tx api value (nv_lookup (fst ew)) p of
             Inr (lookup, p) \<Rightarrow>
               Some (Inr (kSuccess, (fst ew)\<lparr>nv_lookup := lookup\<rparr>, (snd ew)\<lparr>pools := (pools (snd ew))(nv_pool (fst ew) \<mapsto> p)\<rparr>))
           | Inl (Fault f) \<Rightarrow> Some (Inl (Fault f))
           | Inl (Exn x) \<Rightarrow>
               (case wait_flush api os ew of
                  None \<Rightarrow> None
                | Some (Inl y) \<Rightarrow> Some (Inl y)
                | Some (Inr ew) \<Rightarrow>
                    (case start_flush api ew of
                       Inl y \<Rightarrow> Some (Inl y)
                     | Inr ew \<Rightarrow> PersistRaw api os ew value))))"

definition NVRecEngine_PersistUpdate ::
  "pmemobj \<Rightarrow> os \<Rightarrow> NVRecEngine \<times> nv_world \<Rightarrow> int \<Rightarrow> kvpair list \<Rightarrow> (err + RecoveryStatus \<times> NVRecEngine \<times> nv_world) option" where
  "NVRecEngine_PersistUpdate api os ew k values =
     (case DBToRaw values of
        Inl x \<Rightarrow> Some (Inl x)
      | Inr tuple \<Rightarrow> PersistRaw api os ew (tuple\<lparr>tp_key := k\<rparr>))"

definition NVRecEngine_PersistDelete ::
  "pmemobj \<Rightarrow> os \<Rightarrow> NVRecEngine \<times> nv_world \<Rightarrow> int \<Rightarrow> (err + RecoveryStatus \<times> NVRecEngine \<times> nv_world) option" where
  "NVRecEngine_PersistDelete api os ew k = PersistRaw api os ew (Tuple\<lparr>tp_deleted := True, tp_key := k\<rparr>)"

text \<open>\<^verbatim>\<open>Recover\<close> is a stub.\<close>

definition NVRecEngine_Recover :: "'t \<Rightarrow> RecoveryStatus \<times> 't" where
  "NVRecEngine_Recover tables = (kSuccess, tables)"

text \<open>The destructor closes the pool; the future of an asynchronous call then waits for its thread and
  drops what it threw.\<close>

definition NVRecEngine_dtor :: "pmemobj \<Rightarrow> os \<Rightarrow> NVRecEngine \<times> nv_world \<Rightarrow> nv_world option" where
  "NVRecEngine_dtor api os ew =
     (case flush_result (fst ew) of
        None \<Rightarrow> Some (snd ew)
      | Some j \<Rightarrow> map_option snd (FlushToDisk api os (j, snd ew)))"

end
