(* ===== verification/NvmRecProof.thy ===== *)
theory NvmRecProof
  imports NvmRec
begin

text \<open>
  The list of a pool in terms of its tuples, the invariant of the engine and its flush thread, and
  the image of the three places a tuple can be: the disk log, the pool being flushed, the pool in use.
\<close>

section \<open>Lists in a pool\<close>

definition pool_tuples :: "obj_pool \<Rightarrow> tuple list" where
  "pool_tuples p = map nd_obj (po_nodes p)"

text \<open>Nodes are linked from the newest to the oldest, both ways, and hold one tuple per key.\<close>

definition pool_ok :: "obj_pool \<Rightarrow> bool" where
  "pool_ok p \<longleftrightarrow>
     (\<forall>i<length (po_nodes p).
        nd_next (po_nodes p ! i) = (if i = 0 then None else Some (i - 1)) \<and>
        nd_prev (po_nodes p ! i) = (if Suc i = length (po_nodes p) then None else Some (Suc i)) \<and>
        nd_key (po_nodes p ! i) = tp_key (nd_obj (po_nodes p ! i)) \<and> tuple_ok (nd_obj (po_nodes p ! i))) \<and>
     po_root p = (if po_nodes p = [] then \<lparr>pl_head = None, pl_tail = None\<rparr>
                  else \<lparr>pl_head = Some (length (po_nodes p) - 1), pl_tail = Some 0\<rparr>) \<and>
     distinct (map tp_key (pool_tuples p))"

text \<open>The volatile table finds the node of every key.\<close>

definition table_ok :: "(int \<Rightarrow> nat option) \<Rightarrow> obj_pool \<Rightarrow> bool" where
  "table_ok lookup p \<longleftrightarrow> (\<forall>k i. lookup k = Some i \<longleftrightarrow> i < length (pool_tuples p) \<and> tp_key (pool_tuples p ! i) = k)"

lemma length_pool_tuples [simp]: "length (pool_tuples p) = length (po_nodes p)"
  by (simp add: pool_tuples_def)

lemma empty_pool_ok: "pool_ok empty_pool" "table_ok (\<lambda>_. None) empty_pool" "pool_tuples empty_pool = []"
  by (simp_all add: pool_ok_def table_ok_def pool_tuples_def empty_pool_def)

lemma table_None:
  assumes "table_ok lookup p"
  shows "lookup k = None \<longleftrightarrow> k \<notin> tp_key ` set (pool_tuples p)"
proof
  assume "lookup k = None"
  then have "\<forall>i<length (pool_tuples p). tp_key (pool_tuples p ! i) \<noteq> k"
    using assms unfolding table_ok_def by (metis option.distinct(1))
  then show "k \<notin> tp_key ` set (pool_tuples p)" by (auto simp: in_set_conv_nth simp del: length_pool_tuples)
next
  assume a: "k \<notin> tp_key ` set (pool_tuples p)"
  show "lookup k = None"
  proof (rule ccontr)
    assume "lookup k \<noteq> None"
    then obtain i where "i < length (pool_tuples p)" "tp_key (pool_tuples p ! i) = k" using assms by (auto simp: table_ok_def)
    then show False using a by (metis image_eqI nth_mem)
  qed
qed

text \<open>A node for a new key in front of the list.\<close>

definition push_node :: "obj_pool \<Rightarrow> tuple \<Rightarrow> obj_pool" where
  "push_node p t =
     (let n = length (po_nodes p) in
      \<lparr>po_nodes = (if n = 0 then [] else (po_nodes p)[n - 1 := (po_nodes p ! (n - 1))\<lparr>nd_prev := Some n\<rparr>]) @
         [\<lparr>nd_next = (if n = 0 then None else Some (n - 1)), nd_prev = None, nd_key = tp_key t, nd_obj = t\<rparr>],
       po_root = \<lparr>pl_head = Some n, pl_tail = Some 0\<rparr>\<rparr>)"

lemma Insert_cases:
  assumes "pool_ok p"
  shows "Insert api p t = Inr (length (po_nodes p), push_node p t) \<or> (\<exists>x. Insert api p t = Inl (Exn x))"
proof (cases "po_nodes p = []")
  case True
  then show ?thesis using assms by (simp add: Insert_def pool_ok_def logged_def push_node_def Let_def)
next
  case False
  then obtain m where "length (po_nodes p) = Suc m" by (cases "po_nodes p") auto
  then show ?thesis
    using assms False
    by (simp add: Insert_def pool_ok_def logged_def push_node_def Let_def node_at_def nth_append list_update_append)
qed

lemma push_node_tuples: "pool_tuples (push_node p t) = pool_tuples p @ [t]"
  by (auto simp: pool_tuples_def push_node_def Let_def map_update list_update_same_conv intro!: nth_equalityI simp: nth_list_update)

lemma push_node_ok:
  assumes "pool_ok p" "tuple_ok t" "tp_key t \<notin> tp_key ` set (pool_tuples p)"
  shows "pool_ok (push_node p t)"
proof -
  have "distinct (map tp_key (pool_tuples (push_node p t)))"
    using assms by (simp add: push_node_tuples pool_ok_def)
  moreover have "po_nodes (push_node p t) \<noteq> []" "length (po_nodes (push_node p t)) = Suc (length (po_nodes p))"
    by (simp_all add: push_node_def Let_def)
  moreover have "po_root (push_node p t) = \<lparr>pl_head = Some (length (po_nodes p)), pl_tail = Some 0\<rparr>"
    by (simp add: push_node_def Let_def)
  moreover have "nd_next (po_nodes (push_node p t) ! i) = (if i = 0 then None else Some (i - 1)) \<and>
        nd_prev (po_nodes (push_node p t) ! i) = (if i = length (po_nodes p) then None else Some (Suc i)) \<and>
        nd_key (po_nodes (push_node p t) ! i) = tp_key (nd_obj (po_nodes (push_node p t) ! i)) \<and> tuple_ok (nd_obj (po_nodes (push_node p t) ! i))"
    if "i < Suc (length (po_nodes p))" for i
  proof (cases "i = length (po_nodes p)")
    case True
    then show ?thesis using assms(2) by (simp add: push_node_def Let_def nth_append)
  next
    case False
    then have "i < length (po_nodes p)" using that by simp
    then show ?thesis
      using assms(1) by (auto simp: push_node_def Let_def nth_append nth_list_update pool_ok_def)
  qed
  ultimately show ?thesis by (simp add: pool_ok_def)
qed

definition put_node :: "obj_pool \<Rightarrow> nat \<Rightarrow> tuple \<Rightarrow> obj_pool" where
  "put_node p i t = p\<lparr>po_nodes := (po_nodes p)[i := (po_nodes p ! i)\<lparr>nd_obj := t\<rparr>]\<rparr>"

lemma put_node_tuples: "pool_tuples (put_node p i t) = (pool_tuples p)[i := t]"
  by (simp add: pool_tuples_def put_node_def map_update)

lemma put_node_ok:
  assumes "pool_ok p" "tuple_ok t" "i < length (po_nodes p)" "tp_key (pool_tuples p ! i) = tp_key t"
  shows "pool_ok (put_node p i t)"
proof -
  have keys: "map tp_key ((pool_tuples p)[i := t]) = map tp_key (pool_tuples p)"
    using assms(3,4) by (metis length_pool_tuples list_update_id map_update nth_map)
  have "nd_key (po_nodes p ! i) = tp_key t" using assms by (simp add: pool_ok_def pool_tuples_def)
  then show ?thesis
    using assms keys put_node_tuples [of p i t]
    by (auto simp: pool_ok_def nth_list_update put_node_def simp del: map_update)
qed

section \<open>The transaction\<close>

lemma persist_tx_cases:
  assumes "pool_ok p" "table_ok lookup p" "tuple_ok t"
  shows "(\<exists>lookup' p'. persist_tx api t lookup p = Inr (lookup', p') \<and> pool_ok p' \<and> table_ok lookup' p' \<and>
      latest (pool_tuples p') = (latest (pool_tuples p))(tp_key t := Some t)) \<or> (\<exists>x. persist_tx api t lookup p = Inl (Exn x))"
proof (cases "lookup (tp_key t)")
  case None
  then have new: "tp_key t \<notin> tp_key ` set (pool_tuples p)" using table_None [OF assms(2)] by simp
  have nk: "tp_key (pool_tuples p ! i) \<noteq> tp_key t" if "i < length (po_nodes p)" for i
    using new that by (metis imageI length_pool_tuples nth_mem)
  have "table_ok (lookup(tp_key t \<mapsto> length (po_nodes p))) (push_node p t)"
    using assms(2) nk by (auto simp: table_ok_def push_node_tuples nth_append)
  then show ?thesis
    using Insert_cases [OF assms(1), of api t] push_node_ok [OF assms(1,3) new] None
    by (auto simp: persist_tx_def push_node_tuples)
next
  case (Some i)
  then have i: "i < length (po_nodes p)" "tp_key (pool_tuples p ! i) = tp_key t" using assms(2) by (auto simp: table_ok_def)
  have "latest ((pool_tuples p)[i := t]) = (latest (pool_tuples p))(tp_key t := Some t)"
    using latest_put [of "pool_tuples p" i t] assms(1) i by (simp add: pool_ok_def)
  moreover have "table_ok lookup (put_node p i t)"
  proof -
    have "tp_key ((pool_tuples p)[i := t] ! j) = tp_key (pool_tuples p ! j)" if "j < length (po_nodes p)" for j
      using i that by (cases "j = i") auto
    then show ?thesis using assms(2) by (auto simp: table_ok_def put_node_tuples)
  qed
  ultimately show ?thesis
    using Some i(1) put_node_ok [OF assms(1,3) i]
    by (auto simp: persist_tx_def node_at_def logged_def put_node_def [symmetric] put_node_tuples)
qed

text \<open>Rooms a fresh pool must have.\<close>

definition pmemobj_ok :: "pmemobj \<Rightarrow> bool" where
  "pmemobj_ok api \<longleftrightarrow> obj_room api empty_pool \<and> (\<forall>node. obj_log api (empty_pool\<lparr>po_nodes := [node]\<rparr>)) \<and>
     (\<forall>path. obj_create api path kLayout kPoolSize) \<and> (\<forall>path. obj_unlink api path = None)"

lemma persist_tx_empty:
  assumes "pmemobj_ok api"
  shows "\<exists>r. persist_tx api t (\<lambda>_. None) empty_pool = Inr r"
  using assms by (auto simp: persist_tx_def Insert_def pmemobj_ok_def logged_def empty_pool_def Let_def)

section \<open>The flush thread\<close>

definition job_rest :: "nv_world \<Rightarrow> flush_job \<Rightarrow> tuple list" where
  "job_rest w j =
     (case pools w (fj_pool j) of
        None \<Rightarrow> []
      | Some p \<Rightarrow>
          (case fj_state j of
             FlushStart \<Rightarrow> rev (pool_tuples p)
           | FlushWrite f c \<Rightarrow> (case c of None \<Rightarrow> [] | Some i \<Rightarrow> rev (take (Suc i) (pool_tuples p)))
           | FlushEnd r \<Rightarrow> []))"

definition job_ok :: "nv_world \<Rightarrow> flush_job \<Rightarrow> bool" where
  "job_ok w j \<longleftrightarrow> fj_path j = fj_pool j \<and>
     (case fj_state j of
        FlushEnd r \<Rightarrow> r = Inr kSuccess \<and> pools w (fj_pool j) = None
      | FlushStart \<Rightarrow> (\<exists>p. pools w (fj_pool j) = Some p \<and> pool_ok p)
      | FlushWrite f c \<Rightarrow> open_fds (nv_os w) (of_fd f) = Some kFileName \<and> of_fd f \<noteq> - 1 \<and>
          (\<exists>p. pools w (fj_pool j) = Some p \<and> pool_ok p \<and> (\<forall>i. c = Some i \<longrightarrow> i < length (po_nodes p))))"

text \<open>What a step of the thread may change: the log grows by the tuples it is done with, and only its
  own pool goes away.\<close>

definition flushed :: "nv_world \<Rightarrow> flush_job \<Rightarrow> nv_world \<Rightarrow> flush_job \<Rightarrow> bool" where
  "flushed w j w' j' \<longleftrightarrow> fj_pool j' = fj_pool j \<and> world_ok (nv_os w') \<and> job_ok w' j' \<and>
     (\<forall>q. q \<noteq> fj_pool j \<longrightarrow> pools w' q = pools w q) \<and>
     (\<exists>ts. (\<forall>t\<in>set ts. tuple_ok t) \<and> disk (nv_os w') kFileName = disk (nv_os w) kFileName @ concat (map tuple_bytes ts) \<and>
        job_rest w j = ts @ job_rest w' j')"

fun job_measure :: "nv_world \<Rightarrow> flush_job \<Rightarrow> nat" where
  "job_measure w j =
     (case fj_state j of
        FlushEnd r \<Rightarrow> 0
      | FlushStart \<Rightarrow> (case pools w (fj_pool j) of None \<Rightarrow> 1 | Some p \<Rightarrow> length (po_nodes p) + 2)
      | FlushWrite f c \<Rightarrow> (case c of None \<Rightarrow> 1 | Some i \<Rightarrow> i + 2))"

lemma flushed_trans: "flushed w j w1 j1 \<Longrightarrow> flushed w1 j1 w2 j2 \<Longrightarrow> flushed w j w2 j2"
proof -
  assume a: "flushed w j w1 j1" "flushed w1 j1 w2 j2"
  obtain ts us where ts: "\<forall>t\<in>set ts. tuple_ok t" "disk (nv_os w1) kFileName = disk (nv_os w) kFileName @ concat (map tuple_bytes ts)"
      "job_rest w j = ts @ job_rest w1 j1"
    and us: "\<forall>t\<in>set us. tuple_ok t" "disk (nv_os w2) kFileName = disk (nv_os w1) kFileName @ concat (map tuple_bytes us)"
      "job_rest w1 j1 = us @ job_rest w2 j2"
    using a unfolding flushed_def by metis
  then have "\<exists>ts. (\<forall>t\<in>set ts. tuple_ok t) \<and> disk (nv_os w2) kFileName = disk (nv_os w) kFileName @ concat (map tuple_bytes ts) \<and>
        job_rest w j = ts @ job_rest w2 j2"
    by (intro exI [of _ "ts @ us"]) auto
  then show ?thesis using a unfolding flushed_def by metis
qed

lemma flush_step_ok:
  assumes api: "pmemobj_ok api" and os: "os_ok os kFileName" and w: "world_ok (nv_os w)" and j: "job_ok w j" "\<nexists>r. fj_state j = FlushEnd r"
  shows "\<exists>j' w'. FlushToDisk_step api os (j, w) = (j', w') \<and> flushed w j w' j' \<and> job_measure w' j' < job_measure w j"
proof (cases "fj_state j")
  case (FlushEnd r)
  then show ?thesis using j(2) by simp
next
  case FlushStart
  then obtain p where p: "pools w (fj_pool j) = Some p" "pool_ok p" "fj_path j = fj_pool j" using j(1) by (auto simp: job_ok_def)
  define v where "v = (nv_os w)\<lparr>open_fds := (open_fds (nv_os w))(next_fd (nv_os w) \<mapsto> kFileName), next_fd := next_fd (nv_os w) + 1\<rparr>"
  let ?c = "pl_head (po_root p)"
  let ?j = "j\<lparr>fj_state := FlushWrite \<lparr>of_fd = next_fd (nv_os w)\<rparr> ?c\<rparr>" and ?w = "w\<lparr>nv_os := v\<rparr>"
  have c: "?c = (if po_nodes p = [] then None else Some (length (po_nodes p) - 1))" using p(2) by (simp add: pool_ok_def)
  have "FlushToDisk_step api os (j, w) = (?j, ?w)"
    using FlushStart p(1) os by (simp add: FlushToDisk_step_def flush_start_def OSFile_open_def os_ok_def v_def)
  moreover have "job_rest ?w ?j = job_rest w j" using FlushStart p(1) c by (simp add: job_rest_def pool_tuples_def)
  moreover have "job_measure ?w ?j < job_measure w j" using FlushStart p(1) c by simp
  moreover have "job_ok ?w ?j" "world_ok v" "disk v = disk (nv_os w)" using p c w by (auto simp: job_ok_def v_def world_ok_def)
  ultimately show ?thesis by (simp add: flushed_def del: job_measure.simps)
next
  case (FlushWrite f c)
  then obtain p where p: "pools w (fj_pool j) = Some p" "pool_ok p" "fj_path j = fj_pool j"
      "open_fds (nv_os w) (of_fd f) = Some kFileName" "of_fd f \<noteq> - 1" "\<forall>i. c = Some i \<longrightarrow> i < length (po_nodes p)"
    using j(1) by (auto simp: job_ok_def)
  show ?thesis
  proof (cases c)
    case None
    let ?j = "j\<lparr>fj_state := FlushEnd (Inr kSuccess)\<rparr>"
    let ?w = "w\<lparr>nv_os := OSFile_close f (OSFile_Sync f (nv_os w)), pools := (pools w)(fj_pool j := None)\<rparr>"
    have "FlushToDisk_step api os (j, w) = (?j, ?w)"
      using FlushWrite None api p(3) by (simp add: FlushToDisk_step_def flush_finish_def pmemobj_ok_def)
    moreover have "job_rest ?w ?j = []" "job_rest w j = []" using FlushWrite None p(1) by (simp_all add: job_rest_def)
    moreover have "job_ok ?w ?j" "world_ok (nv_os ?w)" "disk (nv_os ?w) = disk (nv_os w)"
      using p w by (simp_all add: job_ok_def OSFile_close_def OSFile_Sync_def world_ok_def)
    ultimately show ?thesis using FlushWrite None by (simp add: flushed_def)
  next
    case (Some i)
    have i: "i < length (po_nodes p)" using p(6) Some by simp
    let ?n = "po_nodes p ! i"
    have t: "tuple_ok (nd_obj ?n)" "nd_next ?n = (if i = 0 then None else Some (i - 1))" using p(2) i by (auto simp: pool_ok_def)
    obtain v where v: "OSFile_Write os f (tuple_bytes (nd_obj ?n)) sizeof_Tuple (nv_os w) = (int sizeof_Tuple, v)"
        "appended kFileName (tuple_bytes (nd_obj ?n)) (nv_os w) v"
      using OSFile_Write_ok [OF os p(4), of "tuple_bytes (nd_obj ?n)" sizeof_Tuple] t(1) by auto
    let ?j = "j\<lparr>fj_state := FlushWrite f (nd_next ?n)\<rparr>" and ?w = "w\<lparr>nv_os := v\<rparr>"
    have "FlushToDisk_step api os (j, w) = (?j, ?w)"
      using FlushWrite Some p(1) i v(1) by (simp add: FlushToDisk_step_def flush_write_def node_at_def)
    moreover have "job_rest w j = [nd_obj ?n] @ job_rest ?w ?j"
      using FlushWrite Some p(1) t(2) i by (auto simp: job_rest_def pool_tuples_def take_Suc_conv_app_nth)
    moreover have "job_measure ?w ?j < job_measure w j" using FlushWrite Some t(2) by simp
    moreover have "job_ok ?w ?j" "world_ok v" "disk v kFileName = disk (nv_os w) kFileName @ tuple_bytes (nd_obj ?n)"
      using p w v(2) t(2) i by (auto simp: job_ok_def appended_def world_ok_def)
    ultimately show ?thesis using t(1) by (simp add: flushed_def del: job_measure.simps)
  qed
qed

lemma FlushToDisk_ok:
  assumes api: "pmemobj_ok api" and os: "os_ok os kFileName"
  shows "world_ok (nv_os w) \<Longrightarrow> job_ok w j \<Longrightarrow>
    \<exists>w' j'. FlushToDisk api os (j, w) = Some (Inr kSuccess, w') \<and> fj_state j' = FlushEnd (Inr kSuccess) \<and> (flushed w j w' j' \<or> w' = w \<and> j' = j)"
proof (induction "job_measure w j" arbitrary: w j rule: less_induct)
  case less
  show ?case
  proof (cases "\<exists>r. fj_state j = FlushEnd r")
    case True
    then show ?thesis using less.prems(2) by (subst FlushToDisk.simps) (auto simp: job_ok_def)
  next
    case False
    obtain j1 w1 where s: "FlushToDisk_step api os (j, w) = (j1, w1)" "flushed w j w1 j1" "job_measure w1 j1 < job_measure w j"
      using flush_step_ok [OF api os less.prems False] by blast
    have "FlushToDisk api os (j, w) = FlushToDisk api os (j1, w1)"
      using False s(1) by (subst FlushToDisk.simps) (auto split: flush_state.split)
    moreover have "world_ok (nv_os w1)" "job_ok w1 j1" using s(2) by (simp_all add: flushed_def)
    ultimately show ?thesis using less.hyps [OF s(3)] s(2) flushed_trans by (metis (no_types, lifting))
  qed
qed

section \<open>The invariant of the engine\<close>

definition pool_name :: "int \<Rightarrow> string" where
  "pool_name n = (if n = 0 then kPoolPath else kPoolPath @ decimal (nat n))"

lemma pool_name_inject: "0 \<le> m \<Longrightarrow> 0 \<le> n \<Longrightarrow> pool_name m = pool_name n \<longleftrightarrow> m = n"
  by (auto simp: pool_name_def)

definition nv_inv :: "pmemobj \<Rightarrow> os \<Rightarrow> NVRecEngine \<times> nv_world \<Rightarrow> bool" where
  "nv_inv api os ew \<longleftrightarrow> (case ew of (e, w) \<Rightarrow>
     pmemobj_ok api \<and> os_ok os kFileName \<and> world_ok (nv_os w) \<and>
     pool_path e = kPoolPath \<and> 0 \<le> pool_counter e \<and> pool_counter e < 2 ^ 64 \<and> nv_pool e = pool_name (pool_counter e) \<and>
     (\<exists>p. pools w (nv_pool e) = Some p \<and> pool_ok p \<and> table_ok (nv_lookup e) p) \<and>
     (\<forall>j. flush_result e = Some j \<longrightarrow> job_ok w j \<and> fj_pool j \<noteq> nv_pool e) \<and>
     (\<forall>n. 0 \<le> n \<longrightarrow> pools w (pool_name n) \<noteq> None \<longrightarrow> pool_name n = nv_pool e \<or> (\<exists>j. flush_result e = Some j \<and> pool_name n = fj_pool j)) \<and>
     (\<exists>hs. (\<forall>t\<in>set hs. tuple_ok t) \<and> disk (nv_os w) kFileName = concat (map tuple_bytes hs)))"

text \<open>The part that speaks of the pools.\<close>

definition pools_inv :: "NVRecEngine \<times> nv_world \<Rightarrow> bool" where
  "pools_inv ew \<longleftrightarrow> (case ew of (e, w) \<Rightarrow>
     (\<forall>j. flush_result e = Some j \<longrightarrow> job_ok w j \<and> fj_pool j \<noteq> nv_pool e) \<and>
     (\<forall>n. 0 \<le> n \<longrightarrow> pools w (pool_name n) \<noteq> None \<longrightarrow> pool_name n = nv_pool e \<or> (\<exists>j. flush_result e = Some j \<and> pool_name n = fj_pool j)))"

lemma nv_inv_pools: "nv_inv api os (e, w) \<Longrightarrow> pools_inv (e, w)"
  unfolding nv_inv_def pools_inv_def prod.case by blast

lemma pools_invD:
  "pools_inv (e, w) \<Longrightarrow> 0 \<le> n \<Longrightarrow> pools w (pool_name n) \<noteq> None \<Longrightarrow>
    pool_name n = nv_pool e \<or> (\<exists>j. flush_result e = Some j \<and> pool_name n = fj_pool j)"
  unfolding pools_inv_def prod.case by blast

lemma nv_inv_change:
  assumes "nv_inv api os (e, w)" "nv_os w' = nv_os w" "pool_path e' = pool_path e"
    "0 \<le> pool_counter e'" "pool_counter e' < 2 ^ 64" "nv_pool e' = pool_name (pool_counter e')"
    "pools w' (nv_pool e') = Some p" "pool_ok p" "table_ok (nv_lookup e') p" "pools_inv (e', w')"
  shows "nv_inv api os (e', w')"
  using assms unfolding nv_inv_def pools_inv_def by auto

definition nv_tuples :: "NVRecEngine \<times> nv_world \<Rightarrow> tuple list" where
  "nv_tuples ew = (case ew of (e, w) \<Rightarrow>
     log_tuples (disk (nv_os w) kFileName) @ (case flush_result e of None \<Rightarrow> [] | Some j \<Rightarrow> job_rest w j) @
     (case pools w (nv_pool e) of None \<Rightarrow> [] | Some p \<Rightarrow> pool_tuples p))"

definition nv_image :: "NVRecEngine \<times> nv_world \<Rightarrow> int \<Rightarrow> tuple option" where
  "nv_image ew = latest (nv_tuples ew)"

lemma flushed_inv:
  assumes inv: "nv_inv api os (e, w)" and j: "flush_result e = Some j" and f: "flushed w j w' j'"
  shows "nv_inv api os (e\<lparr>flush_result := Some j'\<rparr>, w')" "nv_tuples (e\<lparr>flush_result := Some j'\<rparr>, w') = nv_tuples (e, w)"
proof -
  obtain ts where ts: "\<forall>t\<in>set ts. tuple_ok t" "disk (nv_os w') kFileName = disk (nv_os w) kFileName @ concat (map tuple_bytes ts)"
      "job_rest w j = ts @ job_rest w' j'"
    and keep: "fj_pool j' = fj_pool j" "world_ok (nv_os w')" "job_ok w' j'" "\<forall>q. q \<noteq> fj_pool j \<longrightarrow> pools w' q = pools w q"
    using f by (auto simp: flushed_def)
  obtain hs where hs: "\<forall>t\<in>set hs. tuple_ok t" "disk (nv_os w) kFileName = concat (map tuple_bytes hs)"
    using inv by (auto simp: nv_inv_def)
  have ne: "nv_pool e \<noteq> fj_pool j" using inv j by (auto simp: nv_inv_def)
  have ht: "\<forall>t\<in>set (hs @ ts). tuple_ok t" "disk (nv_os w') kFileName = concat (map tuple_bytes (hs @ ts))"
    using hs ts(1,2) by auto
  have "\<exists>hs. (\<forall>t\<in>set hs. tuple_ok t) \<and> disk (nv_os w') kFileName = concat (map tuple_bytes hs)" using ht by blast
  moreover have "0 \<le> n \<longrightarrow> pools w' (pool_name n) \<noteq> None \<longrightarrow> pool_name n = nv_pool e \<or> pool_name n = fj_pool j" for n
    using inv keep(4) j by (cases "pool_name n = fj_pool j") (auto simp: nv_inv_def)
  ultimately show "nv_inv api os (e\<lparr>flush_result := Some j'\<rparr>, w')"
    using inv j keep ne by (auto simp: nv_inv_def)
  have "log_tuples (disk (nv_os w') kFileName) = hs @ ts" "log_tuples (disk (nv_os w) kFileName) = hs"
    using log_tuples_concat [OF ht(1)] log_tuples_concat [OF hs(1)] ht(2) hs(2) by simp_all
  then show "nv_tuples (e\<lparr>flush_result := Some j'\<rparr>, w') = nv_tuples (e, w)"
    using ts(3) j keep(4) ne by (simp add: nv_tuples_def)
qed

section \<open>Operations\<close>

lemma wait_flush_ok:
  assumes inv: "nv_inv api os (e, w)"
  shows "\<exists>w'. wait_flush api os (e, w) = Some (Inr (e\<lparr>flush_result := None\<rparr>, w')) \<and> nv_inv api os (e\<lparr>flush_result := None\<rparr>, w') \<and>
    nv_tuples (e\<lparr>flush_result := None\<rparr>, w') = nv_tuples (e, w)"
proof (cases "flush_result e")
  case None
  then have self: "e\<lparr>flush_result := None\<rparr> = e" by simp
  show ?thesis unfolding self using inv None by (simp add: wait_flush_def)
next
  case (Some j)
  have a: "pmemobj_ok api" "os_ok os kFileName" "world_ok (nv_os w)" "job_ok w j" using inv Some by (auto simp: nv_inv_def)
  obtain w' j' where r: "FlushToDisk api os (j, w) = Some (Inr kSuccess, w')" "fj_state j' = FlushEnd (Inr kSuccess)"
      "flushed w j w' j' \<or> w' = w \<and> j' = j"
    using FlushToDisk_ok [OF a] by blast
  have self: "e\<lparr>flush_result := Some j\<rparr> = e" using Some by simp
  have "nv_inv api os (e\<lparr>flush_result := Some j'\<rparr>, w') \<and> nv_tuples (e\<lparr>flush_result := Some j'\<rparr>, w') = nv_tuples (e, w)"
    using r(3) flushed_inv [OF inv Some] inv self by (metis (no_types))
  moreover have "job_rest w' j' = []" using r(2) by (simp add: job_rest_def split: option.splits)
  moreover have "pools w' (fj_pool j') = None" if "job_ok w' j'" using that r(2) by (simp add: job_ok_def)
  ultimately have "nv_inv api os (e\<lparr>flush_result := None\<rparr>, w')" "nv_tuples (e\<lparr>flush_result := None\<rparr>, w') = nv_tuples (e, w)"
    by (auto simp: nv_inv_def nv_tuples_def)
  then show ?thesis using Some r(1) by (simp add: wait_flush_def)
qed

lemma latest_rev: "distinct (map tp_key ts) \<Longrightarrow> latest (rev ts) = latest ts"
proof
  fix k assume d: "distinct (map tp_key ts)"
  show "latest (rev ts) k = latest ts k"
  proof (cases "latest ts k")
    case None
    then show ?thesis by (metis latest_None set_rev)
  next
    case (Some t)
    then obtain i where i: "i < length (rev ts)" "rev ts ! i = t" "tp_key t = k"
      using latest_SomeD by (metis in_set_conv_nth set_rev)
    have "distinct (map tp_key (rev ts))" using d by (simp flip: rev_map)
    from latest_distinct [OF this i(1)] show ?thesis using i Some by simp
  qed
qed

lemma start_flush_ok:
  assumes inv: "nv_inv api os (e, w)" and idle: "flush_result e = None" and n: "pool_counter e + 1 < 2 ^ 64"
  shows "\<exists>e' w'. start_flush api (e, w) = Inr (e', w') \<and> nv_inv api os (e', w') \<and> nv_image (e', w') = nv_image (e, w) \<and>
    pools w' (nv_pool e') = Some empty_pool \<and> nv_lookup e' = (\<lambda>_. None) \<and> pool_counter e' = pool_counter e + 1"
proof -
  let ?n = "pool_counter e + 1"
  let ?j = "\<lparr>fj_path = nv_pool e, fj_pool = nv_pool e, fj_state = FlushStart\<rparr>"
  let ?e = "e\<lparr>flush_result := Some ?j, pool_counter := ?n, nv_pool := pool_name ?n, nv_lookup := (\<lambda>_. None)\<rparr>"
  let ?w = "w\<lparr>pools := (pools w)(pool_name ?n \<mapsto> empty_pool)\<rparr>"
  obtain p where p: "pools w (nv_pool e) = Some p" "pool_ok p" and env: "pmemobj_ok api" "world_ok (nv_os w)" "os_ok os kFileName"
    and c: "pool_path e = kPoolPath" "0 \<le> pool_counter e" "nv_pool e = pool_name (pool_counter e)"
    using inv by (auto simp: nv_inv_def)
  have cur: "current_pool_path e = nv_pool e" using c by (simp add: current_pool_path_def pool_name_def)
  have nx: "uint64 ?n = ?n" "kPoolPath @ decimal (nat ?n) = pool_name ?n" using c(2) n by (simp_all add: cint pool_name_def)
  have ne: "pool_name ?n \<noteq> nv_pool e" using c(2,3) pool_name_inject [of ?n "pool_counter e"] by simp
  have "0 \<le> ?n" using c(2) by simp
  then have free: "pools w (pool_name ?n) = None" using pools_invD [OF nv_inv_pools [OF inv], of ?n] idle ne by (cases "pools w (pool_name ?n)") auto
  have "start_flush api (e, w) = Inr (?e, ?w)"
    using cur nx c(1) free env(1)
    by (simp add: start_flush_def NextPoolPath_def MakePersistentListPool_def pmemobj_ok_def Let_def)
  moreover have "nv_inv api os (?e, ?w)"
  proof (rule nv_inv_change [OF inv])
    have "pool_name m = nv_pool e" if "0 \<le> m" "pools w (pool_name m) \<noteq> None" for m
      using pools_invD [OF nv_inv_pools [OF inv] that] idle by auto
    then show "pools_inv (?e, ?w)" using ne p by (auto simp: pools_inv_def job_ok_def)
  qed (use c n empty_pool_ok in simp_all)
  moreover have "nv_image (?e, ?w) = nv_image (e, w)"
  proof -
    have d: "distinct (map tp_key (pool_tuples p))" using p(2) by (simp add: pool_ok_def)
    show ?thesis using p(1) ne idle empty_pool_ok(3) latest_rev [OF d]
      by (simp add: nv_image_def nv_tuples_def job_rest_def fun_eq_iff latest_append)
  qed
  ultimately show ?thesis by auto
qed

text \<open>A transaction that succeeds.\<close>

lemma stored_ok:
  assumes inv: "nv_inv api os (e, w)" and p: "pools w (nv_pool e) = Some p" "pool_ok p" "table_ok (nv_lookup e) p" and t: "tuple_ok t"
    and tx: "persist_tx api t (nv_lookup e) p = Inr (lk, p')"
  shows "nv_inv api os (e\<lparr>nv_lookup := lk\<rparr>, w\<lparr>pools := (pools w)(nv_pool e \<mapsto> p')\<rparr>)"
    "nv_image (e\<lparr>nv_lookup := lk\<rparr>, w\<lparr>pools := (pools w)(nv_pool e \<mapsto> p')\<rparr>) = (nv_image (e, w))(tp_key t := Some t)"
proof -
  have p': "pool_ok p'" "table_ok lk p'" "latest (pool_tuples p') = (latest (pool_tuples p))(tp_key t := Some t)"
    using persist_tx_cases [OF p(2,3) t, of api] tx by auto
  have job: "job_ok (w\<lparr>pools := (pools w)(nv_pool e \<mapsto> p')\<rparr>) j = job_ok w j" "job_rest (w\<lparr>pools := (pools w)(nv_pool e \<mapsto> p')\<rparr>) j = job_rest w j"
    if "fj_pool j \<noteq> nv_pool e" for j
    using that by (simp_all add: job_ok_def job_rest_def cong: flush_state.case_cong)
  show "nv_inv api os (e\<lparr>nv_lookup := lk\<rparr>, w\<lparr>pools := (pools w)(nv_pool e \<mapsto> p')\<rparr>)"
  proof (rule nv_inv_change [OF inv])
    have "pools_inv (e, w)" by (rule nv_inv_pools [OF inv])
    then show "pools_inv (e\<lparr>nv_lookup := lk\<rparr>, w\<lparr>pools := (pools w)(nv_pool e \<mapsto> p')\<rparr>)"
      using job(1) p(1) unfolding pools_inv_def by (simp; blast)
  qed (use inv p' in \<open>simp_all add: nv_inv_def\<close>)
  have "fj_pool j \<noteq> nv_pool e" if "flush_result e = Some j" for j
    using nv_inv_pools [OF inv] that by (simp add: pools_inv_def)
  then show "nv_image (e\<lparr>nv_lookup := lk\<rparr>, w\<lparr>pools := (pools w)(nv_pool e \<mapsto> p')\<rparr>) = (nv_image (e, w))(tp_key t := Some t)"
    using p(1) p'(3) job(2)
    by (auto simp: nv_image_def nv_tuples_def fun_eq_iff latest_append split: option.splits)
qed

lemma PersistRaw_ok:
  assumes inv: "nv_inv api os (e, w)" and n: "pool_counter e + 1 < 2 ^ 64" and t: "tuple_ok t"
  shows "\<exists>e' w'. PersistRaw api os (e, w) t = Some (Inr (kSuccess, e', w')) \<and> nv_inv api os (e', w') \<and>
    nv_image (e', w') = (nv_image (e, w))(tp_key t := Some t) \<and> pool_counter e' \<le> pool_counter e + 1"
proof -
  obtain p where p: "pools w (nv_pool e) = Some p" "pool_ok p" "table_ok (nv_lookup e) p" using inv by (auto simp: nv_inv_def)
  from persist_tx_cases [OF p(2,3) t, of api] show ?thesis
  proof (elim disjE exE conjE)
    fix lk p' assume tx: "persist_tx api t (nv_lookup e) p = Inr (lk, p')"
    from stored_ok [OF inv p t tx] show ?thesis using p(1) tx by (subst PersistRaw.simps) simp
  next
    fix x assume tx: "persist_tx api t (nv_lookup e) p = Inl (Exn x)"
    let ?e = "e\<lparr>flush_result := None\<rparr>"
    obtain w1 where w1: "wait_flush api os (e, w) = Some (Inr (?e, w1))" "nv_inv api os (?e, w1)" "nv_tuples (?e, w1) = nv_tuples (e, w)"
      using wait_flush_ok [OF inv] by blast
    have "flush_result ?e = None" "pool_counter ?e + 1 < 2 ^ 64" using n by simp_all
    from start_flush_ok [OF w1(2) this] obtain e2 w2 where
      s: "start_flush api (?e, w1) = Inr (e2, w2)" "nv_inv api os (e2, w2)" "nv_image (e2, w2) = nv_image (?e, w1)"
        "pools w2 (nv_pool e2) = Some empty_pool" "nv_lookup e2 = (\<lambda>_. None)" "pool_counter e2 = pool_counter e + 1" by auto
    have api: "pmemobj_ok api" using inv by (auto simp: nv_inv_def)
    obtain lk p' where tx2: "persist_tx api t (nv_lookup e2) empty_pool = Inr (lk, p')"
      using persist_tx_empty [OF api, of t] s(5) by auto
    have "table_ok (nv_lookup e2) empty_pool" using empty_pool_ok(2) s(5) by simp
    note st = stored_ok [OF s(2,4) empty_pool_ok(1) this t tx2]
    have "PersistRaw api os (e, w) t = PersistRaw api os (e2, w2) t"
      using p(1) tx w1(1) s(1) by (subst PersistRaw.simps) simp
    also have "\<dots> = Some (Inr (kSuccess, e2\<lparr>nv_lookup := lk\<rparr>, w2\<lparr>pools := (pools w2)(nv_pool e2 \<mapsto> p')\<rparr>))"
      using s(4) tx2 by (subst PersistRaw.simps) simp
    finally show ?thesis using st s(3,6) w1(3) by (simp add: nv_image_def)
  qed
qed

end
