(* ===== verification/NvmRecContract.thy ===== *)
theory NvmRecContract
  imports NvmRecProof EngineContract
begin

text \<open>
  What the list engine promises under every interleaving of updates, deletions and steps of the flush
  thread: the image of log, pool being flushed and pool in use is the history of the operations.
\<close>

section \<open>Interleavings\<close>

datatype nv_event = Update int "kvpair list" | Delete int | Thread

inductive nv_step :: "pmemobj \<Rightarrow> os \<Rightarrow> NVRecEngine \<times> nv_world \<Rightarrow> nv_event \<Rightarrow> NVRecEngine \<times> nv_world \<Rightarrow> bool" for api os where
  update: "NVRecEngine_PersistUpdate api os s k vs = Some (Inr (r, s')) \<Longrightarrow> nv_step api os s (Update k vs) s'"
| delete: "NVRecEngine_PersistDelete api os s k = Some (Inr (r, s')) \<Longrightarrow> nv_step api os s (Delete k) s'"
| thread: "flush_result e = Some j \<Longrightarrow> \<nexists>r. fj_state j = FlushEnd r \<Longrightarrow> FlushToDisk_step api os (j, w) = (j', w') \<Longrightarrow>
    nv_step api os (e, w) Thread (e\<lparr>flush_result := Some j'\<rparr>, w')"

inductive_cases nv_stepE: "nv_step api os s ev s'"

inductive nv_steps :: "pmemobj \<Rightarrow> os \<Rightarrow> NVRecEngine \<times> nv_world \<Rightarrow> nv_event list \<Rightarrow> NVRecEngine \<times> nv_world \<Rightarrow> bool" for api os s where
  start: "nv_steps api os s [] s"
| step: "nv_steps api os s es s' \<Longrightarrow> nv_step api os s' ev s'' \<Longrightarrow> nv_steps api os s (es @ [ev]) s''"

definition key_ok :: "int \<Rightarrow> bool" where
  "key_ok k \<longleftrightarrow> 0 \<le> k \<and> k < 2 ^ 64"

fun event_ok :: "nv_event \<Rightarrow> bool" where
  "event_ok (Update k vs) \<longleftrightarrow> key_ok k \<and> storable vs"
| "event_ok (Delete k) \<longleftrightarrow> key_ok k"
| "event_ok Thread \<longleftrightarrow> True"

fun record_event :: "nv_event \<Rightarrow> (int \<Rightarrow> tuple option) \<Rightarrow> int \<Rightarrow> tuple option" where
  "record_event (Update k vs) m = (case update_tuple k vs of Inl x \<Rightarrow> m | Inr t \<Rightarrow> m(k := Some t))"
| "record_event (Delete k) m = m(k := Some (delete_tuple k))"
| "record_event Thread m = m"

definition operations :: "nv_event list \<Rightarrow> int" where
  "operations es = int (length (filter (\<lambda>ev. ev \<noteq> Thread) es))"

lemma PersistUpdate_ok:
  assumes inv: "nv_inv api os s" and n: "pool_counter (fst s) + 1 < 2 ^ 64" and k: "key_ok k" "storable vs"
  shows "\<exists>t s'. update_tuple k vs = Inr t \<and> NVRecEngine_PersistUpdate api os s k vs = Some (Inr (kSuccess, s')) \<and> nv_inv api os s' \<and>
    nv_image s' = (nv_image s)(k := Some t) \<and> pool_counter (fst s') \<le> pool_counter (fst s) + 1"
proof -
  obtain t where t: "update_tuple k vs = Inr t" "tuple_ok t" "tp_key t = k" using update_tuple_ok [OF k(2)] k(1) unfolding key_ok_def by blast
  then obtain d where d: "DBToRaw vs = Inr d" "t = d\<lparr>tp_key := k\<rparr>" by (auto simp: update_tuple_def bindR_eq_Inr)
  obtain e w where s: "s = (e, w)" by fastforce
  from PersistRaw_ok [OF inv [unfolded s] _ t(2)] n t d show ?thesis by (auto simp: s NVRecEngine_PersistUpdate_def)
qed

lemma PersistDelete_ok:
  assumes inv: "nv_inv api os s" and n: "pool_counter (fst s) + 1 < 2 ^ 64" and k: "key_ok k"
  shows "\<exists>s'. NVRecEngine_PersistDelete api os s k = Some (Inr (kSuccess, s')) \<and> nv_inv api os s' \<and>
    nv_image s' = (nv_image s)(k := Some (delete_tuple k)) \<and> pool_counter (fst s') \<le> pool_counter (fst s) + 1"
proof -
  obtain e w where s: "s = (e, w)" by fastforce
  have "tuple_ok (delete_tuple k)" using k by (simp add: key_ok_def)
  from PersistRaw_ok [OF inv [unfolded s] _ this] n k show ?thesis
    by (auto simp: s NVRecEngine_PersistDelete_def delete_tuple_fields key_ok_def)
qed

lemma nv_step_inv:
  assumes "nv_step api os s ev s'" "nv_inv api os s" "pool_counter (fst s) + operations [ev] < 2 ^ 64" "event_ok ev"
  shows "nv_inv api os s' \<and> nv_image s' = record_event ev (nv_image s) \<and> pool_counter (fst s') \<le> pool_counter (fst s) + operations [ev]"
  using assms(1)
proof (cases rule: nv_step.cases)
  case (update k vs r)
  then show ?thesis using PersistUpdate_ok [OF assms(2), of k vs] assms(3,4) by (auto simp: operations_def)
next
  case (delete k r)
  then show ?thesis using PersistDelete_ok [OF assms(2), of k] assms(3,4) by (auto simp: operations_def)
next
  case (thread e j w j' w')
  have a: "pmemobj_ok api" "os_ok os kFileName" "world_ok (nv_os w)" "job_ok w j"
    using assms(2) thread(1,4) unfolding nv_inv_def by auto
  have f: "flushed w j w' j'" using flush_step_ok [OF a thread(5)] thread(6) by auto
  show ?thesis
    using flushed_inv [OF assms(2) [unfolded thread(1)] thread(4) f] thread by (simp add: nv_image_def operations_def)
qed

lemma nv_steps_inv:
  assumes "nv_steps api os s0 es s" "nv_inv api os s0" "\<forall>ev\<in>set es. event_ok ev" "pool_counter (fst s0) + operations es < 2 ^ 64"
  shows "nv_inv api os s \<and> nv_image s = fold record_event es (nv_image s0) \<and> pool_counter (fst s) \<le> pool_counter (fst s0) + operations es"
  using assms
proof (induction rule: nv_steps.induct)
  case start
  then show ?case by (simp add: operations_def)
next
  case (step es s' ev s'')
  have o: "operations (es @ [ev]) = operations es + operations [ev]" by (simp add: operations_def)
  have le: "operations es \<le> operations (es @ [ev])" by (simp add: operations_def)
  have IH: "nv_inv api os s'" "nv_image s' = fold record_event es (nv_image s0)" "pool_counter (fst s') \<le> pool_counter (fst s0) + operations es"
    using step.IH step.prems le by auto
  have "pool_counter (fst s') + operations [ev] < 2 ^ 64" using IH(3) step.prems(3) o by simp
  from nv_step_inv [OF step.hyps(2) IH(1) this] IH step.prems(2) o show ?case by simp
qed

lemma created_inv:
  assumes "pmemobj_ok api" "os_ok os kFileName" "world_ok (nv_os w)" "\<forall>n\<ge>0. pools w (pool_name n) = None"
    "\<forall>t\<in>set hs. tuple_ok t" "disk (nv_os w) kFileName = concat (map tuple_bytes hs)"
  shows "\<exists>s0. NVRecEngine_ctor api w = Inr s0 \<and> nv_inv api os s0 \<and> nv_image s0 = latest hs \<and> pool_counter (fst s0) = 0"
proof -
  have f: "pools w kPoolPath = None" using assms(4) [rule_format, of 0] by (simp add: pool_name_def)
  let ?e = "\<lparr>nv_pool = kPoolPath, nv_lookup = (\<lambda>_. None), pool_counter = 0, pool_path = kPoolPath, flush_result = None\<rparr>"
  let ?w = "w\<lparr>pools := (pools w)(kPoolPath \<mapsto> empty_pool)\<rparr>"
  have "NVRecEngine_ctor api w = Inr (?e, ?w)"
    using f assms(1) by (simp add: NVRecEngine_ctor_def MakePersistentListPool_def pmemobj_ok_def kPoolPath_def)
  moreover have "nv_inv api os (?e, ?w)"
    using assms f empty_pool_ok by (auto simp: nv_inv_def pool_name_def)
  moreover have "nv_image (?e, ?w) = latest hs"
    using assms(5,6) log_tuples_concat [OF assms(5)] empty_pool_ok(3) by (simp add: nv_image_def nv_tuples_def)
  ultimately show ?thesis by auto
qed

section \<open>Theorems\<close>

text \<open>
  C5. Interleavings: from a new engine over a disk log of earlier tuples, after any sequence of
  updates, deletions and steps of the flush thread in any order, the last tuple of every key in the
  disk log, the pool being flushed and the pool in use, in this order, is the one the operations
  stored last (and for other keys the one of the log); and a further update returns and succeeds,
  whether it finds room in the pool or has to wait for the thread and start a new flush.
\<close>

theorem nvrec_interleavings:
  assumes "pmemobj_ok api" "os_ok os kFileName" "world_ok (nv_os w)" "\<forall>n\<ge>0. pools w (pool_name n) = None"
    "\<forall>t\<in>set hs. tuple_ok t" "disk (nv_os w) kFileName = concat (map tuple_bytes hs)"
    "NVRecEngine_ctor api w = Inr s0" "nv_steps api os s0 es s" "\<forall>ev\<in>set es. event_ok ev" "operations es + 1 < 2 ^ 64"
  shows "nv_image s = fold record_event es (latest hs) \<and>
    (\<forall>k vs. key_ok k \<longrightarrow> storable vs \<longrightarrow> (\<exists>s'. NVRecEngine_PersistUpdate api os s k vs = Some (Inr (kSuccess, s'))))"
proof -
  have "nv_inv api os s0" "nv_image s0 = latest hs" "pool_counter (fst s0) = 0" using created_inv [OF assms(1-6)] assms(7) by auto
  with nv_steps_inv [OF assms(8) this(1) assms(9)] assms(10)
  have s: "nv_inv api os s" "nv_image s = fold record_event es (latest hs)" "pool_counter (fst s) + 1 < 2 ^ 64" by auto
  then show ?thesis using PersistUpdate_ok [OF s(1,3)] by blast
qed

text \<open>A machine whose pools hold one tuple, and an empty file system for pools.\<close>

definition one_room :: pmemobj where
  "one_room = \<lparr>obj_room = (\<lambda>p. po_nodes p = []), obj_log = (\<lambda>_. True), obj_open = (\<lambda>_ _. True), obj_create = (\<lambda>_ _ _. True),
     obj_unlink = (\<lambda>_. None)\<rparr>"

definition nv_boot :: nv_world where
  "nv_boot = \<lparr>nv_os = boot, pools = (\<lambda>_. None)\<rparr>"

lemma one_room: "pmemobj_ok one_room" "os_ok posix kFileName" "world_ok (nv_os nv_boot)"
  by (simp_all add: pmemobj_ok_def one_room_def empty_pool_def os_ok_def posix_def world_ok_def nv_boot_def boot_def)

theorem nvrec_interleavings_witness:
  "\<exists>s0 s. NVRecEngine_ctor one_room nv_boot = Inr s0 \<and> nv_steps one_room posix s0 [Update 7 rec1, Delete 8, Delete 7] s \<and>
     nv_image s 7 = Some (delete_tuple 7) \<and> nv_image s 8 = Some (delete_tuple 8) \<and> nv_image s 9 = None"
proof -
  have fresh: "\<forall>n\<ge>0. pools nv_boot (pool_name n) = None" "disk (nv_os nv_boot) kFileName = concat (map tuple_bytes [])"
    by (simp_all add: nv_boot_def boot_def)
  obtain s0 where s0: "NVRecEngine_ctor one_room nv_boot = Inr s0" "nv_inv one_room posix s0" "pool_counter (fst s0) = 0"
    using created_inv [OF one_room fresh(1) _ fresh(2)] by auto
  obtain s1 t where s1: "NVRecEngine_PersistUpdate one_room posix s0 7 rec1 = Some (Inr (kSuccess, s1))" "nv_inv one_room posix s1"
      "pool_counter (fst s1) \<le> 1" "update_tuple 7 rec1 = Inr t"
    using PersistUpdate_ok [OF s0(2), of 7 rec1] s0(3) rec1_storable(1) by (auto simp: key_ok_def)
  obtain s2 where s2: "NVRecEngine_PersistDelete one_room posix s1 8 = Some (Inr (kSuccess, s2))" "nv_inv one_room posix s2"
      "pool_counter (fst s2) \<le> 2"
    using PersistDelete_ok [OF s1(2), of 8] s1(3) by (auto simp: key_ok_def)
  obtain s3 where s3: "NVRecEngine_PersistDelete one_room posix s2 7 = Some (Inr (kSuccess, s3))"
    using PersistDelete_ok [OF s2(2), of 7] s2(3) by (auto simp: key_ok_def)
  have steps: "nv_steps one_room posix s0 ((([] @ [Update 7 rec1]) @ [Delete 8]) @ [Delete 7]) s3"
    by (intro nv_steps.intros nv_step.intros) (rule nv_steps.start s1(1) s2(1) s3)+
  have "nv_image s3 = fold record_event [Update 7 rec1, Delete 8, Delete 7] (latest [])"
    using nvrec_interleavings [OF one_room fresh(1) _ fresh(2) s0(1) steps] rec1_storable(1)
    by (simp add: key_ok_def operations_def)
  then show ?thesis using s0(1) steps s1(4) by (intro exI [of _ s0] exI [of _ s3]) simp
qed

text \<open>
  C26. The persistent list stays a doubly linked list: inserting a tuple with a new key into a
  well-formed list either throws, or gives a well-formed list (links in both directions, head, tail,
  one node per key, keys of the nodes those of their tuples) with the tuple in a new node at the head.
\<close>

theorem list_insert_wellformed:
  assumes "pool_ok p" "tuple_ok t" "tp_key t \<notin> tp_key ` set (pool_tuples p)"
  shows "case Insert api p t of
      Inr (a, p') \<Rightarrow> pool_ok p' \<and> pool_tuples p' = pool_tuples p @ [t] \<and> pl_head (po_root p') = Some a \<and>
        (\<forall>n. node_at p' a = Inr n \<longrightarrow> nd_obj n = t \<and> nd_next n = pl_head (po_root p))
    | Inl x \<Rightarrow> \<exists>y. x = Exn y"
proof -
  have "pl_head (po_root (push_node p t)) = Some (length (po_nodes p))"
    "\<forall>n. node_at (push_node p t) (length (po_nodes p)) = Inr n \<longrightarrow> nd_obj n = t \<and> nd_next n = pl_head (po_root p)"
    using assms(1) by (auto simp: push_node_def Let_def node_at_def nth_append pool_ok_def)
  then show ?thesis
    using Insert_cases [OF assms(1), of api t] push_node_ok [OF assms] push_node_tuples [of p t] by auto
qed

definition many_room :: pmemobj where
  "many_room = one_room\<lparr>obj_room := (\<lambda>_. True)\<rparr>"

theorem list_insert_wellformed_witness:
  "\<exists>p p'. Insert many_room empty_pool (delete_tuple 1) = Inr (0, p) \<and> Insert many_room p (delete_tuple 2) = Inr (1, p') \<and>
     pool_ok p' \<and> pool_tuples p' = [delete_tuple 1, delete_tuple 2] \<and> pl_head (po_root p') = Some 1"
proof -
  let ?p = "push_node empty_pool (delete_tuple 1)" and ?p' = "push_node (push_node empty_pool (delete_tuple 1)) (delete_tuple 2)"
  have p: "pool_ok ?p" "pool_tuples ?p = [delete_tuple 1]"
    using push_node_ok [OF empty_pool_ok(1), of "delete_tuple 1"] empty_pool_ok(3) by (simp_all add: push_node_tuples)
  have i: "Insert many_room empty_pool (delete_tuple 1) = Inr (0, ?p)" "Insert many_room ?p (delete_tuple 2) = Inr (1, ?p')"
    by (simp_all add: Insert_def many_room_def one_room_def empty_pool_def logged_def push_node_def node_at_def Let_def)
  have "pool_ok ?p'" "pool_tuples ?p' = [delete_tuple 1, delete_tuple 2]" "pl_head (po_root ?p') = Some 1"
    using list_insert_wellformed [OF p(1), of "delete_tuple 2" many_room] p(2) i(2) by simp_all
  then show ?thesis using i by blast
qed

end
