(* ===== verification/Format.thy ===== *)
theory Format
  imports SdsContract
begin

text \<open>
  Command formatting of \<^verbatim>\<open>redis/hiredis/hiredis.c\<close>. A format string and a string argument are
  blocks with a terminating zero byte, positions in them are offsets; the variadic arguments are
  tagged with the type they were passed with, and fetching one with another type is a fault. The
  expansion of one \<^verbatim>\<open>printf\<close> conversion by the C library is the parameter \<open>pf\<close>.
\<close>

section \<open>Lengths\<close>

fun count_digits :: "int \<Rightarrow> int \<Rightarrow> int" where
  "count_digits v result =
     (if v < 10 then result else if v < 100 then result + 1 else if v < 1000 then result + 2
      else if v < 10000 then result + 3 else count_digits (v div 10000) (result + 4))"

declare count_digits.simps [simp del]

definition countDigits :: "int \<Rightarrow> int" where
  "countDigits v = count_digits v 1"

definition bulklen :: "int \<Rightarrow> int" where
  "bulklen len = uint64 (1 + countDigits len + 2 + len + 2)"

section \<open>Writing the command\<close>

text \<open>\<^verbatim>\<open>sprintf(cmd+pos,...)\<close> stores the text and a zero byte.\<close>

definition sprintf :: "bytes \<Rightarrow> int \<Rightarrow> bytes \<Rightarrow> (bytes \<times> int) res" where
  "sprintf cmd pos txt =
     bindR (wrn cmd pos (txt @ [NUL])) (\<lambda>cmd. bindR (ck32 (pos + int (length txt))) (\<lambda>pos. Inr (cmd, pos)))"

text \<open>The body of the loop over the arguments: the length line, the bytes, the line end.\<close>

definition put_bulk :: "bytes \<Rightarrow> int \<Rightarrow> bytes \<Rightarrow> int \<Rightarrow> (bytes \<times> int) res" where
  "put_bulk cmd pos arg len =
     bindR (sprintf cmd pos (CHR ''$'' # decimal (nat len) @ [CR, LF])) (\<lambda>(cmd, pos).
     bindR (memcpy cmd pos arg 0 len) (\<lambda>cmd.
     let pos = int32 (uint64 (pos + len)) in
     bindR (wr cmd pos CR) (\<lambda>cmd. bindR (ck32 (pos + 1)) (\<lambda>pos.
     bindR (wr cmd pos LF) (\<lambda>cmd. bindR (ck32 (pos + 1)) (\<lambda>pos. Inr (cmd, pos)))))))"

fun put_bulks :: "bytes \<Rightarrow> int \<Rightarrow> (bytes \<times> int) list \<Rightarrow> (bytes \<times> int) res" where
  "put_bulks cmd pos [] = Inr (cmd, pos)"
| "put_bulks cmd pos ((arg, len) # args) =
     bindR (put_bulk cmd pos arg len) (\<lambda>(cmd, pos). put_bulks cmd pos args)"

text \<open>From \<^verbatim>\<open>cmd = malloc(totlen+1)\<close> to the end; \<open>None\<close> is the failed allocation.\<close>

definition build_command :: "allocator \<Rightarrow> int \<Rightarrow> int \<Rightarrow> (bytes \<times> int) list \<Rightarrow> bytes option res" where
  "build_command A totlen argc args =
     bindR (ck32 (totlen + 1)) (\<lambda>n.
     case malloc A 0 (uint64 n) of
       None \<Rightarrow> Inr None
     | Some cmd \<Rightarrow>
         bindR (sprintf cmd 0 (CHR ''*'' # decimal_int argc @ [CR, LF])) (\<lambda>(cmd, pos).
         bindR (put_bulks cmd pos args) (\<lambda>(cmd, pos).
         bindR (assertR (pos = totlen)) (\<lambda>_.
         bindR (wr cmd pos NUL) (\<lambda>cmd. Inr (Some cmd))))))"

section \<open>Commands from a format\<close>

datatype va =
    VPtr bytes
  | VSize int
  | VInt int
  | VLong int
  | VLongLong int
  | VDouble nat

datatype vtype = TInt | TLong | TLongLong | TDouble

fun has_type :: "va \<Rightarrow> vtype \<Rightarrow> bool" where
  "has_type (VInt _) t \<longleftrightarrow> t = TInt"
| "has_type (VLong _) t \<longleftrightarrow> t = TLong"
| "has_type (VLongLong _) t \<longleftrightarrow> t = TLongLong"
| "has_type (VDouble _) t \<longleftrightarrow> t = TDouble"
| "has_type _ t \<longleftrightarrow> False"

abbreviation intfmts :: bytes where "intfmts \<equiv> ''diouxX'' @ [NUL]"

text \<open>\<^verbatim>\<open>while (*_p != '\0' && P(*_p)) _p++\<close>\<close>

function skip_fmt :: "(char \<Rightarrow> bool) \<Rightarrow> bytes \<Rightarrow> int \<Rightarrow> int res" where
  "skip_fmt P fmt p = bindR (rd fmt p) (\<lambda>c. if c \<noteq> NUL \<and> P c then skip_fmt P fmt (p + 1) else Inr p)"
  by pat_completeness auto
termination
  by (relation "measure (\<lambda>(P, fmt, p). nat (int (length fmt) - p))") (auto simp: rd_def split: if_splits)

declare skip_fmt.simps [simp del]

text \<open>A size modifier of \<open>k\<close> letters before an integer conversion: \<open>None\<close> is \<^verbatim>\<open>fmt_invalid\<close>.\<close>

definition sized_int :: "bytes \<Rightarrow> int \<Rightarrow> vtype \<Rightarrow> (int \<times> vtype) option res" where
  "sized_int fmt p t =
     bindR (rd fmt p) (\<lambda>c. if c = NUL then Inr None else
     bindR (strchr intfmts c) (\<lambda>i. Inr (if i then Some (p, t) else None)))"

text \<open>Flags, field width and precision.\<close>

definition skip_width :: "bytes \<Rightarrow> int \<Rightarrow> int res" where
  "skip_width fmt p =
     bindR (skip_fmt (\<lambda>c. c \<in> set ''#0-+ '') fmt p) (\<lambda>p.
     bindR (skip_fmt is_digit fmt p) (\<lambda>p.
     bindR (rd fmt p) (\<lambda>c. if c = CHR ''.'' then skip_fmt is_digit fmt (p + 1) else Inr p)))"

text \<open>The letter of a conversion, with its modifiers: where it is and which argument type it
  takes. Like \<^verbatim>\<open>strchr\<close>, the two tests without a modifier accept the zero byte.\<close>

definition conv_letter :: "bytes \<Rightarrow> int \<Rightarrow> (int \<times> vtype) option res" where
  "conv_letter fmt p =
     bindR (rd fmt p) (\<lambda>c.
     bindR (strchr intfmts c) (\<lambda>i. if i then Inr (Some (p, TInt)) else
     bindR (strchr (''eEfFgGaA'' @ [NUL]) c) (\<lambda>f. if f then Inr (Some (p, TDouble)) else
     bindR (rd fmt (p + 1)) (\<lambda>d.
     if c = CHR ''h'' \<and> d = CHR ''h'' then sized_int fmt (p + 2) TInt
     else if c = CHR ''h'' then sized_int fmt (p + 1) TInt
     else if c = CHR ''l'' \<and> d = CHR ''l'' then sized_int fmt (p + 2) TLongLong
     else if c = CHR ''l'' then sized_int fmt (p + 1) TLong
     else Inr None))))"

definition detect_conv :: "bytes \<Rightarrow> int \<Rightarrow> (int \<times> vtype) option res" where
  "detect_conv fmt p = bindR (skip_width fmt p) (conv_letter fmt)"

record fstate =
  f_cur :: sds
  f_touched :: bool
  f_argv :: "sds list"
  f_totlen :: int

type_synonym 'a fres = "(int + 'a) res"

text \<open>The current argument is put into the vector; \<open>Inl (- 1)\<close> is \<^verbatim>\<open>goto memory_err\<close>.\<close>

definition push_arg :: "allocator \<Rightarrow> fstate \<Rightarrow> int + fstate" where
  "push_arg A st =
     (if \<not> can_alloc A (8 * (int (length (f_argv st)) + 1)) then Inl (- 1)
      else Inr (st\<lparr>f_argv := f_argv st @ [f_cur st], f_totlen := int32 (uint64 (f_totlen st + bulklen (sdslen (f_cur st))))\<rparr>))"

definition take_new :: "fstate \<Rightarrow> sds option res \<Rightarrow> int \<Rightarrow> va list \<Rightarrow> (fstate \<times> int \<times> va list) fres" where
  "take_new st m p ap =
     bindR m (\<lambda>newarg. case newarg of
         None \<Rightarrow> Inr (Inl (- 1))
       | Some s \<Rightarrow> Inr (Inr (st\<lparr>f_cur := s, f_touched := True\<rparr>, p, ap)))"

text \<open>A \<^verbatim>\<open>printf\<close> conversion whose letter is at \<open>q\<close>: a specification of 14 bytes or more is
  dropped, and the text behind its percent sign and first letter is then read as literal text. What is taken for the letter may be
  the zero byte; to print with such an incomplete specification is undefined.\<close>

definition printf_conv ::
  "allocator \<Rightarrow> (bytes \<Rightarrow> va \<Rightarrow> bytes) \<Rightarrow> bytes \<Rightarrow> int \<Rightarrow> fstate \<Rightarrow> va list \<Rightarrow> int \<Rightarrow> vtype \<Rightarrow> (fstate \<times> int \<times> va list) fres" where
  "printf_conv A pf fmt p st ap q t =
     (case ap of
        [] \<Rightarrow> Inl BadVaArg
      | v # ap \<Rightarrow>
          if \<not> has_type v t then Inl BadVaArg
          else let l = uint64 (q + 1 - p) in
            if l < 14
            then bindR (rdn fmt p l) (\<lambda>spec.
                 if last spec = NUL then Inl BadFormat
                 else take_new st (sdscatvprintf A (f_cur st) (pf spec v)) (q + 1) ap)
            else take_new st (Inr (Some (f_cur st))) (p + 2) ap)"

text \<open>The \<^verbatim>\<open>switch(c[1])\<close>, at the percent sign \<open>p\<close>; the new position is behind the conversion.\<close>

definition format_conv ::
  "allocator \<Rightarrow> (bytes \<Rightarrow> va \<Rightarrow> bytes) \<Rightarrow> bytes \<Rightarrow> int \<Rightarrow> char \<Rightarrow> fstate \<Rightarrow> va list \<Rightarrow> (fstate \<times> int \<times> va list) fres" where
  "format_conv A pf fmt p c1 st ap =
     (if c1 = CHR ''s'' then
        (case ap of
           VPtr arg # ap \<Rightarrow>
             bindR (strlen arg) (\<lambda>sz.
             take_new st (if sz > 0 then sdscatlen A (f_cur st) arg sz else Inr (Some (f_cur st))) (p + 2) ap)
         | _ \<Rightarrow> Inl BadVaArg)
      else if c1 = CHR ''b'' then
        (case ap of
           VPtr arg # VSize sz # ap \<Rightarrow>
             take_new st (if sz > 0 then sdscatlen A (f_cur st) arg sz else Inr (Some (f_cur st))) (p + 2) ap
         | _ \<Rightarrow> Inl BadVaArg)
      else if c1 = CHR ''%'' then take_new st (sdscat A (f_cur st) [CHR ''%'', NUL]) (p + 2) ap
      else
        bindR (detect_conv fmt (p + 1)) (\<lambda>conv. case conv of
            None \<Rightarrow> Inr (Inl (- 2))
          | Some (q, t) \<Rightarrow> printf_conv A pf fmt p st ap q t))"

text \<open>One round of \<^verbatim>\<open>while(*c != '\0')\<close>.\<close>

definition format_step ::
  "allocator \<Rightarrow> (bytes \<Rightarrow> va \<Rightarrow> bytes) \<Rightarrow> bytes \<Rightarrow> int \<Rightarrow> char \<Rightarrow> fstate \<Rightarrow> va list \<Rightarrow> (fstate \<times> int \<times> va list) fres" where
  "format_step A pf fmt p c st ap =
     bindR (if c = CHR ''%'' then rd fmt (p + 1) else Inr NUL) (\<lambda>c1.
     if c \<noteq> CHR ''%'' \<or> c1 = NUL
     then
       if c = CHR '' '' then
         if f_touched st then
           case push_arg A st of
             Inl e \<Rightarrow> Inr (Inl e)
           | Inr st \<Rightarrow>
               bindR (sdsempty A) (\<lambda>s. case s of
                   None \<Rightarrow> Inr (Inl (- 1))
                 | Some s \<Rightarrow> Inr (Inr (st\<lparr>f_cur := s, f_touched := False\<rparr>, p + 1, ap)))
         else Inr (Inr (st, p + 1, ap))
       else take_new st (sdscatlen A (f_cur st) [c] 1) (p + 1) ap
     else format_conv A pf fmt p c1 st ap)"

section \<open>Every round moves on\<close>

lemma skip_fmt_ge: "skip_fmt P fmt p = Inr q \<Longrightarrow> p \<le> q"
proof (induction P fmt p rule: skip_fmt.induct)
  case (1 P fmt p)
  then show ?case by (subst (asm) (2) skip_fmt.simps) (fastforce simp: bindR_eq_Inr split: if_splits)
qed

lemma sized_int_ge: "sized_int fmt p t = Inr (Some (q, t')) \<Longrightarrow> q = p"
  by (auto simp: sized_int_def bindR_eq_Inr split: if_splits)

lemma skip_width_ge: "skip_width fmt p = Inr q \<Longrightarrow> p \<le> q"
  by (fastforce simp: skip_width_def bindR_eq_Inr split: if_splits dest!: skip_fmt_ge)

lemma conv_letter_ge: "conv_letter fmt p = Inr (Some (q, t)) \<Longrightarrow> p \<le> q"
  by (auto simp: conv_letter_def bindR_eq_Inr simp del: strchr.simps split: if_splits dest!: sized_int_ge)

lemma detect_conv_ge: "detect_conv fmt p = Inr (Some (q, t)) \<Longrightarrow> p \<le> q"
  by (fastforce simp: detect_conv_def bindR_eq_Inr dest!: skip_width_ge conv_letter_ge)

lemma take_new_Inr: "take_new st m p ap = Inr (Inr (st', p', ap')) \<Longrightarrow> p' = p \<and> ap' = ap"
  by (auto simp: take_new_def bindR_eq_Inr split: option.splits)

lemma printf_conv_ge: "printf_conv A pf fmt p st ap q t = Inr (Inr (st', p', ap')) \<Longrightarrow> p' = q + 1 \<or> p' = p + 2"
  by (auto simp: printf_conv_def bindR_eq_Inr Let_def split: if_splits list.splits dest!: take_new_Inr)

lemma format_conv_ge:
  assumes "format_conv A pf fmt p c1 st ap = Inr (Inr (st', p', ap'))"
  shows "p < p'"
proof (cases "c1 \<in> {CHR ''s'', CHR ''b'', CHR ''%''}")
  case True
  then show ?thesis
    using assms by (auto simp: format_conv_def bindR_eq_Inr split: if_splits list.splits va.splits dest!: take_new_Inr)
next
  case False
  then obtain q t where "detect_conv fmt (p + 1) = Inr (Some (q, t))" "printf_conv A pf fmt p st ap q t = Inr (Inr (st', p', ap'))"
    using assms by (auto simp: format_conv_def bindR_eq_Inr split: option.splits)
  then show ?thesis using detect_conv_ge printf_conv_ge by fastforce
qed

lemma format_step_ge: "format_step A pf fmt p c st ap = Inr (Inr (st', p', ap')) \<Longrightarrow> p < p'"
  by (auto simp: format_step_def bindR_eq_Inr split: if_splits sum.splits option.splits dest!: take_new_Inr format_conv_ge)

function format_loop ::
  "allocator \<Rightarrow> (bytes \<Rightarrow> va \<Rightarrow> bytes) \<Rightarrow> bytes \<Rightarrow> int \<Rightarrow> fstate \<Rightarrow> va list \<Rightarrow> fstate fres" where
  "format_loop A pf fmt p st ap =
     (case rd fmt p of
        Inl e \<Rightarrow> Inl e
      | Inr c \<Rightarrow>
          if c = NUL then Inr (Inr st)
          else case format_step A pf fmt p c st ap of
                 Inl e \<Rightarrow> Inl e
               | Inr (Inl err) \<Rightarrow> Inr (Inl err)
               | Inr (Inr (st, p, ap)) \<Rightarrow> format_loop A pf fmt p st ap)"
  by pat_completeness auto
termination
  by (relation "measure (\<lambda>(A, pf, fmt, p, st, ap). nat (int (length fmt) - p))")
    (auto simp: rd_def split: if_splits dest!: format_step_ge)

declare format_loop.simps [simp del]

text \<open>The return value and what is stored through \<^verbatim>\<open>target\<close>, which may be NULL.\<close>

definition redisvFormatCommand ::
  "allocator \<Rightarrow> (bytes \<Rightarrow> va \<Rightarrow> bytes) \<Rightarrow> bool \<Rightarrow> bytes \<Rightarrow> va list \<Rightarrow> (int \<times> bytes option) res" where
  "redisvFormatCommand A pf has_target fmt ap =
     (if \<not> has_target then Inr (- 1, None)
      else bindR (sdsempty A) (\<lambda>s. case s of
          None \<Rightarrow> Inr (- 1, None)
        | Some s \<Rightarrow>
            bindR (format_loop A pf fmt 0 \<lparr>f_cur = s, f_touched = False, f_argv = [], f_totlen = 0\<rparr> ap) (\<lambda>r.
            case (case r of Inl err \<Rightarrow> Inl err | Inr st \<Rightarrow> if f_touched st then push_arg A st else Inr st) of
              Inl err \<Rightarrow> Inr (err, None)
            | Inr st \<Rightarrow>
                let argc = int (length (f_argv st));
                    totlen = int32 (f_totlen st + (1 + countDigits argc + 2)) in
                bindR (build_command A totlen argc (map (\<lambda>a. (sh_buf a, sdslen a)) (f_argv st))) (\<lambda>cmd.
                case cmd of None \<Rightarrow> Inr (- 1, None) | Some cmd \<Rightarrow> Inr (totlen, Some cmd)))))"

definition redisFormatCommand ::
  "allocator \<Rightarrow> (bytes \<Rightarrow> va \<Rightarrow> bytes) \<Rightarrow> bool \<Rightarrow> bytes \<Rightarrow> va list \<Rightarrow> (int \<times> bytes option) res" where
  "redisFormatCommand A pf has_target fmt ap =
     bindR (redisvFormatCommand A pf has_target fmt ap) (\<lambda>(len, cmd).
     Inr (if len < 0 then - 1 else len, cmd))"

section \<open>Commands from an argument vector\<close>

definition at :: "'a list \<Rightarrow> int \<Rightarrow> 'a res" where
  "at xs j = (if 0 \<le> j \<and> j < int (length xs) then Inr (xs ! nat j) else Inl OutOfBounds)"

definition arg_len :: "bytes list \<Rightarrow> int list option \<Rightarrow> int \<Rightarrow> int res" where
  "arg_len argv argvlen j =
     (case argvlen of Some ls \<Rightarrow> at ls j | None \<Rightarrow> bindR (at argv j) strlen)"

text \<open>The arguments with their lengths, as the loops over \<^verbatim>\<open>j\<close> read them.\<close>

function collect_args :: "int \<Rightarrow> bytes list \<Rightarrow> int list option \<Rightarrow> int \<Rightarrow> (bytes \<times> int) list res" where
  "collect_args j argv argvlen argc =
     (if j < argc
      then bindR (arg_len argv argvlen j) (\<lambda>len. bindR (at argv j) (\<lambda>arg.
           bindR (collect_args (j + 1) argv argvlen argc) (\<lambda>args. Inr ((arg, len) # args))))
      else Inr [])"
  by pat_completeness auto
termination by (relation "measure (\<lambda>(j, argv, argvlen, argc). nat (argc - j))") auto

declare collect_args.simps [simp del]

fun sum_bulklen :: "(int \<Rightarrow> int) \<Rightarrow> int \<Rightarrow> (bytes \<times> int) list \<Rightarrow> int" where
  "sum_bulklen conv totlen [] = totlen"
| "sum_bulklen conv totlen ((_, len) # args) = sum_bulklen conv (conv (totlen + bulklen len)) args"

text \<open>\<^verbatim>\<open>len = sdscatfmt(...)\<close> and two appends per argument; a refused append is dereferenced.\<close>

fun put_sds_args :: "allocator \<Rightarrow> sds \<Rightarrow> (bytes \<times> int) list \<Rightarrow> sds option res" where
  "put_sds_args A cmd [] = Inr (Some cmd)"
| "put_sds_args A cmd ((arg, len) # args) =
     bindR (sdscatfmt A cmd (''$%T'' @ [CR, LF, NUL]) [FSize len]) (\<lambda>cmd.
     bindR (bindR (sdscatlen A cmd arg len) deref) (\<lambda>cmd.
     bindR (bindR (sdscatlen A cmd [CR, LF, NUL] 2) deref) (\<lambda>cmd. put_sds_args A cmd args)))"

definition redisFormatSdsCommandArgv ::
  "allocator \<Rightarrow> bool \<Rightarrow> int \<Rightarrow> bytes list \<Rightarrow> int list option \<Rightarrow> (int \<times> sds option) res" where
  "redisFormatSdsCommandArgv A has_target argc argv argvlen =
     (if \<not> has_target then Inr (- 1, None)
      else bindR (collect_args 0 argv argvlen argc) (\<lambda>args.
        let totlen = sum_bulklen uint64 (1 + countDigits (uint64 argc) + 2) args in
        bindR (sdsempty A) (\<lambda>cmd. case cmd of
            None \<Rightarrow> Inr (- 1, None)
          | Some cmd \<Rightarrow>
              bindR (sdsMakeRoomFor A cmd totlen) (\<lambda>cmd. case cmd of
                  None \<Rightarrow> Inr (- 1, None)
                | Some cmd \<Rightarrow>
                    bindR (sdscatfmt A cmd (''*%i'' @ [CR, LF, NUL]) [FInt argc]) (\<lambda>cmd.
                    bindR (put_sds_args A cmd args) (\<lambda>cmd. bindR (deref cmd) (\<lambda>cmd.
                    bindR (assertR (sdslen cmd = totlen)) (\<lambda>_. Inr (int32 totlen, Some cmd)))))))))"

definition redisFormatCommandArgv ::
  "allocator \<Rightarrow> bool \<Rightarrow> int \<Rightarrow> bytes list \<Rightarrow> int list option \<Rightarrow> (int \<times> bytes option) res" where
  "redisFormatCommandArgv A has_target argc argv argvlen =
     (if \<not> has_target then Inr (- 1, None)
      else bindR (collect_args 0 argv argvlen argc) (\<lambda>args.
        let totlen = sum_bulklen int32 (1 + countDigits (uint64 argc) + 2) args in
        bindR (build_command A totlen argc args) (\<lambda>cmd.
        case cmd of None \<Rightarrow> Inr (- 1, None) | Some cmd \<Rightarrow> Inr (totlen, Some cmd))))"

end
