(* ===== verification/Reader.thy ===== *)
theory Reader
  imports SdsContract
begin

text \<open>
  The incremental reply parser of \<^verbatim>\<open>redis/hiredis/read.c\<close>. The reader's record has the fields of
  \<^verbatim>\<open>struct redisReader\<close>; its buffer is a dynamic string, \<open>None\<close> for NULL. Reply objects are
  addresses (0 is NULL) in a heap \<open>'h\<close> that only the five object functions touch, which are
  optional arguments as in the code; a task's parent is handed to them as a record. A pointer
  into the buffer is an offset, the bytes readable from it are the rest of the block.
\<close>

section \<open>Data\<close>

abbreviation (input) REDIS_OK :: int where "REDIS_OK \<equiv> 0"
abbreviation (input) REDIS_ERR :: int where "REDIS_ERR \<equiv> - 1"
abbreviation (input) REDIS_ERR_IO :: int where "REDIS_ERR_IO \<equiv> 1"
abbreviation (input) REDIS_ERR_EOF :: int where "REDIS_ERR_EOF \<equiv> 3"
abbreviation (input) REDIS_ERR_PROTOCOL :: int where "REDIS_ERR_PROTOCOL \<equiv> 4"
abbreviation (input) REDIS_ERR_OOM :: int where "REDIS_ERR_OOM \<equiv> 5"
abbreviation (input) REDIS_ERR_OTHER :: int where "REDIS_ERR_OTHER \<equiv> 2"
abbreviation (input) REDIS_REPLY_STRING :: int where "REDIS_REPLY_STRING \<equiv> 1"
abbreviation (input) REDIS_REPLY_ARRAY :: int where "REDIS_REPLY_ARRAY \<equiv> 2"
abbreviation (input) REDIS_REPLY_INTEGER :: int where "REDIS_REPLY_INTEGER \<equiv> 3"
abbreviation (input) REDIS_REPLY_NIL :: int where "REDIS_REPLY_NIL \<equiv> 4"
abbreviation (input) REDIS_REPLY_STATUS :: int where "REDIS_REPLY_STATUS \<equiv> 5"
abbreviation (input) REDIS_REPLY_ERROR :: int where "REDIS_REPLY_ERROR \<equiv> 6"
abbreviation (input) REDIS_READER_MAX_BUF :: int where "REDIS_READER_MAX_BUF \<equiv> 16384"

record redisReadTask =
  rt_type :: int
  rt_elements :: int
  rt_idx :: int
  rt_obj :: nat
  rt_parent :: "nat option"
  rt_privdata :: nat

record 'h redisReplyObjectFunctions =
  createString :: "(redisReadTask \<Rightarrow> redisReadTask option \<Rightarrow> bytes \<Rightarrow> int \<Rightarrow> 'h \<Rightarrow> (nat \<times> 'h) res) option"
  createArray :: "(redisReadTask \<Rightarrow> redisReadTask option \<Rightarrow> int \<Rightarrow> 'h \<Rightarrow> (nat \<times> 'h) res) option"
  createInteger :: "(redisReadTask \<Rightarrow> redisReadTask option \<Rightarrow> int \<Rightarrow> 'h \<Rightarrow> (nat \<times> 'h) res) option"
  createNil :: "(redisReadTask \<Rightarrow> redisReadTask option \<Rightarrow> 'h \<Rightarrow> (nat \<times> 'h) res) option"
  freeObject :: "(nat \<Rightarrow> 'h \<Rightarrow> 'h res) option"

record 'h redisReader =
  r_err :: int
  r_errstr :: bytes
  r_buf :: "sds option"
  r_pos :: int
  r_len :: int
  r_maxbuf :: int
  r_stack :: "redisReadTask list"
  r_ridx :: int
  r_reply :: nat
  r_fn :: "'h redisReplyObjectFunctions option"
  r_privdata :: nat

text \<open>The function of a table that may be missing, itself or that entry of it.\<close>

definition fn_of :: "('h redisReplyObjectFunctions \<Rightarrow> 'f option) \<Rightarrow> 'h redisReader \<Rightarrow> 'f option" where
  "fn_of sel r = (case r_fn r of None \<Rightarrow> None | Some fn \<Rightarrow> sel fn)"

section \<open>Errors\<close>

definition redisReaderSetError ::
  "'h redisReader \<Rightarrow> int \<Rightarrow> string \<Rightarrow> 'h \<Rightarrow> ('h redisReader \<times> 'h) res" where
  "redisReaderSetError r type str h =
     bindR (case fn_of freeObject r of
              Some f \<Rightarrow> if r_reply r \<noteq> 0 then bindR (f (r_reply r) h) (\<lambda>h. Inr (r\<lparr>r_reply := 0\<rparr>, h)) else Inr (r, h)
            | None \<Rightarrow> Inr (r, h)) (\<lambda>(r, h).
     let r = (if r_buf r \<noteq> None then r\<lparr>r_buf := None, r_pos := 0, r_len := 0\<rparr> else r);
         r = r\<lparr>r_ridx := - 1, r_err := type\<rparr>;
         len = (if length str < 127 then length str else 127)
     in bindR (wrn (r_errstr r) 0 (take len str)) (\<lambda>es.
        bindR (wr es (int len) NUL) (\<lambda>es. Inr (r\<lparr>r_errstr := es\<rparr>, h))))"

text \<open>The printed form of a byte, as \<^verbatim>\<open>snprintf\<close> leaves it in a buffer of 8 bytes.\<close>

definition chrtos :: "char \<Rightarrow> string" where
  "chrtos byte =
     (let q = CHR 0x22; b = CHR 0x5C in
      if byte = CHR 0x5C \<or> byte = CHR 0x22 then [q, b, byte, q]
      else if byte = CHR 0x0A then [q, b, CHR ''n'', q]
      else if byte = CHR 0x0D then [q, b, CHR ''r'', q]
      else if byte = CHR 0x09 then [q, b, CHR ''t'', q]
      else if byte = CHR 0x07 then [q, b, CHR ''a'', q]
      else if byte = CHR 0x08 then [q, b, CHR ''b'', q]
      else if isprint byte then [q, byte, q]
      else [q, b, CHR ''x'', hex_char (of_char byte div 16), hex_char (of_char byte mod 16), q])"

definition redisReaderSetErrorProtocolByte ::
  "'h redisReader \<Rightarrow> char \<Rightarrow> 'h \<Rightarrow> ('h redisReader \<times> 'h) res" where
  "redisReaderSetErrorProtocolByte r byte h =
     redisReaderSetError r REDIS_ERR_PROTOCOL
       (''Protocol error, got '' @ chrtos byte @ '' as reply type byte'') h"

definition redisReaderSetErrorOOM :: "'h redisReader \<Rightarrow> 'h \<Rightarrow> ('h redisReader \<times> 'h) res" where
  "redisReaderSetErrorOOM r h = redisReaderSetError r REDIS_ERR_OOM ''Out of memory'' h"

section \<open>Reading from the buffer\<close>

text \<open>The block behind \<^verbatim>\<open>r->buf\<close>; NULL has none.\<close>

definition rbuf :: "'h redisReader \<Rightarrow> bytes res" where
  "rbuf r = bindR (deref (r_buf r)) (\<lambda>s. Inr (sh_buf s))"

definition readBytes :: "'h redisReader \<Rightarrow> int \<Rightarrow> int option \<times> 'h redisReader" where
  "readBytes r n =
     (if uint64 (r_len r - r_pos r) \<ge> n then (Some (r_pos r), r\<lparr>r_pos := r_pos r + n\<rparr>) else (None, r))"

text \<open>\<^verbatim>\<open>while(pos < _len && s[pos] != '\r') pos++\<close>, with \<open>s\<close> the offset \<open>p\<close> of a block.\<close>

function seek_cr :: "bytes \<Rightarrow> int \<Rightarrow> int \<Rightarrow> int \<Rightarrow> int res" where
  "seek_cr b p pos len =
     (if pos < len then bindR (rd b (p + pos)) (\<lambda>c. if c \<noteq> CR then seek_cr b p (pos + 1) len else Inr pos)
      else Inr pos)"
  by pat_completeness auto
termination by (relation "measure (\<lambda>(b, p, pos, len). nat (len - pos))") auto

declare seek_cr.simps [simp del]

lemma seek_cr_ge: "seek_cr b p pos len = Inr pos' \<Longrightarrow> pos \<le> pos'"
proof (induction b p pos len rule: seek_cr.induct)
  case (1 b p pos len)
  then show ?case
    by (subst (asm) (2) seek_cr.simps) (fastforce simp: bindR_eq_Inr split: if_splits)
qed

function seek_loop :: "bytes \<Rightarrow> int \<Rightarrow> int \<Rightarrow> int \<Rightarrow> int option res" where
  "seek_loop b p pos len =
     (if pos < len
      then case seek_cr b p pos len of
             Inl e \<Rightarrow> Inl e
           | Inr pos \<Rightarrow>
               bindR (rd b (p + pos)) (\<lambda>c.
               if c \<noteq> CR then Inr None
               else bindR (rd b (p + pos + 1)) (\<lambda>d.
                 if d = LF then Inr (Some pos) else seek_loop b p (pos + 1) len))
      else Inr None)"
  by pat_completeness auto
termination
  by (relation "measure (\<lambda>(b, p, pos, len). nat (len - pos))") (auto dest: seek_cr_ge)

declare seek_loop.simps [simp del]

definition seekNewline :: "bytes \<Rightarrow> int \<Rightarrow> int \<Rightarrow> int option res" where
  "seekNewline b p len = seek_loop b p 0 (int32 (uint64 (len - 1)))"

text \<open>The digits up to the carriage return; \<open>None\<close> is the early \<^verbatim>\<open>return -1\<close>.\<close>

function read_digits :: "bytes \<Rightarrow> int \<Rightarrow> int \<Rightarrow> int option res" where
  "read_digits b i v =
     bindR (rd b i) (\<lambda>c.
     if c = CR then Inr (Some v)
     else if is_digit c
     then bindR (ck64 (v * 10)) (\<lambda>v. bindR (ck64 (v + int (digit_val c))) (\<lambda>v. read_digits b (i + 1) v))
     else Inr None)"
  by pat_completeness auto
termination
  by (relation "measure (\<lambda>(b, i, v). nat (int (length b) - i))") (auto simp: rd_def split: if_splits)

declare read_digits.simps [simp del]

definition readLongLong :: "bytes \<Rightarrow> int \<Rightarrow> int res" where
  "readLongLong b s =
     bindR (rd b s) (\<lambda>c.
     let (mult, s) = (if c = CHR ''-'' then (- 1, s + 1) else if c = CHR ''+'' then (1, s + 1) else (1, s)) in
     bindR (read_digits b s 0) (\<lambda>r. case r of None \<Rightarrow> Inr (- 1) | Some v \<Rightarrow> Inr (mult * v)))"

text \<open>\<^verbatim>\<open>readLine\<close>: the offset of the line and its length, the cursor moved behind it.\<close>

definition readLine :: "'h redisReader \<Rightarrow> ((int \<times> int) option \<times> 'h redisReader) res" where
  "readLine r =
     bindR (rbuf r) (\<lambda>b.
     bindR (seekNewline b (r_pos r) (uint64 (r_len r - r_pos r))) (\<lambda>s.
     case s of
       None \<Rightarrow> Inr (None, r)
     | Some s \<Rightarrow> let len = int32 s in Inr (Some (r_pos r, len), r\<lparr>r_pos := r_pos r + len + 2\<rparr>)))"

section \<open>The task stack\<close>

definition task :: "'h redisReader \<Rightarrow> int \<Rightarrow> redisReadTask res" where
  "task r i = (if 0 \<le> i \<and> i < int (length (r_stack r)) then Inr (r_stack r ! nat i) else Inl OutOfBounds)"

definition set_task :: "'h redisReader \<Rightarrow> int \<Rightarrow> redisReadTask \<Rightarrow> 'h redisReader res" where
  "set_task r i t =
     (if 0 \<le> i \<and> i < int (length (r_stack r)) then Inr (r\<lparr>r_stack := (r_stack r)[nat i := t]\<rparr>) else Inl OutOfBounds)"

definition parent_of :: "'h redisReader \<Rightarrow> redisReadTask \<Rightarrow> redisReadTask option res" where
  "parent_of r t =
     (case rt_parent t of None \<Rightarrow> Inr None | Some i \<Rightarrow> bindR (task r (int i)) (\<lambda>p. Inr (Some p)))"

function moveToNextTask :: "'h redisReader \<Rightarrow> 'h redisReader res" where
  "moveToNextTask r =
     (if r_ridx r \<ge> 0 then
        if r_ridx r = 0 then Inr (r\<lparr>r_ridx := r_ridx r - 1\<rparr>)
        else
          bindR (task r (r_ridx r)) (\<lambda>cur. bindR (task r (r_ridx r - 1)) (\<lambda>prv.
          bindR (assertR (rt_type prv = REDIS_REPLY_ARRAY)) (\<lambda>_.
          bindR (ck32 (rt_elements prv - 1)) (\<lambda>last.
          if rt_idx cur = last then moveToNextTask (r\<lparr>r_ridx := r_ridx r - 1\<rparr>)
          else
            bindR (assertR (rt_idx cur < rt_elements prv)) (\<lambda>_.
            bindR (ck32 (rt_idx cur + 1)) (\<lambda>i.
            set_task r (r_ridx r) (cur\<lparr>rt_type := - 1, rt_elements := - 1, rt_idx := i\<rparr>)))))))
      else Inr r)"
  by pat_completeness auto
termination by (relation "measure (\<lambda>r. nat (r_ridx r + 1))") auto

declare moveToNextTask.simps [simp del]

section \<open>Items\<close>

type_synonym 'h rstate = "'h redisReader \<times> 'h"

text \<open>A created object becomes the reply if it is the root, and the parser moves on; a NULL
  object is an out-of-memory error.\<close>

definition oom :: "'h rstate \<Rightarrow> (int \<times> 'h rstate) res" where
  "oom rh = bindR (redisReaderSetErrorOOM (fst rh) (snd rh)) (\<lambda>rh. Inr (REDIS_ERR, rh))"

definition item_done :: "'h redisReader \<Rightarrow> nat \<Rightarrow> 'h \<Rightarrow> (int \<times> 'h rstate) res" where
  "item_done r obj h =
     (if obj = 0 then oom (r, h)
      else bindR (moveToNextTask (if r_ridx r = 0 then r\<lparr>r_reply := obj\<rparr> else r)) (\<lambda>r. Inr (REDIS_OK, r, h)))"

definition processLineItem :: "'h rstate \<Rightarrow> (int \<times> 'h rstate) res" where
  "processLineItem rh =
     (let (r, h) = rh in
      bindR (task r (r_ridx r)) (\<lambda>cur.
      bindR (readLine r) (\<lambda>(line, r).
      case line of
        None \<Rightarrow> Inr (REDIS_ERR, r, h)
      | Some (p, len) \<Rightarrow>
          bindR (rbuf r) (\<lambda>b.
          bindR (parent_of r cur) (\<lambda>parent.
          bindR (if rt_type cur = REDIS_REPLY_INTEGER
                 then case fn_of createInteger r of
                        Some f \<Rightarrow> bindR (readLongLong b p) (\<lambda>v. f cur parent v h)
                      | None \<Rightarrow> Inr (nat REDIS_REPLY_INTEGER, h)
                 else case fn_of createString r of
                        Some f \<Rightarrow> f cur parent (drop (nat p) b) len h
                      | None \<Rightarrow> Inr (nat (rt_type cur), h)) (\<lambda>(obj, h).
          item_done r obj h))))))"

definition nil_object :: "'h redisReader \<Rightarrow> redisReadTask \<Rightarrow> 'h \<Rightarrow> (nat \<times> 'h) res" where
  "nil_object r cur h =
     (case fn_of createNil r of
        Some f \<Rightarrow> bindR (parent_of r cur) (\<lambda>parent. f cur parent h)
      | None \<Rightarrow> Inr (nat REDIS_REPLY_NIL, h))"

definition processBulkItem :: "'h rstate \<Rightarrow> (int \<times> 'h rstate) res" where
  "processBulkItem rh =
     (let (r, h) = rh; p = r_pos r in
      bindR (task r (r_ridx r)) (\<lambda>cur.
      bindR (rbuf r) (\<lambda>b.
      bindR (seekNewline b p (uint64 (r_len r - r_pos r))) (\<lambda>s.
      case s of
        None \<Rightarrow> Inr (REDIS_ERR, r, h)
      | Some s \<Rightarrow>
          let bytelen = s + 2 in
          bindR (readLongLong b p) (\<lambda>len.
          if len < 0
          then bindR (nil_object r cur h) (\<lambda>(obj, h).
               if obj = 0 then oom (r, h) else item_done (r\<lparr>r_pos := r_pos r + bytelen\<rparr>) obj h)
          else bindR (ck64 (len + 2)) (\<lambda>l2.
            let bytelen = uint64 (bytelen + l2) in
            if uint64 (r_pos r + bytelen) \<le> r_len r
            then bindR (parent_of r cur) (\<lambda>parent.
                 bindR (case fn_of createString r of
                          Some f \<Rightarrow> f cur parent (drop (nat (p + s + 2)) b) len h
                        | None \<Rightarrow> Inr (nat REDIS_REPLY_STRING, h)) (\<lambda>(obj, h).
                 if obj = 0 then oom (r, h) else item_done (r\<lparr>r_pos := r_pos r + bytelen\<rparr>) obj h))
            else Inr (REDIS_ERR, r, h)))))))"

text \<open>A fresh task for the first element of an array.\<close>

definition push_task :: "'h redisReader \<Rightarrow> redisReadTask \<Rightarrow> int \<Rightarrow> nat \<Rightarrow> 'h redisReader res" where
  "push_task r cur elements obj =
     bindR (set_task r (r_ridx r) (cur\<lparr>rt_elements := int32 elements, rt_obj := obj\<rparr>)) (\<lambda>r.
     let parent = nat (r_ridx r); r = r\<lparr>r_ridx := r_ridx r + 1\<rparr> in
     set_task r (r_ridx r)
       \<lparr>rt_type = - 1, rt_elements = - 1, rt_idx = 0, rt_obj = 0, rt_parent = Some parent, rt_privdata = r_privdata r\<rparr>)"

text \<open>What is done with the element count of an array, whose line has been read.\<close>

definition array_item :: "'h redisReader \<Rightarrow> redisReadTask \<Rightarrow> int \<Rightarrow> 'h \<Rightarrow> (int \<times> 'h rstate) res" where
  "array_item r cur elements h =
     (let set_root = (\<lambda>r' obj. if r_ridx r = 0 then r'\<lparr>r_reply := obj\<rparr> else r') in
      if elements = - 1
      then bindR (nil_object r cur h) (\<lambda>(obj, h).
           if obj = 0 then oom (r, h)
           else bindR (moveToNextTask r) (\<lambda>r'. Inr (REDIS_OK, set_root r' obj, h)))
      else
        bindR (parent_of r cur) (\<lambda>parent.
        bindR (case fn_of createArray r of
                 Some f \<Rightarrow> f cur parent (int32 elements) h
               | None \<Rightarrow> Inr (nat REDIS_REPLY_ARRAY, h)) (\<lambda>(obj, h).
        if obj = 0 then oom (r, h)
        else bindR (if elements > 0 then push_task r cur elements obj else moveToNextTask r) (\<lambda>r'.
             Inr (REDIS_OK, set_root r' obj, h)))))"

definition processMultiBulkItem :: "'h rstate \<Rightarrow> (int \<times> 'h rstate) res" where
  "processMultiBulkItem rh =
     (let (r, h) = rh in
      bindR (task r (r_ridx r)) (\<lambda>cur.
      if r_ridx r = 8
      then bindR (redisReaderSetError r REDIS_ERR_PROTOCOL
             ''No support for nested multi bulk replies with depth > 7'' h) (\<lambda>rh. Inr (REDIS_ERR, rh))
      else bindR (readLine r) (\<lambda>(line, r).
        case line of
          None \<Rightarrow> Inr (REDIS_ERR, r, h)
        | Some (p, _) \<Rightarrow>
            bindR (rbuf r) (\<lambda>b. bindR (readLongLong b p) (\<lambda>elements. array_item r cur elements h)))))"

definition type_of_byte :: "char \<Rightarrow> int option" where
  "type_of_byte c =
     (if c = CHR ''-'' then Some REDIS_REPLY_ERROR else if c = CHR ''+'' then Some REDIS_REPLY_STATUS
      else if c = CHR '':'' then Some REDIS_REPLY_INTEGER else if c = CHR ''$'' then Some REDIS_REPLY_STRING
      else if c = CHR ''*'' then Some REDIS_REPLY_ARRAY else None)"

text \<open>The dispatch on the type of the current task.\<close>

definition process_typed :: "'h rstate \<Rightarrow> (int \<times> 'h rstate) res" where
  "process_typed rh =
     bindR (task (fst rh) (r_ridx (fst rh))) (\<lambda>cur.
     if rt_type cur = REDIS_REPLY_ERROR \<or> rt_type cur = REDIS_REPLY_STATUS \<or> rt_type cur = REDIS_REPLY_INTEGER
     then processLineItem rh
     else if rt_type cur = REDIS_REPLY_STRING then processBulkItem rh
     else if rt_type cur = REDIS_REPLY_ARRAY then processMultiBulkItem rh
     else Inl AssertFailed)"

definition processItem :: "'h rstate \<Rightarrow> (int \<times> 'h rstate) res" where
  "processItem rh =
     (let (r, h) = rh in
      bindR (task r (r_ridx r)) (\<lambda>cur.
      if rt_type cur < 0
      then case readBytes r 1 of
             (None, r) \<Rightarrow> Inr (REDIS_ERR, r, h)
           | (Some p, r) \<Rightarrow>
               bindR (rbuf r) (\<lambda>b. bindR (rd b p) (\<lambda>c.
               case type_of_byte c of
                 None \<Rightarrow> bindR (redisReaderSetErrorProtocolByte r c h) (\<lambda>rh. Inr (REDIS_ERR, rh))
               | Some ty \<Rightarrow>
                   bindR (set_task r (r_ridx r) (cur\<lparr>rt_type := ty\<rparr>)) (\<lambda>r. process_typed (r, h))))
      else process_typed rh))"

section \<open>Every processed item consumes bytes\<close>

lemma seek_cr_le: "seek_cr b p pos len = Inr pos' \<Longrightarrow> pos' \<le> max pos len"
proof (induction b p pos len rule: seek_cr.induct)
  case (1 b p pos len)
  then show ?case
    by (subst (asm) (2) seek_cr.simps) (fastforce simp: bindR_eq_Inr split: if_splits)
qed

lemma seek_loop_Some:
  "seek_loop b p pos len = Inr (Some s) \<Longrightarrow> pos \<le> s \<and> s \<le> len \<and> 0 \<le> p + s \<and> p + s + 1 < int (length b)"
proof (induction b p pos len rule: seek_loop.induct)
  case (1 b p pos len)
  have lt: "pos < len" using "1.prems" by (subst (asm) seek_loop.simps) (auto split: if_splits)
  obtain q where q: "seek_cr b p pos len = Inr q"
    using "1.prems" lt by (subst (asm) seek_loop.simps) (auto split: sum.splits)
  have qb: "pos \<le> q" "q \<le> len" using seek_cr_ge [OF q] seek_cr_le [OF q] lt by auto
  from "1.prems" lt q have "(\<exists>c d. rd b (p + q) = Inr c \<and> c = CR \<and> rd b (p + q + 1) = Inr d \<and>
      (if d = LF then s = q else seek_loop b p (q + 1) len = Inr (Some s)))"
    by (subst (asm) seek_loop.simps) (auto simp: bindR_eq_Inr split: if_splits)
  then obtain d where d: "rd b (p + q) = Inr CR" "rd b (p + q + 1) = Inr d"
      "if d = LF then s = q else seek_loop b p (q + 1) len = Inr (Some s)" by blast
  have bd: "0 \<le> p + q" "p + q + 1 < int (length b)" using d(1,2) by (auto simp: rd_def split: if_splits)
  show ?case
  proof (cases "d = LF")
    case True
    then show ?thesis using d(3) qb bd by simp
  next
    case False
    then show ?thesis using "1.IH" [OF lt q d(1) _ d(2) False] d(3) qb by auto
  qed
qed

lemma seekNewline_Some:
  assumes "seekNewline b p len = Inr (Some s)"
  shows "0 \<le> s \<and> s < 2 ^ 31 \<and> p + s + 1 < int (length b) \<and> int32 s = s"
proof -
  have "0 \<le> s" "s \<le> int32 (uint64 (len - 1))" "p + s + 1 < int (length b)"
    using seek_loop_Some [of b p 0 "int32 (uint64 (len - 1))" s] assms by (auto simp: seekNewline_def)
  moreover have "int32 (uint64 (len - 1)) < 2 ^ 31" using int32_range by blast
  ultimately show ?thesis by (simp add: cint)
qed

text \<open>What an item leaves alone: the buffer and the settings of the reader.\<close>

definition same_input :: "'h redisReader \<Rightarrow> 'h redisReader \<Rightarrow> bool" where
  "same_input r r' \<longleftrightarrow> r_buf r' = r_buf r \<and> r_len r' = r_len r \<and> r_err r' = r_err r \<and> r_fn r' = r_fn r \<and>
     r_maxbuf r' = r_maxbuf r \<and> r_privdata r' = r_privdata r \<and> length (r_stack r') = length (r_stack r) \<and>
     r_errstr r' = r_errstr r"

lemma moveToNextTask_same:
  "moveToNextTask r = Inr r' \<Longrightarrow> same_input r r' \<and> r_pos r' = r_pos r"
proof (induction r rule: moveToNextTask.induct)
  case (1 r)
  from "1.prems" show ?case
    by (subst (asm) moveToNextTask.simps)
      (auto simp: bindR_eq_Inr set_task_def same_input_def split: if_splits dest!: "1.IH")
qed

definition consumed :: "'h redisReader \<Rightarrow> 'h redisReader \<Rightarrow> bool" where
  "consumed r r' \<longleftrightarrow> same_input r r' \<and> (\<exists>s. r_buf r = Some s \<and> r_pos r < int (length (sh_buf s))) \<and> r_pos r < r_pos r'"

lemma rbuf_eq_Inr: "rbuf r = Inr b \<longleftrightarrow> (\<exists>s. r_buf r = Some s \<and> b = sh_buf s)"
  by (cases "r_buf r") (auto simp: rbuf_def)

lemma oom_rc: "oom rh = Inr (rc, rh') \<Longrightarrow> rc = REDIS_ERR"
  by (auto simp: oom_def bindR_eq_Inr)

lemma item_done_OK:
  "item_done r obj h = Inr (REDIS_OK, r', h') \<Longrightarrow> same_input r r' \<and> r_pos r' = r_pos r"
  by (auto simp: item_done_def bindR_eq_Inr same_input_def split: if_splits
      dest!: oom_rc moveToNextTask_same)

lemma readLine_Some:
  "readLine r = Inr (Some (p, len), r') \<Longrightarrow> p = r_pos r \<and> consumed r r' \<and> r_ridx r' = r_ridx r \<and> 0 \<le> len \<and> r_pos r' = r_pos r + len + 2"
  by (auto simp: readLine_def bindR_eq_Inr rbuf_eq_Inr consumed_def same_input_def Let_def
      split: option.splits dest!: seekNewline_Some)

lemma consumed_trans: "consumed r r' \<Longrightarrow> same_input r' r'' \<Longrightarrow> r_pos r'' = r_pos r' \<Longrightarrow> consumed r r''"
  by (auto simp: consumed_def same_input_def)

lemma processLineItem_OK: "processLineItem (r, h) = Inr (REDIS_OK, r', h') \<Longrightarrow> consumed r r'"
  by (auto simp: processLineItem_def bindR_eq_Inr split: option.splits if_splits
      dest!: readLine_Some item_done_OK elim: consumed_trans)

lemma bulk_consumed:
  assumes "rbuf r = Inr b" "seekNewline b (r_pos r) n = Inr (Some s)" "k \<ge> 1"
    "item_done (r\<lparr>r_pos := r_pos r + k\<rparr>) obj h = Inr (REDIS_OK, r', h')"
  shows "consumed r r'"
  using item_done_OK [OF assms(4)] seekNewline_Some [OF assms(2)] assms(1,3)
  by (auto simp: consumed_def same_input_def rbuf_eq_Inr)

lemma push_task_same: "push_task r cur n obj = Inr r' \<Longrightarrow> same_input r r' \<and> r_pos r' = r_pos r"
  by (auto simp: push_task_def bindR_eq_Inr set_task_def same_input_def Let_def split: if_splits)

lemma uint64_ge_1: "0 \<le> x \<Longrightarrow> x < 2 ^ 31 \<Longrightarrow> 0 \<le> y \<Longrightarrow> y < 2 ^ 63 \<Longrightarrow> 1 \<le> uint64 (x + 2 + y)"
  by (simp add: cint)

lemma processBulkItem_OK:
  assumes "processBulkItem (r, h) = Inr (REDIS_OK, r', h')"
  shows "consumed r r'"
proof -
  obtain cur b s len where b: "rbuf r = Inr b" and s: "seekNewline b (r_pos r) (uint64 (r_len r - r_pos r)) = Inr (Some s)"
    and go: "(if len < 0
          then bindR (nil_object r cur h) (\<lambda>(obj, h).
               if obj = 0 then oom (r, h) else item_done (r\<lparr>r_pos := r_pos r + (s + 2)\<rparr>) obj h)
          else bindR (ck64 (len + 2)) (\<lambda>l2.
            let bytelen = uint64 (s + 2 + l2) in
            if uint64 (r_pos r + bytelen) \<le> r_len r
            then bindR (parent_of r cur) (\<lambda>parent.
                 bindR (case fn_of createString r of
                          Some f \<Rightarrow> f cur parent (drop (nat (r_pos r + s + 2)) b) len h
                        | None \<Rightarrow> Inr (nat REDIS_REPLY_STRING, h)) (\<lambda>(obj, h).
                 if obj = 0 then oom (r, h) else item_done (r\<lparr>r_pos := r_pos r + bytelen\<rparr>) obj h))
            else Inr (REDIS_ERR, r, h))) = Inr (REDIS_OK, r', h')"
    using assms by (auto simp: processBulkItem_def bindR_eq_Inr [of "task _ _"] bindR_eq_Inr [of "rbuf _"]
        bindR_eq_Inr [of "seekNewline _ _ _"] bindR_eq_Inr [of "readLongLong _ _"] Let_def split: option.splits)
  note sb = seekNewline_Some [OF s]
  show ?thesis
  proof (cases "len < 0")
    case True
    then show ?thesis using go sb bulk_consumed [OF b s, of "s + 2"]
      by (auto simp: bindR_eq_Inr split: if_splits dest!: oom_rc)
  next
    case False
    then obtain l2 where l2: "ck64 (len + 2) = Inr l2" using go by (auto simp: bindR_eq_Inr)
    then have "0 \<le> l2" "l2 < 2 ^ 63" using False by (auto simp: ck64_def split: if_splits)
    then have "1 \<le> uint64 (s + 2 + l2)" using sb by (intro uint64_ge_1) auto
    then show ?thesis using go False l2 bulk_consumed [OF b s, of "uint64 (s + 2 + l2)"]
      by (auto simp: bindR_eq_Inr Let_def split: if_splits dest!: oom_rc)
  qed
qed

lemma array_item_OK:
  assumes "array_item r cur n h = Inr (REDIS_OK, r', h')"
  shows "same_input r r' \<and> r_pos r' = r_pos r"
proof -
  have "\<exists>r1 obj. r' = (if r_ridx r = 0 then r1\<lparr>r_reply := obj\<rparr> else r1) \<and> same_input r r1 \<and> r_pos r1 = r_pos r"
  proof (cases "n = - 1")
    case True
    have eq: "bindR (nil_object r cur h) (\<lambda>(obj, h). if obj = 0 then oom (r, h)
        else bindR (moveToNextTask r) (\<lambda>r'. Inr (REDIS_OK, if r_ridx r = 0 then r'\<lparr>r_reply := obj\<rparr> else r', h))) =
        Inr (REDIS_OK, r', h')"
      using assms unfolding True array_item_def Let_def by (simp only: if_True simp_thms)
    then obtain obj h1 where o: "nil_object r cur h = Inr (obj, h1)" by (cases "nil_object r cur h") auto
    then have nz: "obj \<noteq> 0" using eq oom_rc [of "(r, h1)" REDIS_OK] by (cases "obj = 0") auto
    with eq o obtain r1 where "moveToNextTask r = Inr r1" by (cases "moveToNextTask r") auto
    with eq o nz moveToNextTask_same [of r r1] show ?thesis by (intro exI [of _ r1] exI [of _ obj]) simp
  next
    case False
    let ?mk = "\<lambda>parent. case fn_of createArray r of Some f \<Rightarrow> f cur parent (int32 n) h | None \<Rightarrow> Inr (nat REDIS_REPLY_ARRAY, h)"
    let ?next = "\<lambda>obj. if n > 0 then push_task r cur n obj else moveToNextTask r"
    have eq: "bindR (parent_of r cur) (\<lambda>parent. bindR (?mk parent) (\<lambda>(obj, h). if obj = 0 then oom (r, h)
        else bindR (?next obj) (\<lambda>r'. Inr (REDIS_OK, if r_ridx r = 0 then r'\<lparr>r_reply := obj\<rparr> else r', h)))) =
        Inr (REDIS_OK, r', h')"
      using assms False unfolding array_item_def Let_def by simp
    then obtain parent where pa: "parent_of r cur = Inr parent" by (cases "parent_of r cur") auto
    with eq obtain obj h1 where o: "?mk parent = Inr (obj, h1)" by (auto simp: bindR_eq_Inr)
    then have nz: "obj \<noteq> 0" using eq pa oom_rc [of "(r, h1)" REDIS_OK] by (cases "obj = 0") auto
    with eq pa o obtain r1 where r1: "?next obj = Inr r1" by (cases "?next obj") auto
    then have "same_input r r1 \<and> r_pos r1 = r_pos r"
      using moveToNextTask_same [of r r1] push_task_same [of r cur n obj r1] by (cases "n > 0") auto
    with eq pa o nz r1 show ?thesis by (intro exI [of _ r1] exI [of _ obj]) simp
  qed
  then show ?thesis by (auto simp: same_input_def)
qed

lemma processMultiBulkItem_OK:
  assumes "processMultiBulkItem (r, h) = Inr (REDIS_OK, r', h')"
  shows "consumed r r'"
proof -
  obtain cur where cur: "task r (r_ridx r) = Inr cur" "r_ridx r \<noteq> 8"
    using assms by (auto simp: processMultiBulkItem_def bindR_eq_Inr split: if_splits)
  then obtain line r1 where line: "readLine r = Inr (line, r1)" using assms by (auto simp: processMultiBulkItem_def bindR_eq_Inr)
  then obtain p len n where p: "line = Some (p, len)" "array_item r1 cur n h = Inr (REDIS_OK, r', h')"
    using assms cur by (cases line) (auto simp: processMultiBulkItem_def bindR_eq_Inr)
  have "consumed r r1" using readLine_Some line p(1) by blast
  then show ?thesis using array_item_OK [OF p(2)] consumed_trans by blast
qed

lemma process_typed_OK: "process_typed (r, h) = Inr (REDIS_OK, r', h') \<Longrightarrow> consumed r r'"
  by (auto simp: process_typed_def bindR_eq_Inr split: if_splits
      dest: processLineItem_OK processBulkItem_OK processMultiBulkItem_OK)

lemma consumed_later:
  "consumed r1 r' \<Longrightarrow> same_input r r1 \<Longrightarrow> r_pos r1 \<ge> r_pos r \<Longrightarrow> consumed r r'"
  by (auto simp: consumed_def same_input_def)

lemma processItem_OK:
  assumes "processItem (r, h) = Inr (REDIS_OK, r', h')"
  shows "consumed r r'"
proof -
  have "consumed r r'" if "process_typed (r1, h) = Inr (REDIS_OK, r', h')" "set_task r0 i t = Inr r1"
      "same_input r r0" "r_pos r0 \<ge> r_pos r" for r0 r1 i t
  proof (rule consumed_later [OF process_typed_OK [OF that(1)]])
    show "same_input r r1" "r_pos r \<le> r_pos r1"
      using that(2-4) by (auto simp: set_task_def same_input_def split: if_splits)
  qed
  note typed = this
  obtain cur where cur: "task r (r_ridx r) = Inr cur" using assms by (auto simp: processItem_def bindR_eq_Inr)
  show ?thesis
  proof (cases "rt_type cur < 0")
    case False
    then show ?thesis using assms cur process_typed_OK [of r h] by (simp add: processItem_def)
  next
    case True
    let ?r = "r\<lparr>r_pos := r_pos r + 1\<rparr>"
    have rb: "readBytes r 1 = (Some (r_pos r), ?r)"
      using assms cur True by (auto simp: processItem_def readBytes_def split: if_splits)
    obtain b c where c: "rbuf ?r = Inr b" "rd b (r_pos r) = Inr c"
      using assms cur True rb by (auto simp: processItem_def bindR_eq_Inr)
    obtain ty where ty: "type_of_byte c = Some ty"
      using assms cur True rb c by (cases "type_of_byte c") (auto simp: processItem_def bindR_eq_Inr)
    obtain r1 where "set_task ?r (r_ridx r) (cur\<lparr>rt_type := ty\<rparr>) = Inr r1" "process_typed (r1, h) = Inr (REDIS_OK, r', h')"
      using assms cur True rb c ty by (auto simp: processItem_def bindR_eq_Inr)
    then show ?thesis using typed [of r1 ?r] by (simp add: same_input_def)
  qed
qed

section \<open>Replies\<close>

function process_loop :: "'h rstate \<Rightarrow> 'h rstate res" where
  "process_loop rh =
     (if r_ridx (fst rh) \<ge> 0
      then case processItem rh of
             Inl e \<Rightarrow> Inl e
           | Inr (rc, rh') \<Rightarrow> if rc = REDIS_OK then process_loop rh' else Inr rh'
      else Inr rh)"
  by pat_completeness auto
termination
proof (relation "measure (\<lambda>(r, h). nat (int (length (case r_buf r of None \<Rightarrow> [] | Some s \<Rightarrow> sh_buf s)) - r_pos r))", goal_cases)
  case (2 rh x rc rh')
  then show ?case
    using processItem_OK [of "fst rh" "snd rh" "fst rh'" "snd rh'"]
    by (cases rh; cases rh') (auto simp: consumed_def same_input_def)
qed simp

declare process_loop.simps [simp del]

definition empty_task :: redisReadTask where
  "empty_task = \<lparr>rt_type = 0, rt_elements = 0, rt_idx = 0, rt_obj = 0, rt_parent = None, rt_privdata = 0\<rparr>"

definition redisReaderCreateWithFunctions ::
  "allocator \<Rightarrow> 'h redisReplyObjectFunctions option \<Rightarrow> 'h redisReader option res" where
  "redisReaderCreateWithFunctions A fn =
     (if \<not> can_alloc A 616 then Inr None
      else bindR (sdsempty A) (\<lambda>buf.
        case buf of
          None \<Rightarrow> Inr None
        | Some s \<Rightarrow>
            Inr (Some \<lparr>r_err = 0, r_errstr = replicate 128 NUL, r_buf = Some s, r_pos = 0, r_len = 0,
                       r_maxbuf = REDIS_READER_MAX_BUF, r_stack = replicate 9 empty_task, r_ridx = - 1,
                       r_reply = 0, r_fn = fn, r_privdata = 0\<rparr>)))"

definition redisReaderFree :: "'h rstate \<Rightarrow> 'h res" where
  "redisReaderFree rh =
     (case fn_of freeObject (fst rh) of
        Some f \<Rightarrow> if r_reply (fst rh) \<noteq> 0 then f (r_reply (fst rh)) (snd rh) else Inr (snd rh)
      | None \<Rightarrow> Inr (snd rh))"

definition redisReaderFeed :: "allocator \<Rightarrow> 'h rstate \<Rightarrow> bytes option \<Rightarrow> int \<Rightarrow> (int \<times> 'h rstate) res" where
  "redisReaderFeed A rh buf len =
     (let (r, h) = rh in
      if r_err r \<noteq> 0 then Inr (REDIS_ERR, r, h)
      else case buf of
        None \<Rightarrow> Inr (REDIS_OK, r, h)
      | Some b \<Rightarrow>
          if len < 1 then Inr (REDIS_OK, r, h)
          else
            bindR (deref (r_buf r)) (\<lambda>s.
            bindR (if r_len r = 0 \<and> r_maxbuf r \<noteq> 0 \<and> sdsavail s > r_maxbuf r
                   then bindR (sdsempty A) (\<lambda>e. bindR (assertR (e \<noteq> None)) (\<lambda>_. bindR (deref e) (\<lambda>s.
                        Inr (s, r\<lparr>r_buf := Some s, r_pos := 0\<rparr>))))
                   else Inr (s, r)) (\<lambda>(s, r).
            bindR (sdscatlen A s b len) (\<lambda>newbuf.
            case newbuf of
              None \<Rightarrow> oom (r, h)
            | Some s \<Rightarrow> Inr (REDIS_OK, r\<lparr>r_buf := Some s, r_len := sdslen s\<rparr>, h)))))"

text \<open>\<^verbatim>\<open>redisReaderGetReply\<close>: the status, the reply stored through the pointer, the new state.\<close>

definition redisReaderGetReply :: "'h rstate \<Rightarrow> (int \<times> nat \<times> 'h rstate) res" where
  "redisReaderGetReply rh =
     (let (r, h) = rh in
      if r_err r \<noteq> 0 then Inr (REDIS_ERR, 0, r, h)
      else if r_len r = 0 then Inr (REDIS_OK, 0, r, h)
      else
        bindR (if r_ridx r = - 1
               then set_task (r\<lparr>r_ridx := 0\<rparr>) 0
                      \<lparr>rt_type = - 1, rt_elements = - 1, rt_idx = - 1, rt_obj = 0, rt_parent = None,
                       rt_privdata = r_privdata r\<rparr>
               else Inr r) (\<lambda>r.
        bindR (process_loop (r, h)) (\<lambda>(r, h).
        if r_err r \<noteq> 0 then Inr (REDIS_ERR, 0, r, h)
        else
          bindR (if r_pos r \<ge> 1024
                 then bindR (deref (r_buf r)) (\<lambda>s. bindR (sdsrange s (int32 (r_pos r)) (- 1)) (\<lambda>s.
                      Inr (r\<lparr>r_buf := Some s, r_pos := 0, r_len := sdslen s\<rparr>)))
                 else Inr r) (\<lambda>r.
          if r_ridx r = - 1 then Inr (REDIS_OK, r_reply r, r\<lparr>r_reply := 0\<rparr>, h)
          else Inr (REDIS_OK, 0, r, h)))))"

end
