(* ===== verification/Resp.thy ===== *)
theory Resp
  imports Reader
begin

text \<open>
  The protocol the reader parses, as a datatype of replies and its encoding, and the lemmas
  that tie the reader's primitives to it: the end of a line is found, a decimal numeral is
  read back, and the object a reply is turned into is described by recursion on the reply
  (\<open>build\<close>), which the iterative parser with its task stack is shown to implement.
\<close>

section \<open>Replies\<close>

datatype reply =
    Status bytes
  | Error bytes
  | Integer int
  | Bulk bytes
  | Nil
  | Array "reply list"

abbreviation CRLF :: bytes where "CRLF \<equiv> [CR, LF]"

fun encode :: "reply \<Rightarrow> bytes" where
  "encode (Status s) = CHR ''+'' # s @ CRLF"
| "encode (Error s) = CHR ''-'' # s @ CRLF"
| "encode (Integer i) = CHR '':'' # decimal_int i @ CRLF"
| "encode (Bulk b) = CHR ''$'' # decimal (length b) @ CRLF @ b @ CRLF"
| "encode Nil = CHR ''$'' # ''-1'' @ CRLF"
| "encode (Array rs) = CHR ''*'' # decimal (length rs) @ CRLF @ concat (map encode rs)"

text \<open>Replies the reader accepts at depth \<open>d\<close> of its stack of nine tasks.\<close>

fun wf_at :: "nat \<Rightarrow> reply \<Rightarrow> bool" where
  "wf_at d (Status s) \<longleftrightarrow> CR \<notin> set s"
| "wf_at d (Error s) \<longleftrightarrow> CR \<notin> set s"
| "wf_at d (Integer i) \<longleftrightarrow> - (2 ^ 63) < i \<and> i < 2 ^ 63"
| "wf_at d (Bulk b) \<longleftrightarrow> True"
| "wf_at d Nil \<longleftrightarrow> True"
| "wf_at d (Array rs) \<longleftrightarrow> d < 8 \<and> length rs < 2 ^ 31 \<and> (\<forall>r\<in>set rs. wf_at (Suc d) r)"

section \<open>Lines and numerals\<close>

lemma rd_at: "p = int (length pre) \<Longrightarrow> i < length b \<Longrightarrow> rd (pre @ b) (p + int i) = Inr (b ! i)"
  by (simp add: rd_def nth_append nat_add_distrib)

lemma seek_cr_line:
  assumes "p = int (length pre)" "CR \<notin> set line" "n \<ge> int (length line)"
  shows "i \<le> length line \<Longrightarrow> seek_cr (pre @ line @ CR # rest) p (int i) n = Inr (int (length line))"
proof (induction "length line - i" arbitrary: i)
  case 0
  then have i: "i = length line" by simp
  show ?case
    using rd_at [OF assms(1), of i "line @ CR # rest"] assms(3) i
    by (subst seek_cr.simps) (auto simp: nth_append)
next
  case (Suc x)
  then have i: "i < length line" by simp
  then have "line ! i \<noteq> CR" using assms(2) nth_mem by metis
  then have "rd (pre @ line @ CR # rest) (p + int i) = Inr (line ! i)" "line ! i \<noteq> CR"
    using rd_at [OF assms(1), of i "line @ CR # rest"] i by (auto simp: nth_append)
  moreover have "seek_cr (pre @ line @ CR # rest) p (int (Suc i)) n = Inr (int (length line))"
    by (rule Suc.hyps(1)) (use Suc.hyps(2) i in auto)
  ultimately show ?case using assms(3) i by (subst seek_cr.simps) (simp add: add.commute)
qed

lemma seekNewline_line:
  assumes "p = int (length pre)" "CR \<notin> set line" "int (length line) + 2 \<le> n" "n < 2 ^ 31"
  shows "seekNewline (pre @ line @ CR # LF # rest) p n = Inr (Some (int (length line)))"
proof -
  have n: "int32 (uint64 (n - 1)) = n - 1" using assms by (simp add: cint)
  have "rd (pre @ line @ CR # LF # rest) (p + int (length line)) = Inr CR"
    "rd (pre @ line @ CR # LF # rest) (p + int (length line) + 1) = Inr LF"
    using rd_at [OF assms(1), of "length line" "line @ CR # LF # rest"]
      rd_at [OF assms(1), of "Suc (length line)" "line @ CR # LF # rest"]
    by (simp_all add: nth_append add.commute add.left_commute)
  moreover have "seek_cr (pre @ line @ CR # LF # rest) p 0 (n - 1) = Inr (int (length line))"
    using seek_cr_line [OF assms(1,2), of "n - 1" 0 "LF # rest"] assms(3) by simp
  moreover have "0 < n - 1" using assms(3) by simp
  ultimately show ?thesis unfolding seekNewline_def n by (subst seek_loop.simps) simp
qed

lemma num_of_mono: "v \<le> num_of v ds"
proof (induction ds arbitrary: v)
  case (Cons c ds)
  have "v \<le> v * 10 + digit_val c" by simp
  then show ?case using Cons.IH [of "v * 10 + digit_val c"] by simp
qed simp

lemma read_digits_line:
  assumes "p = int (length pre)"
  shows "\<forall>c\<in>set ds. is_digit c \<Longrightarrow> int (num_of v ds) < 2 ^ 63 \<Longrightarrow>
    read_digits (pre @ ds @ CR # rest) p (int v) = Inr (Some (int (num_of v ds)))"
  using assms
proof (induction ds arbitrary: v pre p)
  case Nil
  then show ?case using rd_at [OF Nil.prems(3), of 0 "CR # rest"] by (subst read_digits.simps) simp
next
  case (Cons c ds)
  have c: "is_digit c" "c \<noteq> CR" using Cons.prems(1) digit_neq [of c] by auto
  have le: "int (v * 10 + digit_val c) < 2 ^ 63"
    using num_of_mono [of "v * 10 + digit_val c" ds] Cons.prems(2) by simp
  then have "ck64 (int v * 10) = Inr (int v * 10)" "ck64 (int v * 10 + int (digit_val c)) = Inr (int (v * 10 + digit_val c))"
    by (simp_all add: ck64_def)
  moreover have "read_digits ((pre @ [c]) @ ds @ CR # rest) (p + 1) (int (v * 10 + digit_val c)) =
      Inr (Some (int (num_of (v * 10 + digit_val c) ds)))"
    by (rule Cons.IH) (use Cons.prems in auto)
  ultimately show ?case
    using rd_at [OF Cons.prems(3), of 0 "(c # ds) @ CR # rest"] c by (subst read_digits.simps) simp
qed

lemma readLongLong_line:
  assumes "p = int (length pre)" "- (2 ^ 63) < v" "v < 2 ^ 63"
  shows "readLongLong (pre @ decimal_int v @ CR # rest) p = Inr v"
proof (cases "v < 0")
  case True
  then have d: "decimal_int v = CHR ''-'' # decimal (nat (- v))" by (simp add: decimal_int_def)
  have "read_digits ((pre @ [CHR ''-'']) @ decimal (nat (- v)) @ CR # rest) (p + 1) (int 0) =
      Inr (Some (int (num_of 0 (decimal (nat (- v))))))"
    by (rule read_digits_line) (use assms decimal_digits in \<open>auto simp: num_of_decimal\<close>)
  moreover have "rd (pre @ decimal_int v @ CR # rest) p = Inr CHR ''-''"
    using rd_at [OF assms(1), of 0 "decimal_int v @ CR # rest"] d by simp
  ultimately show ?thesis using True d by (simp add: readLongLong_def num_of_decimal)
next
  case False
  then have d: "decimal_int v = decimal (nat v)" by (simp add: decimal_int_def)
  have "read_digits (pre @ decimal (nat v) @ CR # rest) p (int 0) = Inr (Some (int (num_of 0 (decimal (nat v)))))"
    by (rule read_digits_line) (use assms decimal_digits False in \<open>auto simp: num_of_decimal\<close>)
  moreover obtain c where c: "rd (pre @ decimal_int v @ CR # rest) p = Inr c" "c \<noteq> CHR ''-''" "c \<noteq> CHR ''+''"
    using rd_at [OF assms(1), of 0 "decimal_int v @ CR # rest"] d decimal_hd_digit [of "nat v"] digit_neq
    by (cases "decimal (nat v)") auto
  ultimately show ?thesis using False d by (simp add: readLongLong_def num_of_decimal)
qed

lemma decimal_int_nat: "decimal_int (int n) = decimal n"
  by (simp add: decimal_int_def)

lemma decimal_int_minus_1: "decimal_int (- 1) = ''-1''"
  by code_simp

end
