(* ===== verification/FormatProof.thy ===== *)
theory FormatProof
  imports Format Resp
begin

text \<open>
  The formatted command is the encoding of an array of bulk strings. The two argument-vector
  formatters and the format-string one share \<open>build_command\<close> and the length computation, whose
  digit count is the length of the decimal numeral.
\<close>

section \<open>Lengths\<close>

lemma decimal_ge_10: "10 \<le> n \<Longrightarrow> length (decimal n) = Suc (length (decimal (n div 10)))"
  by (subst decimal.simps) simp

lemma decimal_lt_10: "n < 10 \<Longrightarrow> length (decimal n) = 1"
  by (subst decimal.simps) simp

lemma decimal_ge_10000:
  assumes "10000 \<le> n"
  shows "length (decimal n) = length (decimal (n div 10000)) + 4"
proof -
  have "n div 10 div 10 div 10 div 10 = n div 10000" by (simp flip: div_mult2_eq)
  moreover have "10 \<le> n div 10" "10 \<le> n div 10 div 10" "10 \<le> n div 10 div 10 div 10" using assms by auto
  ultimately show ?thesis using assms by (simp add: decimal_ge_10)
qed

lemma count_digits_decimal: "count_digits (int v) r = r - 1 + int (length (decimal v))"
proof (induction v arbitrary: r rule: less_induct)
  case (less v)
  consider "v < 10" | "10 \<le> v" "v < 100" | "100 \<le> v" "v < 1000" | "1000 \<le> v" "v < 10000" | "10000 \<le> v" by linarith
  then show ?case
  proof cases
    case 5
    have "count_digits (int (v div 10000)) (r + 4) = r + 4 - 1 + int (length (decimal (v div 10000)))"
      using 5 by (intro less.IH) simp
    then show ?thesis using 5 decimal_ge_10000 [OF 5] by (subst count_digits.simps) (simp add: zdiv_int)
  qed (subst count_digits.simps, simp add: decimal_ge_10 decimal_lt_10)+
qed

lemma countDigits_decimal: "countDigits (int v) = int (length (decimal v))"
  by (simp add: countDigits_def count_digits_decimal)

definition bulk_bytes :: "bytes \<Rightarrow> bytes" where
  "bulk_bytes b = CHR ''$'' # decimal (length b) @ CRLF @ b @ CRLF"

definition command_bytes :: "bytes list \<Rightarrow> bytes" where
  "command_bytes args = CHR ''*'' # decimal (length args) @ CRLF @ concat (map bulk_bytes args)"

lemma command_bytes_encode: "command_bytes args = encode (Array (map Bulk args))"
proof -
  have "bulk_bytes = encode \<circ> Bulk" by (auto simp: bulk_bytes_def)
  then show ?thesis by (simp add: command_bytes_def)
qed

lemma length_bulk_bytes: "length (bulk_bytes b) = length (decimal (length b)) + length b + 5"
  by (simp add: bulk_bytes_def)

lemma bulklen_bytes: "length (bulk_bytes b) < 2 ^ 31 \<Longrightarrow> bulklen (int (length b)) = int (length (bulk_bytes b))"
  by (simp add: bulklen_def countDigits_decimal length_bulk_bytes cint)

lemma encode_count_args: "length texts \<le> length (command_bytes texts)"
proof -
  have "length texts \<le> length (concat (map bulk_bytes texts))" by (induction texts) (auto simp: length_bulk_bytes)
  then show ?thesis by (simp add: command_bytes_def)
qed

section \<open>Writing\<close>

lemma wrn_at: "length xs \<le> length rest \<Longrightarrow> wrn (pre @ rest) (int (length pre)) xs = Inr (pre @ xs @ drop (length xs) rest)"
  by (simp add: wrn_def)

lemma wr_at: "wr (pre @ x # rest) (int (length pre)) c = Inr (pre @ c # rest)"
  by (simp add: wr_def list_update_append)

lemma sprintf_at:
  assumes "length line < length rest" "int (length pre + length line) < 2 ^ 31" "pos = int (length pre)"
  shows "sprintf (pre @ rest) pos line = Inr (pre @ line @ NUL # drop (Suc (length line)) rest, int (length pre + length line))"
  using wrn_at [of "line @ [NUL]" rest pre] assms by (simp add: sprintf_def cint)

lemma put_bulk_at:
  assumes n: "n \<le> length arg" and fit: "length (bulk_bytes (take n arg)) < length rest" and pos: "pos = int (length pre)"
    and lim: "int (length pre + length rest) \<le> 2 ^ 31"
  shows "\<exists>rest'. put_bulk (pre @ rest) pos arg (int n) =
      Inr (pre @ bulk_bytes (take n arg) @ rest', int (length (pre @ bulk_bytes (take n arg)))) \<and>
    length rest' + length (bulk_bytes (take n arg)) = length rest"
proof -
  define line where "line = CHR ''$'' # decimal n @ CRLF"
  have ln: "length (take n arg) = n" using n by simp
  have bb: "bulk_bytes (take n arg) = line @ take n arg @ CRLF" unfolding bulk_bytes_def ln line_def by simp
  have len: "length line + n + 2 < length rest" using fit bb ln by simp
  define r1 where "r1 = NUL # drop (Suc (length line)) rest"
  have lr1: "length r1 = length rest - length line" using len by (simp add: r1_def)
  have sp: "sprintf (pre @ rest) pos line = Inr (pre @ line @ r1, int (length pre + length line))"
    unfolding r1_def by (rule sprintf_at) (use len lim pos in auto)
  have mc: "memcpy (pre @ line @ r1) (int (length pre + length line)) arg 0 (int n) = Inr ((pre @ line) @ take n arg @ drop n r1)"
    using wrn_at [of "take n arg" r1 "pre @ line"] n len lr1 by (simp add: memcpy_def rdn_def)
  obtain x y r2 where r2: "drop n r1 = x # y # r2"
  proof -
    have "2 \<le> length (drop n r1)" using len lr1 by simp
    then show thesis using that by (cases "drop n r1"; cases "tl (drop n r1)") auto
  qed
  let ?d = "pre @ line @ take n arg"
  have ld: "int32 (uint64 (int (length pre + length line) + int n)) = int (length ?d)"
    using len lim ln by (simp add: cint)
  have w1: "wr (?d @ x # y # r2) (int (length ?d)) CR = Inr (?d @ CR # y # r2)" by (rule wr_at)
  have w2: "wr (?d @ CR # y # r2) (int (length ?d) + 1) LF = Inr (?d @ CR # LF # r2)"
    using wr_at [of "?d @ [CR]" y r2 LF] by (simp add: add.commute)
  have ck: "ck32 (int (length ?d) + 1) = Inr (int (length ?d) + 1)" "ck32 (int (length ?d) + 1 + 1) = Inr (int (length ?d) + 2)"
    using len lim ln by (simp_all add: ck32_def)
  have "put_bulk (pre @ rest) pos arg (int n) = Inr (?d @ CR # LF # r2, int (length ?d) + 2)"
    unfolding put_bulk_def using sp mc r2 w1 w2 ck ld by (simp add: line_def [symmetric] del: length_append of_nat_add)
  moreover have "length r2 + length (bulk_bytes (take n arg)) = length rest"
    using arg_cong [OF r2, of length] lr1 len bb ln by simp
  ultimately show ?thesis by (intro exI [of _ r2]) (simp add: bb ln)
qed

text \<open>Arguments are blocks with the number of their bytes that count.\<close>

definition args_ok :: "(bytes \<times> int) list \<Rightarrow> bool" where
  "args_ok args \<longleftrightarrow> (\<forall>(b, n)\<in>set args. 0 \<le> n \<and> n \<le> int (length b))"

definition arg_bytes :: "bytes \<times> int \<Rightarrow> bytes" where
  "arg_bytes a = take (nat (snd a)) (fst a)"

lemma put_bulks_at:
  assumes "args_ok args" "length (concat (map (\<lambda>a. bulk_bytes (arg_bytes a)) args)) < length rest" "pos = int (length pre)"
    "int (length pre + length rest) \<le> 2 ^ 31"
  shows "\<exists>rest'. put_bulks (pre @ rest) pos args =
      Inr (pre @ concat (map (\<lambda>a. bulk_bytes (arg_bytes a)) args) @ rest', int (length (pre @ concat (map (\<lambda>a. bulk_bytes (arg_bytes a)) args)))) \<and>
    length rest' + length (concat (map (\<lambda>a. bulk_bytes (arg_bytes a)) args)) = length rest"
  using assms
proof (induction args arbitrary: pre rest pos)
  case Nil
  then show ?case by simp
next
  case (Cons a args)
  obtain b n where a: "a = (b, int n)" "n \<le> length b" "arg_bytes a = take n b"
    using Cons.prems(1) by (cases a) (auto simp: args_ok_def arg_bytes_def nonneg_int_cases nat_le_iff dest: zero_le_imp_eq_int)
  let ?e = "bulk_bytes (take n b)" and ?es = "concat (map (\<lambda>a. bulk_bytes (arg_bytes a)) args)"
  have fit: "length ?e + length ?es < length rest" using Cons.prems(2) a(3) by (simp add: comp_def)
  then have fit1: "length ?e < length rest" by simp
  obtain r1 where r1: "put_bulk (pre @ rest) pos b (int n) = Inr (pre @ ?e @ r1, int (length (pre @ ?e)))" "length r1 + length ?e = length rest"
    using put_bulk_at [OF a(2) fit1 Cons.prems(3,4)] by blast
  have ok: "args_ok args" using Cons.prems(1) by (simp add: args_ok_def)
  obtain r2 where "put_bulks ((pre @ ?e) @ r1) (int (length (pre @ ?e))) args =
      Inr ((pre @ ?e) @ ?es @ r2, int (length ((pre @ ?e) @ ?es)))" "length r2 + length ?es = length r1"
    using Cons.IH [OF ok, of r1 _ "pre @ ?e"] fit r1(2) Cons.prems(4) by auto
  then show ?case using r1 a by (intro exI [of _ r2]) simp
qed

lemma build_command_bytes:
  assumes "args_ok args" "argc = int (length args)" "totlen = int (length (command_bytes (map arg_bytes args)))" "totlen + 1 < 2 ^ 31"
  shows "build_command A totlen argc args =
    Inr (if can_alloc A (totlen + 1) then Some (command_bytes (map arg_bytes args) @ [NUL]) else None)"
proof (cases "can_alloc A (totlen + 1)")
  case False
  then show ?thesis using assms by (simp add: build_command_def cint malloc_def)
next
  case True
  let ?es = "concat (map (\<lambda>a. bulk_bytes (arg_bytes a)) args)"
  define line where "line = CHR ''*'' # decimal (length args) @ CRLF"
  define cmd where "cmd = map (junk A) [0..<nat (totlen + 1)]"
  have all: "command_bytes (map arg_bytes args) = line @ ?es" by (simp add: command_bytes_def line_def comp_def)
  have lc: "length cmd = Suc (length line + length ?es)" using assms(3) all by (simp add: cmd_def nat_add_distrib)
  have m: "malloc A 0 (uint64 (totlen + 1)) = Some cmd" using True assms(3,4) by (simp add: malloc_def cmd_def cint)
  have d: "decimal_int argc = decimal (length args)" by (simp add: assms(2) decimal_int_nat)
  have lim: "int (length line + length ?es) + 1 < 2 ^ 31" using assms(3,4) all by simp
  define r1 where "r1 = NUL # drop (Suc (length line)) cmd"
  have sp: "sprintf cmd 0 line = Inr (line @ r1, int (length line))"
    using sprintf_at [of line cmd "[]" 0] lc lim by (simp add: r1_def)
  have "length r1 = Suc (length ?es)" using lc by (simp add: r1_def)
  then obtain r2 where r2: "put_bulks (line @ r1) (int (length line)) args = Inr (line @ ?es @ r2, int (length (line @ ?es)))" "length r2 = 1"
    using put_bulks_at [OF assms(1), of r1 "int (length line)" line] lim by auto
  then obtain x where x: "r2 = [x]" by (cases r2) auto
  have "wr ((line @ ?es) @ [x]) (int (length (line @ ?es))) NUL = Inr ((line @ ?es) @ [NUL])" by (rule wr_at)
  then show ?thesis
    using True assms(3,4) m sp r2(1) x all
    by (simp add: build_command_def cint d line_def [symmetric] del: length_append of_nat_add)
qed

section \<open>Argument vectors\<close>

text \<open>An argument vector that holds the texts: with their lengths, or as C strings.\<close>

definition argv_holds :: "bytes list \<Rightarrow> int list option \<Rightarrow> bytes list \<Rightarrow> bool" where
  "argv_holds argv argvlen texts \<longleftrightarrow>
     (case argvlen of
        Some ls \<Rightarrow> ls = map (\<lambda>t. int (length t)) texts \<and> list_all2 (\<lambda>b t. take (length t) b = t) argv texts
      | None \<Rightarrow> list_all2 (\<lambda>b t. NUL \<in> set b \<and> takeWhile ((\<noteq>) NUL) b = t) argv texts)"

lemma argv_holds_length: "argv_holds argv argvlen texts \<Longrightarrow> length argv = length texts"
  by (auto simp: argv_holds_def dest: list_all2_lengthD split: option.splits)

lemma strlen_takeWhile: "NUL \<in> set b \<Longrightarrow> strlen b = Inr (int (length (takeWhile ((\<noteq>) NUL) b)))"
  by (induction b) auto

lemma arg_len_holds:
  assumes "argv_holds argv argvlen texts" "j < length texts"
  shows "arg_len argv argvlen (int j) = Inr (int (length (texts ! j)))" "at argv (int j) = Inr (argv ! j)"
    "take (length (texts ! j)) (argv ! j) = texts ! j" "length (texts ! j) \<le> length (argv ! j)"
proof -
  have l: "j < length argv" using assms argv_holds_length by metis
  show "at argv (int j) = Inr (argv ! j)" using l by (simp add: at_def)
  show t: "take (length (texts ! j)) (argv ! j) = texts ! j"
  proof (cases argvlen)
    case None
    then have "takeWhile ((\<noteq>) NUL) (argv ! j) = texts ! j" using assms l by (auto simp: argv_holds_def list_all2_conv_all_nth)
    then show ?thesis by (metis takeWhile_eq_take)
  next
    case (Some ls)
    then show ?thesis using assms l by (auto simp: argv_holds_def list_all2_conv_all_nth)
  qed
  show "length (texts ! j) \<le> length (argv ! j)" using arg_cong [OF t, of length] by simp
  show "arg_len argv argvlen (int j) = Inr (int (length (texts ! j)))"
  proof (cases argvlen)
    case None
    then have "NUL \<in> set (argv ! j)" "takeWhile ((\<noteq>) NUL) (argv ! j) = texts ! j"
      using assms l by (auto simp: argv_holds_def list_all2_conv_all_nth)
    then show ?thesis using None l by (simp add: arg_len_def at_def strlen_takeWhile)
  next
    case (Some ls)
    then show ?thesis using assms by (simp add: argv_holds_def arg_len_def at_def)
  qed
qed

lemma collect_args_holds:
  assumes "argv_holds argv argvlen texts"
  shows "\<exists>args. collect_args 0 argv argvlen (int (length texts)) = Inr args \<and> args_ok args \<and> map arg_bytes args = texts"
proof -
  have "k \<le> length texts \<Longrightarrow> \<exists>args. collect_args (int (length texts - k)) argv argvlen (int (length texts)) = Inr args \<and> args_ok args \<and>
      map arg_bytes args = drop (length texts - k) texts" for k
  proof (induction k)
    case 0
    then show ?case by (subst collect_args.simps) (simp add: args_ok_def)
  next
    case (Suc k)
    define j where "j = length texts - Suc k"
    have j: "j < length texts" "length texts - k = Suc j" using Suc.prems by (auto simp: j_def)
    obtain args where "collect_args (int (Suc j)) argv argvlen (int (length texts)) = Inr args" "args_ok args"
        "map arg_bytes args = drop (Suc j) texts"
      using Suc.IH Suc.prems j(2) by auto
    then show ?case
      using arg_len_holds [OF assms j(1)] j(1) unfolding j_def [symmetric]
      by (subst collect_args.simps) (auto simp: args_ok_def arg_bytes_def add.commute Cons_nth_drop_Suc [symmetric])
  qed
  from this [of "length texts"] show ?thesis by simp
qed

lemma sum_bulklen_conv:
  assumes "args_ok args" "0 \<le> base" "base + int (length (concat (map (\<lambda>a. bulk_bytes (arg_bytes a)) args))) < 2 ^ 31"
    "\<And>x. 0 \<le> x \<Longrightarrow> x < 2 ^ 31 \<Longrightarrow> conv x = x"
  shows "sum_bulklen conv base args = base + int (length (concat (map (\<lambda>a. bulk_bytes (arg_bytes a)) args)))"
  using assms(1-3)
proof (induction args arbitrary: base)
  case Nil
  then show ?case by simp
next
  case (Cons a args)
  obtain b n where a: "a = (b, int n)" "n \<le> length b" "length (arg_bytes a) = n"
    using Cons.prems(1) by (cases a) (auto simp: args_ok_def arg_bytes_def nat_le_iff min_def dest: zero_le_imp_eq_int)
  have "length (bulk_bytes (arg_bytes a)) < 2 ^ 31" using Cons.prems(2,3) by simp
  then have "bulklen (int n) = int (length (bulk_bytes (arg_bytes a)))" using bulklen_bytes [of "arg_bytes a"] a(3) by simp
  moreover have "conv (base + int (length (bulk_bytes (arg_bytes a)))) = base + int (length (bulk_bytes (arg_bytes a)))"
    using Cons.prems by (intro assms(4)) auto
  ultimately show ?case using Cons a(1) by (simp add: args_ok_def)
qed

lemma command_length:
  "map arg_bytes args = texts \<Longrightarrow>
     int (length (command_bytes texts)) = 1 + countDigits (int (length texts)) + 2 + int (length (concat (map (\<lambda>a. bulk_bytes (arg_bytes a)) args)))"
  by (auto simp: command_bytes_def countDigits_decimal comp_def)

lemma redisFormatCommandArgv_bytes:
  assumes "argv_holds argv argvlen texts" "int (length (command_bytes texts)) + 1 < 2 ^ 31"
  shows "redisFormatCommandArgv A True (int (length texts)) argv argvlen =
    (if can_alloc A (int (length (command_bytes texts)) + 1)
     then Inr (int (length (command_bytes texts)), Some (command_bytes texts @ [NUL])) else Inr (- 1, None))"
proof -
  obtain args where args: "collect_args 0 argv argvlen (int (length texts)) = Inr args" "args_ok args" "map arg_bytes args = texts"
    using collect_args_holds [OF assms(1)] by blast
  have la: "length args = length texts" using args(3) by auto
  note cl = command_length [OF args(3)]
  have n: "uint64 (int (length texts)) = int (length texts)"
    using assms(2) arg_cong [OF args(3), of length] encode_count_args [of texts] by (simp add: cint)
  have "sum_bulklen int32 (1 + countDigits (int (length texts)) + 2) args = int (length (command_bytes texts))"
    using sum_bulklen_conv [OF args(2), of "1 + countDigits (int (length texts)) + 2" int32] cl assms(2)
    by (simp add: countDigits_decimal cint)
  then show ?thesis
    using build_command_bytes [OF args(2), of "int (length texts)" "int (length (command_bytes texts))" A] args la n assms(2)
    by (simp add: redisFormatCommandArgv_def)
qed

end
