(* ===== verification/FormatSds.thy ===== *)
theory FormatSds
  imports FormatProof
begin

text \<open>
  \<^verbatim>\<open>redisFormatSdsCommandArgv\<close>: \<^verbatim>\<open>sdscatfmt\<close> writes behind the text of a string with room
  reserved, its terminator only at the end; \<open>sds_mid\<close> is the string in between.
\<close>

definition sds_mid :: "sds \<Rightarrow> bool" where
  "sds_mid s \<longleftrightarrow> 0 \<le> sh_len s \<and> 0 \<le> sh_free s \<and> sh_len s + sh_free s < 2 ^ 31 \<and> int (length (sh_buf s)) = sh_len s + sh_free s + 1"

lemma sds_ok_mid: "sds_ok s \<Longrightarrow> sds_mid s"
  by (simp add: sds_ok_def sds_mid_def)

lemma sds_midE:
  assumes "sds_mid s"
  obtains l f b where "s = \<lparr>sh_len = int l, sh_free = int f, sh_buf = b\<rparr>" "length b = l + f + 1" "int l + int f < 2 ^ 31" "sds_str s = take l b"
proof -
  obtain l f where "sh_len s = int l" "sh_free s = int f" using assms by (auto simp: sds_mid_def dest!: zero_le_imp_eq_int)
  then show thesis using that [of l f "sh_buf s"] assms by (cases s) (auto simp: sds_mid_def sds_str_def)
qed

lemma fmt_put_mid:
  assumes "sds_mid s" "n \<le> length x" "int n \<le> sh_free s"
  shows "\<exists>s'. fmt_put A s (sh_len s) x (int n) = Inr (s', sh_len s') \<and> sds_mid s' \<and> sds_str s' = sds_str s @ take n x \<and> sh_free s' = sh_free s - int n"
  using assms(1)
proof (rule sds_midE)
  fix l f b assume s: "s = \<lparr>sh_len = int l, sh_free = int f, sh_buf = b\<rparr>" "length b = l + f + 1" "int l + int f < 2 ^ 31" "sds_str s = take l b"
  have n: "uint64 (int n) = int n" using s assms(3) by (simp add: cint)
  have "memcpy b (int l) x 0 (int n) = Inr (take l b @ take n x @ drop (l + n) b)"
    using s assms(2,3) by (simp add: memcpy_def rdn_def wrn_def)
  then show ?thesis
    using s assms(2,3) n by (simp add: fmt_put_def cint sds_mid_def sds_str_def nat_add_distrib)
qed

lemma fmt_char_mid:
  assumes "sds_mid s" "1 \<le> sh_free s"
  shows "\<exists>s'. fmt_char s (sh_len s) c = Inr (s', sh_len s') \<and> sds_mid s' \<and> sds_str s' = sds_str s @ [c] \<and> sh_free s' = sh_free s - 1"
  using assms(1)
proof (rule sds_midE)
  fix l f b assume s: "s = \<lparr>sh_len = int l, sh_free = int f, sh_buf = b\<rparr>" "length b = l + f + 1" "int l + int f < 2 ^ 31" "sds_str s = take l b"
  have "wr b (int l) c = Inr (b[l := c])" using s by (simp add: wr_def)
  then show ?thesis
    using s assms(2) by (simp add: fmt_char_def cint sds_mid_def sds_str_def nat_add_distrib take_Suc_conv_app_nth)
qed

text \<open>A format of one letter, one conversion and a line end.\<close>

lemma sdscatfmt_line:
  assumes s: "sds_ok s" and c0: "c0 \<noteq> NUL" "c0 \<noteq> CHR ''%''" and room: "int (length d) + 3 \<le> sh_free s" and d: "d \<noteq> []"
    and conv: "\<And>s. sds_mid s \<Longrightarrow> int (length d) \<le> sh_free s \<Longrightarrow>
      \<exists>s'. fmt_conv A k s (sh_len s) [a] = Inr (s', sh_len s', []) \<and> sds_mid s' \<and> sds_str s' = sds_str s @ d \<and> sh_free s' = sh_free s - int (length d)"
  shows "\<exists>s'. sdscatfmt A s (c0 # CHR ''%'' # k # [CR, LF, NUL]) [a] = Inr s' \<and> sds_ok s' \<and> sds_str s' = sds_str s @ c0 # d @ CRLF \<and>
    sh_free s' = sh_free s - int (length d) - 3"
proof -
  let ?f = "c0 # CHR ''%'' # k # [CR, LF, NUL]"
  have rd: "rd ?f 0 = Inr c0" "rd ?f 1 = Inr CHR ''%''" "rd ?f 2 = Inr k" "rd ?f 3 = Inr CR" "rd ?f 4 = Inr LF" "rd ?f 5 = Inr NUL"
    by (simp_all add: rd_def numeral_eq_Suc)
  have ld: "0 < int (length d)" using d by simp
  obtain s1 where s1: "fmt_char s (sh_len s) c0 = Inr (s1, sh_len s1)" "sds_mid s1" "sds_str s1 = sds_str s @ [c0]" "sh_free s1 = sh_free s - 1"
    using fmt_char_mid [OF sds_ok_mid [OF s], of c0] room by auto
  obtain s2 where s2: "fmt_conv A k s1 (sh_len s1) [a] = Inr (s2, sh_len s2, [])" "sds_mid s2" "sds_str s2 = sds_str s1 @ d" "sh_free s2 = sh_free s1 - int (length d)"
    using conv [OF s1(2)] s1(4) room by auto
  obtain s3 where s3: "fmt_char s2 (sh_len s2) CR = Inr (s3, sh_len s3)" "sds_mid s3" "sds_str s3 = sds_str s2 @ [CR]" "sh_free s3 = sh_free s2 - 1"
    using fmt_char_mid [OF s2(2), of CR] s1(4) s2(4) room by auto
  obtain s4 where s4: "fmt_char s3 (sh_len s3) LF = Inr (s4, sh_len s4)" "sds_mid s4" "sds_str s4 = sds_str s3 @ [LF]" "sh_free s4 = sh_free s3 - 1"
    using fmt_char_mid [OF s3(2), of LF] s1(4) s2(4) s3(4) room by auto
  have fr: "sh_free s \<noteq> 0" "sh_free s1 \<noteq> 0" "sh_free s2 \<noteq> 0" "sh_free s3 \<noteq> 0" using s1(4) s2(4) s3(4) room ld by auto
  have l0: "int32 (sdslen s) = sh_len s" using s by (simp add: sds_ok_def sdslen_def cint)
  have step: "catfmt_loop A ?f p t i ap = bindR (fmt_char t i c) (\<lambda>(t, i). catfmt_loop A ?f (p + 1) t i ap)"
    if "rd ?f p = Inr c" "c \<noteq> NUL" "c \<noteq> CHR ''%''" "sh_free t \<noteq> 0" for p t i ap c
    using that by (subst catfmt_loop.simps) simp
  have cstep: "catfmt_loop A ?f 1 s1 (sh_len s1) [a] = catfmt_loop A ?f 3 s2 (sh_len s2) []"
    using rd(2,3) fr(2) s2(1) by (subst catfmt_loop.simps) simp
  have "catfmt_loop A ?f 5 s4 (sh_len s4) [] = Inr (s4, sh_len s4)" using rd(6) by (subst catfmt_loop.simps) simp
  then have loop: "catfmt_loop A ?f 0 s (sh_len s) [a] = Inr (s4, sh_len s4)"
    using step [OF rd(1) c0 fr(1)] step [OF rd(4), of s2] step [OF rd(5), of s3] fr s1(1) s3(1) s4(1) cstep by simp
  from s4(2) obtain l f b where m: "s4 = \<lparr>sh_len = int l, sh_free = int f, sh_buf = b\<rparr>" "length b = l + f + 1" "int l + int f < 2 ^ 31" "sds_str s4 = take l b"
    by (rule sds_midE)
  define s5 where "s5 = s4\<lparr>sh_buf := b[l := NUL]\<rparr>"
  have "wr (sh_buf s4) (sh_len s4) NUL = Inr (b[l := NUL])" using m by (simp add: wr_def)
  then have "sdscatfmt A s ?f [a] = Inr s5" using loop l0 by (simp add: sdscatfmt_def s5_def)
  moreover have "sds_ok s5" "sds_str s5 = sds_str s4" using m by (simp_all add: sds_ok_def sds_str_def s5_def)
  moreover have "sh_free s5 = sh_free s - int (length d) - 3" using s1(4) s2(4) s3(4) s4(4) by (simp add: s5_def)
  ultimately show ?thesis using s1(3) s2(3) s3(3) s4(3) by auto
qed

lemma fmt_size_line:
  assumes "sds_ok s" "0 \<le> n" "n < 2 ^ 63" "int (length (decimal (nat n))) + 3 \<le> sh_free s"
  shows "\<exists>s'. sdscatfmt A s (''$%T'' @ [CR, LF, NUL]) [FSize n] = Inr s' \<and> sds_ok s' \<and> sds_str s' = sds_str s @ CHR ''$'' # decimal (nat n) @ CRLF \<and>
    sh_free s' = sh_free s - int (length (decimal (nat n))) - 3"
proof -
  let ?buf = "map (junk A) [0..<21]"
  have b: "21 \<le> length ?buf" by simp
  have u: "sdsull2str ?buf n = Inr (decimal (nat n) @ NUL # drop (Suc (length (decimal (nat n)))) ?buf, int (length (decimal (nat n))))"
    by (rule sdsull2str_spec [OF b assms(2)]) (use assms(3) in simp)
  have "\<exists>s'. sdscatfmt A s (CHR ''$'' # CHR ''%'' # CHR ''T'' # [CR, LF, NUL]) [FSize n] = Inr s' \<and> sds_ok s' \<and>
      sds_str s' = sds_str s @ CHR ''$'' # decimal (nat n) @ CRLF \<and> sh_free s' = sh_free s - int (length (decimal (nat n))) - 3"
  proof (rule sdscatfmt_line [OF assms(1) _ _ assms(4)])
    fix t assume t: "sds_mid t" "int (length (decimal (nat n))) \<le> sh_free t"
    from fmt_put_mid [OF t(1) _ t(2), of "decimal (nat n) @ NUL # drop (Suc (length (decimal (nat n)))) ?buf" A]
    show "\<exists>s'. fmt_conv A CHR ''T'' t (sh_len t) [FSize n] = Inr (s', sh_len s', []) \<and> sds_mid s' \<and> sds_str s' = sds_str t @ decimal (nat n) \<and>
        sh_free s' = sh_free t - int (length (decimal (nat n)))"
      by (auto simp: fmt_conv_def fmt_num_def Let_def u)
  qed auto
  then show ?thesis by simp
qed

lemma fmt_count_line:
  assumes "sds_ok s" "0 \<le> n" "n < 2 ^ 31" "int (length (decimal (nat n))) + 3 \<le> sh_free s"
  shows "\<exists>s'. sdscatfmt A s (''*%i'' @ [CR, LF, NUL]) [FInt n] = Inr s' \<and> sds_ok s' \<and> sds_str s' = sds_str s @ CHR ''*'' # decimal (nat n) @ CRLF \<and>
    sh_free s' = sh_free s - int (length (decimal (nat n))) - 3"
proof -
  let ?buf = "map (junk A) [0..<21]"
  have b: "21 \<le> length ?buf" by simp
  have di: "decimal_int n = decimal (nat n)" using assms(2) by (simp add: decimal_int_def)
  have u: "sdsll2str ?buf n = Inr (decimal (nat n) @ NUL # drop (Suc (length (decimal (nat n)))) ?buf, int (length (decimal (nat n))))"
    using sdsll2str_spec [OF b, of n] assms(2,3) unfolding di by simp
  have "\<exists>s'. sdscatfmt A s (CHR ''*'' # CHR ''%'' # CHR ''i'' # [CR, LF, NUL]) [FInt n] = Inr s' \<and> sds_ok s' \<and>
      sds_str s' = sds_str s @ CHR ''*'' # decimal (nat n) @ CRLF \<and> sh_free s' = sh_free s - int (length (decimal (nat n))) - 3"
  proof (rule sdscatfmt_line [OF assms(1) _ _ assms(4)])
    fix t assume t: "sds_mid t" "int (length (decimal (nat n))) \<le> sh_free t"
    from fmt_put_mid [OF t(1) _ t(2), of "decimal (nat n) @ NUL # drop (Suc (length (decimal (nat n)))) ?buf" A]
    show "\<exists>s'. fmt_conv A CHR ''i'' t (sh_len t) [FInt n] = Inr (s', sh_len s', []) \<and> sds_mid s' \<and> sds_str s' = sds_str t @ decimal (nat n) \<and>
        sh_free s' = sh_free t - int (length (decimal (nat n)))"
      by (auto simp: fmt_conv_def fmt_num_def Let_def u)
  qed auto
  then show ?thesis by simp
qed

text \<open>An append into reserved room.\<close>

lemma sdscatlen_room:
  assumes "sds_ok s" "n \<le> length t" "int n \<le> sh_free s" "sh_len s + int n < sds_limit"
  shows "\<exists>s'. bindR (sdscatlen A s t (int n)) deref = Inr s' \<and> sds_ok s' \<and> sds_str s' = sds_str s @ take n t \<and> sh_free s' = sh_free s - int n"
proof -
  have mr: "sdsMakeRoomFor A s (int n) = Inr (Some s)" using assms(1,3) by (simp add: sdsMakeRoomFor_def sdsavail_ok)
  from assms(1,2,4) show ?thesis
  proof (cases rule: sdscatlen_cases [where A = A])
    case oom
    then show ?thesis using assms(3) by (simp add: sds_fits_def)
  next
    case (room s')
    have "sh_free s' = sh_free s - int n"
      using room(1) mr assms(1,3) by (auto simp: sdscatlen_def bindR_eq_Inr Let_def sds_ok_def cint)
    then show ?thesis using room by simp
  qed
qed

lemma put_sds_args_bytes:
  assumes "args_ok args" "sds_ok s" "int (length (concat (map (\<lambda>a. bulk_bytes (arg_bytes a)) args))) \<le> sh_free s"
    "sh_len s + int (length (concat (map (\<lambda>a. bulk_bytes (arg_bytes a)) args))) < sds_limit"
  shows "\<exists>s'. put_sds_args A s args = Inr (Some s') \<and> sds_ok s' \<and> sds_str s' = sds_str s @ concat (map (\<lambda>a. bulk_bytes (arg_bytes a)) args)"
  using assms
proof (induction args arbitrary: s)
  case Nil
  then show ?case by simp
next
  case (Cons a args)
  let ?es = "concat (map (\<lambda>a. bulk_bytes (arg_bytes a)) args)"
  obtain b n where a: "a = (b, int n)" "n \<le> length b" "arg_bytes a = take n b" "length (take n b) = n"
    using Cons.prems(1) by (cases a) (auto simp: args_ok_def arg_bytes_def nat_le_iff min_def dest: zero_le_imp_eq_int)
  have bb: "bulk_bytes (arg_bytes a) = CHR ''$'' # decimal n @ CRLF @ take n b @ CRLF" unfolding bulk_bytes_def a(3,4) by simp
  have room: "int (length (decimal n)) + int n + 5 + int (length ?es) \<le> sh_free s"
    "sh_len s + int (length (decimal n)) + int n + 5 + int (length ?es) < sds_limit" using Cons.prems(3,4) bb a(4) by simp_all
  have n63: "int n < 2 ^ 63" using room(1) Cons.prems(2) by (simp add: sds_ok_def)
  obtain s1 where s1: "sdscatfmt A s (''$%T'' @ [CR, LF, NUL]) [FSize (int n)] = Inr s1" "sds_ok s1"
      "sds_str s1 = sds_str s @ CHR ''$'' # decimal n @ CRLF" "sh_free s1 = sh_free s - int (length (decimal n)) - 3"
    using fmt_size_line [OF Cons.prems(2), of "int n" A] room n63 by auto
  have l1: "sh_len s1 = sh_len s + int (length (decimal n)) + 3"
    using sh_len_str [OF s1(2)] sh_len_str [OF Cons.prems(2)] s1(3) by simp
  obtain s2 where s2: "bindR (sdscatlen A s1 b (int n)) deref = Inr s2" "sds_ok s2" "sds_str s2 = sds_str s1 @ take n b" "sh_free s2 = sh_free s1 - int n"
    using sdscatlen_room [OF s1(2) a(2), of A] s1(4) l1 room by auto
  have l2: "sh_len s2 = sh_len s1 + int n"
    using sh_len_str [OF s1(2)] sh_len_str [OF s2(2)] s2(3) a(4) by simp
  obtain s3 where s3: "bindR (sdscatlen A s2 [CR, LF, NUL] 2) deref = Inr s3" "sds_ok s3" "sds_str s3 = sds_str s2 @ CRLF" "sh_free s3 = sh_free s2 - 2"
    using sdscatlen_room [OF s2(2), of 2 "[CR, LF, NUL]" A] s1(4) s2(4) l1 l2 room by auto
  have l3: "sh_len s3 = sh_len s2 + 2"
    using sh_len_str [OF s2(2)] sh_len_str [OF s3(2)] s3(3) by simp
  have "\<exists>s'. put_sds_args A s3 args = Inr (Some s') \<and> sds_ok s' \<and> sds_str s' = sds_str s3 @ ?es"
    by (rule Cons.IH) (use Cons.prems(1) s3 s1(4) s2(4) l1 l2 l3 room in \<open>auto simp: args_ok_def\<close>)
  then show ?case using a(1) s1(1,3) s2(1,3) s3(1,3) bb by (auto simp del: bindR_assoc)
qed

lemma redisFormatSdsCommandArgv_bytes:
  assumes "argv_holds argv argvlen texts" "int (length (command_bytes texts)) < sds_limit" "\<forall>k. can_alloc A k"
  shows "\<exists>s. redisFormatSdsCommandArgv A True (int (length texts)) argv argvlen = Inr (int (length (command_bytes texts)), Some s) \<and>
    sds_ok s \<and> sds_str s = command_bytes texts"
proof -
  let ?n = "int (length texts)" and ?tot = "int (length (command_bytes texts))"
  obtain args where args: "collect_args 0 argv argvlen ?n = Inr args" "args_ok args" "map arg_bytes args = texts"
    using collect_args_holds [OF assms(1)] by blast
  let ?es = "concat (map (\<lambda>a. bulk_bytes (arg_bytes a)) args)"
  note cl = command_length [OF args(3)]
  have n: "uint64 ?n = ?n" "?n < 2 ^ 31" using assms(2) encode_count_args [of texts] by (simp_all add: cint)
  have tot: "sum_bulklen uint64 (1 + countDigits ?n + 2) args = ?tot"
    using sum_bulklen_conv [OF args(2), of "1 + countDigits ?n + 2" uint64] cl assms(2) by (simp add: countDigits_decimal cint)
  have e: "sdsempty A = Inr (Some (sds_of []))" using assms(3) by (simp add: sdsempty_spec sds_of_def)
  have e0: "sds_ok (sds_of [])" "sds_str (sds_of []) = []" "sh_len (sds_of []) = 0" using sds_of [of "[]"] by (simp_all add: sds_of_def)
  obtain s1 where s1: "sdsMakeRoomFor A (sds_of []) ?tot = Inr (Some s1)" "sds_ok s1" "sds_str s1 = []" "?tot \<le> sh_free s1"
  proof (rule sdsMakeRoomFor_cases [OF e0(1), of ?tot A])
    show "0 \<le> ?tot" "sh_len (sds_of []) + ?tot < sds_limit" using assms(2) e0(3) by simp_all
    show thesis if "\<not> sds_fits A (sds_of []) ?tot" using that assms(3) by (simp add: sds_fits_def)
  qed (use that e0(2) in auto)
  have tl: "?tot = int (length (decimal (length texts))) + 3 + int (length ?es)" using cl by (simp add: countDigits_decimal)
  obtain s2 where s2: "sdscatfmt A s1 (''*%i'' @ [CR, LF, NUL]) [FInt ?n] = Inr s2" "sds_ok s2"
      "sds_str s2 = CHR ''*'' # decimal (length texts) @ CRLF" "sh_free s2 = sh_free s1 - int (length (decimal (length texts))) - 3"
    using fmt_count_line [OF s1(2), of ?n A] n(2) s1(3,4) tl by auto
  have "sh_len s2 = int (length (decimal (length texts))) + 3" using sh_len_str [OF s2(2)] s2(3) by simp
  then obtain s3 where s3: "put_sds_args A s2 args = Inr (Some s3)" "sds_ok s3" "sds_str s3 = sds_str s2 @ ?es"
    using put_sds_args_bytes [OF args(2) s2(2), of A] s1(4) s2(4) tl assms(2) by auto
  have str: "sds_str s3 = command_bytes texts" using s3(3) s2(3) args(3) by (auto simp: command_bytes_def comp_def)
  then have "sdslen s3 = ?tot" using sdslen_str [OF s3(2)] by simp
  moreover have "int32 ?tot = ?tot" using assms(2) by (simp add: cint)
  ultimately show ?thesis
    using args(1) tot n e s1(1) s2(1) s3 str
    by (simp add: redisFormatSdsCommandArgv_def Let_def)
qed

end
