(* ===== verification/FormatArgs.thy ===== *)
theory FormatArgs
  imports FormatProof
begin

text \<open>
  The format language of \<^verbatim>\<open>redisvFormatCommand\<close> without its \<^verbatim>\<open>printf\<close> conversions, as a function
  from the format text and the arguments to the words of the command (\<open>expand\<close>), and the proof
  that the formatter encodes exactly these words.
\<close>

fun expand :: "bytes \<Rightarrow> va list \<Rightarrow> bytes \<Rightarrow> bool \<Rightarrow> bytes list option" where
  "expand [] ap cur touched = Some (if touched then [cur] else [])"
| "expand (c # cs) ap cur touched =
     (if c = CHR '' '' then
        if touched then map_option ((#) cur) (expand cs ap [] False) else expand cs ap cur touched
      else if c \<noteq> CHR ''%'' \<or> cs = [] then expand cs ap (cur @ [c]) True
      else if hd cs = CHR ''s'' then
        (case ap of VPtr b # ap \<Rightarrow> if NUL \<in> set b then expand (tl cs) ap (cur @ takeWhile ((\<noteq>) NUL) b) True else None | _ \<Rightarrow> None)
      else if hd cs = CHR ''b'' then
        (case ap of VPtr b # VSize n # ap \<Rightarrow>
             if 0 \<le> n \<and> n \<le> int (length b) then expand (tl cs) ap (cur @ take (nat n) b) True else None | _ \<Rightarrow> None)
      else if hd cs = CHR ''%'' then expand (tl cs) ap (cur @ ''%'') True
      else None)"

lemma expand_cur: "expand f ap cur t = Some args \<Longrightarrow> (t \<or> cur = []) \<Longrightarrow> length cur \<le> length (concat args)"
  by (induction f ap cur t arbitrary: args rule: expand.induct)
    (fastforce split: if_splits list.splits va.splits)+

lemma bulks_ge: "length (concat args) \<le> length (concat (map bulk_bytes args))"
  by (induction args) (auto simp: length_bulk_bytes)

section \<open>The loop\<close>

definition fstate_ok :: "fstate \<Rightarrow> bool" where
  "fstate_ok st \<longleftrightarrow> sds_ok (f_cur st) \<and> (\<forall>a\<in>set (f_argv st). sds_ok a) \<and>
     f_totlen st = int (length (concat (map bulk_bytes (map sds_str (f_argv st)))))"

definition finish :: "allocator \<Rightarrow> fstate \<Rightarrow> int + fstate" where
  "finish A st = (if f_touched st then push_arg A st else Inr st)"

lemma push_arg_ok:
  assumes "\<forall>k. can_alloc A k" "fstate_ok st" "f_totlen st + int (length (bulk_bytes (sds_str (f_cur st)))) < sds_limit"
  shows "\<exists>st'. push_arg A st = Inr st' \<and> fstate_ok st' \<and> f_cur st' = f_cur st \<and> map sds_str (f_argv st') = map sds_str (f_argv st) @ [sds_str (f_cur st)] \<and>
    f_totlen st' = f_totlen st + int (length (bulk_bytes (sds_str (f_cur st))))"
proof -
  have t: "0 \<le> f_totlen st" "sds_ok (f_cur st)" using assms(2) by (simp_all add: fstate_ok_def)
  have "bulklen (sdslen (f_cur st)) = int (length (bulk_bytes (sds_str (f_cur st))))"
    unfolding sdslen_str [OF t(2)] by (rule bulklen_bytes) (use assms(3) t(1) in simp)
  then show ?thesis
    using assms t(1) by (auto simp: push_arg_def fstate_ok_def cint)
qed

text \<open>Appending to the current argument, the middle of every round that does.\<close>

lemma take_new_append:
  assumes "fstate_ok st" "m = Inr (Some s)" "sds_ok s" "sds_str s = sds_str (f_cur st) @ x"
  shows "\<exists>st'. take_new st m p ap = Inr (Inr (st', p, ap)) \<and> fstate_ok st' \<and> f_touched st' \<and> sds_str (f_cur st') = sds_str (f_cur st) @ x \<and>
    f_argv st' = f_argv st \<and> f_totlen st' = f_totlen st"
  using assms by (auto simp: take_new_def fstate_ok_def)

lemma append_or_same:
  assumes "\<forall>k. can_alloc A k" "sds_ok s" "n \<le> length b" "int (length (sds_str s) + n) < sds_limit"
  shows "\<exists>s'. (if int n > 0 then sdscatlen A s b (int n) else Inr (Some s)) = Inr (Some s') \<and> sds_ok s' \<and> sds_str s' = sds_str s @ take n b"
  using sdscatlen_total [OF assms] assms(2) by auto

lemma format_loop_step:
  assumes "pre @ c # rest = fmt" "c \<noteq> NUL" "format_step A pf fmt (int (length pre)) c st ap = Inr (Inr (st', p', ap'))"
  shows "format_loop A pf fmt (int (length pre)) st ap = format_loop A pf fmt p' st' ap'"
  using rd_at [OF refl, of 0 "c # rest" pre] assms by (subst format_loop.simps) auto

definition runs_to :: "allocator \<Rightarrow> (bytes \<Rightarrow> va \<Rightarrow> bytes) \<Rightarrow> bytes \<Rightarrow> int \<Rightarrow> fstate \<Rightarrow> va list \<Rightarrow> bytes list \<Rightarrow> bool" where
  "runs_to A pf fmt p st ap texts \<longleftrightarrow> (\<exists>st1 st2. format_loop A pf fmt p st ap = Inr (Inr st1) \<and> finish A st1 = Inr st2 \<and> fstate_ok st2 \<and>
     map sds_str (f_argv st2) = texts)"

lemma format_loop_words:
  assumes A: "\<forall>k. can_alloc A k"
  shows "expand f ap cur t = Some args \<Longrightarrow> NUL \<notin> set f \<Longrightarrow> fstate_ok st \<Longrightarrow> sds_str (f_cur st) = cur \<Longrightarrow> f_touched st = t \<Longrightarrow> t \<or> cur = [] \<Longrightarrow>
    f_totlen st + int (length (concat (map bulk_bytes args))) < sds_limit \<Longrightarrow>
    runs_to A pf (pre @ f @ [NUL]) (int (length pre)) st ap (map sds_str (f_argv st) @ args)"
proof (induction f ap cur t arbitrary: args st pre rule: expand.induct)
  case (1 ap cur t)
  have l: "format_loop A pf (pre @ [] @ [NUL]) (int (length pre)) st ap = Inr (Inr st)"
    using rd_at [OF refl, of 0 "[NUL]" pre] by (subst format_loop.simps) simp
  show ?case
  proof (cases t)
    case True
    then show ?thesis using push_arg_ok [OF A "1.prems"(3)] "1.prems" l by (auto simp: runs_to_def finish_def)
  next
    case False
    then show ?thesis using "1.prems" l by (auto simp: runs_to_def finish_def)
  qed
next
  case (2 c cs ap cur t)
  let ?fmt = "pre @ (c # cs) @ [NUL]"
  have c: "c \<noteq> NUL" "NUL \<notin> set cs" using "2.prems"(2) by auto
  have ok: "sds_ok (f_cur st)" using "2.prems"(3) by (simp add: fstate_ok_def)
  have tot0: "0 \<le> f_totlen st" using "2.prems"(3) by (simp add: fstate_ok_def)
  have lim: "int (length (concat args)) < sds_limit" using "2.prems"(7) bulks_ge [of args] tot0 by simp
  have rd1: "rd ?fmt (int (length pre) + 1) = Inr (if cs = [] then NUL else hd cs)"
    using rd_at [OF refl, of 1 "c # cs @ [NUL]" pre] by (cases cs) auto
  note go = format_loop_step [OF _ c(1), of pre "cs @ [NUL]" ?fmt A pf st ap]
  show ?case
  proof (cases "c = CHR '' ''")
    case sp: True
    show ?thesis
    proof (cases t)
      case False
      have "format_step A pf ?fmt (int (length pre)) c st ap = Inr (Inr (st, int (length (pre @ [c])), ap))"
        using sp False "2.prems"(5) by (simp add: format_step_def)
      then show ?thesis using go "2.IH"(2) [OF sp False, of args st "pre @ [c]"] "2.prems" sp False c(2) by (simp add: runs_to_def)
    next
      case True
      then obtain args' where a: "expand cs ap [] False = Some args'" "args = cur # args'" using "2.prems"(1) sp by auto
      obtain st1 where st1: "push_arg A st = Inr st1" "fstate_ok st1" "map sds_str (f_argv st1) = map sds_str (f_argv st) @ [cur]"
          "f_totlen st1 = f_totlen st + int (length (bulk_bytes cur))"
        using push_arg_ok [OF A "2.prems"(3)] "2.prems"(4,7) a(2) by auto
      define st2 where "st2 = st1\<lparr>f_cur := sds_of [], f_touched := False\<rparr>"
      have "sdsempty A = Inr (Some (sds_of []))" using A by (simp add: sdsempty_spec sds_of_def)
      then have "format_step A pf ?fmt (int (length pre)) c st ap = Inr (Inr (st2, int (length (pre @ [c])), ap))"
        using sp True "2.prems"(5) st1(1) by (simp add: format_step_def st2_def)
      moreover have "runs_to A pf ((pre @ [c]) @ cs @ [NUL]) (int (length (pre @ [c]))) st2 ap (map sds_str (f_argv st2) @ args')"
        by (rule "2.IH"(1) [OF sp True a(1) c(2)])
          (use st1 a(2) "2.prems"(7) sds_of [of "[]"] in \<open>auto simp: st2_def fstate_ok_def\<close>)
      ultimately show ?thesis using go st1(3) a(2) by (simp add: runs_to_def st2_def)
    qed
  next
    case nsp: False
    show ?thesis
    proof (cases "c \<noteq> CHR ''%'' \<or> cs = []")
      case lit: True
      then have e: "expand cs ap (cur @ [c]) True = Some args" using "2.prems"(1) nsp by simp
      then have "length (cur @ [c]) \<le> length (concat args)" using expand_cur by blast
      then obtain s' where s': "sdscatlen A (f_cur st) [c] (int 1) = Inr (Some s')" "sds_ok s'" "sds_str s' = sds_str (f_cur st) @ [c]"
        using sdscatlen_total [OF A ok, of 1 "[c]"] lim "2.prems"(4) by auto
      obtain st' where st': "take_new st (sdscatlen A (f_cur st) [c] 1) (int (length pre) + 1) ap = Inr (Inr (st', int (length pre) + 1, ap))"
          "fstate_ok st'" "f_touched st'" "sds_str (f_cur st') = cur @ [c]" "f_argv st' = f_argv st" "f_totlen st' = f_totlen st"
        using take_new_append [OF "2.prems"(3) s'(1-3), of "int (length pre) + 1" ap] "2.prems"(4) by auto
      have "format_step A pf ?fmt (int (length pre)) c st ap = Inr (Inr (st', int (length pre) + 1, ap))"
        using st'(1) nsp lit rd1 by (auto simp: format_step_def)
      moreover have "runs_to A pf ((pre @ [c]) @ cs @ [NUL]) (int (length (pre @ [c]))) st' ap (map sds_str (f_argv st') @ args)"
        by (rule "2.IH"(3) [OF nsp lit e c(2)]) (use st' "2.prems"(7) in auto)
      ultimately show ?thesis using go st'(5) by (simp add: runs_to_def add.commute)
    next
      case conv: False
      then obtain d ds where cs: "cs = d # ds" "c = CHR ''%''" by (cases cs) auto
      have pos: "int (length (pre @ [c, d])) = int (length pre) + 2" by simp
      have d: "d \<noteq> NUL" "NUL \<notin> set ds" using c(2) cs by auto
      have fs: "format_step A pf ?fmt (int (length pre)) c st ap = format_conv A pf ?fmt (int (length pre)) d st ap"
        using cs d(1) rd1 by (simp add: format_step_def)
      have step: ?thesis
        if m: "format_conv A pf ?fmt (int (length pre)) d st ap = take_new st m (int (length pre) + 2) ap'"
          and s: "m = Inr (Some s')" "sds_ok s'" "sds_str s' = sds_str (f_cur st) @ x"
          and ih: "\<And>st'. fstate_ok st' \<Longrightarrow> sds_str (f_cur st') = cur @ x \<Longrightarrow> f_touched st' \<Longrightarrow> f_totlen st' = f_totlen st \<Longrightarrow>
            runs_to A pf ((pre @ [c, d]) @ ds @ [NUL]) (int (length (pre @ [c, d]))) st' ap' (map sds_str (f_argv st') @ args)" for m s' x ap'
      proof -
        obtain st' where st': "take_new st m (int (length pre) + 2) ap' = Inr (Inr (st', int (length pre) + 2, ap'))"
            "fstate_ok st'" "f_touched st'" "sds_str (f_cur st') = cur @ x" "f_argv st' = f_argv st" "f_totlen st' = f_totlen st"
          using take_new_append [OF "2.prems"(3) s, of "int (length pre) + 2" ap'] "2.prems"(4) by auto
        then show ?thesis
          using go fs m ih [OF st'(2,4,3,6)] cs st'(5) by (simp add: runs_to_def add.commute)
      qed
      consider (s) "d = CHR ''s''" | (b) "d = CHR ''b''" | (p) "d = CHR ''%''"
        using "2.prems"(1) nsp conv cs by (auto split: if_splits)
      then show ?thesis
      proof cases
        case s
        then obtain b ap' where ap: "ap = VPtr b # ap'" "NUL \<in> set b" and e: "expand ds ap' (cur @ takeWhile ((\<noteq>) NUL) b) True = Some args"
          using "2.prems"(1) cs by (auto split: list.splits va.splits if_splits)
        let ?n = "length (takeWhile ((\<noteq>) NUL) b)"
        have n: "?n \<le> length b" "take ?n b = takeWhile ((\<noteq>) NUL) b" by (simp_all add: length_takeWhile_le takeWhile_eq_take [symmetric])
        obtain s' where s': "(if int ?n > 0 then sdscatlen A (f_cur st) b (int ?n) else Inr (Some (f_cur st))) = Inr (Some s')"
            "sds_ok s'" "sds_str s' = sds_str (f_cur st) @ takeWhile ((\<noteq>) NUL) b"
          using append_or_same [OF A ok n(1)] expand_cur [OF e] lim "2.prems"(4) n(2) by auto
        show ?thesis
        proof (rule step [OF _ s'])
          show "format_conv A pf ?fmt (int (length pre)) d st ap =
              take_new st (if int ?n > 0 then sdscatlen A (f_cur st) b (int ?n) else Inr (Some (f_cur st))) (int (length pre) + 2) ap'"
            using s ap by (simp add: format_conv_def strlen_takeWhile)
        qed (rule "2.IH"(4) [of "VPtr b" ap' b, simplified cs list.sel]; use nsp conv cs s ap e d "2.prems"(7) in auto)
      next
        case b
        then obtain x k ap' where ap: "ap = VPtr x # VSize (int k) # ap'" "k \<le> length x" and e: "expand ds ap' (cur @ take k x) True = Some args"
          using "2.prems"(1) cs by (auto split: list.splits va.splits if_splits dest!: zero_le_imp_eq_int)
        obtain s' where s': "(if int k > 0 then sdscatlen A (f_cur st) x (int k) else Inr (Some (f_cur st))) = Inr (Some s')"
            "sds_ok s'" "sds_str s' = sds_str (f_cur st) @ take k x"
          using append_or_same [OF A ok ap(2)] expand_cur [OF e] lim "2.prems"(4) ap(2) by auto
        show ?thesis
        proof (rule step [OF _ s'])
          show "format_conv A pf ?fmt (int (length pre)) d st ap =
              take_new st (if int k > 0 then sdscatlen A (f_cur st) x (int k) else Inr (Some (f_cur st))) (int (length pre) + 2) ap'"
            using b ap by (simp add: format_conv_def)
        qed (rule "2.IH"(5) [of "VPtr x" "VSize (int k) # ap'" x "VSize (int k)" ap' "int k", simplified cs list.sel nat_int]; use nsp conv cs b ap e d "2.prems"(7) in auto)
      next
        case p
        then have e: "expand ds ap (cur @ ''%'') True = Some args" using "2.prems"(1) cs by simp
        obtain s' where s': "sdscat A (f_cur st) [CHR ''%'', NUL] = Inr (Some s')" "sds_ok s'" "sds_str s' = sds_str (f_cur st) @ ''%''"
          using sdscat_total [OF A ok, of "''%''" "[]"] expand_cur [OF e] lim "2.prems"(4) by auto
        show ?thesis
        proof (rule step [OF _ s'])
          show "format_conv A pf ?fmt (int (length pre)) d st ap = take_new st (sdscat A (f_cur st) [CHR ''%'', NUL]) (int (length pre) + 2) ap"
            using p by (simp add: format_conv_def)
        qed (rule "2.IH"(6) [simplified cs list.sel]; use nsp conv cs p e d "2.prems"(7) in auto)
      qed
    qed
  qed
qed

section \<open>Literal text\<close>

text \<open>The loop over literal text. Every word it ends holds a byte at least, so the length of the command stays below
  16 bytes for each byte of the text.\<close>

definition room :: "fstate \<Rightarrow> nat \<Rightarrow> bool" where
  "room st n \<longleftrightarrow> (f_touched st \<longrightarrow> sds_str (f_cur st) \<noteq> []) \<and>
     f_totlen st + 16 * int (length (sds_str (f_cur st)) + n) < sds_limit"

lemma bulk_bytes_16: "t \<noteq> [] \<Longrightarrow> length t < 10 ^ 10 \<Longrightarrow> length (bulk_bytes t) \<le> 16 * length t"
  using length_decimal [of "length t" 9] by (cases t) (auto simp: bulk_bytes_def)

lemma format_loop_text:
  assumes A: "\<forall>k. can_alloc A k"
  shows "fstate_ok st \<Longrightarrow> room st (length lit) \<Longrightarrow> CHR ''%'' \<notin> set lit \<Longrightarrow> NUL \<notin> set lit \<Longrightarrow>
    \<exists>st'. fstate_ok st' \<and> format_loop A pf (pre @ lit @ rest) (int (length pre)) st ap =
      format_loop A pf (pre @ lit @ rest) (int (length (pre @ lit))) st' ap"
proof (induction lit arbitrary: st pre)
  case (Cons c cs)
  let ?fmt = "pre @ (c # cs) @ rest"
  have c: "c \<noteq> NUL" "c \<noteq> CHR ''%''" using Cons.prems(3,4) by auto
  have ok: "sds_ok (f_cur st)" "0 \<le> f_totlen st" using Cons.prems(1) by (simp_all add: fstate_ok_def)
  have lim: "f_totlen st + 16 * int (length (sds_str (f_cur st)) + Suc (length cs)) < sds_limit" using Cons.prems(2) by (simp add: room_def)
  have "\<exists>st1. format_step A pf ?fmt (int (length pre)) c st ap = Inr (Inr (st1, int (length (pre @ [c])), ap)) \<and> fstate_ok st1 \<and> room st1 (length cs)"
  proof (cases "c = CHR '' ''")
    case sp: True
    show ?thesis
    proof (cases "f_touched st")
      case True
      have "int (length (bulk_bytes (sds_str (f_cur st)))) \<le> 16 * int (length (sds_str (f_cur st)))"
        using bulk_bytes_16 [of "sds_str (f_cur st)"] Cons.prems(2) True lim ok(2) by (simp add: room_def)
      then have b: "f_totlen st + int (length (bulk_bytes (sds_str (f_cur st)))) + 16 * int (length cs) < sds_limit" using lim by simp
      then obtain st1 where st1: "push_arg A st = Inr st1" "fstate_ok st1"
          "f_totlen st1 = f_totlen st + int (length (bulk_bytes (sds_str (f_cur st))))"
        using push_arg_ok [OF A Cons.prems(1)] by auto
      have "sdsempty A = Inr (Some (sds_of []))" using A by (simp add: sdsempty_spec sds_of_def)
      then show ?thesis using sp True st1 b sds_of [of "[]"]
        by (intro exI [of _ "st1\<lparr>f_cur := sds_of [], f_touched := False\<rparr>"]) (simp add: format_step_def fstate_ok_def room_def)
    next
      case False
      then show ?thesis using sp Cons.prems(1,2) by (intro exI [of _ st]) (simp add: format_step_def room_def)
    qed
  next
    case False
    obtain s' where s': "sdscatlen A (f_cur st) [c] (int 1) = Inr (Some s')" "sds_ok s'" "sds_str s' = sds_str (f_cur st) @ [c]"
      using sdscatlen_total [OF A ok(1), of 1 "[c]"] lim ok(2) by auto
    obtain st' where st': "take_new st (sdscatlen A (f_cur st) [c] 1) (int (length pre) + 1) ap = Inr (Inr (st', int (length pre) + 1, ap))"
        "fstate_ok st'" "sds_str (f_cur st') = sds_str (f_cur st) @ [c]" "f_totlen st' = f_totlen st"
      using take_new_append [OF Cons.prems(1) s'(1-3), of "int (length pre) + 1" ap] by auto
    then show ?thesis using False c(2) lim by (intro exI [of _ st']) (simp add: format_step_def room_def algebra_simps)
  qed
  then obtain st1 where st1: "format_step A pf ?fmt (int (length pre)) c st ap = Inr (Inr (st1, int (length (pre @ [c])), ap))"
      "fstate_ok st1" "room st1 (length cs)" by blast
  have "format_loop A pf ?fmt (int (length pre)) st ap = format_loop A pf ?fmt (int (length (pre @ [c]))) st1 ap"
    by (rule format_loop_step [OF _ c(1) st1(1)]) simp
  then show ?case using Cons.IH [OF st1(2,3), of "pre @ [c]"] Cons.prems(3,4) by simp
qed auto

section \<open>The command\<close>

lemma redisvFormatCommand_bytes:
  assumes A: "\<forall>k. can_alloc A k" and f: "expand f ap [] False = Some args" "NUL \<notin> set f"
    and lim: "int (length (command_bytes args)) < sds_limit"
  shows "redisvFormatCommand A pf True (f @ [NUL]) ap = Inr (int (length (command_bytes args)), Some (command_bytes args @ [NUL]))"
proof -
  let ?st = "\<lparr>f_cur = sds_of [], f_touched = False, f_argv = [], f_totlen = 0\<rparr>"
  have e: "sdsempty A = Inr (Some (sds_of []))" using A by (simp add: sdsempty_spec sds_of_def)
  have "runs_to A pf ([] @ f @ [NUL]) (int (length ([] :: bytes))) ?st ap (map sds_str (f_argv ?st) @ args)"
    by (rule format_loop_words [OF A f]) (use lim sds_of [of "[]"] in \<open>auto simp: fstate_ok_def command_bytes_def\<close>)
  then obtain st1 st2 where st: "format_loop A pf (f @ [NUL]) 0 ?st ap = Inr (Inr st1)" "finish A st1 = Inr st2" "fstate_ok st2"
      "map sds_str (f_argv st2) = args"
    by (auto simp: runs_to_def)
  let ?args = "map (\<lambda>a. (sh_buf a, sdslen a)) (f_argv st2)"
  have ok: "\<forall>a\<in>set (f_argv st2). sds_ok a" using st(3) by (simp add: fstate_ok_def)
  then have aok: "args_ok ?args" using sds_str_le_buf sdslen_str by (fastforce simp: args_ok_def)
  have "map arg_bytes ?args = map sds_str (f_argv st2)"
    using ok sds_str_le_buf sdslen_str by (auto simp: arg_bytes_def)
  then have ab: "map arg_bytes ?args = args" using st(4) by simp
  have la: "length (f_argv st2) = length args" using st(4) by auto
  have tot: "f_totlen st2 + (1 + countDigits (int (length args)) + 2) = int (length (command_bytes args))"
    using st(3,4) by (auto simp: fstate_ok_def command_bytes_def countDigits_decimal)
  have "int32 (int (length (command_bytes args))) = int (length (command_bytes args))" using lim by (simp add: cint)
  moreover have "build_command A (int (length (command_bytes args))) (int (length args)) ?args = Inr (Some (command_bytes args @ [NUL]))"
    using build_command_bytes [OF aok, of "int (length args)" "int (length (command_bytes args))" A] ab la lim A by simp
  ultimately show ?thesis
    using e st(1,2) tot la by (simp add: redisvFormatCommand_def finish_def Let_def)
qed

end
