(* ===== verification/ReaderProof.thy ===== *)
theory ReaderProof
  imports Resp
begin

text \<open>
  The iterative parser implements the recursive description of a reply's objects. The locale
  \<open>reply_functions\<close> is the interface between the reader and the functions that create reply
  objects: what they do depends only on the type, the place (the parent object and the index
  in it) and the value. Inside it, parsing the encoding of a reply is shown to perform exactly
  the creations of \<open>build\<close>, in order, and to leave the cursor behind the reply.
\<close>

section \<open>The objects of a reply\<close>

type_synonym place = "(nat \<times> int) option"

record 'h builders =
  mkS :: "int \<Rightarrow> place \<Rightarrow> bytes \<Rightarrow> 'h \<Rightarrow> (nat \<times> 'h) res"
  mkA :: "place \<Rightarrow> int \<Rightarrow> 'h \<Rightarrow> (nat \<times> 'h) res"
  mkI :: "place \<Rightarrow> int \<Rightarrow> 'h \<Rightarrow> (nat \<times> 'h) res"
  mkN :: "place \<Rightarrow> 'h \<Rightarrow> (nat \<times> 'h) res"

text \<open>A creation that did not run out of memory.\<close>

definition created :: "(nat \<times> 'h) res \<Rightarrow> (nat \<times> 'h) res" where
  "created m = bindR m (\<lambda>(obj, h). if obj = 0 then Inl AssertFailed else Inr (obj, h))"

lemma created_Inr: "created m = Inr (obj, h) \<longleftrightarrow> m = Inr (obj, h) \<and> obj \<noteq> 0"
  by (cases m) (auto simp: created_def split: if_splits)

fun build :: "'h builders \<Rightarrow> place \<Rightarrow> reply \<Rightarrow> 'h \<Rightarrow> (nat \<times> 'h) res"
  and build_list :: "'h builders \<Rightarrow> nat \<Rightarrow> int \<Rightarrow> reply list \<Rightarrow> 'h \<Rightarrow> 'h res" where
  "build B pl (Status s) h = created (mkS B REDIS_REPLY_STATUS pl s h)"
| "build B pl (Error s) h = created (mkS B REDIS_REPLY_ERROR pl s h)"
| "build B pl (Integer i) h = created (mkI B pl i h)"
| "build B pl (Bulk b) h = created (mkS B REDIS_REPLY_STRING pl b h)"
| "build B pl Nil h = created (mkN B pl h)"
| "build B pl (Array rs) h =
     bindR (created (mkA B pl (int (length rs)) h)) (\<lambda>(obj, h).
     bindR (build_list B obj 0 rs h) (\<lambda>h. Inr (obj, h)))"
| "build_list B obj i [] h = Inr h"
| "build_list B obj i (r # rs) h =
     bindR (build B (Some (obj, i)) r h) (\<lambda>(_, h). build_list B obj (i + 1) rs h)"

definition place_of :: "redisReadTask \<Rightarrow> redisReadTask option \<Rightarrow> place" where
  "place_of cur parent = map_option (\<lambda>p. (rt_obj p, rt_idx cur)) parent"

section \<open>The state of a parser at an item\<close>

definition stack_ok :: "'h redisReader \<Rightarrow> nat \<Rightarrow> bool" where
  "stack_ok r d \<longleftrightarrow> length (r_stack r) = 9 \<and> d < 9 \<and> r_ridx r = int d \<and> rt_parent (r_stack r ! 0) = None \<and>
     (\<forall>i<d. rt_type (r_stack r ! i) = REDIS_REPLY_ARRAY \<and> rt_parent (r_stack r ! Suc i) = Some i \<and>
        0 \<le> rt_idx (r_stack r ! Suc i) \<and> rt_idx (r_stack r ! Suc i) < rt_elements (r_stack r ! i) \<and>
        rt_elements (r_stack r ! i) < 2 ^ 31)"

definition place_at :: "'h redisReader \<Rightarrow> nat \<Rightarrow> place" where
  "place_at r d = (if d = 0 then None else Some (rt_obj (r_stack r ! (d - 1)), rt_idx (r_stack r ! d)))"

text \<open>The bytes from the cursor on, all of them received.\<close>

definition input_at :: "'h redisReader \<Rightarrow> bytes \<Rightarrow> bool" where
  "input_at r bs \<longleftrightarrow> (\<exists>s pre rest. r_buf r = Some s \<and> sh_buf s = pre @ bs @ rest \<and> r_pos r = int (length pre) \<and>
     r_pos r + int (length bs) \<le> r_len r \<and> r_len r < 2 ^ 31)"

text \<open>What the parser leaves of the stack at the end of an item of depth \<open>d\<close>.\<close>

definition item_over :: "'h redisReader \<Rightarrow> 'h redisReader \<Rightarrow> nat \<Rightarrow> nat \<Rightarrow> bool" where
  "item_over r r1 d n \<longleftrightarrow> same_input r r1 \<and> r_pos r1 = r_pos r + int n \<and> stack_ok r1 d \<and>
     take d (r_stack r1) = take d (r_stack r) \<and> rt_idx (r_stack r1 ! d) = rt_idx (r_stack r ! d) \<and>
     (d \<noteq> 0 \<longrightarrow> r_reply r1 = r_reply r)"

lemma input_at_skip:
  assumes "input_at r (xs @ ys)" "r_buf r1 = r_buf r" "r_len r1 = r_len r" "r_pos r1 = r_pos r + int (length xs)"
  shows "input_at r1 ys"
proof -
  obtain s pre rest where "r_buf r = Some s" "sh_buf s = pre @ (xs @ ys) @ rest" "r_pos r = int (length pre)"
      "r_pos r + int (length (xs @ ys)) \<le> r_len r" "r_len r < 2 ^ 31"
    using assms(1) by (auto simp: input_at_def)
  then show ?thesis
    unfolding input_at_def using assms(2-4)
    by (intro exI [of _ s] exI [of _ "pre @ xs"] exI [of _ rest]) auto
qed

lemma input_at_take: "input_at r (xs @ ys) \<Longrightarrow> input_at r xs"
  by (fastforce simp: input_at_def)

lemma task_at: "stack_ok r d \<Longrightarrow> task r (int d) = Inr (r_stack r ! d)"
  by (simp add: task_def stack_ok_def)

lemma parent_at: "stack_ok r d \<Longrightarrow> parent_of r (r_stack r ! d) = Inr (if d = 0 then None else Some (r_stack r ! (d - 1)))"
  by (cases d) (auto simp: parent_of_def task_def stack_ok_def)

lemma place_of_at: "place_of (r_stack r ! d) (if d = 0 then None else Some (r_stack r ! (d - 1))) = place_at r d"
  by (simp add: place_of_def place_at_def)

text \<open>Reading the type byte.\<close>

definition typed :: "'h redisReader \<Rightarrow> nat \<Rightarrow> int \<Rightarrow> 'h redisReader" where
  "typed r d ty = r\<lparr>r_pos := r_pos r + 1, r_stack := (r_stack r)[d := (r_stack r ! d)\<lparr>rt_type := ty\<rparr>]\<rparr>"

lemma typed_ok:
  assumes "stack_ok r d"
  shows "stack_ok (typed r d ty) d" "place_at (typed r d ty) d = place_at r d" "r_stack (typed r d ty) ! d = (r_stack r ! d)\<lparr>rt_type := ty\<rparr>"
    "r_ridx (typed r d ty) = int d" "same_input r (typed r d ty)" "take d (r_stack (typed r d ty)) = take d (r_stack r)"
  using assms by (auto simp: stack_ok_def typed_def place_at_def same_input_def nth_list_update)

lemma type_bytes: "type_of_byte CHR ''$'' = Some 1" "type_of_byte CHR ''*'' = Some 2"
  by (simp_all add: type_of_byte_def)

lemma processItem_typed:
  assumes "stack_ok r d" "rt_type (r_stack r ! d) = - 1" "input_at r (c # bs)" "type_of_byte c = Some ty"
  shows "processItem (r, h) = process_typed (typed r d ty, h)" "input_at (typed r d ty) bs"
proof -
  obtain s pre rest where s: "r_buf r = Some s" "sh_buf s = pre @ (c # bs) @ rest" "r_pos r = int (length pre)"
      "r_pos r + int (length (c # bs)) \<le> r_len r" "r_len r < 2 ^ 31"
    using assms(3) by (auto simp: input_at_def)
  have "uint64 (r_len r - r_pos r) \<ge> 1" using s(3-5) by (simp add: cint)
  then have rb: "readBytes r 1 = (Some (r_pos r), r\<lparr>r_pos := r_pos r + 1\<rparr>)" by (simp add: readBytes_def)
  have "rd (sh_buf s) (r_pos r) = Inr c" using s(2,3) rd_at [of "r_pos r" pre 0 "(c # bs) @ rest"] by simp
  moreover have "r_ridx r = int d" "length (r_stack r) = 9" "d < 9" using assms(1) by (auto simp: stack_ok_def)
  ultimately show "processItem (r, h) = process_typed (typed r d ty, h)"
    using assms(2,4) rb s(1) by (simp add: processItem_def task_def rbuf_def set_task_def typed_def)
  show "input_at (typed r d ty) bs"
    by (rule input_at_skip [of r "[c]"]) (use assms(3) in \<open>auto simp: typed_def\<close>)
qed

lemma readLine_at:
  assumes "input_at r (line @ CRLF)" "CR \<notin> set line"
  shows "readLine r = Inr (Some (r_pos r, int (length line)), r\<lparr>r_pos := r_pos r + int (length line) + 2\<rparr>)"
proof -
  obtain s pre rest where s: "r_buf r = Some s" "sh_buf s = pre @ (line @ CRLF) @ rest" "r_pos r = int (length pre)"
      "r_pos r + int (length (line @ CRLF)) \<le> r_len r" "r_len r < 2 ^ 31"
    using assms(1) by (auto simp: input_at_def)
  have "uint64 (r_len r - r_pos r) = r_len r - r_pos r" using s(3-5) by (simp add: cint)
  moreover have "seekNewline (sh_buf s) (r_pos r) (r_len r - r_pos r) = Inr (Some (int (length line)))"
    using seekNewline_line [OF s(3) assms(2), of "r_len r - r_pos r" rest] s by simp
  ultimately show ?thesis
    using s by (simp add: readLine_def rbuf_def cint Let_def)
qed

lemma readLongLong_at:
  assumes "input_at r (decimal_int v @ CRLF)" "- (2 ^ 63) < v" "v < 2 ^ 63"
  shows "\<exists>b. rbuf r = Inr b \<and> readLongLong b (r_pos r) = Inr v"
proof -
  obtain s pre rest where s: "r_buf r = Some s" "sh_buf s = pre @ (decimal_int v @ CRLF) @ rest" "r_pos r = int (length pre)"
    using assms(1) by (auto simp: input_at_def)
  then show ?thesis
    using readLongLong_line [OF s(3) assms(2,3), of "LF # rest"] by (simp add: rbuf_def)
qed

lemma process_loop_step:
  assumes "r_ridx r \<ge> 0" "processItem (r, h) = bindR m (\<lambda>r2. Inr (REDIS_OK, r2, h'))"
  shows "process_loop (r, h) = bindR m (\<lambda>r2. process_loop (r2, h'))"
  using assms by (subst process_loop.simps) (cases m; simp)

lemma item_done_at:
  assumes "stack_ok r d" "obj \<noteq> 0"
  shows "item_done r obj h = bindR (moveToNextTask (if d = 0 then r\<lparr>r_reply := obj\<rparr> else r)) (\<lambda>r2. Inr (REDIS_OK, r2, h))"
  using assms by (simp add: item_done_def stack_ok_def)

section \<open>Moving through the elements of an array\<close>

lemma nat_Suc_int: "nat (1 + int d) = Suc d"
  by simp

lemma next_sibling:
  assumes "stack_ok r (Suc d)" "rt_idx (r_stack r ! Suc d) + 1 < rt_elements (r_stack r ! d)"
  shows "moveToNextTask r = Inr (r\<lparr>r_stack := (r_stack r)[Suc d := (r_stack r ! Suc d)
     \<lparr>rt_type := - 1, rt_elements := - 1, rt_idx := rt_idx (r_stack r ! Suc d) + 1\<rparr>]\<rparr>)"
proof -
  have t: "task r (r_ridx r) = Inr (r_stack r ! Suc d)" "task r (r_ridx r - 1) = Inr (r_stack r ! d)"
    and b: "rt_type (r_stack r ! d) = REDIS_REPLY_ARRAY" "0 \<le> rt_idx (r_stack r ! Suc d)" "rt_elements (r_stack r ! d) < 2 ^ 31"
      "r_ridx r = int (Suc d)" "length (r_stack r) = 9" "Suc d < 9"
    using assms(1) by (auto simp: stack_ok_def task_def nat_Suc_int)
  show ?thesis
    using t b assms(2) by (subst moveToNextTask.simps) (simp add: ck32_def set_task_def nat_Suc_int)
qed

lemma last_sibling:
  assumes "stack_ok r (Suc d)" "rt_idx (r_stack r ! Suc d) + 1 = rt_elements (r_stack r ! d)"
  shows "moveToNextTask r = moveToNextTask (r\<lparr>r_ridx := int d\<rparr>)" "stack_ok (r\<lparr>r_ridx := int d\<rparr>) d"
proof -
  have t: "task r (r_ridx r) = Inr (r_stack r ! Suc d)" "task r (r_ridx r - 1) = Inr (r_stack r ! d)"
    and b: "rt_type (r_stack r ! d) = REDIS_REPLY_ARRAY" "0 \<le> rt_idx (r_stack r ! Suc d)" "rt_elements (r_stack r ! d) < 2 ^ 31"
      "r_ridx r = int (Suc d)"
    using assms(1) by (auto simp: stack_ok_def task_def nat_Suc_int)
  show "moveToNextTask r = moveToNextTask (r\<lparr>r_ridx := int d\<rparr>)"
    using t b assms(2) by (subst moveToNextTask.simps) (simp add: ck32_def)
  show "stack_ok (r\<lparr>r_ridx := int d\<rparr>) d" using assms(1) by (auto simp: stack_ok_def)
qed

text \<open>A length line and what it announces.\<close>

lemma length_line_at:
  assumes "input_at r (decimal_int v @ CRLF @ body)" "- (2 ^ 63) < v" "v < 2 ^ 63"
  shows "\<exists>b rest. rbuf r = Inr b \<and> readLongLong b (r_pos r) = Inr v \<and>
    seekNewline b (r_pos r) (uint64 (r_len r - r_pos r)) = Inr (Some (int (length (decimal_int v)))) \<and>
    drop (nat (r_pos r + int (length (decimal_int v)) + 2)) b = body @ rest \<and>
    0 \<le> r_pos r \<and> r_pos r + int (length (decimal_int v)) + 2 + int (length body) \<le> r_len r \<and> r_len r < 2 ^ 31"
proof -
  let ?l = "decimal_int v"
  obtain s pre rest where s: "r_buf r = Some s" "sh_buf s = pre @ (?l @ CRLF @ body) @ rest" "r_pos r = int (length pre)"
      "r_pos r + int (length (?l @ CRLF @ body)) \<le> r_len r" "r_len r < 2 ^ 31"
    using assms(1) by (auto simp: input_at_def)
  have "uint64 (r_len r - r_pos r) = r_len r - r_pos r" using s(3-5) by (simp add: cint)
  moreover have "seekNewline (sh_buf s) (r_pos r) (r_len r - r_pos r) = Inr (Some (int (length ?l)))"
    using seekNewline_line [OF s(3), of ?l "r_len r - r_pos r" "body @ rest"] decimal_int_no_ctrl [of v] s by simp
  moreover have "readLongLong (sh_buf s) (r_pos r) = Inr v"
    using readLongLong_line [OF s(3) assms(2,3), of "LF # body @ rest"] s(2) by simp
  ultimately show ?thesis
    using s by (intro exI [of _ "sh_buf s"] exI [of _ rest]) (simp add: rbuf_def nat_add_distrib)
qed

section \<open>The parser and the object functions\<close>

locale reply_functions =
  fixes fns :: "'h redisReplyObjectFunctions" and B :: "'h builders"
  assumes string_fn: "\<exists>f. createString fns = Some f \<and> (\<forall>cur parent b n h.
        rt_type cur \<in> {REDIS_REPLY_STRING, REDIS_REPLY_STATUS, REDIS_REPLY_ERROR} \<longrightarrow> n \<le> length b \<longrightarrow>
        f cur parent b (int n) h = mkS B (rt_type cur) (place_of cur parent) (take n b) h)"
    and array_fn: "\<exists>f. createArray fns = Some f \<and> (\<forall>cur parent n h. f cur parent n h = mkA B (place_of cur parent) n h)"
    and integer_fn: "\<exists>f. createInteger fns = Some f \<and> (\<forall>cur parent v h. f cur parent v h = mkI B (place_of cur parent) v h)"
    and nil_fn: "\<exists>f. createNil fns = Some f \<and> (\<forall>cur parent h. f cur parent h = mkN B (place_of cur parent) h)"
begin

text \<open>The property that is proved for every reply, by induction on it.\<close>

definition parses :: "reply \<Rightarrow> bool" where
  "parses rep \<longleftrightarrow> (\<forall>r d h obj h'. stack_ok r d \<longrightarrow> rt_type (r_stack r ! d) = - 1 \<longrightarrow> r_fn r = Some fns \<longrightarrow>
     input_at r (encode rep) \<longrightarrow> wf_at d rep \<longrightarrow> build B (place_at r d) rep h = Inr (obj, h') \<longrightarrow>
     (\<exists>r1. process_loop (r, h) = bindR (moveToNextTask (if d = 0 then r1\<lparr>r_reply := obj\<rparr> else r1)) (\<lambda>r2. process_loop (r2, h')) \<and>
        item_over r r1 d (length (encode rep))))"

lemma parsesD:
  assumes "parses rep" "stack_ok r d" "rt_type (r_stack r ! d) = - 1" "r_fn r = Some fns"
    "input_at r (encode rep)" "wf_at d rep" "build B (place_at r d) rep h = Inr (obj, h')"
  obtains r1 where "process_loop (r, h) = bindR (moveToNextTask (if d = 0 then r1\<lparr>r_reply := obj\<rparr> else r1)) (\<lambda>r2. process_loop (r2, h'))"
    "item_over r r1 d (length (encode rep))"
  using assms unfolding parses_def by blast

text \<open>A line that becomes an object: statuses, errors and integers.\<close>

lemma line_item:
  assumes r: "stack_ok r d" "rt_type (r_stack r ! d) = - 1" "r_fn r = Some fns"
    and inp: "input_at r (c # line @ CRLF)" "type_of_byte c = Some ty" "ty \<in> {3, 5, 6}" "CR \<notin> set line"
    and mk: "created (if ty = REDIS_REPLY_INTEGER then mkI B (place_at r d) v h else mkS B ty (place_at r d) line h) = Inr (obj, h')"
    and v: "ty = REDIS_REPLY_INTEGER \<Longrightarrow> line = decimal_int v \<and> - (2 ^ 63) < v \<and> v < 2 ^ 63"
  shows "\<exists>r1. process_loop (r, h) = bindR (moveToNextTask (if d = 0 then r1\<lparr>r_reply := obj\<rparr> else r1)) (\<lambda>r2. process_loop (r2, h')) \<and>
        item_over r r1 d (length (c # line @ CRLF))"
proof -
  let ?r = "typed r d ty" and ?cur = "(r_stack r ! d)\<lparr>rt_type := ty\<rparr>"
  let ?par = "if d = 0 then None else Some (r_stack ?r ! (d - 1))"
  define r1 where "r1 = ?r\<lparr>r_pos := r_pos ?r + int (length line) + 2\<rparr>"
  note t = typed_ok [OF r(1), of ty] and pt = processItem_typed [OF r(1,2) inp(1,2)]
  have obj: "obj \<noteq> 0" "(if ty = REDIS_REPLY_INTEGER then mkI B (place_at r d) v h else mkS B ty (place_at r d) line h) = Inr (obj, h')"
    using mk by (auto simp: created_Inr)
  have rl: "readLine ?r = Inr (Some (r_pos ?r, int (length line)), r1)"
    unfolding r1_def by (rule readLine_at [OF pt(2) inp(4)])
  have ok1: "stack_ok r1 d" using t(1) by (simp add: r1_def stack_ok_def)
  have cur: "task ?r (r_ridx ?r) = Inr ?cur" using task_at [OF t(1)] t(3,4) by simp
  have "r_stack r1 = r_stack ?r" by (simp add: r1_def)
  then have par: "parent_of r1 ?cur = Inr ?par" using parent_at [OF ok1] t(3) by simp
  have pl: "place_of ?cur ?par = place_at r d" using place_of_at [of ?r d] t(2,3) by simp
  obtain s pre rest where s: "r_buf ?r = Some s" "sh_buf s = pre @ (line @ CRLF) @ rest" "r_pos ?r = int (length pre)"
    using pt(2) by (auto simp: input_at_def)
  have b: "rbuf r1 = Inr (sh_buf s)" using s(1) by (simp add: rbuf_def r1_def)
  have make: "(if ty = REDIS_REPLY_INTEGER
        then case fn_of createInteger r1 of Some f \<Rightarrow> bindR (readLongLong (sh_buf s) (r_pos ?r)) (\<lambda>v. f ?cur ?par v h)
             | None \<Rightarrow> Inr (nat REDIS_REPLY_INTEGER, h)
        else case fn_of createString r1 of Some f \<Rightarrow> f ?cur ?par (drop (nat (r_pos ?r)) (sh_buf s)) (int (length line)) h
             | None \<Rightarrow> Inr (nat (rt_type ?cur), h)) = Inr (obj, h')"
  proof (cases "ty = REDIS_REPLY_INTEGER")
    case True
    have "input_at ?r (decimal_int v @ CRLF)" using pt(2) v [OF True] by simp
    from readLongLong_at [OF this] v [OF True] s(1) have "readLongLong (sh_buf s) (r_pos ?r) = Inr v"
      by (auto simp: rbuf_def)
    moreover obtain f where "createInteger fns = Some f" "f ?cur ?par v h = mkI B (place_at r d) v h"
      using integer_fn pl by auto
    ultimately show ?thesis using True obj(2) r(3) by (simp add: fn_of_def r1_def typed_def)
  next
    case False
    have "rt_type ?cur \<in> {REDIS_REPLY_STRING, REDIS_REPLY_STATUS, REDIS_REPLY_ERROR}" using inp(3) False by auto
    moreover have "drop (nat (r_pos ?r)) (sh_buf s) = line @ CRLF @ rest" using s by simp
    ultimately obtain f where "createString fns = Some f"
        "f ?cur ?par (drop (nat (r_pos ?r)) (sh_buf s)) (int (length line)) h = mkS B ty (place_at r d) line h"
      using string_fn pl by fastforce
    then show ?thesis using False obj(2) r(3) by (simp add: fn_of_def r1_def typed_def)
  qed
  have "process_typed (?r, h) = processLineItem (?r, h)"
    using cur inp(3) by (auto simp: process_typed_def)
  moreover have "processLineItem (?r, h) = item_done r1 obj h'"
    by (simp split del: if_split add: processLineItem_def cur rl b par make)
  ultimately have "processItem (r, h) = bindR (moveToNextTask (if d = 0 then r1\<lparr>r_reply := obj\<rparr> else r1)) (\<lambda>r2. Inr (REDIS_OK, r2, h'))"
    using pt(1) item_done_at [OF ok1 obj(1)] by simp
  then have "process_loop (r, h) = bindR (moveToNextTask (if d = 0 then r1\<lparr>r_reply := obj\<rparr> else r1)) (\<lambda>r2. process_loop (r2, h'))"
    using r(1) by (intro process_loop_step) (auto simp: stack_ok_def)
  moreover have "item_over r r1 d (length (c # line @ CRLF))"
    using t ok1 by (auto simp: item_over_def r1_def same_input_def typed_def)
  ultimately show ?thesis by blast
qed

lemma parses_line:
  "parses (Status s)" "parses (Error s)" "parses (Integer i)"
proof -
  show "parses (Status s)"
    unfolding parses_def using line_item [of _ _ "CHR ''+''" s 5] by (simp add: type_of_byte_def)
  show "parses (Error s)"
    unfolding parses_def using line_item [of _ _ "CHR ''-''" s 6] by (simp add: type_of_byte_def)
  show "parses (Integer i)"
    unfolding parses_def using line_item [of _ _ "CHR '':''" "decimal_int i" 3 i] by (simp add: type_of_byte_def decimal_int_no_ctrl)
qed

text \<open>A bulk string, and the null bulk string.\<close>

lemma bulk_item:
  assumes r: "stack_ok r d" "rt_type (r_stack r ! d) = - 1" "r_fn r = Some fns"
    and inp: "input_at r (CHR ''$'' # decimal_int v @ CRLF @ body)"
    and v: "(v = - 1 \<and> body = [] \<and> m = mkN B (place_at r d) h) \<or>
      (\<exists>b. v = int (length b) \<and> body = b @ CRLF \<and> m = mkS B REDIS_REPLY_STRING (place_at r d) b h)"
    and mk: "created m = Inr (obj, h')"
  shows "\<exists>r1. process_loop (r, h) = bindR (moveToNextTask (if d = 0 then r1\<lparr>r_reply := obj\<rparr> else r1)) (\<lambda>r2. process_loop (r2, h')) \<and>
        item_over r r1 d (length (CHR ''$'' # decimal_int v @ CRLF @ body))"
proof -
  let ?r = "typed r d 1" and ?cur = "(r_stack r ! d)\<lparr>rt_type := 1\<rparr>"
  let ?s = "int (length (decimal_int v))"
  define par where "par = (if d = 0 then None else Some (r_stack ?r ! (d - 1)))"
  define r1 where "r1 = ?r\<lparr>r_pos := r_pos ?r + (?s + 2 + int (length body))\<rparr>"
  note t = typed_ok [OF r(1), of 1] and pt = processItem_typed [OF r(1,2) inp type_bytes(1)]
  have obj: "obj \<noteq> 0" "m = Inr (obj, h')" using mk by (auto simp: created_Inr)
  have v63: "- (2 ^ 63) < v" "v < 2 ^ 63"
  proof -
    obtain s where "r_pos ?r + int (length (decimal_int v @ CRLF @ body)) \<le> r_len ?r" "r_len ?r < 2 ^ 31" "0 \<le> r_pos ?r"
      using pt(2) by (auto simp: input_at_def)
    then show "- (2 ^ 63) < v" "v < 2 ^ 63" using v by auto
  qed
  obtain b rest where b: "rbuf ?r = Inr b" "readLongLong b (r_pos ?r) = Inr v"
      "seekNewline b (r_pos ?r) (uint64 (r_len ?r - r_pos ?r)) = Inr (Some ?s)"
      "drop (nat (r_pos ?r + ?s + 2)) b = body @ rest"
      "0 \<le> r_pos ?r" "r_pos ?r + ?s + 2 + int (length body) \<le> r_len ?r" "r_len ?r < 2 ^ 31"
    using length_line_at [OF pt(2) v63] by blast
  have ok1: "stack_ok r1 d" using t(1) by (simp add: r1_def stack_ok_def)
  have cur: "task ?r (r_ridx ?r) = Inr ?cur" using task_at [OF t(1)] t(3,4) by simp
  have par: "parent_of ?r ?cur = Inr par" using parent_at [OF t(1)] t(3) by (simp add: par_def)
  have pl: "place_of ?cur par = place_at r d" using place_of_at [of ?r d] t(2,3) by (simp add: par_def)
  have fn: "r_fn ?r = Some fns" using r(3) by (simp add: typed_def)
  have "processBulkItem (?r, h) = item_done r1 obj h'"
  proof (cases "v = - 1")
    case True
    then have m: "body = []" "m = mkN B (place_at r d) h" using v by auto
    have "nil_object ?r ?cur h = Inr (obj, h')"
      using nil_fn fn par pl m obj by (auto simp: nil_object_def fn_of_def)
    moreover have "r1 = ?r\<lparr>r_pos := r_pos ?r + (?s + 2)\<rparr>" using m by (simp add: r1_def)
    ultimately show ?thesis using b(1-3) cur True obj(1) by (simp add: processBulkItem_def)
  next
    case False
    then obtain x where x: "v = int (length x)" "body = x @ CRLF" "m = mkS B REDIS_REPLY_STRING (place_at r d) x h"
      using v by auto
    obtain l2 k where l2: "ck64 (v + 2) = Inr l2" "uint64 (?s + 2 + l2) = k" "uint64 (r_pos ?r + k) \<le> r_len ?r"
        "r1 = ?r\<lparr>r_pos := r_pos ?r + k\<rparr>"
    proof (rule that [of "v + 2" "?s + 2 + int (length body)"])
      show "ck64 (v + 2) = Inr (v + 2)" "uint64 (?s + 2 + (v + 2)) = ?s + 2 + int (length body)"
        "uint64 (r_pos ?r + (?s + 2 + int (length body))) \<le> r_len ?r"
        using b(5-7) x(1,2) by (simp_all add: cint)
    qed (simp add: r1_def)
    obtain f where f: "createString fns = Some f" "f ?cur par (body @ rest) (int (length x)) h = mkS B REDIS_REPLY_STRING (place_at r d) x h"
      using string_fn pl x(2) by fastforce
    have fv: "f ?cur par (body @ rest) v h = Inr (obj, h')" "\<not> v < 0" using f(2) x(1,3) obj(2) by simp_all
    show ?thesis
      using obj(1)
      by (simp add: processBulkItem_def cur b(1-4) l2 par fn_of_def fn f(1) fv Let_def)
  qed
  moreover have "process_typed (?r, h) = processBulkItem (?r, h)" using cur by (simp add: process_typed_def)
  ultimately have "processItem (r, h) = bindR (moveToNextTask (if d = 0 then r1\<lparr>r_reply := obj\<rparr> else r1)) (\<lambda>r2. Inr (REDIS_OK, r2, h'))"
    using pt(1) item_done_at [OF ok1 obj(1)] by simp
  then have "process_loop (r, h) = bindR (moveToNextTask (if d = 0 then r1\<lparr>r_reply := obj\<rparr> else r1)) (\<lambda>r2. process_loop (r2, h'))"
    using r(1) by (intro process_loop_step) (auto simp: stack_ok_def)
  moreover have "item_over r r1 d (length (CHR ''$'' # decimal_int v @ CRLF @ body))"
    using t ok1 by (auto simp: item_over_def r1_def same_input_def typed_def)
  ultimately show ?thesis by blast
qed

lemma parses_bulk: "parses (Bulk b)" "parses Nil"
  unfolding parses_def
  using bulk_item [of _ _ "int (length b)" "b @ CRLF", simplified decimal_int_nat] bulk_item [of _ _ "- 1" "[]", simplified decimal_int_minus_1]
  by simp_all

text \<open>The elements of an array, of which the parser has reached the first of \<open>rs\<close>.\<close>

lemma item_over_trans:
  assumes "item_over r r1 (Suc d) n" "r_stack r2 = (r_stack r1)[Suc d := t]" "r_buf r2 = r_buf r1"
  shows "take (Suc d) (r_stack r2) = take (Suc d) (r_stack r)" "d < 8 \<Longrightarrow> r_stack r2 ! d = r_stack r ! d"
proof -
  have e: "take (Suc d) (r_stack r1) = take (Suc d) (r_stack r)" "length (r_stack r1) = length (r_stack r)" "length (r_stack r1) = 9"
    using assms(1) by (auto simp: item_over_def same_input_def stack_ok_def)
  then show "take (Suc d) (r_stack r2) = take (Suc d) (r_stack r)" using assms(2) by simp
  then show "d < 8 \<Longrightarrow> r_stack r2 ! d = r_stack r ! d"
    by (metis lessI nth_take)
qed

lemma parses_elements:
  assumes "\<forall>x\<in>set rs. parses x" "rs \<noteq> []" "stack_ok r (Suc d)" "rt_type (r_stack r ! Suc d) = - 1" "r_fn r = Some fns"
    "rt_idx (r_stack r ! Suc d) = k" "k + int (length rs) = rt_elements (r_stack r ! d)" "rt_obj (r_stack r ! d) = obj"
    "input_at r (concat (map encode rs))" "\<forall>x\<in>set rs. wf_at (Suc d) x" "build_list B obj k rs h = Inr h'"
  shows "\<exists>r1. process_loop (r, h) = bindR (moveToNextTask r1) (\<lambda>r2. process_loop (r2, h')) \<and> same_input r r1 \<and>
    r_pos r1 = r_pos r + int (length (concat (map encode rs))) \<and> stack_ok r1 d \<and>
    take (Suc d) (r_stack r1) = take (Suc d) (r_stack r) \<and> r_reply r1 = r_reply r"
  using assms
proof (induction rs arbitrary: r k h)
  case (Cons x rs)
  have pl: "place_at r (Suc d) = Some (obj, k)" using Cons.prems(6,8) by (simp add: place_at_def)
  then obtain o1 h1 where bx: "build B (place_at r (Suc d)) x h = Inr (o1, h1)" and brs: "build_list B obj (k + 1) rs h1 = Inr h'"
    using Cons.prems(11) by (auto simp: bindR_eq_Inr)
  have "input_at r (encode x)" using Cons.prems(9) input_at_take by simp
  then obtain r1 where r1: "process_loop (r, h) = bindR (moveToNextTask r1) (\<lambda>r2. process_loop (r2, h1))"
      "item_over r r1 (Suc d) (length (encode x))"
    using parsesD [of x r "Suc d" h o1 h1] Cons.prems bx by auto
  have o: "same_input r r1" "r_pos r1 = r_pos r + int (length (encode x))" "stack_ok r1 (Suc d)" "r_reply r1 = r_reply r"
      "rt_idx (r_stack r1 ! Suc d) = k" "length (r_stack r1) = 9" "d < 8"
    using r1(2) Cons.prems(6) by (auto simp: item_over_def stack_ok_def)
  note top = item_over_trans [OF r1(2)]
  have el: "r_stack r1 ! d = r_stack r ! d" using top(2) [of r1 "r_stack r1 ! Suc d"] o(6,7) by simp
  show ?case
  proof (cases "rs = []")
    case True
    then have "rt_idx (r_stack r1 ! Suc d) + 1 = rt_elements (r_stack r1 ! d)" using Cons.prems(7) o(5) el by simp
    from last_sibling [OF o(3) this]
    show ?thesis
      using True r1(1) brs o top(1) [of r1 "r_stack r1 ! Suc d"]
      by (intro exI [of _ "r1\<lparr>r_ridx := int d\<rparr>"]) (simp add: same_input_def)
  next
    case False
    then have lt: "rt_idx (r_stack r1 ! Suc d) + 1 < rt_elements (r_stack r1 ! d)"
      using Cons.prems(7) o(5) el by (cases rs) auto
    define t where "t = (r_stack r1 ! Suc d)\<lparr>rt_type := - 1, rt_elements := - 1, rt_idx := rt_idx (r_stack r1 ! Suc d) + 1\<rparr>"
    define r2 where "r2 = r1\<lparr>r_stack := (r_stack r1)[Suc d := t]\<rparr>"
    have mv: "moveToNextTask r1 = Inr r2" unfolding r2_def t_def by (rule next_sibling [OF o(3) lt])
    have r2: "r_buf r2 = r_buf r1" "r_pos r2 = r_pos r1" "r_fn r2 = r_fn r1" "r_reply r2 = r_reply r1" "same_input r1 r2"
        "r_stack r2 = (r_stack r1)[Suc d := t]" "r_len r2 = r_len r1"
      by (simp_all add: r2_def same_input_def)
    note top2 = top(1) [OF r2(6,1)] and el2 = top(2) [OF r2(6,1) o(7)]
    have st: "r_stack r2 ! Suc d = t" using r2(6) o(6,7) by simp
    have ok2: "stack_ok r2 (Suc d)"
      using o(3) lt o(5,6) by (auto simp: stack_ok_def r2_def t_def nth_list_update less_Suc_eq)
    have "\<exists>r3. process_loop (r2, h1) = bindR (moveToNextTask r3) (\<lambda>r4. process_loop (r4, h')) \<and> same_input r2 r3 \<and>
      r_pos r3 = r_pos r2 + int (length (concat (map encode rs))) \<and> stack_ok r3 d \<and>
      take (Suc d) (r_stack r3) = take (Suc d) (r_stack r2) \<and> r_reply r3 = r_reply r2"
    proof (rule Cons.IH [OF _ False ok2 _ _ _ _ _ _ _ brs])
      show "input_at r2 (concat (map encode rs))"
        by (rule input_at_skip [of r "encode x"]) (use Cons.prems(9) o r2 in \<open>auto simp: same_input_def\<close>)
    qed (use Cons.prems o st el2 r2 in \<open>auto simp: t_def same_input_def\<close>)
    then show ?thesis
      using r1(1) mv top2 o(1,2,4) r2(2,4,5) by (auto simp: same_input_def)
  qed
qed simp

text \<open>The header of an array.\<close>

lemma array_header:
  assumes r: "stack_ok r d" "rt_type (r_stack r ! d) = - 1" "r_fn r = Some fns"
    and inp: "input_at r (CHR ''*'' # decimal_int (int n) @ CRLF @ body)" and n: "n < 2 ^ 31" "d < 8"
    and mk: "created (mkA B (place_at r d) (int n) h) = Inr (obj, h')"
  shows "\<exists>r1. processItem (r, h) = bindR (if n > 0 then push_task r1 (r_stack r1 ! d) (int n) obj else moveToNextTask r1)
       (\<lambda>r2. Inr (REDIS_OK, if d = 0 then r2\<lparr>r_reply := obj\<rparr> else r2, h')) \<and>
     rt_type (r_stack r1 ! d) = REDIS_REPLY_ARRAY \<and> r_reply r1 = r_reply r \<and> input_at r1 body \<and>
     item_over r r1 d (length (CHR ''*'' # decimal_int (int n) @ CRLF))"
proof -
  let ?r = "typed r d 2" and ?cur = "(r_stack r ! d)\<lparr>rt_type := 2\<rparr>" and ?l = "decimal_int (int n)"
  define par where "par = (if d = 0 then None else Some (r_stack ?r ! (d - 1)))"
  define r1 where "r1 = ?r\<lparr>r_pos := r_pos ?r + int (length ?l) + 2\<rparr>"
  note t = typed_ok [OF r(1), of 2] and pt = processItem_typed [OF r(1,2) inp type_bytes(2)]
  have obj: "obj \<noteq> 0" "mkA B (place_at r d) (int n) h = Inr (obj, h')" using mk by (auto simp: created_Inr)
  have in1: "input_at ?r (?l @ CRLF)" using input_at_take [of ?r "?l @ CRLF" body] pt(2) by simp
  have rl: "readLine ?r = Inr (Some (r_pos ?r, int (length ?l)), r1)"
    unfolding r1_def by (rule readLine_at [OF in1]) (use decimal_int_no_ctrl in auto)
  obtain b where b: "rbuf ?r = Inr b" "readLongLong b (r_pos ?r) = Inr (int n)"
    using readLongLong_at [OF in1] n(1) by auto
  have b1: "rbuf r1 = Inr b" using b(1) by (simp add: rbuf_def r1_def)
  have ok1: "stack_ok r1 d" "r_stack r1 = r_stack ?r" "r_ridx r1 = int d" "r_fn r1 = Some fns" "r_reply r1 = r_reply r"
    using t(1,4) r(3) by (simp_all add: r1_def stack_ok_def typed_def)
  have cur: "task ?r (r_ridx ?r) = Inr ?cur" "r_stack r1 ! d = ?cur" using task_at [OF t(1)] t(3,4) ok1(2) by simp_all
  have par: "parent_of r1 ?cur = Inr par" using parent_at [OF ok1(1)] t(3) ok1(2) by (simp add: par_def)
  have pl: "place_of ?cur par = place_at r d" using place_of_at [of ?r d] t(2,3) by (simp add: par_def)
  have n32: "int32 (int n) = int n" using n(1) by (simp add: cint)
  obtain f where f: "createArray fns = Some f" "f ?cur par (int n) h = Inr (obj, h')"
    using array_fn pl obj(2) by auto
  have ai: "array_item r1 ?cur (int n) h =
      bindR (if n > 0 then push_task r1 ?cur (int n) obj else moveToNextTask r1)
       (\<lambda>r2. Inr (REDIS_OK, if d = 0 then r2\<lparr>r_reply := obj\<rparr> else r2, h'))"
    using obj(1) by (simp add: array_item_def Let_def par fn_of_def ok1(3,4) f n32)
  have "process_typed (?r, h) = processMultiBulkItem (?r, h)" using cur by (simp add: process_typed_def)
  moreover have "processMultiBulkItem (?r, h) = array_item r1 ?cur (int n) h"
    using n(2) cur(1) by (simp add: processMultiBulkItem_def t(4) rl b1 b(2))
  moreover have "input_at r1 body"
    by (rule input_at_skip [of ?r "?l @ CRLF"]) (use pt(2) in \<open>auto simp: r1_def\<close>)
  moreover have "item_over r r1 d (length (CHR ''*'' # ?l @ CRLF))"
    using t ok1 by (auto simp: item_over_def r1_def same_input_def typed_def)
  ultimately show ?thesis using pt(1) ai cur(2) ok1(5) by (intro exI [of _ r1]) simp
qed

lemma push_task_at:
  assumes "stack_ok r d" "d < 8" "rt_type (r_stack r ! d) = REDIS_REPLY_ARRAY" "0 < n" "n < 2 ^ 31"
  shows "\<exists>r1. push_task r (r_stack r ! d) (int n) obj = Inr r1 \<and> stack_ok r1 (Suc d) \<and> same_input r r1 \<and> r_pos r1 = r_pos r \<and>
    r_reply r1 = r_reply r \<and> take d (r_stack r1) = take d (r_stack r) \<and>
    r_stack r1 ! d = (r_stack r ! d)\<lparr>rt_elements := int n, rt_obj := obj\<rparr> \<and>
    rt_type (r_stack r1 ! Suc d) = - 1 \<and> rt_idx (r_stack r1 ! Suc d) = 0"
proof -
  have b: "length (r_stack r) = 9" "r_ridx r = int d" "int32 (int n) = int n"
    using assms(1,5) by (auto simp: stack_ok_def cint)
  show ?thesis
    using assms b by (simp add: push_task_def set_task_def nat_Suc_int)
      (auto simp: stack_ok_def same_input_def nth_list_update less_Suc_eq)
qed

lemma parses_array:
  assumes "\<forall>x\<in>set rs. parses x"
  shows "parses (Array rs)"
  unfolding parses_def
proof (intro allI impI)
  fix r d h obj h'
  assume r: "stack_ok r d" "rt_type (r_stack r ! d) = - 1" "r_fn r = Some fns" and inp: "input_at r (encode (Array rs))"
    and wf: "wf_at d (Array rs)" and bld: "build B (place_at r d) (Array rs) h = Inr (obj, h')"
  let ?n = "length rs" and ?body = "concat (map encode rs)"
  obtain h1 where mk: "created (mkA B (place_at r d) (int ?n) h) = Inr (obj, h1)" and bl: "build_list B obj 0 rs h1 = Inr h'"
    using bld by (auto simp: bindR_eq_Inr)
  have n: "?n < 2 ^ 31" "d < 8" and wfs: "\<forall>x\<in>set rs. wf_at (Suc d) x" using wf by auto
  have inp': "input_at r (CHR ''*'' # decimal_int (int ?n) @ CRLF @ ?body)" using inp by (simp add: decimal_int_nat)
  obtain r1 where r1: "processItem (r, h) = bindR (if ?n > 0 then push_task r1 (r_stack r1 ! d) (int ?n) obj else moveToNextTask r1)
       (\<lambda>r2. Inr (REDIS_OK, if d = 0 then r2\<lparr>r_reply := obj\<rparr> else r2, h1))"
     "rt_type (r_stack r1 ! d) = REDIS_REPLY_ARRAY" "r_reply r1 = r_reply r" "input_at r1 ?body"
     "item_over r r1 d (length (CHR ''*'' # decimal_int (int ?n) @ CRLF))"
    using array_header [OF r inp' n mk] by blast
  have ok1: "stack_ok r1 d" "same_input r r1" using r1(5) by (auto simp: item_over_def)
  have ridx: "r_ridx r \<ge> 0" using r(1) by (simp add: stack_ok_def)
  show "\<exists>r1. process_loop (r, h) = bindR (moveToNextTask (if d = 0 then r1\<lparr>r_reply := obj\<rparr> else r1)) (\<lambda>r2. process_loop (r2, h')) \<and>
        item_over r r1 d (length (encode (Array rs)))"
  proof (cases "rs = []")
    case True
    then have h1: "h1 = h'" using bl by simp
    have "bindR (moveToNextTask r1) (\<lambda>r2. Inr (REDIS_OK, if d = 0 then r2\<lparr>r_reply := obj\<rparr> else r2, h1)) =
        bindR (moveToNextTask (if d = 0 then r1\<lparr>r_reply := obj\<rparr> else r1)) (\<lambda>r2. Inr (REDIS_OK, r2, h1))"
      using ok1(1) by (simp add: moveToNextTask.simps stack_ok_def)
    then have "processItem (r, h) = bindR (moveToNextTask (if d = 0 then r1\<lparr>r_reply := obj\<rparr> else r1)) (\<lambda>r2. Inr (REDIS_OK, r2, h1))"
      using r1(1) True by simp
    from process_loop_step [OF ridx this] h1 r1(5) True show ?thesis
      by (intro exI [of _ r1]) (simp add: decimal_int_nat [of 0, simplified])
  next
    case False
    obtain r2 where r2: "push_task r1 (r_stack r1 ! d) (int ?n) obj = Inr r2" "stack_ok r2 (Suc d)" "same_input r1 r2" "r_pos r2 = r_pos r1"
        "r_reply r2 = r_reply r1" "take d (r_stack r2) = take d (r_stack r1)"
        "r_stack r2 ! d = (r_stack r1 ! d)\<lparr>rt_elements := int ?n, rt_obj := obj\<rparr>"
        "rt_type (r_stack r2 ! Suc d) = - 1" "rt_idx (r_stack r2 ! Suc d) = 0"
      using push_task_at [OF ok1(1) n(2) r1(2), of ?n obj] False n(1) by auto
    define r3 where "r3 = (if d = 0 then r2\<lparr>r_reply := obj\<rparr> else r2)"
    have r3: "stack_ok r3 (Suc d)" "r_stack r3 = r_stack r2" "r_pos r3 = r_pos r1" "same_input r1 r3"
        "r_reply r3 = (if d = 0 then obj else r_reply r)"
      using r2 r1(3) by (simp_all add: r3_def stack_ok_def same_input_def)
    have pl: "process_loop (r, h) = process_loop (r3, h1)"
      using process_loop_step [OF ridx, of h "Inr r3" h1] r1(1) r2(1) False by (simp add: r3_def)
    have "\<exists>r4. process_loop (r3, h1) = bindR (moveToNextTask r4) (\<lambda>r5. process_loop (r5, h')) \<and> same_input r3 r4 \<and>
      r_pos r4 = r_pos r3 + int (length ?body) \<and> stack_ok r4 d \<and> take (Suc d) (r_stack r4) = take (Suc d) (r_stack r3) \<and> r_reply r4 = r_reply r3"
    proof (rule parses_elements [OF assms False r3(1) _ _ _ _ _ _ wfs bl])
      show "input_at r3 ?body" using r1(4) r3(3,4) by (simp add: input_at_def same_input_def)
    qed (use r2 r3 r(3) ok1(2) in \<open>auto simp: same_input_def\<close>)
    then obtain r4 where r4: "process_loop (r3, h1) = bindR (moveToNextTask r4) (\<lambda>r5. process_loop (r5, h'))" "same_input r3 r4"
      "r_pos r4 = r_pos r3 + int (length ?body)" "stack_ok r4 d" "take (Suc d) (r_stack r4) = take (Suc d) (r_stack r3)" "r_reply r4 = r_reply r3"
      by blast
    have "(if d = 0 then r4\<lparr>r_reply := obj\<rparr> else r4) = r4" using r4(6) r3(5) by simp
    then have "process_loop (r, h) = bindR (moveToNextTask (if d = 0 then r4\<lparr>r_reply := obj\<rparr> else r4)) (\<lambda>r2. process_loop (r2, h'))"
      using pl r4(1) by simp
    moreover have "r_stack r4 ! d = r_stack r3 ! d" using r4(5) by (metis lessI nth_take)
    moreover have "take d (r_stack r4) = take d (r_stack r3)"
      using arg_cong [OF r4(5), of "take d"] by simp
    ultimately show ?thesis
      using r1(5) r2(6,7) r3(2-5) r4(2-4,6)
      by (intro exI [of _ r4] conjI) (auto simp: item_over_def same_input_def decimal_int_nat)
  qed
qed

theorem parses_reply: "parses rep"
  by (induction rep) (auto intro: parses_line parses_bulk parses_array)

end

end
