(* ===== verification/ReaderFlow.thy ===== *)
theory ReaderFlow
  imports ReaderProof
begin

text \<open>
  The reader as a stream: between two replies its state is described by the bytes received
  and not yet parsed (\<open>unread\<close>). Feeding appends to them whatever the chunks are, and
  \<^verbatim>\<open>redisReaderGetReply\<close> takes the encoding of one reply off their front, also when it
  discards the consumed prefix of the buffer.
\<close>

section \<open>Readers between two replies\<close>

definition reader_idle :: "'h redisReader \<Rightarrow> bool" where
  "reader_idle r \<longleftrightarrow> r_err r = 0 \<and> r_ridx r = - 1 \<and> r_reply r = 0 \<and> length (r_stack r) = 9 \<and> length (r_errstr r) = 128 \<and>
     (case r_buf r of None \<Rightarrow> False | Some s \<Rightarrow> sds_ok s \<and> r_len r = sh_len s) \<and> 0 \<le> r_pos r \<and> r_pos r \<le> r_len r"

definition unread :: "'h redisReader \<Rightarrow> bytes" where
  "unread r = (case r_buf r of None \<Rightarrow> [] | Some s \<Rightarrow> drop (nat (r_pos r)) (sds_str s))"

definition received :: "'h redisReader \<Rightarrow> nat" where
  "received r = (case r_buf r of None \<Rightarrow> 0 | Some s \<Rightarrow> length (sds_str s))"

lemma reader_idleE:
  assumes "reader_idle r"
  obtains s where "r_buf r = Some s" "sds_ok s" "r_len r = int (length (sds_str s))" "unread r = drop (nat (r_pos r)) (sds_str s)"
    "0 \<le> r_pos r" "r_pos r \<le> r_len r" "received r = length (sds_str s)"
  using assms sh_len_str
  by (cases "r_buf r") (auto simp: reader_idle_def unread_def received_def)

lemma idle_input:
  assumes "reader_idle r" "unread r = bs @ rest"
  shows "input_at r bs"
proof -
  obtain s where s: "r_buf r = Some s" "sds_ok s" "r_len r = int (length (sds_str s))" "unread r = drop (nat (r_pos r)) (sds_str s)"
    "0 \<le> r_pos r" "r_pos r \<le> r_len r"
    using assms(1) by (rule reader_idleE)
  let ?p = "nat (r_pos r)"
  have "sds_str s = take ?p (sds_str s) @ bs @ rest" using s(4) assms(2) by (metis append_take_drop_id)
  then have "sh_buf s = take ?p (sds_str s) @ bs @ rest @ drop (length (sds_str s)) (sh_buf s)"
    using sds_str_le_buf [OF s(2)] by (metis append.assoc append_take_drop_id)
  moreover have "length (take ?p (sds_str s)) = ?p" using s(3,5,6) by simp
  moreover have "length bs + length rest = length (sds_str s) - ?p" using s(4) assms(2) by (metis length_append length_drop)
  moreover have "int (length (sds_str s)) < 2 ^ 31" using s(2) sh_len_str [OF s(2)] by (simp add: sds_ok_def)
  ultimately show ?thesis
    unfolding input_at_def using s(1,3,5,6)
    by (intro exI [of _ s] exI [of _ "take ?p (sds_str s)"] exI [of _ "rest @ drop (length (sds_str s)) (sh_buf s)"]) simp
qed

lemma encode_not_Nil [simp]: "encode rep \<noteq> []"
  by (cases rep) auto

lemma slice_to_end: "0 \<le> a \<Longrightarrow> slice xs a (- 1) = drop (nat a) xs"
  by (auto simp: slice_def Let_def)

section \<open>Feeding\<close>

text \<open>The part of a reader that feeding changes, and what it has to satisfy.\<close>

definition input_ok :: "'h redisReader \<Rightarrow> bool" where
  "input_ok r \<longleftrightarrow> (case r_buf r of None \<Rightarrow> False | Some s \<Rightarrow> sds_ok s \<and> r_len r = sh_len s) \<and> 0 \<le> r_pos r \<and> r_pos r \<le> r_len r"

definition put_input :: "sds option \<Rightarrow> int \<Rightarrow> int \<Rightarrow> 'h redisReader \<Rightarrow> 'h redisReader" where
  "put_input b p l r = r\<lparr>r_buf := b, r_pos := p, r_len := l\<rparr>"

lemma put_input_sel [simp]:
  "r_stack (put_input b p l r) = r_stack r" "r_ridx (put_input b p l r) = r_ridx r" "r_fn (put_input b p l r) = r_fn r"
  "r_err (put_input b p l r) = r_err r" "r_reply (put_input b p l r) = r_reply r" "r_privdata (put_input b p l r) = r_privdata r"
  "r_buf (put_input b p l r) = b" "r_pos (put_input b p l r) = p" "r_len (put_input b p l r) = l"
  by (simp_all add: put_input_def)

lemma idle_input_ok: "reader_idle r \<Longrightarrow> input_ok r"
  by (auto simp: reader_idle_def input_ok_def)

lemma put_input_idle: "reader_idle r \<Longrightarrow> input_ok (put_input b p l r) \<Longrightarrow> reader_idle (put_input b p l r)"
  by (auto simp: reader_idle_def input_ok_def put_input_def)

text \<open>A reader in any state, also in the middle of a reply.\<close>

lemma redisReaderFeed_input:
  assumes r: "r_err r = 0" "input_ok r" and A: "can_alloc A 9" and k: "k \<le> length b" and n: "int (received r + k) < sds_limit"
  obtains (oom) c p l where "redisReaderFeed A (r, h) (Some b) (int k) = oom (put_input (Some c) p l r, h)" "\<exists>k. \<not> can_alloc A k"
  | (fed) c p l where "redisReaderFeed A (r, h) (Some b) (int k) = Inr (REDIS_OK, put_input c p l r, h)" "input_ok (put_input c p l r)"
      "unread (put_input c p l r) = unread r @ take k b" "received (put_input c p l r) \<le> received r + k"
proof (cases "k = 0")
  case True
  have "r = put_input (r_buf r) (r_pos r) (r_len r) r" by (simp add: put_input_def)
  then show thesis using fed [of "r_buf r" "r_pos r" "r_len r"] True r by (simp add: redisReaderFeed_def)
next
  case False
  obtain s where s: "r_buf r = Some s" "sds_ok s" "r_len r = sh_len s" "0 \<le> r_pos r" "r_pos r \<le> r_len r"
    using r(2) by (auto simp: input_ok_def split: option.splits)
  note len = sh_len_str [OF s(2)]
  define c where "c \<longleftrightarrow> r_len r = 0 \<and> r_maxbuf r \<noteq> 0 \<and> sdsavail s > r_maxbuf r"
  define s1 where "s1 = (if c then sds_of [] else s)"
  define r1 where "r1 = (if c then r\<lparr>r_buf := Some (sds_of []), r_pos := 0\<rparr> else r)"
  have s1: "sds_ok s1" "sds_str s1 = sds_str s" using s(2,3) len sds_of [of "[]"] by (auto simp: s1_def c_def)
  have r1: "r1 = put_input (Some s1) (r_pos r) (r_len r) r"
    using s len by (auto simp: r1_def s1_def c_def put_input_def)
  have sel: "(if c then bindR (sdsempty A) (\<lambda>e. bindR (assertR (e \<noteq> None)) (\<lambda>_. bindR (deref e) (\<lambda>s.
                      Inr (s, r\<lparr>r_buf := Some s, r_pos := 0\<rparr>)))) else Inr (s, r)) = Inr (s1, r1)"
    using A by (simp add: sdsempty_spec s1_def r1_def sds_of_def)
  have feed: "redisReaderFeed A (r, h) (Some b) (int k) =
      bindR (sdscatlen A s1 b (int k)) (\<lambda>newbuf. case newbuf of
            None \<Rightarrow> oom (r1, h) | Some s \<Rightarrow> Inr (REDIS_OK, r1\<lparr>r_buf := Some s, r_len := sdslen s\<rparr>, h))"
    using r(1) False s(1) unfolding redisReaderFeed_def c_def [symmetric] by (simp add: sel del: bindR_assoc flip: c_def)
  have lim: "int (length (sds_str s1) + k) < sds_limit" using n s(1) s1(2) by (simp add: received_def)
  with s1(1) k show thesis
  proof (cases rule: sb.app_cases [of s1 k b A])
    case refused
    have "\<exists>k. \<not> can_alloc A k" using refused sdscatlen_total [OF _ s1(1) k lim, of A] by auto
    then show thesis using oom feed refused r1 by simp
  next
    case (stored s2)
    have l2: "sdslen s2 = sh_len s2" "sh_len s2 = r_len r + int k"
      using sdslen_str [OF stored(2)] sh_len_str [OF stored(2)] stored(3) s1(2) s(3) len k by simp_all
    have "redisReaderFeed A (r, h) (Some b) (int k) = Inr (REDIS_OK, put_input (Some s2) (r_pos r) (sh_len s2) r, h)"
      using feed stored(1) l2(1) r1 by (simp add: put_input_def)
    then show thesis by (rule fed) (use stored(2,3) s1(2) s len l2 k in \<open>auto simp: input_ok_def unread_def received_def\<close>)
  qed
qed

lemma redisReaderFeed_cases:
  assumes r: "reader_idle r" and A: "can_alloc A 9" and k: "k \<le> length b" and n: "int (received r + k) < sds_limit"
  obtains (oom) r' where "redisReaderFeed A (r, h) (Some b) (int k) = Inr (REDIS_ERR, r', h)" "r_err r' = REDIS_ERR_OOM"
      "\<exists>k. \<not> can_alloc A k"
  | (fed) r' where "redisReaderFeed A (r, h) (Some b) (int k) = Inr (REDIS_OK, r', h)" "reader_idle r'"
      "unread r' = unread r @ take k b" "r_fn r' = r_fn r" "received r' \<le> received r + k"
proof -
  have r0: "r_err r = 0" "r_reply r = 0" "length (r_errstr r) = 128" using r by (auto simp: reader_idle_def)
  from r0(1) idle_input_ok [OF r] A k n show thesis
  proof (cases rule: redisReaderFeed_input [where h = h])
    case oom
    then show thesis
      using that(1) r0
      by (simp add: oom_def redisReaderSetErrorOOM_def redisReaderSetError_def put_input_def Let_def wrn_ok wr_ok mem fn_of_def split: option.splits)
  next
    case (fed c p l)
    then show thesis using that(2) [of "put_input c p l r"] put_input_idle [OF r] by simp
  qed
qed

section \<open>Taking a reply\<close>

definition root_task :: "'h redisReader \<Rightarrow> redisReadTask" where
  "root_task r = \<lparr>rt_type = - 1, rt_elements = - 1, rt_idx = - 1, rt_obj = 0, rt_parent = None, rt_privdata = r_privdata r\<rparr>"

text \<open>The state in which the loop starts: the first task is pushed unless one is under way.\<close>

definition rooted :: "'h redisReader \<Rightarrow> 'h redisReader" where
  "rooted r = (if r_ridx r = - 1 then r\<lparr>r_ridx := 0, r_stack := (r_stack r)[0 := root_task r]\<rparr> else r)"

text \<open>What \<^verbatim>\<open>redisReaderGetReply\<close> does after the loop, on a reader that has a whole reply.\<close>

lemma discard_consumed:
  assumes "r_buf r = Some s" "sds_ok s" "r_len r = sh_len s" "0 \<le> r_pos r" "r_pos r \<le> r_len r"
  obtains s' p where "(if r_pos r \<ge> 1024
       then bindR (deref (r_buf r)) (\<lambda>s. bindR (sdsrange s (int32 (r_pos r)) (- 1)) (\<lambda>s.
                      Inr (r\<lparr>r_buf := Some s, r_pos := 0, r_len := sdslen s\<rparr>)))
       else Inr r) = Inr (r\<lparr>r_buf := Some s', r_pos := p, r_len := sh_len s'\<rparr>)"
    "sds_ok s'" "0 \<le> p" "p \<le> sh_len s'" "drop (nat p) (sds_str s') = drop (nat (r_pos r)) (sds_str s)"
    "length (sds_str s') \<le> length (sds_str s)" "p < 1024"
proof (cases "r_pos r \<ge> 1024")
  case True
  have p: "r_pos r < 2 ^ 31" using assms by (simp add: sds_ok_def)
  then have i: "int32 (r_pos r) = r_pos r" using assms(4) by (simp add: cint)
  obtain s' where s': "sdsrange s (r_pos r) (- 1) = Inr s'" "sds_ok s'" "sds_str s' = slice (sds_str s) (r_pos r) (- 1)"
    by (rule sdsrange_spec [OF assms(2), of "r_pos r" "- 1"]) (use assms(4) p in auto)
  have "sds_str s' = drop (nat (r_pos r)) (sds_str s)" using s'(3) assms(4) by (simp add: slice_to_end)
  moreover have "sdslen s' = sh_len s'" "0 \<le> sh_len s'" using s'(2) sdslen_str sh_len_str by fastforce+
  ultimately show thesis using that [of s' 0] True i s'(1,2) assms(1) by simp
next
  case False
  have "r = r\<lparr>r_buf := Some s, r_pos := r_pos r, r_len := sh_len s\<rparr>" using assms(1,3) by simp
  then show thesis using that [of s "r_pos r"] False assms by simp
qed

context reply_functions
begin

text \<open>The loop, started by \<^verbatim>\<open>redisReaderGetReply\<close> on an idle reader.\<close>

lemma rooted_run:
  assumes r: "reader_idle r" "r_fn r = Some fns" "unread r = encode rep @ rest"
    and rep: "wf_at 0 rep" "build B None rep h = Inr (obj, h')"
  shows "\<exists>e. process_loop (rooted r, h) = Inr (e, h') \<and> r_err e = 0 \<and> r_ridx e = - 1 \<and> r_buf e = r_buf r \<and> r_len e = r_len r \<and>
    r_pos e = r_pos r + int (length (encode rep)) \<and> r_fn e = Some fns \<and> length (r_stack e) = 9 \<and> r_reply e = obj \<and> length (r_errstr e) = 128"
proof -
  have r0: "r_err r = 0" "r_ridx r = - 1" "length (r_stack r) = 9" "length (r_errstr r) = 128"
    using r(1) by (auto simp: reader_idle_def)
  define q where "q = rooted r"
  have q: "stack_ok q 0" "rt_type (r_stack q ! 0) = - 1" "r_fn q = Some fns" "place_at q 0 = None" "r_err q = 0" "r_pos q = r_pos r"
      "r_buf q = r_buf r" "r_len q = r_len r" "length (r_errstr q) = 128"
    using r0 r(2) by (auto simp: q_def rooted_def stack_ok_def root_task_def place_at_def)
  have "input_at q (encode rep)" using idle_input [OF r(1,3)] q(6-8) by (simp add: input_at_def)
  then obtain r1 where r1: "process_loop (q, h) = bindR (moveToNextTask (r1\<lparr>r_reply := obj\<rparr>)) (\<lambda>r2. process_loop (r2, h'))"
      "item_over q r1 0 (length (encode rep))"
    using parsesD [OF parses_reply q(1-3) _ rep(1), of h obj h'] rep(2) q(4) by auto
  define e where "e = r1\<lparr>r_reply := obj, r_ridx := - 1\<rparr>"
  have "r_ridx r1 = 0" using r1(2) by (simp add: item_over_def stack_ok_def)
  then have mv: "moveToNextTask (r1\<lparr>r_reply := obj\<rparr>) = Inr e" by (simp add: moveToNextTask.simps e_def)
  have "process_loop (e, h') = Inr (e, h')" by (simp add: process_loop.simps e_def)
  then have pl: "process_loop (q, h) = Inr (e, h')" using r1(1) mv by simp
  have "r_err e = 0" "r_ridx e = - 1" "r_buf e = r_buf r" "r_len e = r_len r" "r_pos e = r_pos r + int (length (encode rep))"
      "r_fn e = Some fns" "length (r_stack e) = 9" "r_reply e = obj" "length (r_errstr e) = 128"
    using r1(2) q by (auto simp: e_def item_over_def same_input_def stack_ok_def)
  then show ?thesis using pl unfolding q_def by blast
qed

lemma redisReaderGetReply_reply:
  assumes r: "reader_idle r" "r_fn r = Some fns" "unread r = encode rep @ rest"
    and rep: "wf_at 0 rep" "build B None rep h = Inr (obj, h')"
  shows "\<exists>r'. redisReaderGetReply (r, h) = Inr (REDIS_OK, obj, r', h') \<and> reader_idle r' \<and> r_fn r' = Some fns \<and>
    unread r' = rest \<and> received r' \<le> received r"
proof -
  obtain s where s: "r_buf r = Some s" "sds_ok s" "r_len r = int (length (sds_str s))" "unread r = drop (nat (r_pos r)) (sds_str s)"
    "0 \<le> r_pos r" "r_pos r \<le> r_len r" "received r = length (sds_str s)"
    using r(1) by (rule reader_idleE)
  have r0: "r_err r = 0" "r_ridx r = - 1" "length (r_stack r) = 9"
    using r(1) by (auto simp: reader_idle_def)
  have ne: "r_len r \<noteq> 0" using s(3,4) r(3) by auto
  have st: "set_task (r\<lparr>r_ridx := 0\<rparr>) 0 (root_task r) = Inr (rooted r)" using r0 by (simp add: set_task_def rooted_def)
  obtain e where pl: "process_loop (rooted r, h) = Inr (e, h')"
    and e: "r_err e = 0" "r_ridx e = - 1" "r_buf e = Some s" "r_len e = sh_len s" "r_pos e = r_pos r + int (length (encode rep))"
      "r_fn e = Some fns" "length (r_stack e) = 9" "r_reply e = obj" "length (r_errstr e) = 128"
    using rooted_run [OF r rep] s(1,3) sh_len_str [OF s(2)] by auto
  have "length (encode rep) + length rest = length (sds_str s) - nat (r_pos r)" using s(4) r(3) by (metis length_append length_drop)
  then have "r_pos e \<le> r_len e" "0 \<le> r_pos e" using e(4,5) s(3,5,6) sh_len_str [OF s(2)] by auto
  then obtain s' p where cut: "(if r_pos e \<ge> 1024
       then bindR (deref (r_buf e)) (\<lambda>s. bindR (sdsrange s (int32 (r_pos e)) (- 1)) (\<lambda>s.
                      Inr (e\<lparr>r_buf := Some s, r_pos := 0, r_len := sdslen s\<rparr>)))
       else Inr e) = Inr (e\<lparr>r_buf := Some s', r_pos := p, r_len := sh_len s'\<rparr>)"
    "sds_ok s'" "0 \<le> p" "p \<le> sh_len s'" "drop (nat p) (sds_str s') = drop (nat (r_pos e)) (sds_str s)"
    "length (sds_str s') \<le> length (sds_str s)"
    using discard_consumed [OF e(3) s(2) e(4)] by blast
  define r' where "r' = e\<lparr>r_buf := Some s', r_pos := p, r_len := sh_len s', r_reply := 0\<rparr>"
  have "redisReaderGetReply (r, h) = Inr (REDIS_OK, obj, r', h')"
    by (simp only: redisReaderGetReply_def Let_def case_prod_conv r0 ne root_task_def [symmetric] st bindR_simps pl e(1) cut(1) simp_thms
        if_True if_False) (simp add: r'_def e)
  moreover have "reader_idle r'" using e cut by (simp add: reader_idle_def r'_def)
  moreover have "unread r' = rest"
  proof -
    have "unread r' = drop (length (encode rep)) (unread r)"
      using cut(5) s(4,5) e(5) by (simp add: unread_def r'_def nat_add_distrib add.commute)
    then show ?thesis using r(3) by simp
  qed
  moreover have "received r' \<le> received r" using cut(6) s(7) by (simp add: received_def r'_def)
  ultimately show ?thesis using e(6) by (intro exI [of _ r']) (simp add: r'_def)
qed

end

end
