(* ===== verification/Reply.thy ===== *)
theory Reply
  imports ReaderFlow
begin

text \<open>
  The reply objects of \<^verbatim>\<open>redis/hiredis/hiredis.c\<close>: a heap of \<^verbatim>\<open>struct redisReply\<close>, the five
  default object functions that \<^verbatim>\<open>redisReaderCreate\<close> gives to the reader, and the proof that
  they meet the reader's interface \<open>reply_functions\<close>. Address \<open>n + 1\<close> is entry \<open>n\<close> of the
  heap, \<open>None\<close> once it is freed; addresses are not reused, so that a stale pointer is a fault.
  The string and the element vector of an object are blocks of their own that only it owns.
\<close>

section \<open>Objects\<close>

record redisReply =
  rp_type :: int
  rp_integer :: int
  rp_len :: int
  rp_str :: "bytes option"
  rp_elements :: int
  rp_element :: "nat list option"

type_synonym heap = "redisReply option list"

definition get_obj :: "heap \<Rightarrow> nat \<Rightarrow> redisReply res" where
  "get_obj h a =
     (if a = 0 then Inl NullDeref
      else if a \<le> length h then case h ! (a - 1) of None \<Rightarrow> Inl UseAfterFree | Some r \<Rightarrow> Inr r
      else Inl OutOfBounds)"

definition createReplyObject :: "allocator \<Rightarrow> int \<Rightarrow> heap \<Rightarrow> nat \<times> heap" where
  "createReplyObject A type h =
     (if can_alloc A 48
      then (Suc (length h), h @ [Some \<lparr>rp_type = type, rp_integer = 0, rp_len = 0, rp_str = None, rp_elements = 0, rp_element = None\<rparr>])
      else (0, h))"

text \<open>\<^verbatim>\<open>freeReplyObject\<close>; \<open>n\<close> bounds the nesting of the recursive calls. A chain of distinct live
  objects is no longer than the heap, so the bound \<open>free_depth\<close> is only reached on a cycle, on
  which the code does not return.\<close>

fun free_object :: "nat \<Rightarrow> nat \<Rightarrow> heap \<Rightarrow> heap res"
  and free_elements :: "nat \<Rightarrow> nat list \<Rightarrow> heap \<Rightarrow> heap res" where
  "free_object 0 reply h = Inl Diverges"
| "free_object (Suc n) reply h =
     (if reply = 0 then Inr h
      else bindR (get_obj h reply) (\<lambda>r.
        bindR (if rp_type r = REDIS_REPLY_ARRAY
               then case rp_element r of
                      None \<Rightarrow> Inr h
                    | Some es \<Rightarrow> if rp_elements r \<le> int (length es) then free_elements n (take (nat (rp_elements r)) es) h
                                 else Inl OutOfBounds
               else Inr h) (\<lambda>h. Inr (h[reply - 1 := None]))))"
| "free_elements n [] h = Inr h"
| "free_elements n (e # es) h =
     bindR (if e \<noteq> 0 then free_object n e h else Inr h) (\<lambda>h. free_elements n es h)"

definition freeReplyObject :: "nat \<Rightarrow> heap \<Rightarrow> heap res" where
  "freeReplyObject reply h = free_object (Suc (length h)) reply h"

text \<open>The common end of the four functions: the object is stored in its parent's vector.\<close>

definition link_parent :: "redisReadTask \<Rightarrow> redisReadTask option \<Rightarrow> nat \<Rightarrow> heap \<Rightarrow> heap res" where
  "link_parent cur parent r h =
     (case parent of
        None \<Rightarrow> Inr h
      | Some pt \<Rightarrow>
          bindR (get_obj h (rt_obj pt)) (\<lambda>parent.
          bindR (assertR (rp_type parent = REDIS_REPLY_ARRAY)) (\<lambda>_.
          case rp_element parent of
            None \<Rightarrow> Inl NullDeref
          | Some es \<Rightarrow>
              if 0 \<le> rt_idx cur \<and> rt_idx cur < int (length es)
              then Inr (h[rt_obj pt - 1 := Some (parent\<lparr>rp_element := Some (es[nat (rt_idx cur) := r])\<rparr>)])
              else Inl OutOfBounds)))"

definition set_obj :: "heap \<Rightarrow> nat \<Rightarrow> (redisReply \<Rightarrow> redisReply) \<Rightarrow> heap res" where
  "set_obj h a f = bindR (get_obj h a) (\<lambda>r. Inr (h[a - 1 := Some (f r)]))"

definition createStringObject ::
  "allocator \<Rightarrow> redisReadTask \<Rightarrow> redisReadTask option \<Rightarrow> bytes \<Rightarrow> int \<Rightarrow> heap \<Rightarrow> (nat \<times> heap) res" where
  "createStringObject A cur parent str len h =
     (let (r, h) = createReplyObject A (rt_type cur) h in
      if r = 0 then Inr (0, h)
      else case malloc A 0 (uint64 (len + 1)) of
        None \<Rightarrow> bindR (freeReplyObject r h) (\<lambda>h. Inr (0, h))
      | Some buf \<Rightarrow>
          bindR (assertR (rt_type cur = REDIS_REPLY_ERROR \<or> rt_type cur = REDIS_REPLY_STATUS \<or> rt_type cur = REDIS_REPLY_STRING)) (\<lambda>_.
          bindR (memcpy buf 0 str 0 len) (\<lambda>buf.
          bindR (wr buf len NUL) (\<lambda>buf.
          bindR (set_obj h r (\<lambda>x. x\<lparr>rp_str := Some buf, rp_len := int32 len\<rparr>)) (\<lambda>h.
          bindR (link_parent cur parent r h) (\<lambda>h. Inr (r, h)))))))"

definition createArrayObject ::
  "allocator \<Rightarrow> redisReadTask \<Rightarrow> redisReadTask option \<Rightarrow> int \<Rightarrow> heap \<Rightarrow> (nat \<times> heap) res" where
  "createArrayObject A cur parent elements h =
     (let (r, h) = createReplyObject A REDIS_REPLY_ARRAY h in
      if r = 0 then Inr (0, h)
      else if elements > 0 \<and> \<not> can_alloc A (elements * 8) then bindR (freeReplyObject r h) (\<lambda>h. Inr (0, h))
      else
        bindR (set_obj h r (\<lambda>x. x\<lparr>rp_element := (if elements > 0 then Some (replicate (nat elements) 0) else None),
                                 rp_elements := uint64 elements\<rparr>)) (\<lambda>h.
        bindR (link_parent cur parent r h) (\<lambda>h. Inr (r, h))))"

definition createIntegerObject ::
  "allocator \<Rightarrow> redisReadTask \<Rightarrow> redisReadTask option \<Rightarrow> int \<Rightarrow> heap \<Rightarrow> (nat \<times> heap) res" where
  "createIntegerObject A cur parent value h =
     (let (r, h) = createReplyObject A REDIS_REPLY_INTEGER h in
      if r = 0 then Inr (0, h)
      else bindR (set_obj h r (\<lambda>x. x\<lparr>rp_integer := value\<rparr>)) (\<lambda>h.
           bindR (link_parent cur parent r h) (\<lambda>h. Inr (r, h))))"

definition createNilObject ::
  "allocator \<Rightarrow> redisReadTask \<Rightarrow> redisReadTask option \<Rightarrow> heap \<Rightarrow> (nat \<times> heap) res" where
  "createNilObject A cur parent h =
     (let (r, h) = createReplyObject A REDIS_REPLY_NIL h in
      if r = 0 then Inr (0, h) else bindR (link_parent cur parent r h) (\<lambda>h. Inr (r, h)))"

definition defaultFunctions :: "allocator \<Rightarrow> heap redisReplyObjectFunctions" where
  "defaultFunctions A =
     \<lparr>createString = Some (createStringObject A), createArray = Some (createArrayObject A),
      createInteger = Some (createIntegerObject A), createNil = Some (createNilObject A),
      freeObject = Some freeReplyObject\<rparr>"

definition redisReaderCreate :: "allocator \<Rightarrow> heap redisReader option res" where
  "redisReaderCreate A = redisReaderCreateWithFunctions A (Some (defaultFunctions A))"

section \<open>The interface of the reader\<close>

text \<open>A creation depends on the task only through its type and the place of the object.\<close>

definition place_task :: "int \<Rightarrow> place \<Rightarrow> redisReadTask" where
  "place_task ty pl = empty_task\<lparr>rt_type := ty, rt_idx := (case pl of None \<Rightarrow> 0 | Some (_, i) \<Rightarrow> i)\<rparr>"

definition place_parent :: "place \<Rightarrow> redisReadTask option" where
  "place_parent pl = map_option (\<lambda>(obj, _). empty_task\<lparr>rt_obj := obj\<rparr>) pl"

definition default_builders :: "allocator \<Rightarrow> heap builders" where
  "default_builders A =
     \<lparr>mkS = (\<lambda>ty pl b h. createStringObject A (place_task ty pl) (place_parent pl) b (int (length b)) h),
      mkA = (\<lambda>pl n h. createArrayObject A (place_task REDIS_REPLY_ARRAY pl) (place_parent pl) n h),
      mkI = (\<lambda>pl v h. createIntegerObject A (place_task REDIS_REPLY_INTEGER pl) (place_parent pl) v h),
      mkN = (\<lambda>pl h. createNilObject A (place_task REDIS_REPLY_NIL pl) (place_parent pl) h)\<rparr>"

lemma link_parent_place:
  "link_parent (place_task ty (place_of cur parent)) (place_parent (place_of cur parent)) r h = link_parent cur parent r h"
  by (cases parent) (auto simp: link_parent_def place_of_def place_task_def place_parent_def cong: option.case_cong if_cong)

lemma place_task_type [simp]: "rt_type (place_task ty pl) = ty"
  by (simp add: place_task_def)

lemma memcpy_take: "n \<le> length b \<Longrightarrow> memcpy buf 0 (take n b) 0 (int n) = memcpy buf 0 b 0 (int n)"
  by (simp add: memcpy_def rdn_def)

interpretation objects: reply_functions "defaultFunctions A" "default_builders A" for A
proof
  show "\<exists>f. createString (defaultFunctions A) = Some f \<and> (\<forall>cur parent b n h.
      rt_type cur \<in> {REDIS_REPLY_STRING, REDIS_REPLY_STATUS, REDIS_REPLY_ERROR} \<longrightarrow> n \<le> length b \<longrightarrow>
      f cur parent b (int n) h = mkS (default_builders A) (rt_type cur) (place_of cur parent) (take n b) h)"
    by (simp add: defaultFunctions_def default_builders_def createStringObject_def link_parent_place memcpy_take
        split: prod.splits option.splits)
  show "\<exists>f. createArray (defaultFunctions A) = Some f \<and> (\<forall>cur parent n h. f cur parent n h = mkA (default_builders A) (place_of cur parent) n h)"
    by (simp add: defaultFunctions_def default_builders_def createArrayObject_def link_parent_place split: prod.splits)
  show "\<exists>f. createInteger (defaultFunctions A) = Some f \<and>
      (\<forall>cur parent v h. f cur parent v h = mkI (default_builders A) (place_of cur parent) v h)"
    by (simp add: defaultFunctions_def default_builders_def createIntegerObject_def link_parent_place split: prod.splits)
  show "\<exists>f. createNil (defaultFunctions A) = Some f \<and> (\<forall>cur parent h. f cur parent h = mkN (default_builders A) (place_of cur parent) h)"
    by (simp add: defaultFunctions_def default_builders_def createNilObject_def link_parent_place split: prod.splits)
qed

end
