(* ===== verification/ReplyProof.thy ===== *)
theory ReplyProof
  imports Reply
begin

text \<open>
  What the default object functions leave on the heap: with memory available, the objects of a
  reply are laid out behind the existing ones in the order of its encoding (\<open>objs\<close>), they
  represent the reply (\<open>rep_at\<close>), and \<^verbatim>\<open>freeReplyObject\<close> on the root frees all of them and
  nothing else.
\<close>

section \<open>The objects of a reply\<close>

definition str_obj :: "int \<Rightarrow> bytes \<Rightarrow> redisReply" where
  "str_obj ty s = \<lparr>rp_type = ty, rp_integer = 0, rp_len = int (length s), rp_str = Some (s @ [NUL]), rp_elements = 0, rp_element = None\<rparr>"

definition int_obj :: "int \<Rightarrow> redisReply" where
  "int_obj v = \<lparr>rp_type = REDIS_REPLY_INTEGER, rp_integer = v, rp_len = 0, rp_str = None, rp_elements = 0, rp_element = None\<rparr>"

definition nil_obj :: redisReply where
  "nil_obj = \<lparr>rp_type = REDIS_REPLY_NIL, rp_integer = 0, rp_len = 0, rp_str = None, rp_elements = 0, rp_element = None\<rparr>"

definition arr_obj :: "nat list \<Rightarrow> redisReply" where
  "arr_obj as = \<lparr>rp_type = REDIS_REPLY_ARRAY, rp_integer = 0, rp_len = 0, rp_str = None, rp_elements = int (length as),
     rp_element = (if as = [] then None else Some as)\<rparr>"

lemmas obj_defs = str_obj_def int_obj_def nil_obj_def arr_obj_def

fun nobjs :: "reply \<Rightarrow> nat" where
  "nobjs (Array rs) = Suc (sum_list (map nobjs rs))"
| "nobjs _ = 1"

fun addrs :: "nat \<Rightarrow> reply list \<Rightarrow> nat list" where
  "addrs n [] = []"
| "addrs n (r # rs) = Suc n # addrs (n + nobjs r) rs"

fun objs :: "nat \<Rightarrow> reply \<Rightarrow> redisReply list"
  and objs_list :: "nat \<Rightarrow> reply list \<Rightarrow> redisReply list" where
  "objs n (Status s) = [str_obj REDIS_REPLY_STATUS s]"
| "objs n (Error s) = [str_obj REDIS_REPLY_ERROR s]"
| "objs n (Integer i) = [int_obj i]"
| "objs n (Bulk b) = [str_obj REDIS_REPLY_STRING b]"
| "objs n Nil = [nil_obj]"
| "objs n (Array rs) = arr_obj (addrs (Suc n) rs) # objs_list (Suc n) rs"
| "objs_list n [] = []"
| "objs_list n (r # rs) = objs n r @ objs_list (n + nobjs r) rs"

lemma length_addrs [simp]: "length (addrs n rs) = length rs"
  by (induction rs arbitrary: n) auto

lemma addrs_Nil [simp]: "addrs n rs = [] \<longleftrightarrow> rs = []"
  by (cases rs) auto

lemma length_objs [simp]:
  "length (objs n rep) = nobjs rep" "length (objs_list n rs) = sum_list (map nobjs rs)"
  by (induction n rep and n rs rule: objs_objs_list.induct) auto

lemma nobjs_pos: "0 < nobjs rep"
  by (cases rep) auto

section \<open>Creation\<close>

definition place_ok :: "place \<Rightarrow> heap \<Rightarrow> bool" where
  "place_ok pl h \<longleftrightarrow> (case pl of None \<Rightarrow> True | Some (obj, i) \<Rightarrow> \<exists>x es. 0 < obj \<and> obj \<le> length h \<and> h ! (obj - 1) = Some x \<and>
     rp_type x = REDIS_REPLY_ARRAY \<and> rp_element x = Some es \<and> 0 \<le> i \<and> i < int (length es))"

definition linked :: "place \<Rightarrow> nat \<Rightarrow> heap \<Rightarrow> heap" where
  "linked pl r h = (case pl of None \<Rightarrow> h | Some (obj, i) \<Rightarrow>
     h[obj - 1 := map_option (\<lambda>x. x\<lparr>rp_element := map_option (\<lambda>es. es[nat i := r]) (rp_element x)\<rparr>) (h ! (obj - 1))])"

lemma length_linked [simp]: "length (linked pl r h) = length h"
  by (auto simp: linked_def split: option.splits)

lemma get_obj_append [simp]: "get_obj (h @ x # xs) (Suc (length h)) = (case x of None \<Rightarrow> Inl UseAfterFree | Some r \<Rightarrow> Inr r)"
  by (simp add: get_obj_def)

lemma link_parent_ok:
  assumes "place_ok pl h"
  shows "link_parent (place_task ty pl) (place_parent pl) r (h @ xs) = Inr (linked pl r h @ xs)"
proof (cases pl)
  case None
  then show ?thesis by (simp add: link_parent_def place_parent_def linked_def)
next
  case (Some p)
  then obtain obj i x es where "pl = Some (obj, i)" "0 < obj" "obj \<le> length h" "h ! (obj - 1) = Some x"
     "rp_type x = REDIS_REPLY_ARRAY" "rp_element x = Some es" "0 \<le> i" "i < int (length es)"
    using assms by (cases p) (auto simp: place_ok_def)
  moreover from this have "obj - 1 < length h" by simp
  ultimately show ?thesis
    by (simp add: link_parent_def place_parent_def place_task_def linked_def get_obj_def nth_append list_update_append)
qed

text \<open>Each of the four functions with memory available.\<close>

lemma create_ok:
  assumes A: "\<forall>k. can_alloc A k" and pl: "place_ok pl h"
  shows "created (mkI (default_builders A) pl v h) = Inr (Suc (length h), linked pl (Suc (length h)) h @ [Some (int_obj v)])"
    and "created (mkN (default_builders A) pl h) = Inr (Suc (length h), linked pl (Suc (length h)) h @ [Some nil_obj])"
    and "n < 2 ^ 31 \<Longrightarrow> created (mkA (default_builders A) pl (int n) h) =
       Inr (Suc (length h), linked pl (Suc (length h)) h @ [Some (arr_obj (replicate n 0))])"
  using A link_parent_ok [OF pl]
  by (simp_all add: created_def default_builders_def createIntegerObject_def createNilObject_def createArrayObject_def
      createReplyObject_def set_obj_def int_obj_def nil_obj_def arr_obj_def cint)

lemma create_string_ok:
  assumes A: "\<forall>k. can_alloc A k" and pl: "place_ok pl h" and s: "length s < 2 ^ 31"
    and ty: "ty \<in> {REDIS_REPLY_STRING, REDIS_REPLY_STATUS, REDIS_REPLY_ERROR}"
  shows "created (mkS (default_builders A) ty pl s h) = Inr (Suc (length h), linked pl (Suc (length h)) h @ [Some (str_obj ty s)])"
proof -
  have u: "uint64 (int (length s) + 1) = int (Suc (length s))" "int32 (int (length s)) = int (length s)" using s by (simp_all add: cint)
  define buf where "buf = map (junk A) [0..<Suc (length s)]"
  have m: "malloc A 0 (uint64 (int (length s) + 1)) = Some buf" using A unfolding malloc_def buf_def u(1) by (simp only: if_True simp_thms) (simp add: nat_add_distrib)
  have lb: "length buf = Suc (length s)" by (simp add: buf_def)
  have "memcpy buf 0 s 0 (int (length s)) = Inr (s @ [buf ! length s])"
    using lb by (simp add: memcpy_def mem Cons_nth_drop_Suc [symmetric])
  moreover have "wr (s @ [buf ! length s]) (int (length s)) NUL = Inr (s @ [NUL])" by (simp add: mem)
  ultimately show ?thesis
    using A link_parent_ok [OF pl] ty
    by (auto simp: created_def default_builders_def createStringObject_def createReplyObject_def u(2) m set_obj_def str_obj_def)
qed

lemma encode_element: "r \<in> set rs \<Longrightarrow> length (encode r) < length (encode (Array rs))"
proof -
  assume "r \<in> set rs"
  then have "length (encode r) \<le> length (concat (map encode rs))" by (induction rs) auto
  then show ?thesis by simp
qed

lemma encode_count: "length rs < length (encode (Array rs))"
proof -
  have "length rs \<le> length (concat (map encode rs))"
  proof (induction rs)
    case (Cons r rs)
    have "Suc 0 \<le> length (encode r)" by (rule Suc_leI) simp
    with Cons show ?case unfolding list.map concat.simps length_append list.size by linarith
  qed simp
  then show ?thesis by simp
qed

definition filled :: "nat list \<Rightarrow> nat \<Rightarrow> nat list \<Rightarrow> nat list" where
  "filled es i as = take i es @ as @ drop (i + length as) es"

lemma filled_step:
  "i < length es \<Longrightarrow> filled (es[i := a]) (Suc i) as = filled es i (a # as)"
  by (simp add: filled_def take_Suc_conv_app_nth drop_update_cancel)

lemma build_objs:
  assumes A: "\<forall>k. can_alloc A k"
  shows "length (encode rep) < 2 ^ 31 \<Longrightarrow> place_ok pl h \<Longrightarrow> build (default_builders A) pl rep h =
      Inr (Suc (length h), linked pl (Suc (length h)) h @ map Some (objs (length h) rep))"
    and "\<forall>r\<in>set rs. length (encode r) < 2 ^ 31 \<Longrightarrow> 0 < obj \<Longrightarrow> obj \<le> length h \<Longrightarrow> h ! (obj - 1) = Some x \<Longrightarrow> rp_type x = REDIS_REPLY_ARRAY \<Longrightarrow>
      rp_element x = Some es \<Longrightarrow> 0 \<le> i \<Longrightarrow> nat i + length rs \<le> length es \<Longrightarrow>
      build_list (default_builders A) obj i rs h =
        Inr (h[obj - 1 := Some (x\<lparr>rp_element := Some (filled es (nat i) (addrs (length h) rs))\<rparr>)] @ map Some (objs_list (length h) rs))"
proof (induction "default_builders A" pl rep h and "default_builders A" obj i rs h arbitrary: and x es rule: build_build_list.induct)
  case (6 pl rs h)
  let ?a = "Suc (length h)" and ?h = "linked pl (Suc (length h)) h"
  have n: "length rs < 2 ^ 31" "\<forall>r\<in>set rs. length (encode r) < 2 ^ 31"
    using "6.prems"(1) encode_count [of rs] encode_element [of _ rs] by fastforce+
  note mk = create_ok(3) [OF A "6.prems"(2) n(1)]
  show ?case
  proof (cases "rs = []")
    case True
    then show ?thesis using mk by simp
  next
    case False
    let ?h1 = "?h @ [Some (arr_obj (replicate (length rs) 0))]"
    have "build_list (default_builders A) ?a 0 rs ?h1 =
        Inr (?h1[?a - 1 := Some ((arr_obj (replicate (length rs) 0))\<lparr>rp_element := Some (filled (replicate (length rs) 0) (nat 0) (addrs (length ?h1) rs))\<rparr>)] @
          map Some (objs_list (length ?h1) rs))"
      by (rule "6.hyps" [OF _ refl n(2)]) (use mk False in \<open>auto simp: arr_obj_def nth_append\<close>)
    moreover have "filled (replicate (length rs) 0) 0 (addrs (Suc (length h)) rs) = addrs (Suc (length h)) rs"
      by (simp add: filled_def)
    ultimately show ?thesis using mk False by (simp add: arr_obj_def list_update_append)
  qed
next
  case (8 obj i r rs h)
  let ?h1 = "linked (Some (obj, i)) (Suc (length h)) h @ map Some (objs (length h) r)"
  have pl: "place_ok (Some (obj, i)) h" using "8.prems" by (auto simp: place_ok_def)
  have b: "build (default_builders A) (Some (obj, i)) r h = Inr (Suc (length h), ?h1)"
    by (rule "8.hyps"(1)) (use "8.prems" pl in auto)
  define x1 where "x1 = x\<lparr>rp_element := Some (es[nat i := Suc (length h)])\<rparr>"
  have ln: "linked (Some (obj, i)) (Suc (length h)) h = h[obj - 1 := Some x1]"
    using "8.prems"(4,6) by (simp add: linked_def x1_def)
  have l1: "length ?h1 = length h + nobjs r" by simp
  have "build_list (default_builders A) obj (i + 1) rs ?h1 =
      Inr (?h1[obj - 1 := Some (x1\<lparr>rp_element := Some (filled (es[nat i := Suc (length h)]) (nat (i + 1)) (addrs (length ?h1) rs))\<rparr>)] @
        map Some (objs_list (length ?h1) rs))"
    by (rule "8.hyps"(2) [OF b refl]) (use "8.prems" ln in \<open>auto simp: x1_def nth_append nat_add_distrib\<close>)
  moreover have "filled (es[nat i := Suc (length h)]) (nat (i + 1)) (addrs (length h + nobjs r) rs) = filled es (nat i) (addrs (length h) (r # rs))"
    using "8.prems"(7,8) by (simp add: filled_step nat_add_distrib)
  moreover have "obj - 1 < length h" using "8.prems"(2,3) by simp
  ultimately show ?case using b l1 ln by (simp add: x1_def list_update_append)
next
  case (7 obj i h)
  have "x\<lparr>rp_element := Some es\<rparr> = x" using "7.prems"(6) by simp
  then have "h = h[obj - 1 := Some (x\<lparr>rp_element := Some es\<rparr>)]" using "7.prems"(4) list_update_id [of h "obj - 1"] by simp
  then show ?case by (simp add: filled_def)
qed (use create_ok [OF A] create_string_ok [OF A] in auto)

section \<open>Representation\<close>

fun rep_at :: "heap \<Rightarrow> nat \<Rightarrow> reply \<Rightarrow> bool"
  and reps_at :: "heap \<Rightarrow> nat list \<Rightarrow> reply list \<Rightarrow> bool" where
  "rep_at h a (Status s) \<longleftrightarrow> get_obj h a = Inr (str_obj REDIS_REPLY_STATUS s)"
| "rep_at h a (Error s) \<longleftrightarrow> get_obj h a = Inr (str_obj REDIS_REPLY_ERROR s)"
| "rep_at h a (Integer i) \<longleftrightarrow> get_obj h a = Inr (int_obj i)"
| "rep_at h a (Bulk b) \<longleftrightarrow> get_obj h a = Inr (str_obj REDIS_REPLY_STRING b)"
| "rep_at h a Nil \<longleftrightarrow> get_obj h a = Inr nil_obj"
| "rep_at h a (Array rs) \<longleftrightarrow> (case get_obj h a of
       Inl _ \<Rightarrow> False
     | Inr x \<Rightarrow> rp_type x = REDIS_REPLY_ARRAY \<and> rp_elements x = int (length rs) \<and>
         reps_at h (case rp_element x of None \<Rightarrow> [] | Some es \<Rightarrow> es) rs)"
| "reps_at h [] [] \<longleftrightarrow> True"
| "reps_at h (a # as) (r # rs) \<longleftrightarrow> rep_at h a r \<and> reps_at h as rs"
| "reps_at h _ _ \<longleftrightarrow> False"

lemma objs_rep_at:
  "n = length pre \<Longrightarrow> rep_at (pre @ map Some (objs n rep) @ post) (Suc n) rep"
  "n = length pre \<Longrightarrow> reps_at (pre @ map Some (objs_list n rs) @ post) (addrs n rs) rs"
proof (induction n rep and n rs arbitrary: pre post and pre post rule: objs_objs_list.induct)
  case (6 n rs)
  let ?x = "arr_obj (addrs (Suc n) rs)"
  have "reps_at ((pre @ [Some ?x]) @ map Some (objs_list (Suc n) rs) @ post) (addrs (Suc n) rs) rs"
    by (rule "6.IH") (simp add: "6.prems")
  then show ?case using "6.prems" by (auto simp: arr_obj_def)
next
  case (8 n r rs)
  have "reps_at ((pre @ map Some (objs n r)) @ map Some (objs_list (n + nobjs r) rs) @ post) (addrs (n + nobjs r) rs) rs"
    by (rule "8.IH"(2)) (simp add: "8.prems")
  then show ?case using "8.IH"(1) [OF "8.prems", of "map Some (objs_list (n + nobjs r) rs) @ post"] by simp
qed auto

section \<open>Freeing\<close>

lemma free_objs:
  "n = length pre \<Longrightarrow> nobjs rep \<le> k \<Longrightarrow>
     free_object k (Suc n) (pre @ map Some (objs n rep) @ post) = Inr (pre @ replicate (nobjs rep) None @ post)"
  "n = length pre \<Longrightarrow> sum_list (map nobjs rs) \<le> k \<Longrightarrow>
     free_elements k (addrs n rs) (pre @ map Some (objs_list n rs) @ post) = Inr (pre @ replicate (sum_list (map nobjs rs)) None @ post)"
proof (induction n rep and n rs arbitrary: pre post k and pre post k rule: objs_objs_list.induct)
  case (6 n rs)
  let ?x = "arr_obj (addrs (Suc n) rs)"
  obtain k' where k: "k = Suc k'" "sum_list (map nobjs rs) \<le> k'" using "6.prems"(2) by (cases k) auto
  have "free_elements k' (addrs (Suc n) rs) ((pre @ [Some ?x]) @ map Some (objs_list (Suc n) rs) @ post) =
      Inr ((pre @ [Some ?x]) @ replicate (sum_list (map nobjs rs)) None @ post)"
    by (rule "6.IH") (use "6.prems" k in auto)
  then show ?case using "6.prems"(1) k(1) by (cases "rs = []") (auto simp: arr_obj_def list_update_append)
next
  case (8 n r rs)
  have 1: "free_object k (Suc n) (pre @ map Some (objs n r) @ map Some (objs_list (n + nobjs r) rs) @ post) =
      Inr (pre @ replicate (nobjs r) None @ map Some (objs_list (n + nobjs r) rs) @ post)"
    by (rule "8.IH"(1)) (use "8.prems" in auto)
  have "free_elements k (addrs (n + nobjs r) rs) ((pre @ replicate (nobjs r) None) @ map Some (objs_list (n + nobjs r) rs) @ post) =
      Inr ((pre @ replicate (nobjs r) None) @ replicate (sum_list (map nobjs rs)) None @ post)"
    by (rule "8.IH"(2)) (use "8.prems" in auto)
  with 1 show ?case by (simp add: replicate_add)
qed (auto simp: Suc_le_eq gr0_conv_Suc obj_defs list_update_append)

lemma free_reply:
  "freeReplyObject (Suc (length pre)) (pre @ map Some (objs (length pre) rep)) = Inr (pre @ replicate (nobjs rep) None)"
  using free_objs(1) [of "length pre" pre rep "Suc (length pre + nobjs rep)" "[]"] by (simp add: freeReplyObject_def)

end
