(* ===== verification/ReaderProgress.thy ===== *)
theory ReaderProgress
  imports Reader
begin

text \<open>
  How far the parser gets: on a buffer that holds an sds string, with the cursor inside the received bytes, an item that is
  completed moves the cursor forward and keeps it inside; so the loop of \<^verbatim>\<open>redisReaderGetReply\<close> completes at most as many
  items as there are bytes left.
\<close>

section \<open>The cursor stays inside\<close>

definition reader_input :: "'h redisReader \<Rightarrow> bool" where
  "reader_input r \<longleftrightarrow> (\<exists>s. r_buf r = Some s \<and> sds_ok s \<and> r_len r = sh_len s) \<and> 0 \<le> r_pos r \<and> r_pos r \<le> r_len r"

lemma seek_loop_LF:
  "seek_loop b p pos len = Inr (Some s) \<Longrightarrow> rd b (p + s) = Inr CR \<and> rd b (p + s + 1) = Inr LF"
proof (induction b p pos len rule: seek_loop.induct)
  case (1 b p pos len)
  have lt: "pos < len" using "1.prems" by (subst (asm) seek_loop.simps) (auto split: if_splits)
  obtain q where q: "seek_cr b p pos len = Inr q"
    using "1.prems" lt by (subst (asm) seek_loop.simps) (auto split: sum.splits)
  from "1.prems" lt q obtain d where d: "rd b (p + q) = Inr CR" "rd b (p + q + 1) = Inr d"
      "if d = LF then s = q else seek_loop b p (q + 1) len = Inr (Some s)"
    by (subst (asm) seek_loop.simps) (auto simp: bindR_eq_Inr split: if_splits)
  then show ?case using "1.IH" [OF lt q d(1) _ d(2)] by (cases "d = LF") auto
qed

text \<open>A line ends before the terminator of the buffer.\<close>

lemma newline_inside:
  assumes "reader_input r" "rbuf r = Inr b" "seekNewline b (r_pos r) (uint64 (r_len r - r_pos r)) = Inr (Some s)"
  shows "0 \<le> s" "s < 2 ^ 31" "int32 s = s" "r_pos r + s + 2 \<le> r_len r"
proof -
  obtain t where t: "r_buf r = Some t" "sds_ok t" "r_len r = sh_len t" "b = sh_buf t" "0 \<le> r_pos r" "r_pos r \<le> r_len r"
    using assms(1,2) by (auto simp: reader_input_def rbuf_eq_Inr)
  show s: "0 \<le> s" "s < 2 ^ 31" "int32 s = s" using seekNewline_Some [OF assms(3)] by auto
  have len: "r_len r < 2 ^ 31" "rd b (r_len r) = Inr NUL" using t by (auto simp: sds_ok_def rd_def)
  have "s \<le> r_len r - r_pos r - 1 \<or> r_len r = r_pos r"
    using seek_loop_Some [OF assms(3) [unfolded seekNewline_def]] t(5,6) len(1) by (auto simp: cint)
  moreover have "r_len r \<noteq> r_pos r"
    using seek_loop_Some [OF assms(3) [unfolded seekNewline_def]] by (auto simp: uint64_def int32_def)
  moreover have "r_pos r + s + 1 \<noteq> r_len r"
    using seek_loop_LF [OF assms(3) [unfolded seekNewline_def]] len(2) by auto
  ultimately show "r_pos r + s + 2 \<le> r_len r" by linarith
qed

lemma readLine_inside:
  assumes "reader_input r" "readLine r = Inr (Some (p, len), r1)"
  shows "r_pos r1 \<le> r_len r"
proof -
  obtain b s where b: "rbuf r = Inr b" "seekNewline b (r_pos r) (uint64 (r_len r - r_pos r)) = Inr (Some s)"
      "r_pos r1 = r_pos r + int32 s + 2"
    using assms(2) by (auto simp: readLine_def bindR_eq_Inr Let_def split: option.splits)
  show ?thesis using newline_inside [OF assms(1) b(1,2)] b(3) by simp
qed

lemma processLineItem_inside:
  "reader_input r \<Longrightarrow> processLineItem (r, h) = Inr (REDIS_OK, r', h') \<Longrightarrow> r_pos r' \<le> r_len r"
  by (auto simp: processLineItem_def bindR_eq_Inr split: option.splits if_splits dest!: item_done_OK readLine_inside [rotated])

text \<open>A bulk item checks the bytes it takes against those received, in 64 bits.\<close>

lemma bulk_bytes:
  assumes "0 \<le> p" "p < 2 ^ 31" "0 \<le> s" "s < 2 ^ 31" "0 \<le> l" "l < 2 ^ 63" "uint64 (p + uint64 (s + 2 + l)) \<le> n"
  shows "p + uint64 (s + 2 + l) \<le> n"
proof -
  have "uint64 (s + 2 + l) = s + 2 + l" "uint64 (p + (s + 2 + l)) = p + (s + 2 + l)" using assms(1-6) by (simp_all add: cint)
  then show ?thesis using assms(7) by simp
qed

lemma processBulkItem_inside:
  assumes "reader_input r" "processBulkItem (r, h) = Inr (REDIS_OK, r', h')"
  shows "r_pos r' \<le> r_len r"
proof -
  obtain cur b s len where b: "rbuf r = Inr b" and s: "seekNewline b (r_pos r) (uint64 (r_len r - r_pos r)) = Inr (Some s)"
    and go: "(if len < 0
          then bindR (nil_object r cur h) (\<lambda>(obj, h).
               if obj = 0 then oom (r, h) else item_done (r\<lparr>r_pos := r_pos r + (s + 2)\<rparr>) obj h)
          else bindR (ck64 (len + 2)) (\<lambda>l2.
            let bytelen = uint64 (s + 2 + l2) in
            if uint64 (r_pos r + bytelen) \<le> r_len r
            then bindR (parent_of r cur) (\<lambda>parent.
                 bindR (case fn_of createString r of
                          Some f \<Rightarrow> f cur parent (drop (nat (r_pos r + s + 2)) b) len h
                        | None \<Rightarrow> Inr (nat REDIS_REPLY_STRING, h)) (\<lambda>(obj, h).
                 if obj = 0 then oom (r, h) else item_done (r\<lparr>r_pos := r_pos r + bytelen\<rparr>) obj h))
            else Inr (REDIS_ERR, r, h))) = Inr (REDIS_OK, r', h')"
    using assms(2) by (auto simp: processBulkItem_def bindR_eq_Inr [of "task _ _"] bindR_eq_Inr [of "rbuf _"]
        bindR_eq_Inr [of "seekNewline _ _ _"] bindR_eq_Inr [of "readLongLong _ _"] Let_def split: option.splits)
  note nl = newline_inside [OF assms(1) b s]
  have p: "0 \<le> r_pos r" "r_pos r < 2 ^ 31" using assms(1) by (auto simp: reader_input_def sds_ok_def)
  show ?thesis
  proof (cases "len < 0")
    case True
    then show ?thesis using go nl(4) by (auto simp: bindR_eq_Inr split: if_splits dest!: oom_rc item_done_OK)
  next
    case False
    then obtain l2 where l2: "ck64 (len + 2) = Inr l2" using go by (auto simp: bindR_eq_Inr)
    then have "0 \<le> l2" "l2 < 2 ^ 63" using False by (auto simp: ck64_def split: if_splits)
    from bulk_bytes [OF p nl(1,2) this] show ?thesis using go False l2
      by (auto simp: bindR_eq_Inr Let_def split: if_splits dest!: oom_rc item_done_OK)
  qed
qed

lemma processMultiBulkItem_inside:
  assumes "reader_input r" "processMultiBulkItem (r, h) = Inr (REDIS_OK, r', h')"
  shows "r_pos r' \<le> r_len r"
proof -
  obtain cur where cur: "task r (r_ridx r) = Inr cur" "r_ridx r \<noteq> 8"
    using assms(2) by (auto simp: processMultiBulkItem_def bindR_eq_Inr split: if_splits)
  then obtain line r1 where line: "readLine r = Inr (line, r1)" using assms(2) by (auto simp: processMultiBulkItem_def bindR_eq_Inr)
  then obtain p len n where p: "line = Some (p, len)" "array_item r1 cur n h = Inr (REDIS_OK, r', h')"
    using assms(2) cur by (cases line) (auto simp: processMultiBulkItem_def bindR_eq_Inr)
  then show ?thesis using array_item_OK [OF p(2)] readLine_inside [OF assms(1)] line by simp
qed

lemma process_typed_inside:
  "reader_input r \<Longrightarrow> process_typed (r, h) = Inr (REDIS_OK, r', h') \<Longrightarrow> r_pos r' \<le> r_len r"
  by (auto simp: process_typed_def bindR_eq_Inr split: if_splits
      dest: processLineItem_inside [rotated] processBulkItem_inside [rotated] processMultiBulkItem_inside [rotated])

lemma processItem_inside:
  assumes "reader_input r" "processItem (r, h) = Inr (REDIS_OK, r', h')"
  shows "r_pos r' \<le> r_len r"
proof -
  obtain cur where cur: "task r (r_ridx r) = Inr cur" using assms(2) by (auto simp: processItem_def bindR_eq_Inr)
  show ?thesis
  proof (cases "rt_type cur < 0")
    case False
    then show ?thesis using assms cur process_typed_inside [of r h] by (simp add: processItem_def)
  next
    case True
    let ?r = "r\<lparr>r_pos := r_pos r + 1\<rparr>"
    have rb: "readBytes r 1 = (Some (r_pos r), ?r)" "uint64 (r_len r - r_pos r) \<ge> 1"
      using assms(2) cur True by (auto simp: processItem_def readBytes_def split: if_splits)
    then have "r_pos r + 1 \<le> r_len r" using assms(1) by (cases "r_pos r = r_len r") (auto simp: reader_input_def uint64_def)
    then have i: "reader_input ?r" using assms(1) by (auto simp: reader_input_def)
    obtain b c where c: "rbuf ?r = Inr b" "rd b (r_pos r) = Inr c"
      using assms(2) cur True rb by (auto simp: processItem_def bindR_eq_Inr)
    obtain ty where ty: "type_of_byte c = Some ty"
      using assms(2) cur True rb c by (cases "type_of_byte c") (auto simp: processItem_def bindR_eq_Inr)
    obtain r1 where r1: "set_task ?r (r_ridx r) (cur\<lparr>rt_type := ty\<rparr>) = Inr r1" "process_typed (r1, h) = Inr (REDIS_OK, r', h')"
      using assms(2) cur True rb c ty by (auto simp: processItem_def bindR_eq_Inr)
    then have "reader_input r1" "r_len r1 = r_len r" using i by (auto simp: set_task_def reader_input_def split: if_splits)
    then show ?thesis using process_typed_inside [OF _ r1(2)] by simp
  qed
qed

lemma processItem_forward:
  assumes "reader_input r" "processItem (r, h) = Inr (REDIS_OK, r', h')"
  shows "r_pos r < r_pos r'" "r_pos r' \<le> r_len r" "same_input r r'" "reader_input r'"
proof -
  show 1: "r_pos r < r_pos r'" "same_input r r'" using processItem_OK [OF assms(2)] by (auto simp: consumed_def)
  show 2: "r_pos r' \<le> r_len r" by (rule processItem_inside [OF assms])
  show "reader_input r'" using assms(1) 1 2 by (auto simp: reader_input_def same_input_def)
qed

section \<open>The loop\<close>

text \<open>One round of the loop that goes on: an item is under way, and it is completed.\<close>

inductive item_step :: "'h rstate \<Rightarrow> 'h rstate \<Rightarrow> bool" where
  "0 \<le> r_ridx (fst rh) \<Longrightarrow> processItem rh = Inr (REDIS_OK, rh') \<Longrightarrow> item_step rh rh'"

inductive_simps item_step_iff: "item_step rh rh'"

lemma item_steps_forward:
  "(item_step ^^ n) (r, h) (r', h') \<Longrightarrow> reader_input r \<Longrightarrow>
    r_pos r + int n \<le> r_pos r' \<and> r_pos r' \<le> r_len r' \<and> r_len r' = r_len r \<and> r_buf r' = r_buf r \<and> reader_input r'"
proof (induction n arbitrary: r' h')
  case 0
  then show ?case by (simp add: reader_input_def)
next
  case (Suc n)
  obtain e where e: "(item_step ^^ n) (r, h) e" "item_step e (r', h')" using Suc.prems(1) by (rule relpowp_Suc_E)
  obtain r1 h1 where "e = (r1, h1)" by fastforce
  with e have 1: "(item_step ^^ n) (r, h) (r1, h1)" "processItem (r1, h1) = Inr (REDIS_OK, r', h')" by (auto simp: item_step_iff)
  note i = Suc.IH [OF 1(1) Suc.prems(2)]
  then show ?case using processItem_forward [OF _ 1(2)] by (auto simp: same_input_def)
qed

text \<open>What the loop returns from the state in which it stops.\<close>

definition loop_end :: "'h rstate \<Rightarrow> 'h rstate res" where
  "loop_end rh = (if r_ridx (fst rh) < 0 then Inr rh else case processItem rh of Inl e \<Rightarrow> Inl e | Inr (rc, rh') \<Rightarrow> Inr rh')"

lemma process_loop_steps:
  "\<exists>n e. (item_step ^^ n) rh e \<and> (\<nexists>e'. item_step e e') \<and> process_loop rh = loop_end e"
proof (induction rh rule: process_loop.induct)
  case (1 rh)
  show ?case
  proof (cases "\<exists>rh'. item_step rh rh'")
    case True
    then obtain rh' where s: "0 \<le> r_ridx (fst rh)" "processItem rh = Inr (REDIS_OK, rh')" "item_step rh rh'" by (auto simp: item_step_iff)
    obtain n e where n: "(item_step ^^ n) rh' e" "\<nexists>e'. item_step e e'" "process_loop rh' = loop_end e"
      using "1.IH" [OF s(1,2) refl refl] by blast
    have "(item_step ^^ Suc n) rh e" using relpowp_Suc_I2 [OF s(3) n(1)] .
    moreover have "process_loop rh = process_loop rh'" using s by (subst process_loop.simps) simp
    ultimately show ?thesis using n(2,3) by metis
  next
    case False
    then have "process_loop rh = loop_end rh"
      by (subst process_loop.simps) (auto simp: loop_end_def item_step_iff split: sum.splits)
    then show ?thesis using False by (intro exI [of _ 0] exI [of _ rh]) simp
  qed
qed

end
