(* ===== verification/ReaderContract.thy ===== *)
theory ReaderContract
  imports ReplyProof ReaderProgress
begin

text \<open>
  What the reader with the default object functions promises its callers: pipelined replies
  come out as the objects that represent them, in order and for every way the bytes are cut
  into reads; freeing a reply gives all its objects back; a byte that starts no reply is a
  protocol error that stays.
\<close>

section \<open>A caller's loops\<close>

fun feed_all :: "allocator \<Rightarrow> 'h rstate \<Rightarrow> bytes list \<Rightarrow> (int \<times> 'h rstate) res" where
  "feed_all A rh [] = Inr (REDIS_OK, rh)"
| "feed_all A rh (c # cs) =
     bindR (redisReaderFeed A rh (Some c) (int (length c))) (\<lambda>(rc, rh). if rc = REDIS_OK then feed_all A rh cs else Inr (rc, rh))"

fun get_replies :: "nat \<Rightarrow> 'h rstate \<Rightarrow> (nat list \<times> 'h rstate) res" where
  "get_replies 0 rh = Inr ([], rh)"
| "get_replies (Suc n) rh =
     bindR (redisReaderGetReply rh) (\<lambda>(rc, obj, rh). bindR (get_replies n rh) (\<lambda>(objs, rh). Inr (obj # objs, rh)))"

lemma feed_all_unread:
  assumes "\<forall>k. can_alloc A k" "reader_idle r" "int (received r + length (concat cs)) < sds_limit"
  shows "\<exists>r'. feed_all A (r, h) cs = Inr (REDIS_OK, r', h) \<and> reader_idle r' \<and> unread r' = unread r @ concat cs \<and> r_fn r' = r_fn r"
  using assms(2,3)
proof (induction cs arbitrary: r)
  case Nil
  then show ?case by simp
next
  case (Cons c cs)
  have "int (received r + length c) < sds_limit" using Cons.prems(2) by simp
  with Cons.prems(1) assms(1) [rule_format] order_refl show ?case
  proof (cases rule: redisReaderFeed_cases [where h = h])
    case (oom r')
    then show ?thesis using assms(1) by blast
  next
    case (fed r')
    have "int (received r' + length (concat cs)) < sds_limit" using fed(5) Cons.prems(2) by simp
    from Cons.IH [OF fed(2) this] show ?thesis using fed by auto
  qed
qed

lemma unread_bound: "reader_idle r \<Longrightarrow> length (unread r) < 2 ^ 31"
proof (erule reader_idleE)
  fix s assume s: "sds_ok s" "unread r = drop (nat (r_pos r)) (sds_str s)"
  have "sh_len s < 2 ^ 31" using s(1) by (simp add: sds_ok_def)
  then have "length (sds_str s) < 2 ^ 31" using sh_len_str [OF s(1)] by simp
  then show ?thesis using s(2) by simp
qed

text \<open>One reply, with the exact heap.\<close>

lemma get_reply_objs:
  assumes A: "\<forall>k. can_alloc A k" and r: "reader_idle r" "r_fn r = Some (defaultFunctions A)" "unread r = encode rep @ rest" "wf_at 0 rep"
  shows "\<exists>r'. redisReaderGetReply (r, h) = Inr (REDIS_OK, Suc (length h), r', h @ map Some (objs (length h) rep)) \<and> reader_idle r' \<and>
    r_fn r' = Some (defaultFunctions A) \<and> unread r' = rest"
proof -
  have "length (encode rep) < 2 ^ 31" using unread_bound [OF r(1)] r(3) by simp
  then have "build (default_builders A) None rep h = Inr (Suc (length h), h @ map Some (objs (length h) rep))"
    using build_objs(1) [OF A, of rep None h] by (simp add: place_ok_def linked_def)
  from objects.redisReaderGetReply_reply [OF r this] show ?thesis by blast
qed

lemma get_replies_objs:
  assumes A: "\<forall>k. can_alloc A k"
  shows "reader_idle r \<Longrightarrow> r_fn r = Some (defaultFunctions A) \<Longrightarrow> unread r = concat (map encode reps) @ rest \<Longrightarrow> \<forall>rep\<in>set reps. wf_at 0 rep \<Longrightarrow>
    \<exists>r'. get_replies (length reps) (r, h) = Inr (addrs (length h) reps, r', h @ map Some (objs_list (length h) reps)) \<and>
      reader_idle r' \<and> unread r' = rest"
proof (induction reps arbitrary: r h)
  case Nil
  then show ?case by simp
next
  case (Cons rep reps)
  obtain r1 where r1: "redisReaderGetReply (r, h) = Inr (REDIS_OK, Suc (length h), r1, h @ map Some (objs (length h) rep))"
      "reader_idle r1" "r_fn r1 = Some (defaultFunctions A)" "unread r1 = concat (map encode reps) @ rest"
    using get_reply_objs [OF A Cons.prems(1,2), of rep "concat (map encode reps) @ rest" h] Cons.prems(3,4) by auto
  from Cons.IH [OF r1(2-4), of "h @ map Some (objs (length h) rep)"] Cons.prems(4) r1(1) show ?case by auto
qed

lemma reader_created:
  assumes "\<forall>k. can_alloc A k"
  shows "\<exists>r. redisReaderCreate A = Inr (Some r) \<and> reader_idle r \<and> unread r = [] \<and> received r = 0 \<and> r_fn r = Some (defaultFunctions A)"
  using assms sds_of [of "[]"]
  by (simp add: redisReaderCreate_def redisReaderCreateWithFunctions_def sdsempty_spec reader_idle_def unread_def received_def sds_of_def)

section \<open>Theorems\<close>

text \<open>
  C10. Pipelined replies: a new reader that is fed, in chunks cut anywhere, the encodings of
  replies followed by more bytes, returns one object per reply, which represent the replies in
  order; objects that existed before are untouched and the remaining bytes stay unread. The
  replies nest at most seven arrays deep, hold 64-bit integers and no line break inside a line.
\<close>

theorem reader_pipelined_replies:
  assumes "\<forall>k. can_alloc A k" "\<forall>rep\<in>set reps. wf_at 0 rep"
    "concat chunks = concat (map encode reps) @ rest" "int (length (concat chunks)) < sds_limit"
  shows "\<exists>r0 r1 r2 os h'. redisReaderCreate A = Inr (Some r0) \<and> feed_all A (r0, h) chunks = Inr (REDIS_OK, r1, h) \<and>
    get_replies (length reps) (r1, h) = Inr (os, r2, h') \<and> reps_at h' os reps \<and> take (length h) h' = h \<and> unread r2 = rest"
proof -
  obtain r0 where r0: "redisReaderCreate A = Inr (Some r0)" "reader_idle r0" "unread r0 = []" "received r0 = 0" "r_fn r0 = Some (defaultFunctions A)"
    using reader_created [OF assms(1)] by blast
  obtain r1 where r1: "feed_all A (r0, h) chunks = Inr (REDIS_OK, r1, h)" "reader_idle r1" "unread r1 = concat (map encode reps) @ rest"
      "r_fn r1 = Some (defaultFunctions A)"
    using feed_all_unread [OF assms(1) r0(2), of chunks h] r0 assms(3,4) by auto
  obtain r2 where "get_replies (length reps) (r1, h) = Inr (addrs (length h) reps, r2, h @ map Some (objs_list (length h) reps))" "unread r2 = rest"
    using get_replies_objs [OF assms(1) r1(2,4,3) assms(2)] by blast
  moreover have "reps_at (h @ map Some (objs_list (length h) reps)) (addrs (length h) reps) reps"
    using objs_rep_at(2) [of "length h" h reps "[]"] by simp
  ultimately show ?thesis using r0(1) r1(1) by auto
qed

theorem reader_pipelined_replies_witness:
  "\<exists>r0 r1 r2 os h'. redisReaderCreate libc = Inr (Some r0) \<and>
    feed_all libc (r0, []) [''*2'' @ [CR], LF # '':12'' @ CRLF @ ''$-'', ''1'' @ CRLF @ ''+OK'' @ CRLF @ ''$''] = Inr (REDIS_OK, r1, []) \<and>
    get_replies (Suc (Suc 0)) (r1, []) = Inr (os, r2, h') \<and> reps_at h' os [Array [Integer 12, Nil], Status ''OK''] \<and> unread r2 = ''$''"
proof -
  have "decimal_int 12 = ''12''" "decimal (Suc (Suc 0)) = ''2''" by code_simp+
  then show ?thesis
    using reader_pipelined_replies [of libc "[Array [Integer 12, Nil], Status ''OK'']"
        "[''*2'' @ [CR], LF # '':12'' @ CRLF @ ''$-'', ''1'' @ CRLF @ ''+OK'' @ CRLF @ ''$'']" "''$''" "[]"]
    by (auto simp del: feed_all.simps get_replies.simps)
qed

text \<open>
  C27. A reply and its release: the object \<^verbatim>\<open>redisReaderGetReply\<close> returns represents the reply
  whose encoding is next, and \<^verbatim>\<open>freeReplyObject\<close> on it succeeds (no object is freed twice or
  after use) and leaves exactly the objects that existed before.
\<close>

theorem reply_freed_completely:
  assumes "\<forall>k. can_alloc A k" "reader_idle r" "r_fn r = Some (defaultFunctions A)" "unread r = encode rep @ rest" "wf_at 0 rep"
  shows "\<exists>obj r' h'. redisReaderGetReply (r, h) = Inr (REDIS_OK, obj, r', h') \<and> rep_at h' obj rep \<and>
    freeReplyObject obj h' = Inr (h @ replicate (nobjs rep) None)"
  using get_reply_objs [OF assms, of h] objs_rep_at(1) [of "length h" h rep "[]"] free_reply [of h rep] by auto

definition reader_on :: "bytes \<Rightarrow> heap redisReader" where
  "reader_on bs = \<lparr>r_err = 0, r_errstr = replicate 128 NUL, r_buf = Some (sds_of bs), r_pos = 0, r_len = int (length bs), r_maxbuf = REDIS_READER_MAX_BUF,
     r_stack = replicate 9 empty_task, r_ridx = - 1, r_reply = 0, r_fn = Some (defaultFunctions libc), r_privdata = 0\<rparr>"

lemma reader_on:
  assumes "int (length bs) < 2 ^ 31"
  shows "reader_idle (reader_on bs)" "unread (reader_on bs) = bs" "r_fn (reader_on bs) = Some (defaultFunctions libc)"
  using sds_of(1) [OF assms] sds_of(2) [of bs] by (simp_all add: reader_on_def reader_idle_def unread_def sds_of_def)

theorem reply_freed_completely_witness:
  "\<exists>obj r' h'. redisReaderGetReply (reader_on (''*1'' @ CRLF @ ''+hi'' @ CRLF), [None]) = Inr (REDIS_OK, obj, r', h') \<and>
    rep_at h' obj (Array [Status ''hi'']) \<and> freeReplyObject obj h' = Inr [None, None, None]"
proof -
  have "decimal (Suc 0) = ''1''" by code_simp
  then have "unread (reader_on (''*1'' @ CRLF @ ''+hi'' @ CRLF)) = encode (Array [Status ''hi'']) @ []"
    using reader_on(2) [of "''*1'' @ CRLF @ ''+hi'' @ CRLF"] by simp
  from reply_freed_completely [OF _ _ _ this, of libc "[None]"] reader_on [of "''*1'' @ CRLF @ ''+hi'' @ CRLF"] show ?thesis
    by simp
qed

section \<open>Protocol errors\<close>

lemma idle_first_byte:
  assumes "reader_idle r" "unread r = c # rest"
  shows "readBytes r 1 = (Some (r_pos r), r\<lparr>r_pos := r_pos r + 1\<rparr>)" "\<exists>s. r_buf r = Some s \<and> rd (sh_buf s) (r_pos r) = Inr c" "r_len r \<noteq> 0"
proof -
  obtain s pre post where s: "r_buf r = Some s" "sh_buf s = pre @ [c] @ post" "r_pos r = int (length pre)" "r_pos r + 1 \<le> r_len r" "r_len r < 2 ^ 31"
    using idle_input [OF assms(1), of "[c]" rest] assms(2) by (auto simp: input_at_def)
  have "uint64 (r_len r - r_pos r) \<ge> 1" using s(3-5) by (simp add: cint)
  then show "readBytes r 1 = (Some (r_pos r), r\<lparr>r_pos := r_pos r + 1\<rparr>)" by (simp add: readBytes_def)
  show "\<exists>s. r_buf r = Some s \<and> rd (sh_buf s) (r_pos r) = Inr c" using s rd_at [OF s(3), of 0 "c # post"] by simp
  show "r_len r \<noteq> 0" using s(3,4) by simp
qed

lemma set_error_stored:
  assumes "length (r_errstr r) = 128" "r_reply r = 0" "length msg \<le> 127" "r_buf r \<noteq> None"
  shows "redisReaderSetError r ty msg h =
    Inr (r\<lparr>r_buf := None, r_pos := 0, r_len := 0, r_ridx := - 1, r_err := ty, r_errstr := msg @ NUL # drop (Suc (length msg)) (r_errstr r)\<rparr>, h)"
proof -
  have m: "(if length msg < 127 then length msg else 127) = length msg" using assms(3) by simp
  have "wr (msg @ drop (length msg) (r_errstr r)) (int (length msg)) NUL = Inr (msg @ NUL # drop (Suc (length msg)) (r_errstr r))"
    using assms(1,3) by (simp add: mem list_update_append Cons_nth_drop_Suc [symmetric])
  then show ?thesis
    using assms unfolding redisReaderSetError_def Let_def m
    by (cases "fn_of freeObject r") (auto simp: mem)
qed

lemma length_chrtos: "length (chrtos c) \<le> 6"
  by (simp add: chrtos_def Let_def)

text \<open>
  C31. A byte that starts no reply: when the next byte is none of the five type bytes, the
  reader reports a protocol error that names the byte, gives up its buffer, and refuses every
  later call with the same error and without touching its state.
\<close>

theorem reader_protocol_error:
  assumes "reader_idle r" "unread r = c # rest" "type_of_byte c = None"
  shows "\<exists>r'. redisReaderGetReply (r, h) = Inr (REDIS_ERR, 0, r', h) \<and> r_err r' = REDIS_ERR_PROTOCOL \<and> r_buf r' = None \<and>
    (\<exists>u. r_errstr r' = (''Protocol error, got '' @ chrtos c @ '' as reply type byte'') @ NUL # u) \<and>
    (\<forall>A buf n. redisReaderGetReply (r', h) = Inr (REDIS_ERR, 0, r', h) \<and> redisReaderFeed A (r', h) buf n = Inr (REDIS_ERR, r', h))"
proof -
  let ?msg = "''Protocol error, got '' @ chrtos c @ '' as reply type byte''"
  have r0: "r_err r = 0" "r_ridx r = - 1" "length (r_stack r) = 9" "length (r_errstr r) = 128" "r_reply r = 0"
    using assms(1) by (auto simp: reader_idle_def)
  note fb = idle_first_byte [OF assms(1,2)]
  obtain s where s: "r_buf r = Some s" "rd (sh_buf s) (r_pos r) = Inr c" using fb(2) by blast
  define q where "q = r\<lparr>r_ridx := 0, r_stack := (r_stack r)[0 := root_task r]\<rparr>"
  have st: "set_task (r\<lparr>r_ridx := 0\<rparr>) 0 (root_task r) = Inr q" using r0(3) by (simp add: set_task_def q_def)
  define q1 where "q1 = q\<lparr>r_pos := r_pos q + 1\<rparr>"
  define e where "e = q1\<lparr>r_buf := None, r_pos := 0, r_len := 0, r_ridx := - 1, r_err := REDIS_ERR_PROTOCOL,
    r_errstr := ?msg @ NUL # drop (Suc (length ?msg)) (r_errstr q1)\<rparr>"
  have "redisReaderSetErrorProtocolByte q1 c h = Inr (e, h)"
    unfolding redisReaderSetErrorProtocolByte_def e_def
    by (rule set_error_stored) (use r0 s length_chrtos [of c] in \<open>auto simp: q1_def q_def\<close>)
  moreover have "readBytes q 1 = (Some (r_pos r), q1)" using fb(1) by (auto simp: readBytes_def q_def q1_def split: if_splits)
  moreover have "task q (r_ridx q) = Inr (root_task r)" using r0(3) by (simp add: q_def task_def)
  moreover have "rbuf q1 = Inr (sh_buf s)" using s(1) by (simp add: rbuf_def q1_def q_def)
  ultimately have "processItem (q, h) = Inr (REDIS_ERR, e, h)"
    using s(2) assms(3) by (simp add: processItem_def root_task_def)
  moreover have "r_ridx q = 0" by (simp add: q_def)
  ultimately have "process_loop (q, h) = Inr (e, h)" by (subst process_loop.simps) simp
  moreover have e: "r_err e = REDIS_ERR_PROTOCOL" "r_buf e = None" by (simp_all add: e_def)
  ultimately have "redisReaderGetReply (r, h) = Inr (REDIS_ERR, 0, e, h)"
    using r0(1,2) fb(3) st by (simp add: redisReaderGetReply_def root_task_def)
  moreover have "\<exists>u. r_errstr e = ?msg @ NUL # u" by (simp add: e_def)
  ultimately show ?thesis using e by (intro exI [of _ e]) (simp add: redisReaderGetReply_def redisReaderFeed_def)
qed

theorem reader_protocol_error_witness:
  "\<exists>r'. redisReaderGetReply (reader_on ''@foo'', []) = Inr (REDIS_ERR, 0, r', []) \<and> r_err r' = REDIS_ERR_PROTOCOL \<and> r_buf r' = None"
  using reader_protocol_error [of "reader_on ''@foo''" "CHR ''@''" "''foo''" "[]"] reader_on [of "''@foo''"]
  by (auto simp: type_of_byte_def)

text \<open>
  C30. Progress: on an sds buffer with the cursor inside the received bytes, every item the parser completes moves the cursor
  forward and leaves it inside the received bytes, and leaves the buffer and the settings of the reader as they are.
  So the loop of \<^verbatim>\<open>redisReaderGetReply\<close> ends, on malformed input and for all object functions too: it completes some number
  of items, at most as many as there are bytes from the cursor on, and returns as its last round leaves it, in which no item is
  under way or the item is not completed.
\<close>

theorem processItem_progress:
  assumes "reader_input r"
  shows "(\<forall>r' h'. processItem (r, h) = Inr (REDIS_OK, r', h') \<longrightarrow>
      r_pos r < r_pos r' \<and> r_pos r' \<le> r_len r' \<and> r_buf r' = r_buf r \<and> r_len r' = r_len r \<and> r_err r' = r_err r \<and> r_fn r' = r_fn r \<and>
      reader_input r') \<and>
    (\<exists>n r' h'. (item_step ^^ n) (r, h) (r', h') \<and> (\<nexists>e. item_step (r', h') e) \<and> r_pos r + int n \<le> r_pos r' \<and> r_pos r' \<le> r_len r \<and>
      r_buf r' = r_buf r \<and> process_loop (r, h) = loop_end (r', h'))"
proof (intro conjI allI impI)
  fix r' h' assume p: "processItem (r, h) = Inr (REDIS_OK, r', h')"
  show "r_pos r < r_pos r'" "r_pos r' \<le> r_len r'" "r_buf r' = r_buf r" "r_len r' = r_len r" "r_err r' = r_err r" "r_fn r' = r_fn r"
    "reader_input r'"
    using processItem_forward [OF assms p] by (simp_all add: same_input_def)
next
  obtain n r' h' where n: "(item_step ^^ n) (r, h) (r', h')" "\<nexists>e. item_step (r', h') e" "process_loop (r, h) = loop_end (r', h')"
    using process_loop_steps [of "(r, h)"] by auto
  then show "\<exists>n r' h'. (item_step ^^ n) (r, h) (r', h') \<and> (\<nexists>e. item_step (r', h') e) \<and> r_pos r + int n \<le> r_pos r' \<and>
      r_pos r' \<le> r_len r \<and> r_buf r' = r_buf r \<and> process_loop (r, h) = loop_end (r', h')"
    using item_steps_forward [OF n(1) assms] by (intro exI [of _ n] exI [of _ r'] exI [of _ h']) simp
qed

definition reader_at_item :: "bytes \<Rightarrow> heap redisReader" where
  "reader_at_item bs = (reader_on bs)\<lparr>r_ridx := 0, r_stack := [root_task (reader_on bs)]\<rparr>"

theorem processItem_progress_witness:
  "\<exists>r'. processItem (reader_at_item (''+'' @ CRLF), []) = Inr (REDIS_OK, r', [Some (str_obj REDIS_REPLY_STATUS [])]) \<and> r_pos r' = 3 \<and>
     r_pos (reader_at_item (''+'' @ CRLF)) < r_pos r'"
proof -
  have i: "reader_input (reader_at_item (''+'' @ CRLF))"
    using reader_on(1) [of "''+'' @ CRLF"] by (auto simp: reader_at_item_def reader_input_def reader_idle_def split: option.splits)
  have "case processItem (reader_at_item (''+'' @ CRLF), []) of Inl e \<Rightarrow> False
      | Inr (rc, r', h) \<Rightarrow> rc = REDIS_OK \<and> h = [Some (str_obj REDIS_REPLY_STATUS [])] \<and> r_pos r' = 3"
    by code_simp
  then show ?thesis using processItem_progress [OF i, of "[]"] by (fastforce split: sum.splits)
qed

end
