(* ===== verification/FormatContract.thy ===== *)
theory FormatContract
  imports FormatSds FormatArgs ReaderContract
begin

text \<open>
  What the formatters promise: the command is the protocol's encoding of its words, whichever
  function formats it; interpolated bytes never change the number of words; and the reader
  parses a formatted command back to its words.
\<close>

lemma redisFormatCommandArgv_encode:
  assumes "argv_holds argv argvlen texts" "int (length (encode (Array (map Bulk texts)))) + 1 < 2 ^ 31"
  shows "redisFormatCommandArgv A True (int (length texts)) argv argvlen =
    (if can_alloc A (int (length (encode (Array (map Bulk texts)))) + 1)
     then Inr (int (length (encode (Array (map Bulk texts)))), Some (encode (Array (map Bulk texts)) @ [NUL])) else Inr (- 1, None))"
  using redisFormatCommandArgv_bytes [OF assms(1), of A] assms(2) by (simp only: command_bytes_encode)

text \<open>
  C18. \<^verbatim>\<open>redisFormatCommandArgv\<close> on any argument vector (lengths given, or C strings) stores the
  array of bulk strings of the arguments, terminated, inside the block it computed the size of,
  and returns its length; it fails exactly when the allocator refuses that block.
\<close>

theorem format_argv_encodes:
  assumes "argv_holds argv argvlen texts" "int (length (encode (Array (map Bulk texts)))) + 1 < 2 ^ 31"
  shows "redisFormatCommandArgv A True (int (length texts)) argv argvlen =
    (if can_alloc A (int (length (encode (Array (map Bulk texts)))) + 1)
     then Inr (int (length (encode (Array (map Bulk texts)))), Some (encode (Array (map Bulk texts)) @ [NUL])) else Inr (- 1, None))"
  by (rule redisFormatCommandArgv_encode [OF assms])

lemma one_digit: "decimal (Suc 0) = ''1''" "decimal (Suc (Suc 0)) = ''2''" "decimal (Suc (Suc (Suc 0))) = ''3''"
  by code_simp+

theorem format_argv_encodes_witness:
  "redisFormatCommandArgv libc True 2 [''GET?'', ''a'' @ [NUL]] (Some [3, 2]) =
     Inr (21, Some (''*2'' @ CRLF @ ''$3'' @ CRLF @ ''GET'' @ CRLF @ ''$2'' @ CRLF @ ''a'' @ [NUL] @ CRLF @ [NUL]))"
  using format_argv_encodes [of "[''GET?'', ''a'' @ [NUL]]" "Some [3, 2]" "[''GET'', ''a'' @ [NUL]]" libc]
  by (simp add: argv_holds_def one_digit)

text \<open>
  C29. The two argument-vector formatters agree: with memory available,
  \<^verbatim>\<open>redisFormatSdsCommandArgv\<close> returns the same length and a well-formed string with the same
  bytes as \<^verbatim>\<open>redisFormatCommandArgv\<close>.
\<close>

theorem format_sds_same_command:
  assumes "argv_holds argv argvlen texts" "int (length (encode (Array (map Bulk texts)))) < sds_limit" "\<forall>k. can_alloc A k"
  shows "\<exists>n s cmd. redisFormatSdsCommandArgv A True (int (length texts)) argv argvlen = Inr (n, Some s) \<and> sds_ok s \<and>
    redisFormatCommandArgv A True (int (length texts)) argv argvlen = Inr (n, Some cmd) \<and> cmd = sds_str s @ [NUL]"
proof -
  have l: "int (length (command_bytes texts)) < sds_limit" using assms(2) by (simp only: command_bytes_encode)
  then show ?thesis
    using redisFormatSdsCommandArgv_bytes [OF assms(1) _ assms(3)] redisFormatCommandArgv_bytes [OF assms(1), of A] assms(3) by fastforce
qed

theorem format_sds_same_command_witness:
  "\<exists>n s cmd. redisFormatSdsCommandArgv libc True 2 [''GET'' @ [NUL], [NUL]] None = Inr (n, Some s) \<and> sds_ok s \<and>
    redisFormatCommandArgv libc True 2 [''GET'' @ [NUL], [NUL]] None = Inr (n, Some cmd) \<and> cmd = sds_str s @ [NUL]"
  using format_sds_same_command [of "[''GET'' @ [NUL], [NUL]]" None "[''GET'', []]" libc] decimal_lt_10 [of 0]
  by (simp add: argv_holds_def one_digit)

text \<open>
  C19. The format string is cut into words at its own spaces only: for a format of literal text,
  \<^verbatim>\<open>%s\<close>, \<^verbatim>\<open>%b\<close> and \<^verbatim>\<open>%%\<close>, \<^verbatim>\<open>redisFormatCommand\<close> encodes exactly the words of \<open>expand\<close>, in
  which an interpolated argument is part of one word whatever bytes it holds.
\<close>

theorem format_command_words:
  assumes "\<forall>k. can_alloc A k" "expand f ap [] False = Some args" "NUL \<notin> set f" "int (length (encode (Array (map Bulk args)))) < sds_limit"
  shows "redisFormatCommand A pf True (f @ [NUL]) ap =
    Inr (int (length (encode (Array (map Bulk args)))), Some (encode (Array (map Bulk args)) @ [NUL]))"
  using redisvFormatCommand_bytes [OF assms(1-3), of pf] assms(4) by (simp add: redisFormatCommand_def command_bytes_encode)

theorem format_command_words_witness:
  "redisFormatCommand libc (\<lambda>spec v. []) True (''SET %s x%b'' @ [NUL]) [VPtr (''a b'' @ [NUL]), VPtr [CR, LF, CHR '' ''], VSize 2] =
     Inr (int (length (encode (Array (map Bulk [''SET'', ''a b'', CHR ''x'' # CRLF])))), Some (encode (Array (map Bulk [''SET'', ''a b'', CHR ''x'' # CRLF])) @ [NUL]))"
proof -
  have "expand ''SET %s x%b'' [VPtr (''a b'' @ [NUL]), VPtr [CR, LF, CHR '' ''], VSize 2] [] False = Some [''SET'', ''a b'', CHR ''x'' # CRLF]"
    by code_simp
  from format_command_words [OF _ this, of libc "\<lambda>spec v. []"] show ?thesis by (simp add: one_digit)
qed

text \<open>
  C28. A formatted command is parsed back: a new reader fed with what
  \<^verbatim>\<open>redisFormatCommandArgv\<close> stored returns the array of the arguments as bulk strings, and has
  nothing left.
\<close>

theorem format_reader_roundtrip:
  assumes "\<forall>k. can_alloc A k" "argv_holds argv argvlen texts" "int (length (encode (Array (map Bulk texts)))) < sds_limit"
  shows "\<exists>n cmd r0 r1 r2 obj h'. redisFormatCommandArgv A True (int (length texts)) argv argvlen = Inr (n, Some cmd) \<and>
    redisReaderCreate A = Inr (Some r0) \<and> redisReaderFeed A (r0, []) (Some cmd) n = Inr (REDIS_OK, r1, []) \<and>
    redisReaderGetReply (r1, []) = Inr (REDIS_OK, obj, r2, h') \<and> rep_at h' obj (Array (map Bulk texts)) \<and> unread r2 = []"
proof -
  let ?rep = "Array (map Bulk texts)"
  let ?cmd = "encode ?rep @ [NUL]" and ?n = "length (encode ?rep)"
  have f: "redisFormatCommandArgv A True (int (length texts)) argv argvlen = Inr (int ?n, Some ?cmd)"
    using redisFormatCommandArgv_encode [OF assms(2), of A] assms(1,3) by simp
  obtain r0 where r0: "redisReaderCreate A = Inr (Some r0)" "reader_idle r0" "unread r0 = []" "received r0 = 0" "r_fn r0 = Some (defaultFunctions A)"
    using reader_created [OF assms(1)] by blast
  have lim: "int (received r0 + ?n) < sds_limit" using assms(3) r0(4) by simp
  obtain r1 where r1: "redisReaderFeed A (r0, []) (Some ?cmd) (int ?n) = Inr (REDIS_OK, r1, [])" "reader_idle r1" "unread r1 = encode ?rep"
      "r_fn r1 = Some (defaultFunctions A)"
  proof (rule redisReaderFeed_cases [OF r0(2) assms(1) [rule_format] _ lim, of ?cmd "[]"])
  qed (use that r0(3,5) assms(1) in auto)
  have "length texts < 2 ^ 31" using assms(3) encode_count [of "map Bulk texts"] by simp
  then have wf: "wf_at 0 ?rep" by auto
  obtain r2 where "redisReaderGetReply (r1, []) = Inr (REDIS_OK, Suc 0, r2, map Some (objs 0 ?rep))" "unread r2 = []"
    using get_reply_objs [OF assms(1) r1(2,4), of ?rep "[]" "[]"] r1(3) wf by auto
  then show ?thesis using f r0(1) r1(1) objs_rep_at(1) [of 0 "[]" ?rep "[]"] by auto
qed

theorem format_reader_roundtrip_witness:
  "\<exists>n cmd r0 r1 r2 obj h'. redisFormatCommandArgv libc True 2 [''GET'' @ [NUL], ''k'' @ [NUL]] None = Inr (n, Some cmd) \<and>
    redisReaderCreate libc = Inr (Some r0) \<and> redisReaderFeed libc (r0, []) (Some cmd) n = Inr (REDIS_OK, r1, []) \<and>
    redisReaderGetReply (r1, []) = Inr (REDIS_OK, obj, r2, h') \<and> rep_at h' obj (Array [Bulk ''GET'', Bulk ''k'']) \<and> unread r2 = []"
  using format_reader_roundtrip [of libc "[''GET'' @ [NUL], ''k'' @ [NUL]]" None "[''GET'', ''k'']"]
  by (simp add: argv_holds_def one_digit del: rep_at.simps)

text \<open>A field width that runs into the terminator.\<close>

lemma skip_fmt_to:
  "\<forall>d\<in>set ds. d \<noteq> NUL \<and> P d \<Longrightarrow> x = NUL \<or> \<not> P x \<Longrightarrow>
    skip_fmt P (pre @ ds @ x # rest) (int (length pre)) = Inr (int (length (pre @ ds)))"
proof (induction ds arbitrary: pre)
  case Nil
  then show ?case using rd_at [OF refl, of 0 "x # rest" pre] by (subst skip_fmt.simps) auto
next
  case (Cons d ds)
  have "rd (pre @ (d # ds) @ x # rest) (int (length pre)) = Inr d" using rd_at [OF refl, of 0 "(d # ds) @ x # rest" pre] by simp
  then show ?case using Cons.IH [of "pre @ [d]"] Cons.prems by (subst skip_fmt.simps) (simp add: add.commute)
qed

lemma detect_truncated:
  assumes "\<forall>d\<in>set ds. is_digit d"
  shows "detect_conv (pre @ ds @ [NUL]) (int (length pre)) = Inr (Some (int (length (pre @ ds)), TInt))"
proof -
  let ?F = "\<lambda>c. c \<in> set ''#0-+ ''"
  define zs where "zs = takeWhile ?F ds"
  define es where "es = dropWhile ?F ds"
  have ds: "ds = zs @ es" "\<forall>d\<in>set es. is_digit d" using assms by (auto simp: zs_def es_def dest: set_dropWhileD)
  have nn: "is_digit d \<Longrightarrow> d \<noteq> NUL" for d by (auto simp: is_digit_def)
  have z: "\<forall>d\<in>set zs. d \<noteq> NUL \<and> ?F d" unfolding zs_def by (auto dest: set_takeWhileD)
  have "skip_fmt ?F (pre @ ds @ [NUL]) (int (length pre)) = Inr (int (length (pre @ zs)))"
  proof (cases es)
    case Nil
    then show ?thesis using skip_fmt_to [of zs ?F NUL pre "[]"] z ds(1) by simp
  next
    case (Cons x xs)
    then have "\<not> ?F x" using hd_dropWhile [of ?F ds] by (simp add: es_def)
    then show ?thesis using skip_fmt_to [of zs ?F x pre "xs @ [NUL]"] z ds(1) Cons by simp
  qed
  moreover have "skip_fmt is_digit (pre @ ds @ [NUL]) (int (length (pre @ zs))) = Inr (int (length (pre @ ds)))"
    using skip_fmt_to [of es is_digit NUL "pre @ zs" "[]"] ds nn by simp
  moreover have "rd (pre @ ds @ [NUL]) (int (length (pre @ ds))) = Inr NUL"
    using rd_at [OF refl, of 0 "[NUL]" "pre @ ds"] by simp
  ultimately show ?thesis by (simp add: detect_conv_def skip_width_def conv_letter_def)
qed

text \<open>
  C35. A conversion cut off by the end of the format: \<^verbatim>\<open>strchr\<close> finds the terminator in the list of conversion letters, so a
  format that ends in a percent sign and a field width of one to eleven digits is taken for an integer conversion whose letter is
  the terminating zero byte, and behind that letter, where the scan would go on, the format has no byte. Whatever the literal text
  before it and whatever the arguments, the call is undefined: there is no argument of type \<^verbatim>\<open>int\<close> to fetch, or an incomplete
  specification is handed to \<^verbatim>\<open>vsnprintf\<close>. The caller gets neither a command nor the answer for an invalid format.
\<close>

theorem format_truncated_overruns:
  assumes "\<forall>k. can_alloc A k" "CHR ''%'' \<notin> set t" "NUL \<notin> set t" "16 * int (length t) < sds_limit"
    "\<forall>d\<in>set ds. is_digit d" "ds \<noteq> []" "length ds < 12" "fmt = t @ CHR ''%'' # ds @ [NUL]"
  shows "detect_conv fmt (int (length t) + 1) = Inr (Some (int (length fmt) - 1, TInt)) \<and> rd fmt (int (length fmt)) = Inl OutOfBounds \<and>
    redisvFormatCommand A pf True fmt ap =
      Inl (case ap of [] \<Rightarrow> BadVaArg | v # ap \<Rightarrow> if has_type v TInt then BadFormat else BadVaArg)"
proof -
  let ?st = "\<lparr>f_cur = sds_of [], f_touched = False, f_argv = [], f_totlen = 0\<rparr>" and ?p = "int (length t)"
  have len: "int (length fmt) = ?p + int (length ds) + 2" by (simp add: assms(8))
  note dc = detect_truncated [OF assms(5), of "t @ ''%''", simplified]
  have conv: "detect_conv fmt (?p + 1) = Inr (Some (?p + int (length ds) + 1, TInt))" using dc by (simp add: assms(8) add.commute)
  have e: "sdsempty A = Inr (Some (sds_of []))" using assms(1) by (simp add: sdsempty_spec sds_of_def)
  have "fstate_ok ?st" "room ?st (length t)" using assms(4) sds_of [of "[]"] by (simp_all add: fstate_ok_def room_def)
  from format_loop_text [OF assms(1) this assms(2,3), of pf "[]" "CHR ''%'' # ds @ [NUL]" ap] obtain st' where
    l: "format_loop A pf fmt 0 ?st ap = format_loop A pf fmt ?p st' ap" by (auto simp: assms(8))
  obtain d es where ds: "ds = d # es" using assms(6) by (cases ds) auto
  have d: "d \<noteq> NUL" "d \<noteq> CHR ''s''" "d \<noteq> CHR ''b''" "d \<noteq> CHR ''%''" using assms(5) ds by (auto simp: is_digit_def)
  have r: "rd fmt ?p = Inr CHR ''%''" "rd fmt (?p + 1) = Inr d"
    using rd_at [OF refl, of 0 "CHR ''%'' # ds @ [NUL]" t] rd_at [OF refl, of 1 "CHR ''%'' # ds @ [NUL]" t] by (simp_all add: assms(8) ds)
  have spec: "rdn fmt ?p (uint64 (int (length ds) + 2)) = Inr (CHR ''%'' # ds @ [NUL])" "uint64 (int (length ds) + 2) < 14"
    using assms(7) by (simp_all add: rdn_def cint assms(8) ds)
  have "printf_conv A pf fmt ?p st' ap (?p + int (length ds) + 1) TInt =
      Inl (case ap of [] \<Rightarrow> BadVaArg | v # ap \<Rightarrow> if has_type v TInt then BadFormat else BadVaArg)"
    using spec by (simp add: printf_conv_def Let_def add.commute split: list.split)
  then have "format_step A pf fmt ?p CHR ''%'' st' ap = Inl (case ap of [] \<Rightarrow> BadVaArg | v # ap \<Rightarrow> if has_type v TInt then BadFormat else BadVaArg)"
    using r(2) d conv by (simp add: format_step_def format_conv_def)
  then have "format_loop A pf fmt ?p st' ap = Inl (case ap of [] \<Rightarrow> BadVaArg | v # ap \<Rightarrow> if has_type v TInt then BadFormat else BadVaArg)"
    using r(1) by (subst format_loop.simps) simp
  then show ?thesis using e l conv len by (simp add: redisvFormatCommand_def rd_def)
qed

theorem format_truncated_overruns_witness:
  "redisvFormatCommand libc (\<lambda>spec v. ''   42'') True (''SET k '' @ [CHR ''%'', CHR ''5'', NUL]) [VInt 42] = Inl BadFormat"
  using format_truncated_overruns [of libc "''SET k ''" "''5''" "''SET k '' @ [CHR ''%'', CHR ''5'', NUL]" "\<lambda>spec v. ''   42''" "[VInt 42]"]
  by (simp add: is_digit_def)

end
