(* ===== verification/Context.thy ===== *)
theory Context
  imports FormatContract
begin

unbundle bit_operations_syntax

text \<open>
  The connection of \<^verbatim>\<open>redis/hiredis/hiredis.c\<close>: \<^verbatim>\<open>struct redisContext\<close>, its buffered reads and
  writes, and the command functions. The system calls on the socket are a parameter over a state
  \<open>'w\<close> of the outside world; a failed call carries its \<^verbatim>\<open>errno\<close>. The two loops of
  \<^verbatim>\<open>redisGetReply\<close> may wait for ever, so they are partial functions whose value \<open>None\<close> is not
  returning. The functions that connect a context are in \<open>Net\<close> and \<open>Connect\<close>.
\<close>

section \<open>Data\<close>

datatype errno = EAGAIN | EINTR | EINPROGRESS | EHOSTUNREACH | EADDRNOTAVAIL | ETIMEDOUT | EOther int

record 'w system =
  sys_read :: "int \<Rightarrow> int \<Rightarrow> 'w \<Rightarrow> (errno + bytes) \<times> 'w"
  sys_write :: "int \<Rightarrow> bytes \<Rightarrow> 'w \<Rightarrow> (errno + int) \<times> 'w"
  sys_close :: "int \<Rightarrow> 'w \<Rightarrow> 'w"
  sys_strerror :: "errno \<Rightarrow> bytes"

abbreviation (input) REDIS_BLOCK :: int where "REDIS_BLOCK \<equiv> 1"
abbreviation (input) REDIS_CONNECTED :: int where "REDIS_CONNECTED \<equiv> 2"

datatype redisConnectionType = REDIS_CONN_TCP | REDIS_CONN_UNIX

record redisContext =
  c_err :: int
  c_errstr :: bytes
  c_fd :: int
  c_flags :: int
  c_obuf :: "sds option"
  c_reader :: "heap redisReader option"
  c_type :: redisConnectionType
  c_timeout :: "(int \<times> int) option"
  c_host :: "bytes option"
  c_source_addr :: "bytes option"
  c_port :: int
  c_path :: "bytes option"

type_synonym 'w cstate = "redisContext \<times> heap \<times> 'w"

definition is_block :: "redisContext \<Rightarrow> bool" where
  "is_block c \<longleftrightarrow> c_flags c AND REDIS_BLOCK \<noteq> 0"

section \<open>Errors\<close>

text \<open>\<open>Inl e\<close> is the NULL description, for which the text of \<^verbatim>\<open>errno\<close> is stored.\<close>

definition redisSetError :: "'w system \<Rightarrow> redisContext \<Rightarrow> int \<Rightarrow> errno + bytes \<Rightarrow> redisContext res" where
  "redisSetError S c type str =
     (let c = c\<lparr>c_err := type\<rparr> in
      case str of
        Inr str \<Rightarrow>
          bindR (strlen str) (\<lambda>len.
          let len = (if len < 127 then len else 127) in
          bindR (memcpy (c_errstr c) 0 str 0 len) (\<lambda>es.
          bindR (wr es len NUL) (\<lambda>es. Inr (c\<lparr>c_errstr := es\<rparr>))))
      | Inl e \<Rightarrow>
          bindR (assertR (type = REDIS_ERR_IO)) (\<lambda>_.
          bindR (wrn (c_errstr c) 0 (take 127 (sys_strerror S e) @ [NUL])) (\<lambda>es. Inr (c\<lparr>c_errstr := es\<rparr>))))"

text \<open>The error of the reader becomes the error of the context.\<close>

definition reader_error :: "'w system \<Rightarrow> redisContext \<Rightarrow> redisContext res" where
  "reader_error S c =
     bindR (deref (c_reader c)) (\<lambda>r. redisSetError S c (r_err r) (Inr (r_errstr r)))"

section \<open>Life cycle\<close>

definition redisFree :: "'w system \<Rightarrow> 'w cstate \<Rightarrow> (heap \<times> 'w) res" where
  "redisFree S st =
     (let (c, h, w) = st;
          w = (if c_fd c > 0 then sys_close S (c_fd c) w else w) in
      bindR (case c_reader c of None \<Rightarrow> Inr h | Some r \<Rightarrow> redisReaderFree (r, h)) (\<lambda>h. Inr (h, w)))"

definition redisFreeKeepFd :: "'w system \<Rightarrow> 'w cstate \<Rightarrow> (int \<times> heap \<times> 'w) res" where
  "redisFreeKeepFd S st =
     (let (c, h, w) = st in
      bindR (redisFree S (c\<lparr>c_fd := - 1\<rparr>, h, w)) (\<lambda>(h, w). Inr (c_fd c, h, w)))"

text \<open>\<open>None\<close> is the NULL context; \<^verbatim>\<open>calloc\<close> has cleared the fields that are not set.\<close>

definition redisContextInit :: "'w system \<Rightarrow> allocator \<Rightarrow> heap \<times> 'w \<Rightarrow> (redisContext option \<times> heap \<times> 'w) res" where
  "redisContextInit S A hw =
     (if \<not> can_alloc A 208 then Inr (None, hw)
      else
        bindR (sdsempty A) (\<lambda>obuf. bindR (redisReaderCreate A) (\<lambda>reader.
        let c = \<lparr>c_err = 0, c_errstr = replicate 128 NUL, c_fd = 0, c_flags = 0, c_obuf = obuf, c_reader = reader,
                 c_type = REDIS_CONN_TCP, c_timeout = None, c_host = None, c_source_addr = None, c_port = 0, c_path = None\<rparr> in
        if obuf = None \<or> reader = None then bindR (redisFree S (c, hw)) (\<lambda>hw. Inr (None, hw))
        else Inr (Some c, hw))))"

definition redisConnectFd :: "'w system \<Rightarrow> allocator \<Rightarrow> int \<Rightarrow> heap \<times> 'w \<Rightarrow> (redisContext option \<times> heap \<times> 'w) res" where
  "redisConnectFd S A fd hw =
     bindR (redisContextInit S A hw) (\<lambda>(c, hw).
     Inr (case c of
            None \<Rightarrow> (None, hw)
          | Some c \<Rightarrow> (Some (c\<lparr>c_fd := fd, c_flags := c_flags c OR (REDIS_BLOCK OR REDIS_CONNECTED)\<rparr>), hw)))"

section \<open>Buffered input and output\<close>

definition try_again :: "redisContext \<Rightarrow> errno \<Rightarrow> bool" where
  "try_again c e \<longleftrightarrow> (e = EAGAIN \<and> \<not> is_block c) \<or> e = EINTR"

definition redisBufferRead :: "'w system \<Rightarrow> allocator \<Rightarrow> 'w cstate \<Rightarrow> (int \<times> 'w cstate) res" where
  "redisBufferRead S A st =
     (let (c, h, w) = st in
      if c_err c \<noteq> 0 then Inr (REDIS_ERR, c, h, w)
      else
        let (nread, w) = sys_read S (c_fd c) 16384 w in
        case nread of
          Inl e \<Rightarrow>
            if try_again c e then Inr (REDIS_OK, c, h, w)
            else bindR (redisSetError S c REDIS_ERR_IO (Inl e)) (\<lambda>c. Inr (REDIS_ERR, c, h, w))
        | Inr buf \<Rightarrow>
            if buf = [] then
              bindR (redisSetError S c REDIS_ERR_EOF (Inr (''Server closed the connection'' @ [NUL]))) (\<lambda>c. Inr (REDIS_ERR, c, h, w))
            else
              bindR (deref (c_reader c)) (\<lambda>r.
              bindR (redisReaderFeed A (r, h) (Some buf) (int (length buf))) (\<lambda>(rc, r, h).
              let c = c\<lparr>c_reader := Some r\<rparr> in
              if rc \<noteq> REDIS_OK then bindR (reader_error S c) (\<lambda>c. Inr (REDIS_ERR, c, h, w))
              else Inr (REDIS_OK, c, h, w))))"

text \<open>\<^verbatim>\<open>*done = (sdslen(c->obuf) == 0); return REDIS_OK;\<close>\<close>

definition write_done :: "'w cstate \<Rightarrow> (int \<times> bool option \<times> 'w cstate) res" where
  "write_done st = bindR (deref (c_obuf (fst st))) (\<lambda>s. Inr (REDIS_OK, Some (sdslen s = 0), st))"

text \<open>The result, the value stored through \<^verbatim>\<open>done\<close>, the state. An output buffer that could not be
  allocated anew is dereferenced.\<close>

definition redisBufferWrite :: "'w system \<Rightarrow> allocator \<Rightarrow> 'w cstate \<Rightarrow> (int \<times> bool option \<times> 'w cstate) res" where
  "redisBufferWrite S A st =
     (let (c, h, w) = st in
      if c_err c \<noteq> 0 then Inr (REDIS_ERR, None, c, h, w)
      else
        bindR (deref (c_obuf c)) (\<lambda>s.
        if sdslen s > 0
        then
          bindR (rdn (sh_buf s) 0 (sdslen s)) (\<lambda>out.
          let (nwritten, w) = sys_write S (c_fd c) out w in
          case nwritten of
            Inl e \<Rightarrow>
              if try_again c e then write_done (c, h, w)
              else bindR (redisSetError S c REDIS_ERR_IO (Inl e)) (\<lambda>c. Inr (REDIS_ERR, None, c, h, w))
          | Inr n \<Rightarrow>
              if int32 n > 0
              then if int32 n = int32 (sdslen s)
                   then bindR (sdsempty A) (\<lambda>e. write_done (c\<lparr>c_obuf := e\<rparr>, h, w))
                   else bindR (sdsrange s (int32 n) (- 1)) (\<lambda>s. write_done (c\<lparr>c_obuf := Some s\<rparr>, h, w))
              else write_done (c, h, w))
        else write_done (c, h, w)))"

section \<open>Replies\<close>

definition redisGetReplyFromReader :: "'w system \<Rightarrow> 'w cstate \<Rightarrow> (int \<times> nat \<times> 'w cstate) res" where
  "redisGetReplyFromReader S st =
     (let (c, h, w) = st in
      bindR (deref (c_reader c)) (\<lambda>r.
      bindR (redisReaderGetReply (r, h)) (\<lambda>(rc, reply, r, h).
      let c = c\<lparr>c_reader := Some r\<rparr> in
      if rc = REDIS_ERR then bindR (reader_error S c) (\<lambda>c. Inr (REDIS_ERR, reply, c, h, w))
      else Inr (REDIS_OK, reply, c, h, w))))"

text \<open>\<^verbatim>\<open>do { if (redisBufferWrite(c,&wdone) == REDIS_ERR) return REDIS_ERR; } while (!wdone);\<close>\<close>

partial_function (option) write_until_done :: "'w system \<Rightarrow> allocator \<Rightarrow> 'w cstate \<Rightarrow> (int \<times> 'w cstate) res option" where
  "write_until_done S A st =
     (case redisBufferWrite S A st of
        Inl e \<Rightarrow> Some (Inl e)
      | Inr (rc, wdone, st) \<Rightarrow>
          if rc = REDIS_ERR then Some (Inr (REDIS_ERR, st))
          else if wdone = Some True then Some (Inr (REDIS_OK, st))
          else write_until_done S A st)"

text \<open>\<^verbatim>\<open>do { redisBufferRead; redisGetReplyFromReader; } while (aux == NULL);\<close>\<close>

partial_function (option) read_until_reply :: "'w system \<Rightarrow> allocator \<Rightarrow> 'w cstate \<Rightarrow> (int \<times> nat \<times> 'w cstate) res option" where
  "read_until_reply S A st =
     (case redisBufferRead S A st of
        Inl e \<Rightarrow> Some (Inl e)
      | Inr (rc, st) \<Rightarrow>
          if rc = REDIS_ERR then Some (Inr (REDIS_ERR, 0, st))
          else
            (case redisGetReplyFromReader S st of
               Inl e \<Rightarrow> Some (Inl e)
             | Inr (rc, aux, st) \<Rightarrow>
                 if rc = REDIS_ERR then Some (Inr (REDIS_ERR, 0, st))
                 else if aux = 0 then read_until_reply S A st
                 else Some (Inr (REDIS_OK, aux, st))))"

text \<open>The result, the reply stored through the pointer (0 if the function fails), the state.\<close>

definition redisGetReply :: "'w system \<Rightarrow> allocator \<Rightarrow> 'w cstate \<Rightarrow> (int \<times> nat \<times> 'w cstate) res option" where
  "redisGetReply S A st =
     (case redisGetReplyFromReader S st of
        Inl e \<Rightarrow> Some (Inl e)
      | Inr (rc, aux, st) \<Rightarrow>
          if rc = REDIS_ERR then Some (Inr (REDIS_ERR, 0, st))
          else if aux = 0 \<and> is_block (fst st) then
            (case write_until_done S A st of
               None \<Rightarrow> None
             | Some (Inl e) \<Rightarrow> Some (Inl e)
             | Some (Inr (rc, st)) \<Rightarrow>
                 if rc = REDIS_ERR then Some (Inr (REDIS_ERR, 0, st)) else read_until_reply S A st)
          else Some (Inr (REDIS_OK, aux, st)))"

section \<open>Commands\<close>

definition redisAppendCommand_raw :: "'w system \<Rightarrow> allocator \<Rightarrow> redisContext \<Rightarrow> bytes \<Rightarrow> int \<Rightarrow> (int \<times> redisContext) res" where
  "redisAppendCommand_raw S A c cmd len =
     bindR (deref (c_obuf c)) (\<lambda>s.
     bindR (sdscatlen A s cmd len) (\<lambda>newbuf.
     case newbuf of
       None \<Rightarrow> bindR (redisSetError S c REDIS_ERR_OOM (Inr (''Out of memory'' @ [NUL]))) (\<lambda>c. Inr (REDIS_ERR, c))
     | Some s \<Rightarrow> Inr (REDIS_OK, c\<lparr>c_obuf := Some s\<rparr>)))"

definition redisAppendFormattedCommand :: "'w system \<Rightarrow> allocator \<Rightarrow> redisContext \<Rightarrow> bytes \<Rightarrow> int \<Rightarrow> (int \<times> redisContext) res" where
  "redisAppendFormattedCommand S A c cmd len =
     bindR (redisAppendCommand_raw S A c cmd len) (\<lambda>(rc, c). Inr (if rc \<noteq> REDIS_OK then REDIS_ERR else REDIS_OK, c))"

definition redisvAppendCommand ::
  "'w system \<Rightarrow> allocator \<Rightarrow> (bytes \<Rightarrow> va \<Rightarrow> bytes) \<Rightarrow> redisContext \<Rightarrow> bytes \<Rightarrow> va list \<Rightarrow> (int \<times> redisContext) res" where
  "redisvAppendCommand S A pf c fmt ap =
     bindR (redisvFormatCommand A pf True fmt ap) (\<lambda>(len, cmd).
     if len = - 1 then bindR (redisSetError S c REDIS_ERR_OOM (Inr (''Out of memory'' @ [NUL]))) (\<lambda>c. Inr (REDIS_ERR, c))
     else if len = - 2 then bindR (redisSetError S c REDIS_ERR_OTHER (Inr (''Invalid format string'' @ [NUL]))) (\<lambda>c. Inr (REDIS_ERR, c))
     else bindR (deref cmd) (\<lambda>cmd.
          bindR (redisAppendCommand_raw S A c cmd (uint64 len)) (\<lambda>(rc, c).
          Inr (if rc \<noteq> REDIS_OK then REDIS_ERR else REDIS_OK, c))))"

definition redisAppendCommand ::
  "'w system \<Rightarrow> allocator \<Rightarrow> (bytes \<Rightarrow> va \<Rightarrow> bytes) \<Rightarrow> redisContext \<Rightarrow> bytes \<Rightarrow> va list \<Rightarrow> (int \<times> redisContext) res" where
  "redisAppendCommand S A pf c fmt ap = redisvAppendCommand S A pf c fmt ap"

definition redisAppendCommandArgv ::
  "'w system \<Rightarrow> allocator \<Rightarrow> redisContext \<Rightarrow> int \<Rightarrow> bytes list \<Rightarrow> int list option \<Rightarrow> (int \<times> redisContext) res" where
  "redisAppendCommandArgv S A c argc argv argvlen =
     bindR (redisFormatSdsCommandArgv A True argc argv argvlen) (\<lambda>(len, cmd).
     if len = - 1 then bindR (redisSetError S c REDIS_ERR_OOM (Inr (''Out of memory'' @ [NUL]))) (\<lambda>c. Inr (REDIS_ERR, c))
     else bindR (deref cmd) (\<lambda>cmd.
          bindR (redisAppendCommand_raw S A c (sh_buf cmd) (uint64 len)) (\<lambda>(rc, c).
          Inr (if rc \<noteq> REDIS_OK then REDIS_ERR else REDIS_OK, c))))"

text \<open>The reply's address, 0 for NULL.\<close>

definition redisBlockForReply :: "'w system \<Rightarrow> allocator \<Rightarrow> 'w cstate \<Rightarrow> (nat \<times> 'w cstate) res option" where
  "redisBlockForReply S A st =
     (if is_block (fst st)
      then case redisGetReply S A st of
             None \<Rightarrow> None
           | Some (Inl e) \<Rightarrow> Some (Inl e)
           | Some (Inr (rc, reply, st)) \<Rightarrow> Some (Inr (if rc \<noteq> REDIS_OK then 0 else reply, st))
      else Some (Inr (0, st)))"

definition after_append :: "'w system \<Rightarrow> allocator \<Rightarrow> (int \<times> redisContext) res \<Rightarrow> heap \<times> 'w \<Rightarrow> (nat \<times> 'w cstate) res option" where
  "after_append S A m hw =
     (case m of
        Inl e \<Rightarrow> Some (Inl e)
      | Inr (rc, c) \<Rightarrow> if rc \<noteq> REDIS_OK then Some (Inr (0, c, hw)) else redisBlockForReply S A (c, hw))"

definition redisvCommand ::
  "'w system \<Rightarrow> allocator \<Rightarrow> (bytes \<Rightarrow> va \<Rightarrow> bytes) \<Rightarrow> 'w cstate \<Rightarrow> bytes \<Rightarrow> va list \<Rightarrow> (nat \<times> 'w cstate) res option" where
  "redisvCommand S A pf st fmt ap = after_append S A (redisvAppendCommand S A pf (fst st) fmt ap) (snd st)"

definition redisCommand ::
  "'w system \<Rightarrow> allocator \<Rightarrow> (bytes \<Rightarrow> va \<Rightarrow> bytes) \<Rightarrow> 'w cstate \<Rightarrow> bytes \<Rightarrow> va list \<Rightarrow> (nat \<times> 'w cstate) res option" where
  "redisCommand S A pf st fmt ap = redisvCommand S A pf st fmt ap"

definition redisCommandArgv ::
  "'w system \<Rightarrow> allocator \<Rightarrow> 'w cstate \<Rightarrow> int \<Rightarrow> bytes list \<Rightarrow> int list option \<Rightarrow> (nat \<times> 'w cstate) res option" where
  "redisCommandArgv S A st argc argv argvlen = after_append S A (redisAppendCommandArgv S A (fst st) argc argv argvlen) (snd st)"

end
