(* ===== verification/Net.thy ===== *)
theory Net
  imports Context
begin

unbundle bit_operations_syntax

text \<open>
  Socket set-up, \<^verbatim>\<open>redis/hiredis/net.c\<close>, and the connect functions of \<^verbatim>\<open>hiredis.c\<close> over it. The socket
  calls are a second parameter beside the reads and writes; \<^verbatim>\<open>errno\<close> is part of the world, since the
  code reads it long after the call that set it. An argument that may be the context's own field is
  either \<open>Same\<close> (the very pointer of the field) or \<open>Given\<close>.
\<close>

section \<open>The socket calls\<close>

datatype sockopt = SO_REUSEADDR | SO_KEEPALIVE | TCP_KEEPIDLE | TCP_KEEPINTVL | TCP_KEEPCNT | TCP_NODELAY | SO_RCVTIMEO | SO_SNDTIMEO

datatype optval = OInt int | OTime "int \<times> int"

record addrinfo =
  ai_family :: int
  ai_socktype :: int
  ai_protocol :: int
  ai_addr :: bytes

record 'w net =
  n_errno :: "'w \<Rightarrow> errno"
  n_set_errno :: "errno \<Rightarrow> 'w \<Rightarrow> 'w"
  n_socket :: "int \<Rightarrow> int \<Rightarrow> int \<Rightarrow> 'w \<Rightarrow> int \<times> 'w"
  n_getfl :: "int \<Rightarrow> 'w \<Rightarrow> int \<times> 'w"
  n_setfl :: "int \<Rightarrow> int \<Rightarrow> 'w \<Rightarrow> int \<times> 'w"
  n_setsockopt :: "int \<Rightarrow> sockopt \<Rightarrow> optval \<Rightarrow> 'w \<Rightarrow> int \<times> 'w"
  n_so_error :: "int \<Rightarrow> 'w \<Rightarrow> (int \<times> errno option) \<times> 'w"
  n_poll_out :: "int \<Rightarrow> int \<Rightarrow> 'w \<Rightarrow> int \<times> 'w"
  n_getaddrinfo :: "bytes option \<Rightarrow> bytes option \<Rightarrow> int \<Rightarrow> 'w \<Rightarrow> (int + addrinfo list) \<times> 'w"
  n_gai_strerror :: "int \<Rightarrow> bytes"
  n_bind :: "int \<Rightarrow> bytes \<Rightarrow> 'w \<Rightarrow> int \<times> 'w"
  n_connect :: "int \<Rightarrow> bytes \<Rightarrow> 'w \<Rightarrow> int \<times> 'w"

abbreviation (input) AF_LOCAL :: int where "AF_LOCAL \<equiv> 1"
abbreviation (input) AF_INET :: int where "AF_INET \<equiv> 2"
abbreviation (input) AF_INET6 :: int where "AF_INET6 \<equiv> 10"
abbreviation (input) SOCK_STREAM :: int where "SOCK_STREAM \<equiv> 1"
abbreviation (input) O_NONBLOCK :: int where "O_NONBLOCK \<equiv> 2048"
abbreviation (input) REDIS_REUSEADDR :: int where "REDIS_REUSEADDR \<equiv> 128"
abbreviation (input) REDIS_CONNECT_RETRIES :: int where "REDIS_CONNECT_RETRIES \<equiv> 10"
abbreviation (input) REDIS_KEEPALIVE_INTERVAL :: int where "REDIS_KEEPALIVE_INTERVAL \<equiv> 15"
abbreviation (input) INT_MAX :: int where "INT_MAX \<equiv> 2 ^ 31 - 1"

text \<open>The context and the world; a status with them.\<close>

type_synonym 'w conn = "redisContext \<times> 'w"

section \<open>Errors and closing\<close>

definition redisContextCloseFd :: "'w system \<Rightarrow> 'w conn \<Rightarrow> 'w conn" where
  "redisContextCloseFd S cw =
     (let (c, w) = cw in if c_fd c \<ge> 0 then (c\<lparr>c_fd := - 1\<rparr>, sys_close S (c_fd c) w) else (c, w))"

text \<open>The buffer of 128 bytes holds the prefix and the text of \<^verbatim>\<open>errno\<close>, cut to fit.\<close>

definition redisSetErrorFromErrno :: "'w system \<Rightarrow> 'w net \<Rightarrow> 'w conn \<Rightarrow> int \<Rightarrow> bytes option \<Rightarrow> 'w conn res" where
  "redisSetErrorFromErrno S N cw type prefix =
     (let (c, w) = cw;
          buf = take 127 ((case prefix of None \<Rightarrow> [] | Some p \<Rightarrow> p @ '': '') @ sys_strerror S (n_errno N w)) @ [NUL]
      in bindR (redisSetError S c type (Inr buf)) (\<lambda>c. Inr (c, w)))"

text \<open>The error is set, the descriptor closed, the result \<^verbatim>\<open>REDIS_ERR\<close>.\<close>

definition errno_close :: "'w system \<Rightarrow> 'w net \<Rightarrow> 'w conn \<Rightarrow> bytes option \<Rightarrow> (int \<times> 'w conn) res" where
  "errno_close S N cw prefix =
     bindR (redisSetErrorFromErrno S N cw REDIS_ERR_IO prefix) (\<lambda>cw. Inr (REDIS_ERR, redisContextCloseFd S cw))"

section \<open>Options of a socket\<close>

definition redisSetReuseAddr :: "'w system \<Rightarrow> 'w net \<Rightarrow> 'w conn \<Rightarrow> (int \<times> 'w conn) res" where
  "redisSetReuseAddr S N cw =
     (let (c, w) = cw; (r, w) = n_setsockopt N (c_fd c) SO_REUSEADDR (OInt 1) w in
      if r = - 1 then errno_close S N (c, w) None else Inr (REDIS_OK, c, w))"

definition redisCreateSocket :: "'w system \<Rightarrow> 'w net \<Rightarrow> 'w conn \<Rightarrow> int \<Rightarrow> (int \<times> 'w conn) res" where
  "redisCreateSocket S N cw type =
     (let (c, w) = cw; (s, w) = n_socket N type SOCK_STREAM 0 w in
      if s = - 1 then bindR (redisSetErrorFromErrno S N (c, w) REDIS_ERR_IO None) (\<lambda>cw. Inr (REDIS_ERR, cw))
      else
        let c = c\<lparr>c_fd := s\<rparr> in
        if type = AF_INET
        then bindR (redisSetReuseAddr S N (c, w)) (\<lambda>(r, cw). Inr (if r = REDIS_ERR then (REDIS_ERR, cw) else (REDIS_OK, cw)))
        else Inr (REDIS_OK, c, w))"

definition redisSetBlocking :: "'w system \<Rightarrow> 'w net \<Rightarrow> 'w conn \<Rightarrow> bool \<Rightarrow> (int \<times> 'w conn) res" where
  "redisSetBlocking S N cw blocking =
     (let (c, w) = cw; (flags, w) = n_getfl N (c_fd c) w in
      if flags = - 1 then errno_close S N (c, w) (Some ''fcntl(F_GETFL)'')
      else
        let flags = (if blocking then flags AND NOT O_NONBLOCK else flags OR O_NONBLOCK);
            (r, w) = n_setfl N (c_fd c) flags w in
        if r = - 1 then errno_close S N (c, w) (Some ''fcntl(F_SETFL)'') else Inr (REDIS_OK, c, w))"

text \<open>The options of a keep-alive, one after the other; an error is reported with its bare text.\<close>

fun set_options :: "'w system \<Rightarrow> 'w net \<Rightarrow> 'w conn \<Rightarrow> (sockopt \<times> int) list \<Rightarrow> (int \<times> 'w conn) res" where
  "set_options S N cw [] = Inr (REDIS_OK, cw)"
| "set_options S N (c, w) ((opt, val) # opts) =
     (let (r, w) = n_setsockopt N (c_fd c) opt (OInt val) w in
      if r < 0
      then bindR (redisSetError S c REDIS_ERR_OTHER (Inr (sys_strerror S (n_errno N w) @ [NUL]))) (\<lambda>c. Inr (REDIS_ERR, c, w))
      else set_options S N (c, w) opts)"

text \<open>\<^verbatim>\<open>interval/3\<close> truncates towards zero.\<close>

definition redisKeepAlive :: "'w system \<Rightarrow> 'w net \<Rightarrow> 'w conn \<Rightarrow> int \<Rightarrow> (int \<times> 'w conn) res" where
  "redisKeepAlive S N cw interval =
     (let third = (if interval \<ge> 0 then interval div 3 else - ((- interval) div 3)) in
      set_options S N cw
        [(SO_KEEPALIVE, 1), (TCP_KEEPIDLE, interval), (TCP_KEEPINTVL, if third = 0 then 1 else third), (TCP_KEEPCNT, 3)])"

definition redisSetTcpNoDelay :: "'w system \<Rightarrow> 'w net \<Rightarrow> 'w conn \<Rightarrow> (int \<times> 'w conn) res" where
  "redisSetTcpNoDelay S N cw =
     (let (c, w) = cw; (r, w) = n_setsockopt N (c_fd c) TCP_NODELAY (OInt 1) w in
      if r = - 1 then errno_close S N (c, w) (Some ''setsockopt(TCP_NODELAY)'') else Inr (REDIS_OK, c, w))"

definition redisCheckSocketError :: "'w system \<Rightarrow> 'w net \<Rightarrow> 'w conn \<Rightarrow> (int \<times> 'w conn) res" where
  "redisCheckSocketError S N cw =
     (let (c, w) = cw; ((r, err), w) = n_so_error N (c_fd c) w in
      if r = - 1
      then bindR (redisSetErrorFromErrno S N (c, w) REDIS_ERR_IO (Some ''getsockopt(SO_ERROR)'')) (\<lambda>cw. Inr (REDIS_ERR, cw))
      else case err of
        None \<Rightarrow> Inr (REDIS_OK, c, w)
      | Some e \<Rightarrow> bindR (redisSetErrorFromErrno S N (c, n_set_errno N e w) REDIS_ERR_IO None) (\<lambda>cw. Inr (REDIS_ERR, cw)))"

definition redisContextSetTimeout :: "'w system \<Rightarrow> 'w net \<Rightarrow> 'w conn \<Rightarrow> int \<times> int \<Rightarrow> (int \<times> 'w conn) res" where
  "redisContextSetTimeout S N cw tv =
     (let (c, w) = cw; (r, w) = n_setsockopt N (c_fd c) SO_RCVTIMEO (OTime tv) w in
      if r = - 1
      then bindR (redisSetErrorFromErrno S N (c, w) REDIS_ERR_IO (Some ''setsockopt(SO_RCVTIMEO)'')) (\<lambda>cw. Inr (REDIS_ERR, cw))
      else
        let (r, w) = n_setsockopt N (c_fd c) SO_SNDTIMEO (OTime tv) w in
        if r = - 1
        then bindR (redisSetErrorFromErrno S N (c, w) REDIS_ERR_IO (Some ''setsockopt(SO_SNDTIMEO)'')) (\<lambda>cw. Inr (REDIS_ERR, cw))
        else Inr (REDIS_OK, c, w))"

section \<open>Waiting for a connection\<close>

abbreviation (input) MAX_MSEC :: int where "MAX_MSEC \<equiv> (2 ^ 63 - 1 - 999) div 1000"

text \<open>The timeout in milliseconds, \<open>- 1\<close> without one; \<open>None\<close> if it is refused. Division truncates.\<close>

definition timeout_msec :: "(int \<times> int) option \<Rightarrow> int option res" where
  "timeout_msec timeout =
     (case timeout of
        None \<Rightarrow> Inr (Some (- 1))
      | Some (sec, usec) \<Rightarrow>
          if usec > 1000000 \<or> sec > MAX_MSEC then Inr None
          else
            bindR (ck64 (sec * 1000)) (\<lambda>a.
            bindR (ck64 (usec + 999)) (\<lambda>b.
            bindR (ck64 (a + (if b \<ge> 0 then b div 1000 else - ((- b) div 1000)))) (\<lambda>msec.
            Inr (Some (if msec < 0 \<or> msec > INT_MAX then INT_MAX else msec))))))"

definition redisContextWaitReady :: "'w system \<Rightarrow> 'w net \<Rightarrow> 'w conn \<Rightarrow> (int \<times> int) option \<Rightarrow> (int \<times> 'w conn) res" where
  "redisContextWaitReady S N cw timeout =
     (let (c, w) = cw in
      bindR (timeout_msec timeout) (\<lambda>msec.
      case msec of
        None \<Rightarrow> errno_close S N (c, w) None
      | Some msec \<Rightarrow>
          if n_errno N w = EINPROGRESS
          then
            let (res, w) = n_poll_out N (c_fd c) msec w in
            if res = - 1 then errno_close S N (c, w) (Some ''poll(2)'')
            else if res = 0 then errno_close S N (c, n_set_errno N ETIMEDOUT w) None
            else bindR (redisCheckSocketError S N (c, w)) (\<lambda>(r, cw). Inr (if r \<noteq> REDIS_OK then (REDIS_ERR, cw) else (REDIS_OK, cw)))
          else errno_close S N (c, w) None))"

section \<open>Connecting\<close>

datatype 'a arg = Same | Given 'a

definition strdup :: "allocator \<Rightarrow> bytes \<Rightarrow> bytes option" where
  "strdup A s = (if can_alloc A (int (length s) + 1) then Some s else None)"

text \<open>The context's copy of the timeout. \<^verbatim>\<open>malloc\<close> is not checked.\<close>

definition keep_timeout :: "allocator \<Rightarrow> redisContext \<Rightarrow> (int \<times> int) option arg \<Rightarrow> redisContext res" where
  "keep_timeout A c timeout =
     (case timeout of
        Same \<Rightarrow> Inr c
      | Given None \<Rightarrow> Inr (c\<lparr>c_timeout := None\<rparr>)
      | Given (Some tv) \<Rightarrow>
          if c_timeout c = None \<and> \<not> can_alloc A 16 then Inl NullDeref else Inr (c\<lparr>c_timeout := Some tv\<rparr>))"

text \<open>The context takes possession of the parameters. The strings are without their terminator.\<close>

definition keep_params ::
  "allocator \<Rightarrow> redisContext \<Rightarrow> bytes arg \<Rightarrow> int \<Rightarrow> (int \<times> int) option arg \<Rightarrow> bytes option arg \<Rightarrow> redisContext res" where
  "keep_params A c addr port timeout source_addr =
     (let c = c\<lparr>c_type := REDIS_CONN_TCP, c_port := port\<rparr>;
          c = (case addr of Same \<Rightarrow> c | Given a \<Rightarrow> c\<lparr>c_host := strdup A a\<rparr>)
      in bindR (keep_timeout A c timeout) (\<lambda>c.
         Inr (case source_addr of
                Same \<Rightarrow> c
              | Given None \<Rightarrow> c\<lparr>c_source_addr := None\<rparr>
              | Given (Some a) \<Rightarrow> c\<lparr>c_source_addr := strdup A a\<rparr>)))"

text \<open>The first local address that can be bound.\<close>

fun bind_loop :: "'w net \<Rightarrow> int \<Rightarrow> addrinfo list \<Rightarrow> 'w \<Rightarrow> bool \<times> 'w" where
  "bind_loop N s [] w = (False, w)"
| "bind_loop N s (b # bs) w = (let (r, w) = n_bind N s (ai_addr b) w in if r \<noteq> - 1 then (True, w) else bind_loop N s bs w)"

text \<open>\<^verbatim>\<open>snprintf\<close> of a fixed text and a description into 128 bytes.\<close>

definition describe :: "bytes \<Rightarrow> bytes \<Rightarrow> errno + bytes" where
  "describe msg text = Inr (take 127 (msg @ text) @ [NUL])"

definition fail_with :: "'w system \<Rightarrow> 'w conn \<Rightarrow> errno + bytes \<Rightarrow> (int \<times> 'w conn) res" where
  "fail_with S cw text = bindR (redisSetError S (fst cw) REDIS_ERR_OTHER text) (\<lambda>c. Inr (REDIS_ERR, c, snd cw))"

definition bind_source :: "'w system \<Rightarrow> 'w net \<Rightarrow> 'w conn \<Rightarrow> int \<Rightarrow> int \<Rightarrow> bool \<Rightarrow> (int \<times> 'w conn) res" where
  "bind_source S N cw family s reuseaddr =
     (let (c, w) = cw in
      case c_source_addr c of
        None \<Rightarrow> Inr (REDIS_OK, c, w)
      | Some a \<Rightarrow>
          let (rv, w) = n_getaddrinfo N (Some a) None family w in
          case rv of
            Inl rv \<Rightarrow> fail_with S (c, w) (describe ''Can't get addr: '' (n_gai_strerror N rv))
          | Inr bservinfo \<Rightarrow>
              let (r, w) = (if reuseaddr then n_setsockopt N s SO_REUSEADDR (OInt 1) w else (0, w)) in
              if r < 0 then Inr (REDIS_ERR, c, w)
              else
                let (bound, w) = bind_loop N s bservinfo w in
                if \<not> bound then fail_with S (c, w) (describe ''Can't bind socket: '' (sys_strerror S (n_errno N w)))
                else Inr (REDIS_OK, c, w))"

text \<open>The end of a connection that was made: blocking again if asked for, no delay, the flag.\<close>

definition connected :: "'w system \<Rightarrow> 'w net \<Rightarrow> 'w conn \<Rightarrow> (int \<times> 'w conn) res" where
  "connected S N cw =
     bindR (if is_block (fst cw) then redisSetBlocking S N cw True else Inr (REDIS_OK, cw)) (\<lambda>(r, cw).
     if r \<noteq> REDIS_OK then Inr (REDIS_ERR, cw)
     else
       bindR (redisSetTcpNoDelay S N cw) (\<lambda>(r, c, w).
       if r \<noteq> REDIS_OK then Inr (REDIS_ERR, c, w)
       else Inr (REDIS_OK, c\<lparr>c_flags := c_flags c OR REDIS_CONNECTED\<rparr>, w)))"

text \<open>One address: finished with a status, on to the next address, or the same one again.\<close>

datatype attempt = Finished int | NextAddr | AddrRetry

definition try_connect :: "'w system \<Rightarrow> 'w net \<Rightarrow> 'w conn \<Rightarrow> int \<Rightarrow> addrinfo \<Rightarrow> bool \<Rightarrow> (attempt \<times> 'w conn) res" where
  "try_connect S N cw s p reuseaddr =
     (let (c, w) = cw; (r, w) = n_connect N s (ai_addr p) w;
          go = (\<lambda>cw. bindR (connected S N cw) (\<lambda>(r, cw). Inr (Finished r, cw)))
      in if r = - 1 then
           if n_errno N w = EHOSTUNREACH then Inr (NextAddr, redisContextCloseFd S (c, w))
           else if n_errno N w = EINPROGRESS \<and> \<not> is_block c then go (c, w)
           else if n_errno N w = EADDRNOTAVAIL \<and> reuseaddr then Inr (AddrRetry, c, w)
           else bindR (redisContextWaitReady S N (c, w) (c_timeout c)) (\<lambda>(r, cw).
                if r \<noteq> REDIS_OK then Inr (Finished REDIS_ERR, cw) else go cw)
         else go (c, w))"

definition attempt_addr :: "'w system \<Rightarrow> 'w net \<Rightarrow> 'w conn \<Rightarrow> int \<Rightarrow> addrinfo \<Rightarrow> (attempt \<times> 'w conn) res" where
  "attempt_addr S N cw family p =
     (let (c, w) = cw; reuseaddr = (c_flags c AND REDIS_REUSEADDR \<noteq> 0);
          (s, w) = n_socket N (ai_family p) (ai_socktype p) (ai_protocol p) w
      in if s = - 1 then Inr (NextAddr, c, w)
         else
           bindR (redisSetBlocking S N (c\<lparr>c_fd := s\<rparr>, w) False) (\<lambda>(r, cw).
           if r \<noteq> REDIS_OK then Inr (Finished REDIS_ERR, cw)
           else
             bindR (bind_source S N cw family s reuseaddr) (\<lambda>(r, cw).
             if r \<noteq> REDIS_OK then Inr (Finished REDIS_ERR, cw)
             else try_connect S N cw s p reuseaddr)))"

text \<open>The loop over the addresses with its \<^verbatim>\<open>goto addrretry\<close>; \<open>reuses\<close> counts over all of them.\<close>

function connect_loop :: "'w system \<Rightarrow> 'w net \<Rightarrow> int \<Rightarrow> 'w conn \<Rightarrow> int \<Rightarrow> addrinfo list \<Rightarrow> (int \<times> 'w conn) res" where
  "connect_loop S N family cw reuses [] =
     fail_with S cw (describe ''Can't create socket: '' (sys_strerror S (n_errno N (snd cw))))"
| "connect_loop S N family cw reuses (p # ps) =
     (case attempt_addr S N cw family p of
        Inl e \<Rightarrow> Inl e
      | Inr (Finished r, cw) \<Rightarrow> Inr (r, cw)
      | Inr (NextAddr, cw) \<Rightarrow> connect_loop S N family cw reuses ps
      | Inr (AddrRetry, cw) \<Rightarrow>
          if reuses + 1 \<ge> REDIS_CONNECT_RETRIES then Inr (REDIS_ERR, cw) else connect_loop S N family cw (reuses + 1) (p # ps))"
  by pat_completeness auto
termination
  by (relation "measures [\<lambda>(S, N, f, cw, n, ps). length ps, \<lambda>(S, N, f, cw, n, ps). nat (REDIS_CONNECT_RETRIES - n)]") auto

text \<open>\<^verbatim>\<open>_port\<close> holds six bytes, so five characters of the number.\<close>

definition redisContextConnectTcp_bind ::
  "'w system \<Rightarrow> 'w net \<Rightarrow> allocator \<Rightarrow> 'w conn \<Rightarrow> bytes arg \<Rightarrow> int \<Rightarrow> (int \<times> int) option arg \<Rightarrow> bytes option arg \<Rightarrow> (int \<times> 'w conn) res" where
  "redisContextConnectTcp_bind S N A cw addr port timeout source_addr =
     bindR (keep_params A (fst cw) addr port timeout source_addr) (\<lambda>c.
     let addr = (case addr of Same \<Rightarrow> c_host c | Given a \<Rightarrow> Some a);
         port = Some (take 5 (decimal_int port));
         (rv, w) = n_getaddrinfo N (c_host c) port AF_INET (snd cw)
     in case rv of
          Inr servinfo \<Rightarrow> connect_loop S N AF_INET (c, w) 0 servinfo
        | Inl _ \<Rightarrow>
            let (rv, w) = n_getaddrinfo N addr port AF_INET6 w in
            case rv of
              Inr servinfo \<Rightarrow> connect_loop S N AF_INET6 (c, w) 0 servinfo
            | Inl rv \<Rightarrow> fail_with S (c, w) (Inr (n_gai_strerror N rv @ [NUL])))"

definition redisContextConnectTcp where
  "redisContextConnectTcp S N A cw addr port timeout = redisContextConnectTcp_bind S N A cw addr port timeout (Given None)"

definition redisContextConnectBindTcp where
  "redisContextConnectBindTcp S N A cw addr port timeout source_addr = redisContextConnectTcp_bind S N A cw addr port timeout source_addr"

text \<open>The address of a local socket: the path, cut to 107 bytes.\<close>

definition redisContextConnectUnix ::
  "'w system \<Rightarrow> 'w net \<Rightarrow> allocator \<Rightarrow> 'w conn \<Rightarrow> bytes arg \<Rightarrow> (int \<times> int) option arg \<Rightarrow> (int \<times> 'w conn) res" where
  "redisContextConnectUnix S N A cw path timeout =
     (let blocking = is_block (fst cw);
          path' = (case path of Same \<Rightarrow> c_path (fst cw) | Given p \<Rightarrow> Some p) in
      bindR (redisCreateSocket S N cw AF_LOCAL) (\<lambda>(r, cw).
      if r < 0 then Inr (REDIS_ERR, cw)
      else
        bindR (redisSetBlocking S N cw False) (\<lambda>(r, cw).
        if r \<noteq> REDIS_OK then Inr (REDIS_ERR, cw)
        else
          let (c, w) = cw; c = c\<lparr>c_type := REDIS_CONN_UNIX\<rparr>;
              c = (case path of Same \<Rightarrow> c | Given p \<Rightarrow> c\<lparr>c_path := strdup A p\<rparr>) in
          bindR (keep_timeout A c timeout) (\<lambda>c.
          bindR (deref path') (\<lambda>p.
          let (r, w) = n_connect N (c_fd c) (take 107 p) w in
          bindR (if r = - 1 \<and> \<not> (n_errno N w = EINPROGRESS \<and> \<not> blocking)
                 then redisContextWaitReady S N (c, w) (c_timeout c) else Inr (REDIS_OK, c, w)) (\<lambda>(r, cw).
          if r \<noteq> REDIS_OK then Inr (REDIS_ERR, cw)
          else
            bindR (if blocking then redisSetBlocking S N cw True else Inr (REDIS_OK, cw)) (\<lambda>(r, c, w).
            if r \<noteq> REDIS_OK then Inr (REDIS_ERR, c, w)
            else Inr (REDIS_OK, c\<lparr>c_flags := c_flags c OR REDIS_CONNECTED\<rparr>, w))))))))"

end
