(* ===== verification/Connect.thy ===== *)
theory Connect
  imports Net
begin

unbundle bit_operations_syntax

text \<open>
  The connect functions of \<^verbatim>\<open>redis/hiredis/hiredis.c\<close>: a context is initialised and connected over
  \<^verbatim>\<open>net.c\<close>; a failed connection shows in its error. \<^verbatim>\<open>redisReconnect\<close> connects again with what the
  context has saved.
\<close>

text \<open>A new context whose mode is set, handed to a connect function whose status is dropped.\<close>

definition connect_new ::
  "'w system \<Rightarrow> allocator \<Rightarrow> (redisContext \<Rightarrow> redisContext) \<Rightarrow> ('w conn \<Rightarrow> (int \<times> 'w conn) res) \<Rightarrow> heap \<times> 'w \<Rightarrow>
    (redisContext option \<times> heap \<times> 'w) res" where
  "connect_new S A mode connect hw =
     bindR (redisContextInit S A hw) (\<lambda>(c, h, w).
     case c of
       None \<Rightarrow> Inr (None, h, w)
     | Some c \<Rightarrow> bindR (connect (mode c, w)) (\<lambda>(r, c, w). Inr (Some c, h, w)))"

definition blocking :: "redisContext \<Rightarrow> redisContext" where
  "blocking c = c\<lparr>c_flags := c_flags c OR REDIS_BLOCK\<rparr>"

definition nonblocking :: "redisContext \<Rightarrow> redisContext" where
  "nonblocking c = c\<lparr>c_flags := c_flags c AND NOT REDIS_BLOCK\<rparr>"

definition redisConnect where
  "redisConnect S N A ip port = connect_new S A blocking (\<lambda>cw. redisContextConnectTcp S N A cw (Given ip) port (Given None))"

definition redisConnectWithTimeout where
  "redisConnectWithTimeout S N A ip port tv = connect_new S A blocking (\<lambda>cw. redisContextConnectTcp S N A cw (Given ip) port (Given (Some tv)))"

definition redisConnectNonBlock where
  "redisConnectNonBlock S N A ip port = connect_new S A nonblocking (\<lambda>cw. redisContextConnectTcp S N A cw (Given ip) port (Given None))"

definition redisConnectUnix where
  "redisConnectUnix S N A path = connect_new S A blocking (\<lambda>cw. redisContextConnectUnix S N A cw (Given path) (Given None))"

definition redisConnectUnixWithTimeout where
  "redisConnectUnixWithTimeout S N A path tv = connect_new S A blocking (\<lambda>cw. redisContextConnectUnix S N A cw (Given path) (Given (Some tv)))"

definition redisConnectUnixNonBlock where
  "redisConnectUnixNonBlock S N A path = connect_new S A nonblocking (\<lambda>cw. redisContextConnectUnix S N A cw (Given path) (Given None))"

text \<open>These two do not test the new context for NULL.\<close>

definition connect_unchecked ::
  "'w system \<Rightarrow> allocator \<Rightarrow> (redisContext \<Rightarrow> redisContext) \<Rightarrow> ('w conn \<Rightarrow> (int \<times> 'w conn) res) \<Rightarrow> heap \<times> 'w \<Rightarrow>
    (redisContext \<times> heap \<times> 'w) res" where
  "connect_unchecked S A mode connect hw =
     bindR (redisContextInit S A hw) (\<lambda>(c, h, w).
     bindR (deref c) (\<lambda>c. bindR (connect (mode c, w)) (\<lambda>(r, c, w). Inr (c, h, w))))"

definition redisConnectBindNonBlock where
  "redisConnectBindNonBlock S N A ip port source_addr =
     connect_unchecked S A nonblocking
       (\<lambda>cw. redisContextConnectBindTcp S N A cw (Given ip) port (Given None) (Given source_addr))"

definition redisConnectBindNonBlockWithReuse where
  "redisConnectBindNonBlockWithReuse S N A ip port source_addr =
     connect_unchecked S A (\<lambda>c. (nonblocking c)\<lparr>c_flags := c_flags (nonblocking c) OR REDIS_REUSEADDR\<rparr>)
       (\<lambda>cw. redisContextConnectBindTcp S N A cw (Given ip) port (Given None) (Given source_addr))"

text \<open>The descriptor is closed if it is positive, and keeps its number until the connect function sets it.
  The new buffers are not checked; a failure shows where they are used.\<close>

definition redisReconnect :: "'w system \<Rightarrow> 'w net \<Rightarrow> allocator \<Rightarrow> 'w cstate \<Rightarrow> (int \<times> 'w cstate) res" where
  "redisReconnect S N A st =
     (let (c, h, w) = st; c = c\<lparr>c_err := 0\<rparr> in
      bindR (strlen (c_errstr c)) (\<lambda>n.
      bindR (wrn (c_errstr c) 0 (replicate (nat n) NUL)) (\<lambda>es.
      let c = c\<lparr>c_errstr := es\<rparr>; w = (if c_fd c > 0 then sys_close S (c_fd c) w else w) in
      bindR (case c_reader c of None \<Rightarrow> Inl NullDeref | Some r \<Rightarrow> redisReaderFree (r, h)) (\<lambda>h.
      bindR (sdsempty A) (\<lambda>obuf. bindR (redisReaderCreate A) (\<lambda>reader.
      let c = c\<lparr>c_obuf := obuf, c_reader := reader\<rparr> in
      bindR (case c_type c of
               REDIS_CONN_TCP \<Rightarrow> redisContextConnectBindTcp S N A (c, w) Same (c_port c) Same Same
             | REDIS_CONN_UNIX \<Rightarrow> redisContextConnectUnix S N A (c, w) Same Same) (\<lambda>(r, c, w). Inr (r, c, h, w))))))))"

definition redisSetTimeout :: "'w system \<Rightarrow> 'w net \<Rightarrow> 'w conn \<Rightarrow> int \<times> int \<Rightarrow> (int \<times> 'w conn) res" where
  "redisSetTimeout S N cw tv =
     (if is_block (fst cw) then redisContextSetTimeout S N cw tv else Inr (REDIS_ERR, cw))"

definition redisEnableKeepAlive :: "'w system \<Rightarrow> 'w net \<Rightarrow> 'w conn \<Rightarrow> (int \<times> 'w conn) res" where
  "redisEnableKeepAlive S N cw =
     bindR (redisKeepAlive S N cw REDIS_KEEPALIVE_INTERVAL) (\<lambda>(r, cw). Inr (if r \<noteq> REDIS_OK then REDIS_ERR else REDIS_OK, cw))"

end
