(* ===== verification/ContextProof.thy ===== *)
theory ContextProof
  imports Context
begin

text \<open>
  The output side of a connection: whatever a socket accepts of the output buffer is taken off its
  front, so that the bytes sent followed by the bytes still buffered never change, and the write
  loop ends with an empty buffer on a socket that accepts something at each call.
\<close>

section \<open>Sockets\<close>

text \<open>\<open>sent\<close> observes what has gone out: \<^verbatim>\<open>write\<close> takes a prefix of what it is offered, or fails and
  takes nothing.\<close>

definition stream_write :: "'w system \<Rightarrow> ('w \<Rightarrow> bytes) \<Rightarrow> bool" where
  "stream_write S sent \<longleftrightarrow> (\<forall>fd out w. case fst (sys_write S fd out w) of
       Inl e \<Rightarrow> sent (snd (sys_write S fd out w)) = sent w
     | Inr n \<Rightarrow> 0 \<le> n \<and> n \<le> int (length out) \<and> sent (snd (sys_write S fd out w)) = sent w @ take (nat n) out)"

definition write_progress :: "'w system \<Rightarrow> bool" where
  "write_progress S \<longleftrightarrow> (\<forall>fd out w. out \<noteq> [] \<longrightarrow> (\<exists>n. fst (sys_write S fd out w) = Inr n \<and> 1 \<le> n))"

definition obuf_str :: "redisContext \<Rightarrow> bytes" where
  "obuf_str c = (case c_obuf c of None \<Rightarrow> [] | Some s \<Rightarrow> sds_str s)"

definition context_ok :: "redisContext \<Rightarrow> bool" where
  "context_ok c \<longleftrightarrow> length (c_errstr c) = 128 \<and> (case c_obuf c of None \<Rightarrow> False | Some s \<Rightarrow> sds_ok s)"

lemma set_error_io:
  assumes "length (c_errstr c) = 128"
  shows "\<exists>es. redisSetError S c REDIS_ERR_IO (Inl e) = Inr (c\<lparr>c_err := REDIS_ERR_IO, c_errstr := es\<rparr>) \<and> length es = 128"
proof -
  let ?x = "take 127 (sys_strerror S e) @ [NUL]"
  have l: "length ?x \<le> 128" by simp
  have "redisSetError S c REDIS_ERR_IO (Inl e) = Inr (c\<lparr>c_err := REDIS_ERR_IO, c_errstr := ?x @ drop (length ?x) (c_errstr c)\<rparr>)"
    using assms l by (simp add: redisSetError_def Let_def wrn_def del: length_append length_take)
  moreover have "length (?x @ drop (length ?x) (c_errstr c)) = 128" using assms l by simp
  ultimately show ?thesis by blast
qed

text \<open>A description that fits is stored with its terminator.\<close>

lemma redisSetError_text:
  assumes "length (c_errstr c) = 128" "NUL \<notin> set msg" "length msg \<le> 127"
  shows "redisSetError S c ty (Inr (msg @ [NUL])) = Inr (c\<lparr>c_err := ty, c_errstr := msg @ NUL # drop (Suc (length msg)) (c_errstr c)\<rparr>)"
proof -
  have "wr (msg @ drop (length msg) (c_errstr c)) (int (length msg)) NUL = Inr (msg @ NUL # drop (Suc (length msg)) (c_errstr c))"
    using assms(1,3) by (simp add: mem list_update_append Cons_nth_drop_Suc [symmetric])
  then show ?thesis
    using assms(1,3) strlen_append_NUL [OF assms(2), of "[]"] unfolding redisSetError_def Let_def
    by (cases "length msg = 127") (simp_all add: memcpy_def rdn_def wrn_def)
qed

lemma redisBufferWrite_result:
  assumes S: "stream_write S sent" and A: "can_alloc A 9" and c: "context_ok c" "c_err c = 0"
  shows "\<exists>rc d c' w'. redisBufferWrite S A (c, h, w) = Inr (rc, d, c', h, w') \<and> context_ok c' \<and> sent w' @ obuf_str c' = sent w @ obuf_str c \<and>
    c_reader c' = c_reader c \<and> c_flags c' = c_flags c \<and> c_fd c' = c_fd c \<and>
    (rc = REDIS_OK \<and> c_err c' = 0 \<and> d = Some (obuf_str c' = []) \<or> rc = REDIS_ERR \<and> c_err c' = REDIS_ERR_IO) \<and>
    (write_progress S \<longrightarrow> rc = REDIS_OK \<and> (obuf_str c' = [] \<or> length (obuf_str c') < length (obuf_str c)))"
proof -
  obtain s where s: "c_obuf c = Some s" "sds_ok s" "length (c_errstr c) = 128" using c(1) by (auto simp: context_ok_def split: option.splits)
  have len: "sdslen s = int (length (sds_str s))" "obuf_str c = sds_str s" "length (sds_str s) < 2 ^ 31"
    using s sdslen_str sh_len_str [OF s(2)] by (auto simp: obuf_str_def sds_ok_def)
  have fin: "write_done (c', h, w') = Inr (REDIS_OK, Some (sds_str s' = []), c', h, w')" if "c_obuf c' = Some s'" "sds_ok s'" for c' s' w'
    using that sdslen_str [OF that(2)] by (simp add: write_done_def)
  have result: ?thesis
    if "redisBufferWrite S A (c, h, w) = Inr (rc, d, c', h, w')" "context_ok c'" "sent w' @ obuf_str c' = sent w @ obuf_str c"
      "c_reader c' = c_reader c" "c_flags c' = c_flags c" "c_fd c' = c_fd c"
      "rc = REDIS_OK \<and> c_err c' = 0 \<and> d = Some (obuf_str c' = []) \<or> rc = REDIS_ERR \<and> c_err c' = REDIS_ERR_IO"
      "write_progress S \<Longrightarrow> rc = REDIS_OK \<and> (obuf_str c' = [] \<or> length (obuf_str c') < length (obuf_str c))" for rc d c' w'
    using that by blast
  show ?thesis
  proof (cases "sds_str s = []")
    case True
    then have "redisBufferWrite S A (c, h, w) = write_done (c, h, w)" using c(2) s(1) len by (simp add: redisBufferWrite_def)
    then have "redisBufferWrite S A (c, h, w) = Inr (REDIS_OK, Some True, c, h, w)" using fin [OF s(1,2)] True by simp
    then show ?thesis by (rule result) (use True len c s in \<open>auto simp: obuf_str_def\<close>)
  next
    case False
    then have pos: "sdslen s > 0" using len by simp
    obtain r w' where rw: "sys_write S (c_fd c) (sds_str s) w = (r, w')" by (cases "sys_write S (c_fd c) (sds_str s) w")
    have out: "rdn (sh_buf s) 0 (sdslen s) = Inr (sds_str s)" using sds_str_le_buf [OF s(2)] len by (simp add: rdn_def)
    have run: "redisBufferWrite S A (c, h, w) = (case r of
            Inl e \<Rightarrow> if try_again c e then write_done (c, h, w') else bindR (redisSetError S c REDIS_ERR_IO (Inl e)) (\<lambda>c. Inr (REDIS_ERR, None, c, h, w'))
          | Inr n \<Rightarrow> if int32 n > 0
              then if int32 n = int32 (sdslen s) then bindR (sdsempty A) (\<lambda>e. write_done (c\<lparr>c_obuf := e\<rparr>, h, w'))
                   else bindR (sdsrange s (int32 n) (- 1)) (\<lambda>s. write_done (c\<lparr>c_obuf := Some s\<rparr>, h, w'))
              else write_done (c, h, w'))"
      using c(2) s(1) pos out rw by (simp add: redisBufferWrite_def Let_def)
    have law: "case r of Inl e \<Rightarrow> sent w' = sent w
        | Inr n \<Rightarrow> 0 \<le> n \<and> n \<le> int (length (sds_str s)) \<and> sent w' = sent w @ take (nat n) (sds_str s)"
      using S [unfolded stream_write_def, THEN spec, THEN spec, THEN spec, of "c_fd c" "sds_str s" w] rw by (cases r) simp_all
    have pr: "write_progress S \<Longrightarrow> \<exists>n. r = Inr n \<and> 1 \<le> n" using rw False unfolding write_progress_def by (metis fst_conv)
    show ?thesis
    proof (cases r)
      case (Inl e)
      then have sw: "sent w' = sent w" and np: "\<not> write_progress S"
        using law pr by auto
      obtain es where es: "redisSetError S c REDIS_ERR_IO (Inl e) = Inr (c\<lparr>c_err := REDIS_ERR_IO, c_errstr := es\<rparr>)" "length es = 128"
        using set_error_io [OF s(3)] by blast
      show ?thesis
      proof (cases "try_again c e")
        case True
        then have "redisBufferWrite S A (c, h, w) = Inr (REDIS_OK, Some False, c, h, w')" using run Inl fin [OF s(1,2)] False by simp
        then show ?thesis by (rule result) (use len c s sw np False in auto)
      next
        case f: False
        then have "redisBufferWrite S A (c, h, w) = Inr (REDIS_ERR, None, c\<lparr>c_err := REDIS_ERR_IO, c_errstr := es\<rparr>, h, w')" using run Inl es by simp
        then show ?thesis by (rule result) (use len c s sw np es in \<open>auto simp: context_ok_def obuf_str_def\<close>)
      qed
    next
      case (Inr n)
      then have n: "0 \<le> n" "n \<le> int (length (sds_str s))" "sent w' = sent w @ take (nat n) (sds_str s)" using law by auto
      have i: "int32 n = n" "int32 (sdslen s) = int (length (sds_str s))" using n len by (simp_all add: cint)
      consider (all) "n = int (length (sds_str s))" | (some) "0 < n" "n < int (length (sds_str s))" | (none) "n = 0" using n by linarith
      then show ?thesis
      proof cases
        case all
        have "sdsempty A = Inr (Some (sds_of []))" using A by (simp add: sdsempty_spec sds_of_def)
        moreover have "write_done (c\<lparr>c_obuf := Some (sds_of [])\<rparr>, h, w') = Inr (REDIS_OK, Some True, c\<lparr>c_obuf := Some (sds_of [])\<rparr>, h, w')"
          using fin [of "c\<lparr>c_obuf := Some (sds_of [])\<rparr>" "sds_of []"] sds_of [of "[]"] by simp
        ultimately have "redisBufferWrite S A (c, h, w) = Inr (REDIS_OK, Some True, c\<lparr>c_obuf := Some (sds_of [])\<rparr>, h, w')"
          using run Inr i all False by simp
        then show ?thesis by (rule result) (use n(3) all len sds_of [of "[]"] s c False in \<open>auto simp: context_ok_def obuf_str_def\<close>)
      next
        case some
        obtain s' where s': "sdsrange s n (- 1) = Inr s'" "sds_ok s'" "sds_str s' = slice (sds_str s) n (- 1)"
          by (rule sdsrange_spec [OF s(2), of n "- 1"]) (use some len in auto)
        have str: "sds_str s' = drop (nat n) (sds_str s)" using s'(3) n(1) by (simp add: slice_to_end)
        have "redisBufferWrite S A (c, h, w) = Inr (REDIS_OK, Some (sds_str s' = []), c\<lparr>c_obuf := Some s'\<rparr>, h, w')"
          using run Inr i some s' fin [of "c\<lparr>c_obuf := Some s'\<rparr>" s'] by simp
        then show ?thesis by (rule result) (use n(3) some str s s'(2) c in \<open>auto simp: context_ok_def obuf_str_def\<close>)
      next
        case none
        then have "redisBufferWrite S A (c, h, w) = Inr (REDIS_OK, Some False, c, h, w')" using run Inr i fin [OF s(1,2)] False by simp
        then show ?thesis by (rule result) (use none n(3) pr Inr len c s False in auto)
      qed
    qed
  qed
qed

lemma write_until_done_ends:
  assumes "stream_write S sent" "write_progress S" "can_alloc A 9"
  shows "context_ok c \<Longrightarrow> c_err c = 0 \<Longrightarrow> \<exists>c' w'. write_until_done S A (c, h, w) = Some (Inr (REDIS_OK, c', h, w')) \<and> context_ok c' \<and> c_err c' = 0 \<and>
    obuf_str c' = [] \<and> sent w' = sent w @ obuf_str c \<and> c_reader c' = c_reader c \<and> c_flags c' = c_flags c \<and> c_fd c' = c_fd c"
proof (induction "length (obuf_str c)" arbitrary: c w rule: less_induct)
  case less
  obtain c1 w1 where step: "redisBufferWrite S A (c, h, w) = Inr (REDIS_OK, Some (obuf_str c1 = []), c1, h, w1)" "context_ok c1" "c_err c1 = 0"
      "sent w1 @ obuf_str c1 = sent w @ obuf_str c" "c_reader c1 = c_reader c" "c_flags c1 = c_flags c" "c_fd c1 = c_fd c"
      "obuf_str c1 = [] \<or> length (obuf_str c1) < length (obuf_str c)"
    using redisBufferWrite_result [OF assms(1,3) less.prems, of h w] assms(2) by auto
  show ?case
  proof (cases "obuf_str c1 = []")
    case True
    then have "write_until_done S A (c, h, w) = Some (Inr (REDIS_OK, c1, h, w1))" using step(1) by (subst write_until_done.simps) simp
    then show ?thesis using step True by auto
  next
    case False
    then have "length (obuf_str c1) < length (obuf_str c)" using step(8) by simp
    from less.hyps [OF this step(2,3), of w1] obtain c2 w2 where
      "write_until_done S A (c1, h, w1) = Some (Inr (REDIS_OK, c2, h, w2))" "context_ok c2" "c_err c2 = 0" "obuf_str c2 = []"
      "sent w2 = sent w1 @ obuf_str c1" "c_reader c2 = c_reader c1" "c_flags c2 = c_flags c1" "c_fd c2 = c_fd c1" by blast
    moreover have "write_until_done S A (c, h, w) = write_until_done S A (c1, h, w1)" using step(1) False by (subst write_until_done.simps) simp
    ultimately show ?thesis using step by auto
  qed
qed

end
