(* ===== verification/ReaderResume.thy ===== *)
theory ReaderResume
  imports ReaderFlow
begin

text \<open>
  Parsing a reply that arrives in pieces. Every item of the parser is determined by the unread
  bytes and the task stack; with too few bytes it stops and can be taken up again when more have
  arrived, with the same objects created in the same order as if all bytes had been there.
\<close>

section \<open>What the items read\<close>

fun crlf :: "bytes \<Rightarrow> nat option" where
  "crlf (c # d # cs) = (if c = CR \<and> d = LF then Some 0 else map_option Suc (crlf (d # cs)))"
| "crlf _ = None"

lemma crlf_append: "crlf u = Some k \<Longrightarrow> crlf (u @ x) = Some k"
  by (induction u arbitrary: k rule: crlf.induct) (auto split: if_splits)

lemma crlf_Some: "crlf u = Some k \<Longrightarrow> k + 2 \<le> length u \<and> (\<exists>z. u = take k u @ CR # LF # z)"
proof (induction u arbitrary: k rule: crlf.induct)
  case (1 c d cs)
  show ?case
  proof (cases "c = CR \<and> d = LF")
    case False
    then obtain j where j: "crlf (d # cs) = Some j" "k = Suc j" using "1.prems" by auto
    then show ?thesis using "1.IH" [OF False j(1)] by auto
  qed (use "1.prems" in auto)
qed auto

lemma crlf_skip: "m \<le> length v \<Longrightarrow> (\<forall>j<m. v ! j \<noteq> CR) \<Longrightarrow> crlf v = map_option ((+) m) (crlf (drop m v))"
proof (induction m arbitrary: v)
  case (Suc m)
  then obtain c cs where v: "v = c # cs" by (cases v) auto
  have c: "c \<noteq> CR" using Suc.prems(2) v by force
  have "crlf cs = map_option ((+) m) (crlf (drop m cs))"
    by (rule Suc.IH) (use Suc.prems v in force)+
  moreover have "crlf v = map_option Suc (crlf cs)" using v c by (cases cs) auto
  ultimately show ?case using v by (simp add: option.map_comp comp_def)
next
  case 0
  show ?case by (cases "crlf v") auto
qed

lemma rd_unread: "j \<le> length u \<Longrightarrow> rd (pre @ u @ NUL # post) (int (length pre) + int j) = Inr ((u @ [NUL]) ! j)"
  by (auto simp: rd_def nth_append nat_add_distrib)

lemma seek_cr_stops:
  assumes "n < int (length u)"
  shows "i \<le> n \<Longrightarrow> 0 \<le> i \<Longrightarrow> \<exists>q. seek_cr (pre @ u @ NUL # post) (int (length pre)) i n = Inr (int q) \<and> i \<le> int q \<and> int q \<le> n \<and>
    (\<forall>j. i \<le> int j \<and> j < q \<longrightarrow> u ! j \<noteq> CR) \<and> (int q = n \<or> u ! q = CR)"
proof (induction "nat (n - i)" arbitrary: i)
  case 0
  then have "i = n" by simp
  then show ?case using 0 by (intro exI [of _ "nat n"]) (subst seek_cr.simps, auto)
next
  case (Suc k)
  obtain m where m: "i = int m" "int m < n" "m < length u" using Suc.hyps(2) Suc.prems assms by (auto dest!: zero_le_imp_eq_int)
  have r: "rd (pre @ u @ NUL # post) (int (length pre) + int m) = Inr (u ! m)" using rd_unread [of m u pre post] m(3) by (simp add: nth_append)
  show ?case
  proof (cases "u ! m = CR")
    case True
    then show ?thesis using m r by (intro exI [of _ m]) (subst seek_cr.simps, auto)
  next
    case False
    obtain q where q: "seek_cr (pre @ u @ NUL # post) (int (length pre)) (i + 1) n = Inr (int q)" "i + 1 \<le> int q" "int q \<le> n"
        "\<forall>j. i + 1 \<le> int j \<and> j < q \<longrightarrow> u ! j \<noteq> CR" "int q = n \<or> u ! q = CR"
    proof -
      have "k = nat (n - (i + 1))" using Suc.hyps(2) by simp
      moreover have "i + 1 \<le> n" "0 \<le> i + 1" using m by auto
      ultimately show thesis using Suc.hyps(1) [of "i + 1"] that by blast
    qed
    have "seek_cr (pre @ u @ NUL # post) (int (length pre)) i n = Inr (int q)" using m r False q(1) by (subst seek_cr.simps) simp
    moreover have "\<forall>j. i \<le> int j \<and> j < q \<longrightarrow> u ! j \<noteq> CR"
    proof (intro allI impI)
      fix j assume j: "i \<le> int j \<and> j < q"
      then show "u ! j \<noteq> CR" using q(4) [rule_format, of j] False m(1) by (cases "j = m") auto
    qed
    ultimately show ?thesis using q by auto
  qed
qed

lemma seek_loop_crlf:
  "i \<le> length u \<Longrightarrow> seek_loop (pre @ u @ NUL # post) (int (length pre)) (int i) (int (length u) - 1) =
     Inr (map_option (\<lambda>k. int (i + k)) (crlf (drop i u)))"
proof (induction "length u - i" arbitrary: i rule: less_induct)
  case less
  let ?b = "pre @ u @ NUL # post" and ?n = "int (length u) - 1"
  show ?case
  proof (cases "int i < ?n")
    case False
    then have "length (drop i u) \<le> 1" by simp
    then have "crlf (drop i u) = None" by (cases "drop i u"; cases "tl (drop i u)") auto
    then show ?thesis using False by (subst seek_loop.simps) simp
  next
    case True
    obtain q where q: "seek_cr ?b (int (length pre)) (int i) ?n = Inr (int q)" "i \<le> q" "int q \<le> ?n"
        "\<forall>j. i \<le> j \<and> j < q \<longrightarrow> u ! j \<noteq> CR" "int q = ?n \<or> u ! q = CR"
      using seek_cr_stops [of ?n u "int i" pre post] True by auto
    have ql: "q < length u" using q(3) by simp
    have sk: "crlf (drop i u) = map_option ((+) (q - i)) (crlf (drop q u))"
      using crlf_skip [of "q - i" "drop i u"] q(2,4) ql by auto
    have dq: "drop q u = u ! q # drop (Suc q) u" using ql by (simp add: Cons_nth_drop_Suc)
    have r1: "rd ?b (int (length pre) + int q) = Inr (u ! q)" using rd_unread [of q u pre post] ql by (simp add: nth_append)
    have r2: "rd ?b (int (length pre) + int q + 1) = Inr ((u @ [NUL]) ! Suc q)" using rd_unread [of "Suc q" u pre post] ql by (simp add: add.commute add.left_commute)
    show ?thesis
    proof (cases "u ! q = CR")
      case False
      then have "Suc q = length u" using q(5) by simp
      then have "crlf (drop q u) = None" using dq by simp
      then show ?thesis using True q(1) r1 False sk by (subst seek_loop.simps) simp
    next
      case cr: True
      show ?thesis
      proof (cases "(u @ [NUL]) ! Suc q = LF")
        case lf: True
        then have "Suc q < length u" using ql by (cases "Suc q = length u") (auto simp: nth_append)
        then have "drop (Suc q) u = LF # drop (Suc (Suc q)) u" using lf by (simp add: nth_append Cons_nth_drop_Suc [symmetric])
        then have "crlf (drop q u) = Some 0" using dq cr by simp
        then show ?thesis using True q(1,2) r1 r2 cr lf sk by (subst seek_loop.simps) simp
      next
        case nlf: False
        have "crlf (drop q u) = map_option Suc (crlf (drop (Suc q) u))"
        proof (cases "drop (Suc q) u")
          case Nil
          then show ?thesis using dq by simp
        next
          case (Cons d ds)
          then have sq: "Suc q < length u" by (metis drop_all list.distinct(1) not_le)
          then have "d = u ! Suc q" using Cons by (metis Cons_nth_drop_Suc list.inject)
          then have "d \<noteq> LF" using nlf sq by (simp add: nth_append)
          then show ?thesis using dq Cons by simp
        qed
        moreover have "seek_loop ?b (int (length pre)) (int (Suc q)) ?n = Inr (map_option (\<lambda>k. int (Suc q + k)) (crlf (drop (Suc q) u)))"
          by (rule less.hyps) (use ql q(2) in auto)
        ultimately show ?thesis
          using True q(1,2) r1 r2 cr nlf sk by (subst seek_loop.simps) (simp add: option.map_comp comp_def add.commute)
      qed
    qed
  qed
qed

lemma seekNewline_crlf:
  assumes "length u < 2 ^ 31"
  shows "seekNewline (pre @ u @ NUL # post) (int (length pre)) (int (length u)) = Inr (map_option int (crlf u))"
proof -
  have "int32 (uint64 (int (length u) - 1)) = int (length u) - 1"
  proof (cases u)
    case Nil
    then show ?thesis by (simp add: uint64_def int32_def)
  next
    case (Cons c cs)
    then show ?thesis using assms by (simp add: cint)
  qed
  then show ?thesis using seek_loop_crlf [of 0 u pre post] by (simp add: seekNewline_def)
qed

text \<open>The number on a line depends on the line only.\<close>

definition line_number :: "bytes \<Rightarrow> int res" where
  "line_number w = readLongLong (w @ [CR]) 0"

lemma read_digits_shift:
  "i \<le> length w \<Longrightarrow> read_digits (pre @ w @ CR # z) (int (length pre) + int i) v = read_digits (w @ [CR]) (int i) v"
proof (induction "length w - i" arbitrary: i v)
  case 0
  then show ?case by (subst (1 2) read_digits.simps) (auto simp: rd_def nth_append nat_add_distrib)
next
  case (Suc k)
  then have i: "i < length w" by simp
  have r: "rd (pre @ w @ CR # z) (int (length pre) + int i) = Inr (w ! i)" "rd (w @ [CR]) (int i) = Inr (w ! i)"
    using i by (auto simp: rd_def nth_append nat_add_distrib)
  have "read_digits (pre @ w @ CR # z) (int (length pre) + int (Suc i)) v = read_digits (w @ [CR]) (int (Suc i)) v" for v
    by (rule Suc.hyps(1)) (use Suc.hyps(2) i in auto)
  then have next_digit: "read_digits (pre @ w @ CR # z) (int (length pre) + int i + 1) v = read_digits (w @ [CR]) (int i + 1) v" for v
    by (simp add: add.commute add.left_commute)
  show ?case
    unfolding read_digits.simps [of "pre @ w @ CR # z" "int (length pre) + int i"] read_digits.simps [of "w @ [CR]" "int i"] r bindR_simps next_digit ..
qed

lemma readLongLong_line_number: "readLongLong (pre @ w @ CR # z) (int (length pre)) = line_number w"
proof (cases w)
  case Nil
  have "rd (pre @ CR # z) (int (length pre)) = Inr CR" "rd [CR] 0 = Inr CR" by (auto simp: rd_def nth_append)
  then show ?thesis using read_digits_shift [of 0 "[]" pre z] Nil by (simp add: readLongLong_def line_number_def)
next
  case (Cons c cs)
  have "rd (pre @ w @ CR # z) (int (length pre)) = Inr c" "rd (w @ [CR]) 0 = Inr c" using Cons by (auto simp: rd_def nth_append)
  then show ?thesis
    using read_digits_shift [of 0 w pre z] read_digits_shift [of 1 w pre z] Cons
    by (auto simp: readLongLong_def line_number_def)
qed

section \<open>States that differ in their input only\<close>

text \<open>\<open>more_input r r2 x\<close>: the same parser with the bytes \<open>x\<close> behind the unread ones.\<close>

definition more_input :: "'h redisReader \<Rightarrow> 'h redisReader \<Rightarrow> bytes \<Rightarrow> bool" where
  "more_input r r2 x \<longleftrightarrow> input_ok r \<and> input_ok r2 \<and> unread r2 = unread r @ x \<and> (\<exists>b p l. r = put_input b p l r2)"

definition adv :: "'h redisReader \<Rightarrow> nat \<Rightarrow> 'h redisReader" where
  "adv r n = r\<lparr>r_pos := r_pos r + int n\<rparr>"

lemma adv_sel [simp]:
  "r_stack (adv r n) = r_stack r" "r_ridx (adv r n) = r_ridx r" "r_fn (adv r n) = r_fn r" "r_err (adv r n) = r_err r"
  "r_reply (adv r n) = r_reply r" "r_privdata (adv r n) = r_privdata r" "r_buf (adv r n) = r_buf r" "r_len (adv r n) = r_len r"
  "r_pos (adv r n) = r_pos r + int n"
  by (simp_all add: adv_def)

lemma buf_at:
  assumes "input_ok r"
  obtains s pre post where "r_buf r = Some s" "sh_buf s = pre @ unread r @ NUL # post" "r_pos r = int (length pre)"
    "r_len r = int (length pre + length (unread r))" "r_len r < 2 ^ 31"
proof -
  obtain s where s: "r_buf r = Some s" "sds_ok s" "r_len r = sh_len s" "0 \<le> r_pos r" "r_pos r \<le> r_len r"
    using assms by (auto simp: input_ok_def split: option.splits)
  have u: "unread r = drop (nat (r_pos r)) (sds_str s)" using s(1) by (simp add: unread_def)
  let ?pre = "take (nat (r_pos r)) (sds_str s)"
  obtain l f b where m: "s = \<lparr>sh_len = int l, sh_free = int f, sh_buf = b\<rparr>" "length b = l + f + 1" "b ! l = NUL" "int l + int f < 2 ^ 31"
    using s(2) by (rule sds_okE)
  have "b = take l b @ NUL # drop (Suc l) b" using id_take_nth_drop [of l b] m(2,3) by simp
  moreover have "?pre @ unread r = take l b" unfolding u append_take_drop_id by (simp add: sds_str_def m(1))
  ultimately have "b = (?pre @ unread r) @ NUL # drop (Suc l) b" by (rule ssubst [of _ _ "\<lambda>x. b = x @ NUL # drop (Suc l) b", rotated])
  then have "sh_buf s = ?pre @ unread r @ NUL # drop (Suc l) b" by (simp add: m(1))
  moreover have l: "length (sds_str s) = l" "r_len r = int l" "r_len r < 2 ^ 31" using m s(3) by (simp_all add: sds_str_def)
  moreover have "length ?pre = nat (r_pos r)" "nat (r_pos r) \<le> l" using l s(5) by auto
  moreover have "length (unread r) = l - nat (r_pos r)" using u l(1) by simp
  ultimately show thesis using that [of s ?pre "drop (Suc l) b"] s(1,4) by simp
qed

lemma unread_length: "input_ok r \<Longrightarrow> int (length (unread r)) = r_len r - r_pos r"
  by (erule buf_at) simp

lemma adv_unread:
  assumes "input_ok r" "n \<le> length (unread r)"
  shows "input_ok (adv r n)" "unread (adv r n) = drop n (unread r)"
proof -
  show "input_ok (adv r n)" using assms unread_length [OF assms(1)] by (auto simp: input_ok_def split: option.splits)
  have "0 \<le> r_pos r" using assms(1) by (simp add: input_ok_def)
  then show "unread (adv r n) = drop n (unread r)"
    by (cases "r_buf r") (simp_all add: unread_def nat_add_distrib add.commute)
qed

lemma more_input_adv:
  assumes "more_input r r2 x" "n \<le> length (unread r)"
  shows "more_input (adv r n) (adv r2 n) x"
proof -
  obtain b p l where r: "r = put_input b p l r2" using assms(1) by (auto simp: more_input_def)
  have "adv r n = put_input b (p + int n) l (adv r2 n)" by (simp add: r adv_def put_input_def)
  then show ?thesis
    using assms adv_unread [of r n] adv_unread [of r2 n] by (auto simp: more_input_def)
qed

text \<open>Functions on the tasks commute with a change of the input.\<close>

lemma task_put [simp]: "task (put_input b p l r) i = task r i"
  by (simp add: task_def)

lemma parent_put [simp]: "parent_of (put_input b p l r) t = parent_of r t"
  by (cases "rt_parent t") (simp_all add: parent_of_def)

lemma task_adv [simp]: "task (adv r n) i = task r i" "parent_of (adv r n) t = parent_of r t"
  by (cases "rt_parent t"; simp add: task_def parent_of_def)+

lemma set_task_put: "set_task (put_input b p l r) i t = bindR (set_task r i t) (\<lambda>r. Inr (put_input b p l r))"
  by (simp add: set_task_def put_input_def)

lemma ridx_put: "(put_input b p l r)\<lparr>r_ridx := i\<rparr> = put_input b p l (r\<lparr>r_ridx := i\<rparr>)" "(put_input b p l r)\<lparr>r_reply := a\<rparr> = put_input b p l (r\<lparr>r_reply := a\<rparr>)"
  by (simp_all add: put_input_def)

lemma moveToNextTask_put: "moveToNextTask (put_input b p l r) = bindR (moveToNextTask r) (\<lambda>r. Inr (put_input b p l r))"
proof (induction r rule: moveToNextTask.induct)
  case (1 r)
  show ?case
  proof (cases "r_ridx r > 0")
    case False
    then show ?thesis by (subst (1 2) moveToNextTask.simps) (simp add: ridx_put)
  next
    case True
    show ?thesis
      using True "1.IH"
      unfolding moveToNextTask.simps [of "put_input b p l r"] moveToNextTask.simps [of r]
      by (auto simp: ridx_put set_task_put intro!: bindR_cong)
  qed
qed

lemma same_view:
  "r_buf a = r_buf c \<Longrightarrow> r_pos a = r_pos c \<Longrightarrow> r_len a = r_len c \<Longrightarrow> input_ok a = input_ok c"
  "r_buf a = r_buf c \<Longrightarrow> r_pos a = r_pos c \<Longrightarrow> unread a = unread c"
  by (simp_all add: input_ok_def unread_def cong: option.case_cong)

lemma more_input_put:
  assumes "more_input (put_input b p l r2) r2 x" "r_buf r2' = r_buf r2" "r_pos r2' = r_pos r2" "r_len r2' = r_len r2"
  shows "more_input (put_input b p l r2') r2' x"
  using assms same_view [of r2' r2] same_view [of "put_input b p l r2'" "put_input b p l r2"]
  by (auto simp: more_input_def)

section \<open>Items by their unread bytes\<close>

lemma seek_unread:
  assumes "input_ok r"
  obtains b where "rbuf r = Inr b" "seekNewline b (r_pos r) (uint64 (r_len r - r_pos r)) = Inr (map_option int (crlf (unread r)))"
    "\<And>k. crlf (unread r) = Some k \<Longrightarrow> readLongLong b (r_pos r) = line_number (take k (unread r))"
    "\<exists>z. drop (nat (r_pos r)) b = unread r @ z" "uint64 (r_len r - r_pos r) = int (length (unread r))" "length (unread r) < 2 ^ 31" "0 \<le> r_pos r"
proof (rule buf_at [OF assms])
  fix s pre post assume s: "r_buf r = Some s" "sh_buf s = pre @ unread r @ NUL # post" "r_pos r = int (length pre)"
    "r_len r = int (length pre + length (unread r))" "r_len r < 2 ^ 31"
  have l: "length (unread r) < 2 ^ 31" "uint64 (r_len r - r_pos r) = int (length (unread r))" using s(3-5) by (auto simp: cint)
  have "readLongLong (sh_buf s) (r_pos r) = line_number (take k (unread r))" if k: "crlf (unread r) = Some k" for k
  proof -
    obtain z where "unread r = take k (unread r) @ CR # LF # z" using crlf_Some [OF k] by blast
    then have "sh_buf s = pre @ take k (unread r) @ CR # (LF # z @ NUL # post)" using s(2) by (metis append.assoc append_Cons)
    then show ?thesis using readLongLong_line_number [of pre "take k (unread r)"] s(3) by simp
  qed
  then show thesis
    using that [of "sh_buf s"] s l seekNewline_crlf [OF l(1), of pre post] by (auto simp: rbuf_def)
qed

lemma readLine_unread:
  assumes "input_ok r"
  shows "readLine r = Inr (case crlf (unread r) of None \<Rightarrow> (None, r) | Some k \<Rightarrow> (Some (r_pos r, int k), adv r (k + 2)))"
proof (rule seek_unread [OF assms])
  fix b assume b: "rbuf r = Inr b" "seekNewline b (r_pos r) (uint64 (r_len r - r_pos r)) = Inr (map_option int (crlf (unread r)))"
    "length (unread r) < 2 ^ 31"
  have "int32 (int k) = int k" if "crlf (unread r) = Some k" for k using crlf_Some [OF that] b(3) by (simp add: cint)
  then show ?thesis using b by (cases "crlf (unread r)") (auto simp: readLine_def adv_def Let_def algebra_simps)
qed

context reply_functions
begin

lemma line_unread:
  assumes "input_ok r" "task r (r_ridx r) = Inr cur" "rt_type cur \<in> {3, 5, 6}" "r_fn r = Some fns"
  shows "processLineItem (r, h) = (case crlf (unread r) of
      None \<Rightarrow> Inr (REDIS_ERR, r, h)
    | Some k \<Rightarrow> bindR (parent_of r cur) (\<lambda>par.
        bindR (if rt_type cur = REDIS_REPLY_INTEGER then bindR (line_number (take k (unread r))) (\<lambda>v. mkI B (place_of cur par) v h)
               else mkS B (rt_type cur) (place_of cur par) (take k (unread r)) h) (\<lambda>(obj, h).
        item_done (adv r (k + 2)) obj h)))"
proof (rule seek_unread [OF assms(1)])
  fix b assume b: "rbuf r = Inr b" "\<And>k. crlf (unread r) = Some k \<Longrightarrow> readLongLong b (r_pos r) = line_number (take k (unread r))"
    "\<exists>z. drop (nat (r_pos r)) b = unread r @ z"
  obtain fi fs where f: "createInteger fns = Some fi" "\<And>cur parent v h. fi cur parent v h = mkI B (place_of cur parent) v h"
      "createString fns = Some fs" "\<And>cur parent b n h. rt_type cur \<in> {REDIS_REPLY_STRING, REDIS_REPLY_STATUS, REDIS_REPLY_ERROR} \<Longrightarrow> n \<le> length b \<Longrightarrow>
        fs cur parent b (int n) h = mkS B (rt_type cur) (place_of cur parent) (take n b) h"
    using integer_fn string_fn by blast
  show ?thesis
  proof (cases "crlf (unread r)")
    case None
    then show ?thesis using readLine_unread [OF assms(1)] assms(2) by (simp add: processLineItem_def)
  next
    case (Some k)
    obtain z where z: "drop (nat (r_pos r)) b = unread r @ z" using b(3) by blast
    have kl: "k \<le> length (unread r)" using crlf_Some [OF Some] by simp
    have "rbuf (adv r (k + 2)) = Inr b" "parent_of (adv r (k + 2)) cur = parent_of r cur" "fn_of createInteger (adv r (k + 2)) = createInteger fns" "fn_of createString (adv r (k + 2)) = createString fns"
      using b(1) assms(4) by (simp_all add: rbuf_def fn_of_def)
    note adv_facts = this
    show ?thesis
    proof (cases "rt_type cur = REDIS_REPLY_INTEGER")
      case True
      then show ?thesis
        using readLine_unread [OF assms(1)] assms(2) Some adv_facts f(1,2) b(2) [OF Some] by (simp add: processLineItem_def)
    next
      case False
      have "fs cur par (unread r @ z) (int k) h = mkS B (rt_type cur) (place_of cur par) (take k (unread r)) h" for par h
        using f(4) [of cur k "unread r @ z" par h] assms(3) False kl by auto
      then show ?thesis
        using readLine_unread [OF assms(1)] assms(2) Some adv_facts f(3) z False by (simp add: processLineItem_def)
    qed
  qed
qed

lemma bulk_unread:
  assumes "input_ok r" "task r (r_ridx r) = Inr cur" "rt_type cur = REDIS_REPLY_STRING" "r_fn r = Some fns"
  shows "processBulkItem (r, h) = (case crlf (unread r) of
      None \<Rightarrow> Inr (REDIS_ERR, r, h)
    | Some k \<Rightarrow> bindR (line_number (take k (unread r))) (\<lambda>len.
        if len < 0 then bindR (nil_object r cur h) (\<lambda>(obj, h). if obj = 0 then oom (r, h) else item_done (adv r (k + 2)) obj h)
        else bindR (ck64 (len + 2)) (\<lambda>l2.
          if k + nat len + 4 \<le> length (unread r)
          then bindR (parent_of r cur) (\<lambda>par. bindR (mkS B REDIS_REPLY_STRING (place_of cur par) (take (nat len) (drop (k + 2) (unread r))) h) (\<lambda>(obj, h).
               if obj = 0 then oom (r, h) else item_done (adv r (k + nat len + 4)) obj h))
          else Inr (REDIS_ERR, r, h))))"
proof (rule seek_unread [OF assms(1)])
  fix b assume b: "rbuf r = Inr b" "seekNewline b (r_pos r) (uint64 (r_len r - r_pos r)) = Inr (map_option int (crlf (unread r)))"
    "\<And>k. crlf (unread r) = Some k \<Longrightarrow> readLongLong b (r_pos r) = line_number (take k (unread r))"
    "\<exists>z. drop (nat (r_pos r)) b = unread r @ z" "length (unread r) < 2 ^ 31" "0 \<le> r_pos r"
  obtain fs where fs: "createString fns = Some fs" "\<And>cur parent b n h. rt_type cur \<in> {REDIS_REPLY_STRING, REDIS_REPLY_STATUS, REDIS_REPLY_ERROR} \<Longrightarrow> n \<le> length b \<Longrightarrow>
        fs cur parent b (int n) h = mkS B (rt_type cur) (place_of cur parent) (take n b) h"
    using string_fn by blast
  obtain z where z: "drop (nat (r_pos r)) b = unread r @ z" using b(4) by blast
  show ?thesis
  proof (cases "crlf (unread r)")
    case None
    then show ?thesis using b(1,2) assms(2) by (simp add: processBulkItem_def)
  next
    case (Some k)
    have kl: "k + 2 \<le> length (unread r)" using crlf_Some [OF Some] by simp
    let ?long = "\<lambda>len. bindR (ck64 (len + 2)) (\<lambda>l2.
            let bytelen = uint64 (int k + 2 + l2) in
            if uint64 (r_pos r + bytelen) \<le> r_len r
            then bindR (parent_of r cur) (\<lambda>parent.
                 bindR (case fn_of createString r of
                          Some f \<Rightarrow> f cur parent (drop (nat (r_pos r + int k + 2)) b) len h
                        | None \<Rightarrow> Inr (nat REDIS_REPLY_STRING, h)) (\<lambda>(obj, h).
                 if obj = 0 then oom (r, h) else item_done (r\<lparr>r_pos := r_pos r + bytelen\<rparr>) obj h))
            else Inr (REDIS_ERR, r, h))"
    have long: "?long (int n) = bindR (ck64 (int n + 2)) (\<lambda>l2.
          if k + n + 4 \<le> length (unread r)
          then bindR (parent_of r cur) (\<lambda>par. bindR (mkS B REDIS_REPLY_STRING (place_of cur par) (take n (drop (k + 2) (unread r))) h) (\<lambda>(obj, h).
               if obj = 0 then oom (r, h) else item_done (adv r (k + n + 4)) obj h))
          else Inr (REDIS_ERR, r, h))" for n
    proof (cases "int n + 2 < 2 ^ 63")
      case False
      then show ?thesis by (simp add: ck64_def)
    next
      case True
      then have ck: "ck64 (int n + 2) = Inr (int n + 2)" by (simp add: ck64_def)
      have rl: "r_len r = r_pos r + int (length (unread r))" "r_len r < 2 ^ 31"
        using unread_length [OF assms(1)] by (auto intro: buf_at [OF assms(1)])
      have bl: "uint64 (int k + 2 + (int n + 2)) = int (k + n + 4)" using True kl b(5) by (simp add: cint)
      have cond: "uint64 (r_pos r + int (k + n + 4)) \<le> r_len r \<longleftrightarrow> k + n + 4 \<le> length (unread r)"
      proof -
        have "uint64 (r_pos r + int (k + n + 4)) = r_pos r + int (k + n + 4)" using True kl b(5,6) rl by (simp add: cint)
        then show ?thesis using rl(1) by linarith
      qed
      have d: "drop (nat (r_pos r + int k + 2)) b = drop (k + 2) (unread r) @ z"
      proof -
        have "nat (r_pos r + int k + 2) = k + 2 + nat (r_pos r)" using b(6) by simp
        then have "drop (nat (r_pos r + int k + 2)) b = drop (k + 2) (drop (nat (r_pos r)) b)" by (simp add: add.commute)
        then show ?thesis using z kl by simp
      qed
      have f: "fs cur par (drop (k + 2) (unread r) @ z) (int n) h = mkS B REDIS_REPLY_STRING (place_of cur par) (take n (drop (k + 2) (unread r))) h"
        if "k + n + 4 \<le> length (unread r)" for par
        using fs(2) [of cur n "drop (k + 2) (unread r) @ z" par h] assms(3) that by simp
      show ?thesis
        unfolding ck bindR_simps Let_def bl cond d adv_def [symmetric]
        using f assms(4) fs(1) by (simp add: fn_of_def)
    qed
    show ?thesis
    proof (cases "line_number (take k (unread r))")
      case (Inl e)
      then show ?thesis using b(1,2) b(3) [OF Some] assms(2) Some by (simp add: processBulkItem_def)
    next
      case (Inr len)
      have "processBulkItem (r, h) = (if len < 0 then bindR (nil_object r cur h) (\<lambda>(obj, h).
               if obj = 0 then oom (r, h) else item_done (r\<lparr>r_pos := r_pos r + (int k + 2)\<rparr>) obj h) else ?long len)"
        using b(1,2) b(3) [OF Some] assms(2) Some Inr by (simp add: processBulkItem_def Let_def)
      note eq = this
      show ?thesis
      proof (cases "len < 0")
        case True
        have "r\<lparr>r_pos := r_pos r + (int k + 2)\<rparr> = adv r (k + 2)" by (simp add: adv_def add.commute)
        then show ?thesis unfolding eq using True Some Inr by (simp only: if_True option.case bindR_simps)
      next
        case False
        then obtain n where n: "len = int n" by (metis not_less zero_le_imp_eq_int)
        have "\<not> int n < 0" by simp
        then show ?thesis unfolding eq Some Inr option.case bindR_simps n nat_int by (simp only: if_False long)
      qed
    qed
  qed
qed

lemma multi_unread:
  assumes "input_ok r" "task r (r_ridx r) = Inr cur" "r_ridx r \<noteq> 8"
  shows "processMultiBulkItem (r, h) = (case crlf (unread r) of
      None \<Rightarrow> Inr (REDIS_ERR, r, h)
    | Some k \<Rightarrow> bindR (line_number (take k (unread r))) (\<lambda>n. array_item (adv r (k + 2)) cur n h))"
proof (rule seek_unread [OF assms(1)])
  fix b assume b: "rbuf r = Inr b" "\<And>k. crlf (unread r) = Some k \<Longrightarrow> readLongLong b (r_pos r) = line_number (take k (unread r))"
  have "rbuf (adv r (k + 2)) = Inr b" for k using b(1) by (simp add: rbuf_def)
  then show ?thesis
    using readLine_unread [OF assms(1)] assms(2,3) b(2)
    by (cases "crlf (unread r)") (simp_all add: processMultiBulkItem_def)
qed

text \<open>Creating the object and moving on, on fewer bytes as on more.\<close>

lemma moveToNextTask_fewer:
  assumes "more_input r r2 x" "moveToNextTask r2 = Inr r2'"
  shows "\<exists>r'. moveToNextTask r = Inr r' \<and> more_input r' r2' x"
proof -
  obtain b p l where r: "r = put_input b p l r2" using assms(1) by (auto simp: more_input_def)
  have "r_buf r2' = r_buf r2" "r_pos r2' = r_pos r2" "r_len r2' = r_len r2"
    using moveToNextTask_same [OF assms(2)] by (auto simp: same_input_def)
  then have "more_input (put_input b p l r2') r2' x" by (rule more_input_put [OF assms(1) [unfolded r]])
  then show ?thesis using assms(2) r by (simp add: moveToNextTask_put)
qed

lemma set_reply_fewer: "more_input r r2 x \<Longrightarrow> more_input (r\<lparr>r_reply := a\<rparr>) (r2\<lparr>r_reply := a\<rparr>) x"
proof -
  assume m: "more_input r r2 x"
  then obtain b p l where r: "r = put_input b p l r2" by (auto simp: more_input_def)
  show ?thesis unfolding r ridx_put by (rule more_input_put [OF m [unfolded r]]) simp_all
qed

lemma more_input_same: "more_input r r2 x \<Longrightarrow> r_ridx r = r_ridx r2 \<and> r_stack r = r_stack r2 \<and> r_fn r = r_fn r2 \<and> r_err r = r_err r2 \<and> r_reply r = r_reply r2 \<and>
    r_privdata r = r_privdata r2 \<and> r_errstr r = r_errstr r2"
  by (auto simp: more_input_def put_input_def)

lemma item_done_fewer:
  assumes "more_input r r2 x" "item_done r2 obj h = Inr (REDIS_OK, r2', h')"
  shows "\<exists>r'. item_done r obj h = Inr (REDIS_OK, r', h') \<and> more_input r' r2' x"
proof -
  have nz: "obj \<noteq> 0" using assms(2) oom_rc [of "(r2, h)"] by (auto simp: item_done_def split: if_splits)
  let ?f = "\<lambda>r. if r_ridx r2 = 0 then r\<lparr>r_reply := obj\<rparr> else r"
  have "moveToNextTask (?f r2) = Inr r2'" "h' = h" using assms(2) nz by (auto simp: item_done_def bindR_eq_Inr)
  moreover have "more_input (?f r) (?f r2) x" using assms(1) set_reply_fewer by auto
  ultimately obtain r' where "moveToNextTask (?f r) = Inr r'" "more_input r' r2' x" using moveToNextTask_fewer by blast
  then show ?thesis using nz more_input_same [OF assms(1)] \<open>h' = h\<close> by (auto simp: item_done_def)
qed

lemma push_task_fewer:
  assumes "more_input r r2 x" "push_task r2 cur n obj = Inr r2'"
  shows "\<exists>r'. push_task r cur n obj = Inr r' \<and> more_input r' r2' x"
proof -
  obtain b p l where r: "r = put_input b p l r2" using assms(1) by (auto simp: more_input_def)
  have "r_buf r2' = r_buf r2" "r_pos r2' = r_pos r2" "r_len r2' = r_len r2"
    using push_task_same [OF assms(2)] by (auto simp: same_input_def)
  then have "more_input (put_input b p l r2') r2' x" by (rule more_input_put [OF assms(1) [unfolded r]])
  moreover have "push_task r cur n obj = Inr (put_input b p l r2')"
    using assms(2) r by (auto simp: push_task_def set_task_put ridx_put bindR_eq_Inr Let_def)
  ultimately show ?thesis by blast
qed

lemma parent_fewer: "more_input r r2 x \<Longrightarrow> parent_of r t = parent_of r2 t"
  by (auto simp: more_input_def)

lemma nil_object_fewer: "more_input r r2 x \<Longrightarrow> nil_object r cur h = nil_object r2 cur h"
  by (auto simp: more_input_def nil_object_def fn_of_def cong: option.case_cong)

lemma array_item_fewer:
  assumes "more_input r r2 x" "array_item r2 cur n h = Inr (REDIS_OK, r2', h')"
  shows "\<exists>r'. array_item r cur n h = Inr (REDIS_OK, r', h') \<and> more_input r' r2' x"
proof -
  let ?g = "\<lambda>r obj. if r_ridx r2 = 0 then r\<lparr>r_reply := obj\<rparr> else r"
  define make where "make = (if n = - 1 then nil_object r2 cur h else bindR (parent_of r2 cur) (\<lambda>parent.
      case fn_of createArray r2 of Some f \<Rightarrow> f cur parent (int32 n) h | None \<Rightarrow> Inr (nat REDIS_REPLY_ARRAY, h)))"
  let ?go = "\<lambda>r obj. if n > 0 then push_task r cur n obj else moveToNextTask r"
  have ai: "array_item q cur n h = bindR make (\<lambda>(obj, h). if obj = 0 then oom (q, h)
      else bindR (?go q obj) (\<lambda>q'. Inr (REDIS_OK, ?g q' obj, h)))" if "q = r \<or> q = r2" for q
  proof -
    have "nil_object q cur h = nil_object r2 cur h" "parent_of q cur = parent_of r2 cur" "fn_of createArray q = fn_of createArray r2" "r_ridx q = r_ridx r2"
      using that nil_object_fewer [OF assms(1)] parent_fewer [OF assms(1)] more_input_same [OF assms(1)] by (auto simp: fn_of_def)
    then show ?thesis by (cases "n = - 1") (simp_all add: array_item_def Let_def make_def case_prod_unfold split del: if_split cong: if_cong)
  qed
  obtain obj h1 where m: "make = Inr (obj, h1)" using assms(2) ai [of r2] by (cases make) auto
  have nz: "obj \<noteq> 0" using assms(2) ai [of r2] m oom_rc [of "(r2, h1)"] by (auto split: if_splits)
  obtain r2'' where g2: "?go r2 obj = Inr r2''" "r2' = ?g r2'' obj" "h' = h1" using assms(2) ai [of r2] m nz by (cases "?go r2 obj") auto
  obtain r'' where g: "?go r obj = Inr r''" "more_input r'' r2'' x"
  proof (cases "n > 0")
    case True
    then show thesis using that push_task_fewer [OF assms(1), of cur n obj r2''] g2(1) by auto
  next
    case False
    then show thesis using that moveToNextTask_fewer [OF assms(1), of r2''] g2(1) by auto
  qed
  have "more_input (?g r'' obj) r2' x" using g(2) g2(2) set_reply_fewer by auto
  then show ?thesis using ai [of r] m nz g(1) g2(3) by auto
qed

text \<open>A typed item on fewer bytes: the same, or nothing is done until more bytes come.\<close>

lemma process_typed_fewer:
  assumes m: "more_input r r2 x" and fn: "r_fn r2 = Some fns" and ok: "process_typed (r2, h) = Inr (REDIS_OK, r2', h')"
  shows "(\<exists>r'. process_typed (r, h) = Inr (REDIS_OK, r', h') \<and> more_input r' r2' x) \<or> (process_typed (r, h) = Inr (REDIS_ERR, r, h) \<and> x \<noteq> [])"
proof -
  let ?u = "unread r"
  have io: "input_ok r" "input_ok r2" "unread r2 = ?u @ x" using m by (auto simp: more_input_def)
  note same = more_input_same [OF m] and par = parent_fewer [OF m]
  obtain cur where cur: "task r2 (r_ridx r2) = Inr cur" using ok by (auto simp: process_typed_def bindR_eq_Inr)
  then have cur1: "task r (r_ridx r) = Inr cur" using same by (simp add: task_def split: if_splits)
  have fn1: "r_fn r = Some fns" using same fn by simp
  have fewer: ?thesis if "k \<le> length ?u" "item_done (adv r2 k) obj h1 = Inr (REDIS_OK, r2', h')" "process_typed (r, h) = item_done (adv r k) obj h1" for k obj h1
    using item_done_fewer [OF more_input_adv [OF m that(1)] that(2)] that(3) by auto
  consider (line) "rt_type cur \<in> {3, 5, 6}" | (bulk) "rt_type cur = 1" | (multi) "rt_type cur = 2"
    using ok cur by (auto simp: process_typed_def split: if_splits)
  then show ?thesis
  proof cases
    case line
    have pt: "process_typed (q, h) = processLineItem (q, h)" if "task q (r_ridx q) = Inr cur" for q
      using that line by (auto simp: process_typed_def)
    note l2 = line_unread [OF io(2) cur line fn, of h, unfolded io(3)] and l1 = line_unread [OF io(1) cur1 line fn1, of h]
    show ?thesis
    proof (cases "crlf ?u")
      case None
      then have "process_typed (r, h) = Inr (REDIS_ERR, r, h)" using l1 pt [OF cur1] by simp
      moreover have "x \<noteq> []" using None ok l2 pt [OF cur] by auto
      ultimately show ?thesis by simp
    next
      case (Some k)
      note k = crlf_Some [OF Some]
      have ln: "take k (?u @ x) = take k ?u" using k by simp
      let ?make = "\<lambda>par. if rt_type cur = REDIS_REPLY_INTEGER then bindR (line_number (take k ?u)) (\<lambda>v. mkI B (place_of cur par) v h)
          else mkS B (rt_type cur) (place_of cur par) (take k ?u) h"
      have e2: "process_typed (r2, h) = bindR (parent_of r2 cur) (\<lambda>par. bindR (?make par) (\<lambda>(obj, h). item_done (adv r2 (k + 2)) obj h))"
        unfolding pt [OF cur] l2 crlf_append [OF Some, of x] ln option.case ..
      have e1: "process_typed (r, h) = bindR (parent_of r2 cur) (\<lambda>par. bindR (?make par) (\<lambda>(obj, h). item_done (adv r (k + 2)) obj h))"
        unfolding pt [OF cur1] l1 Some par option.case ..
      obtain p obj h1 where "parent_of r2 cur = Inr p" "?make p = Inr (obj, h1)" "item_done (adv r2 (k + 2)) obj h1 = Inr (REDIS_OK, r2', h')"
        using ok e2 by (auto simp: bindR_eq_Inr)
      then show ?thesis using fewer [of "k + 2" obj h1] e1 k by simp
    qed
  next
    case bulk
    have pt: "process_typed (q, h) = processBulkItem (q, h)" if "task q (r_ridx q) = Inr cur" for q
      using that bulk by (simp add: process_typed_def)
    note b2 = bulk_unread [OF io(2) cur bulk fn, of h, unfolded io(3)] and b1 = bulk_unread [OF io(1) cur1 bulk fn1, of h]
    show ?thesis
    proof (cases "crlf ?u")
      case None
      then have "process_typed (r, h) = Inr (REDIS_ERR, r, h)" using b1 pt [OF cur1] by simp
      moreover have "x \<noteq> []" using None ok b2 pt [OF cur] by auto
      ultimately show ?thesis by simp
    next
      case (Some k)
      note k = crlf_Some [OF Some] and k2 = crlf_append [OF Some, of x]
      have ln: "take k (?u @ x) = take k ?u" using k by simp
      obtain len where len: "line_number (take k ?u) = Inr len" using ok b2 pt [OF cur] k2 ln by (auto simp: bindR_eq_Inr)
      show ?thesis
      proof (cases "len < 0")
        case True
        have "process_typed (q, h) = bindR (nil_object r2 cur h) (\<lambda>(obj, h). if obj = 0 then oom (q, h) else item_done (adv q (k + 2)) obj h)" if "q = r \<or> q = r2" for q
          using that b1 b2 pt cur cur1 k2 ln len True Some nil_object_fewer [OF m] by auto
        note e = this
        obtain obj h1 where o: "nil_object r2 cur h = Inr (obj, h1)" using ok e [of r2] by (auto simp: bindR_eq_Inr)
        then have "obj \<noteq> 0" using ok e [of r2] oom_rc [of "(r2, h1)"] by (auto split: if_splits)
        then show ?thesis using fewer [of "k + 2" obj h1] o ok e [of r2] e [of r] k by simp
      next
        case False
        have e: "process_typed (q, h) = bindR (ck64 (len + 2)) (\<lambda>l2.
          if k + nat len + 4 \<le> length (unread q)
          then bindR (parent_of r2 cur) (\<lambda>par. bindR (mkS B REDIS_REPLY_STRING (place_of cur par) (take (nat len) (drop (k + 2) (unread q))) h) (\<lambda>(obj, h).
               if obj = 0 then oom (q, h) else item_done (adv q (k + nat len + 4)) obj h))
          else Inr (REDIS_ERR, q, h))" if "q = r \<or> q = r2" for q
          using that
        proof
          assume q: "q = r"
          show ?thesis unfolding q pt [OF cur1] b1 Some len option.case bindR_simps if_not_P [OF False] par ..
        next
          assume q: "q = r2"
          show ?thesis unfolding q pt [OF cur] b2 k2 ln len option.case bindR_simps if_not_P [OF False] io(3) ..
        qed
        obtain l2 where l2: "ck64 (len + 2) = Inr l2" using ok e [of r2] by (auto simp: bindR_eq_Inr)
        show ?thesis
        proof (cases "k + nat len + 4 \<le> length ?u")
          case short: True
          have tk: "take (nat len) (drop (k + 2) (?u @ x)) = take (nat len) (drop (k + 2) ?u)" using short by simp
          have lu: "k + nat len + 4 \<le> length (unread r2)" using short io(3) by simp
          note e' = e [of r2, simplified, unfolded l2 bindR_simps if_P [OF lu], unfolded io(3) tk]
            and e1 = e [of r, simplified, unfolded l2 bindR_simps if_P [OF short]]
          obtain p obj h1 where o: "parent_of r2 cur = Inr p" "mkS B REDIS_REPLY_STRING (place_of cur p) (take (nat len) (drop (k + 2) ?u)) h = Inr (obj, h1)"
            using ok e' by (auto simp: bindR_eq_Inr)
          then have "obj \<noteq> 0" using ok e' oom_rc [of "(r2, h1)"] by (auto split: if_splits)
          then show ?thesis using fewer [of "k + nat len + 4" obj h1] o ok e' e1 short by simp
        next
          case long: False
          then have "process_typed (r, h) = Inr (REDIS_ERR, r, h)" using e [of r] l2 by simp
          moreover have "x \<noteq> []" using long ok e [of r2] l2 io(3) by auto
          ultimately show ?thesis by simp
        qed
      qed
    qed
  next
    case multi
    have pt: "process_typed (q, h) = processMultiBulkItem (q, h)" if "task q (r_ridx q) = Inr cur" for q
      using that multi by (simp add: process_typed_def)
    have d: "r_ridx r2 \<noteq> 8" using ok pt [OF cur] cur by (auto simp: processMultiBulkItem_def bindR_eq_Inr)
    then have d1: "r_ridx r \<noteq> 8" using same by simp
    note m2 = multi_unread [OF io(2) cur d, of h, unfolded io(3)] and m1 = multi_unread [OF io(1) cur1 d1, of h]
    show ?thesis
    proof (cases "crlf ?u")
      case None
      then have "process_typed (r, h) = Inr (REDIS_ERR, r, h)" using m1 pt [OF cur1] by simp
      moreover have "x \<noteq> []" using None ok m2 pt [OF cur] by auto
      ultimately show ?thesis by simp
    next
      case (Some k)
      note k = crlf_Some [OF Some]
      obtain n where n: "line_number (take k ?u) = Inr n" "array_item (adv r2 (k + 2)) cur n h = Inr (REDIS_OK, r2', h')"
        using ok m2 pt [OF cur] crlf_append [OF Some, of x] k by (auto simp: bindR_eq_Inr)
      then show ?thesis
        using array_item_fewer [OF more_input_adv [OF m, of "k + 2"] n(2)] k m1 Some pt [OF cur1] by auto
    qed
  qed
qed

lemma processItem_typed_task:
  assumes "task r (r_ridx r) = Inr cur" "\<not> rt_type cur < 0"
  shows "processItem (r, h) = process_typed (r, h)"
  using assms by (simp add: processItem_def)

text \<open>Reading the type byte, if there is one.\<close>

lemma processItem_untyped:
  assumes "input_ok r" "task r (r_ridx r) = Inr cur" "rt_type cur < 0"
  shows "processItem (r, h) = (case unread r of
      [] \<Rightarrow> Inr (REDIS_ERR, r, h)
    | c # _ \<Rightarrow> (case type_of_byte c of
          None \<Rightarrow> bindR (redisReaderSetErrorProtocolByte (adv r 1) c h) (\<lambda>rh. Inr (REDIS_ERR, rh))
        | Some ty \<Rightarrow> bindR (set_task (adv r 1) (r_ridx r) (cur\<lparr>rt_type := ty\<rparr>)) (\<lambda>r. process_typed (r, h))))"
proof (rule seek_unread [OF assms(1)])
  fix b assume b: "rbuf r = Inr b" "\<exists>z. drop (nat (r_pos r)) b = unread r @ z" "uint64 (r_len r - r_pos r) = int (length (unread r))" "0 \<le> r_pos r"
  show ?thesis
  proof (cases "unread r")
    case Nil
    then show ?thesis using assms b(3) by (simp add: processItem_def readBytes_def)
  next
    case (Cons c cs)
    then obtain z where z: "drop (nat (r_pos r)) b = c # z" using b(2) by auto
    then have "rd b (r_pos r) = Inr c" using b(4) by (auto simp: rd_def nth_via_drop dest: arg_cong [of _ _ length])
    moreover have "readBytes r 1 = (Some (r_pos r), adv r 1)" using b(3) Cons by (simp add: readBytes_def adv_def)
    moreover have "rbuf (adv r 1) = Inr b" using b(1) by (simp add: rbuf_def)
    ultimately show ?thesis using assms(2,3) Cons by (cases "type_of_byte c") (simp_all add: processItem_def)
  qed
qed

lemma set_task_fewer:
  assumes "more_input r r2 x" "set_task r2 i t = Inr r2'"
  shows "\<exists>r'. set_task r i t = Inr r' \<and> more_input r' r2' x"
proof -
  obtain b p l where r: "r = put_input b p l r2" using assms(1) by (auto simp: more_input_def)
  have "more_input (put_input b p l r2') r2' x"
    by (rule more_input_put [OF assms(1) [unfolded r]]) (use assms(2) in \<open>auto simp: set_task_def split: if_splits\<close>)
  then show ?thesis using assms(2) r by (simp add: set_task_put)
qed

lemma processItem_fewer:
  assumes m: "more_input r r2 x" and fn: "r_fn r2 = Some fns" and ok: "processItem (r2, h) = Inr (REDIS_OK, r2', h')"
  shows "(\<exists>r'. processItem (r, h) = Inr (REDIS_OK, r', h') \<and> more_input r' r2' x) \<or>
    (x \<noteq> [] \<and> (\<exists>r' r2''. processItem (r, h) = Inr (REDIS_ERR, r', h) \<and> more_input r' r2'' x \<and> r_ridx r2'' = r_ridx r2 \<and> r_fn r2'' = r_fn r2 \<and>
       r_err r2'' = r_err r2 \<and> processItem (r2'', h) = Inr (REDIS_OK, r2', h')))"
proof -
  have io: "input_ok r" "input_ok r2" "unread r2 = unread r @ x" using m by (auto simp: more_input_def)
  note same = more_input_same [OF m]
  obtain cur where cur: "task r2 (r_ridx r2) = Inr cur" using ok by (auto simp: processItem_def bindR_eq_Inr)
  then have cur1: "task r (r_ridx r) = Inr cur" using same by (simp add: task_def split: if_splits)
  show ?thesis
  proof (cases "rt_type cur < 0")
    case False
    note pt = processItem_typed_task [OF _ False]
    show ?thesis
      using process_typed_fewer [OF m fn, of h r2' h'] pt [OF cur1, of h] pt [OF cur, of h] ok m by auto
  next
    case True
    note p1 = processItem_untyped [OF io(1) cur1 True, of h] and p2 = processItem_untyped [OF io(2) cur True, of h, unfolded io(3)]
    show ?thesis
    proof (cases "unread r")
      case Nil
      then have "processItem (r, h) = Inr (REDIS_ERR, r, h)" using p1 by simp
      moreover have "x \<noteq> []" using Nil p2 ok by auto
      ultimately show ?thesis using m ok by blast
    next
      case (Cons c cs)
      obtain ty where ty: "type_of_byte c = Some ty" using p2 ok Cons
        by (cases "type_of_byte c"; cases "redisReaderSetErrorProtocolByte (adv r2 1) c h") auto
      obtain q2 where q2: "set_task (adv r2 1) (r_ridx r2) (cur\<lparr>rt_type := ty\<rparr>) = Inr q2" "process_typed (q2, h) = Inr (REDIS_OK, r2', h')"
        using p2 ok Cons ty by (cases "set_task (adv r2 1) (r_ridx r2) (cur\<lparr>rt_type := ty\<rparr>)") auto
      obtain q where q: "set_task (adv r 1) (r_ridx r2) (cur\<lparr>rt_type := ty\<rparr>) = Inr q" "more_input q q2 x"
        using set_task_fewer [OF more_input_adv [OF m, of 1] q2(1)] Cons by auto
      have q2s: "r_ridx q2 = r_ridx r2" "r_fn q2 = r_fn r2" "r_err q2 = r_err r2" "task q2 (r_ridx q2) = Inr (cur\<lparr>rt_type := ty\<rparr>)"
        using q2(1) by (auto simp: set_task_def task_def split: if_splits)
      have pr: "processItem (r, h) = process_typed (q, h)" using p1 Cons ty q(1) same by simp
      have "processItem (q2, h) = Inr (REDIS_OK, r2', h')"
        using processItem_typed_task [OF q2s(4)] q2(2) ty by (auto simp: type_of_byte_def split: if_splits)
      then show ?thesis
        using process_typed_fewer [OF q(2) _ q2(2)] q2s fn pr q(2) by auto
    qed
  qed
qed

end

section \<open>Runs of the loop\<close>

inductive completes :: "'h redisReader \<Rightarrow> 'h \<Rightarrow> 'h redisReader \<Rightarrow> 'h \<Rightarrow> bool" where
  completed: "r_ridx e < 0 \<Longrightarrow> completes e h e h"
| item: "r_ridx r \<ge> 0 \<Longrightarrow> processItem (r, h) = Inr (REDIS_OK, r1, h1) \<Longrightarrow> completes r1 h1 e h' \<Longrightarrow> completes r h e h'"

lemma completes_loop: "completes r h e h' \<Longrightarrow> process_loop (r, h) = Inr (e, h') \<and> r_ridx e < 0"
  by (induction rule: completes.induct) (simp_all add: process_loop.simps)

text \<open>An item that fails sets an error, one that waits keeps its place on the stack.\<close>

lemma redisReaderSetError_err: "redisReaderSetError r ty msg h = Inr (r', h') \<Longrightarrow> r_err r' = ty"
  by (auto simp: redisReaderSetError_def bindR_eq_Inr Let_def)

lemma oom_err: "oom rh = Inr (rc, r', h') \<Longrightarrow> r_err r' = REDIS_ERR_OOM"
  by (cases rh) (auto simp: oom_def redisReaderSetErrorOOM_def bindR_eq_Inr dest!: redisReaderSetError_err)

lemma item_done_rc: "item_done r obj h = Inr (rc, r', h') \<Longrightarrow> rc = REDIS_OK \<or> r_err r' \<noteq> 0"
  by (auto simp: item_done_def bindR_eq_Inr split: if_splits dest!: oom_err)

lemma array_item_rc: "array_item r cur n h = Inr (rc, r', h') \<Longrightarrow> rc = REDIS_OK \<or> r_err r' \<noteq> 0"
  by (auto simp: array_item_def bindR_eq_Inr Let_def split: if_splits dest!: oom_err)

lemma readLine_None: "readLine r = Inr (None, r') \<Longrightarrow> r' = r"
  by (auto simp: readLine_def bindR_eq_Inr Let_def split: option.splits)

definition waits :: "'h redisReader \<Rightarrow> (int \<times> 'h rstate) res \<Rightarrow> bool" where
  "waits i m \<longleftrightarrow> (\<forall>rc r' h'. m = Inr (rc, r', h') \<longrightarrow>
     rc = REDIS_OK \<or> r_err r' \<noteq> 0 \<or> r_ridx r' = r_ridx i \<and> r_buf r' = r_buf i \<and> r_len r' = r_len i)"

lemma waits_bindR: "(\<And>x. m = Inr x \<Longrightarrow> waits i (f x)) \<Longrightarrow> waits i (bindR m f)"
  by (cases m) (simp_all add: waits_def)

lemma waits_done: "waits i (item_done r obj h)" "waits i (array_item r cur n h)" "waits i (oom rh)"
  using item_done_rc [of r obj h] array_item_rc [of r cur n h] oom_err [of rh] by (fastforce simp: waits_def)+

lemma waits_error: "ty \<noteq> 0 \<Longrightarrow> waits i (bindR (redisReaderSetError r ty msg h) (\<lambda>rh. Inr (REDIS_ERR, rh)))"
  by (cases "redisReaderSetError r ty msg h") (auto simp: waits_def dest: redisReaderSetError_err)

lemma waits_keep: "r_ridx r = r_ridx i \<Longrightarrow> r_buf r = r_buf i \<Longrightarrow> r_len r = r_len i \<Longrightarrow> waits i (Inr (rc, r, h))"
  by (simp add: waits_def)

lemma processLineItem_rc: "waits r (processLineItem (r, h))"
  unfolding processLineItem_def
  by (auto intro!: waits_bindR waits_done waits_keep split: option.split dest: readLine_None)

lemma processBulkItem_rc: "waits r (processBulkItem (r, h))"
  unfolding processBulkItem_def Let_def
  by (auto intro!: waits_bindR waits_done waits_keep split: option.split)

lemma processMultiBulkItem_rc: "waits r (processMultiBulkItem (r, h))"
  unfolding processMultiBulkItem_def Let_def prod.case
  apply (rule waits_bindR)
  apply (rule if_split [THEN iffD2])
  apply (intro conjI impI)
   apply (rule waits_error; simp)
  apply (auto intro!: waits_bindR waits_done waits_keep split: option.split dest: readLine_None)
  done

lemma process_typed_rc: "waits r (process_typed (r, h))"
  unfolding process_typed_def
  by (rule waits_bindR) (auto simp: processLineItem_rc processBulkItem_rc processMultiBulkItem_rc waits_def [of _ "Inl _"])

lemma waits_view: "waits q m \<Longrightarrow> r_ridx q = r_ridx r \<Longrightarrow> r_buf q = r_buf r \<Longrightarrow> r_len q = r_len r \<Longrightarrow> waits r m"
  by (simp add: waits_def)

lemma process_typed_set_task: "set_task q i t = Inr r \<Longrightarrow> waits q (process_typed (r, h))"
  using process_typed_rc [of r h] by (auto simp: set_task_def waits_def split: if_splits)

lemma processItem_rc: "waits r (processItem (r, h))"
proof -
  have pb: "waits i (bindR (redisReaderSetErrorProtocolByte q c h) (\<lambda>rh. Inr (REDIS_ERR, rh)))" for i q c
    unfolding redisReaderSetErrorProtocolByte_def by (rule waits_error) simp
  have rb: "r_ridx q = r_ridx r" "r_buf q = r_buf r" "r_len q = r_len r" if "readBytes r 1 = (p, q)" for p q
    using that by (auto simp: readBytes_def split: if_splits)
  have ty: "waits r (process_typed (q', h))" if "readBytes r 1 = (p, q)" "set_task q i t = Inr q'" for p q q' i t
    by (rule waits_view [OF process_typed_set_task [OF that(2)]]) (rule rb [OF that(1)])+
  show ?thesis
    unfolding processItem_def Let_def prod.case
    apply (rule waits_bindR)
    apply (rule if_split [THEN iffD2])
    apply (intro conjI impI)
     apply (auto split: option.split prod.split intro!: waits_bindR waits_keep pb process_typed_rc ty dest: rb)
    done
qed

lemma loop_completes:
  "process_loop (r, h) = Inr (e, h') \<Longrightarrow> r_ridx e < 0 \<Longrightarrow> r_err e = 0 \<Longrightarrow> completes r h e h'"
proof (induction "(r, h)" arbitrary: r h rule: process_loop.induct)
  case 1
  show ?case
  proof (cases "r_ridx r \<ge> 0")
    case False
    then show ?thesis using "1.prems" by (subst (asm) process_loop.simps) (auto intro: completes.completed)
  next
    case True
    then obtain rc r1 h1 where p: "processItem (r, h) = Inr (rc, r1, h1)"
      using "1.prems"(1) by (subst (asm) process_loop.simps) (auto split: sum.splits)
    show ?thesis
    proof (cases "rc = REDIS_OK")
      case False
      then have "e = r1" using "1.prems"(1) True p by (subst (asm) process_loop.simps) auto
      then show ?thesis using processItem_rc [of r h] p False "1.prems"(2,3) True by (auto simp: waits_def)
    next
      case ok: True
      then have "process_loop (r1, h1) = Inr (e, h')" using "1.prems"(1) True p by (subst (asm) process_loop.simps) auto
      then have "completes r1 h1 e h'" using "1.hyps" True p ok "1.prems"(2,3) by fastforce
      then show ?thesis using True p ok by (auto intro: completes.item)
    qed
  qed
qed

context reply_functions
begin

text \<open>A run that completes the reply with more bytes, on fewer bytes completes it too or stops in a state
  from which the rest of the bytes completes it.\<close>

lemma completes_fewer:
  "completes r2 h e h' \<Longrightarrow> more_input r r2 x \<Longrightarrow> r_fn r2 = Some fns \<Longrightarrow> r_err r2 = 0 \<Longrightarrow>
    (\<exists>e1. completes r h e1 h' \<and> more_input e1 e x \<and> r_buf e1 = r_buf r) \<or>
    (x \<noteq> [] \<and> (\<exists>r1 h1 r3. process_loop (r, h) = Inr (r1, h1) \<and> r_ridx r1 \<ge> 0 \<and> r_err r1 = 0 \<and> r_stack r1 \<noteq> [] \<and> r_buf r1 = r_buf r \<and> more_input r1 r3 x \<and> r_fn r3 = Some fns \<and> completes r3 h1 e h'))"
proof (induction arbitrary: r rule: completes.induct)
  case (completed e h)
  then have "completes r h r h" using more_input_same [OF completed.prems(1)] by (intro completes.completed) simp
  then show ?case using completed.prems(1) by blast
next
  case (item r2 h q2 h1 e h')
  have ridx: "r_ridx r \<ge> 0" using more_input_same [OF item.prems(1)] item.hyps(1) by simp
  have q2: "r_fn q2 = Some fns" "r_err q2 = 0"
    using processItem_OK [OF item.hyps(2)] item.prems(2,3) by (simp_all add: consumed_def same_input_def)
  from processItem_fewer [OF item.prems(1,2) item.hyps(2)] show ?case
  proof (elim disjE exE conjE)
    fix q assume q: "processItem (r, h) = Inr (REDIS_OK, q, h1)" "more_input q q2 x"
    have pl: "process_loop (r, h) = process_loop (q, h1)" using ridx q(1) by (subst process_loop.simps) simp
    have "r_buf q = r_buf r" using processItem_OK [OF q(1)] by (simp add: consumed_def same_input_def)
    then show ?thesis using item.IH [OF q(2) q2] pl completes.item [OF ridx q(1)] by auto
  next
    fix q q3 assume q: "x \<noteq> []" "processItem (r, h) = Inr (REDIS_ERR, q, h)" "more_input q q3 x" "r_ridx q3 = r_ridx r2" "r_fn q3 = r_fn r2"
      "r_err q3 = r_err r2" "processItem (q3, h) = Inr (REDIS_OK, q2, h1)"
    have "process_loop (r, h) = Inr (q, h)" using ridx q(2) by (subst process_loop.simps) simp
    moreover have q0: "r_ridx q \<ge> 0" "r_err q = 0" using more_input_same [OF q(3)] q(4,6) item.hyps(1) item.prems(3) by auto
    moreover have "r_buf q = r_buf r" using processItem_rc [of r h] q(2) q0(2) by (simp add: waits_def)
    moreover have "r_stack q \<noteq> []"
      using q(7) more_input_same [OF q(3)] by (auto simp: processItem_def bindR_eq_Inr task_def split: if_splits)
    moreover have "completes q3 h e h'" using q(4,7) item.hyps(1,3) by (auto intro: completes.item)
    ultimately show ?thesis using q(1,3,5) item.prems(2) by auto
  qed
qed

end

end
