(* ===== verification/ReaderChunks.thy ===== *)
theory ReaderChunks
  imports ReaderResume ReplyProof
begin

text \<open>
  Replies that arrive in pieces: between two calls of \<^verbatim>\<open>redisReaderGetReply\<close> the reader is idle or in
  the middle of a reply, and \<open>pending\<close> says that the bytes still to come complete it. Feeding some of
  them and asking for a reply keeps this until the reply is there.
\<close>

section \<open>Readers in the middle of a reply\<close>

text \<open>The state in which the loop stops when the reply is complete.\<close>

definition ended :: "'h redisReader \<Rightarrow> 'h redisReplyObjectFunctions \<Rightarrow> nat \<Rightarrow> bytes \<Rightarrow> bool" where
  "ended e fns obj rest \<longleftrightarrow> r_err e = 0 \<and> r_ridx e = - 1 \<and> length (r_stack e) = 9 \<and> length (r_errstr e) = 128 \<and> r_fn e = Some fns \<and>
     r_reply e = obj \<and> unread e = rest"

definition pending ::
  "'h redisReplyObjectFunctions \<Rightarrow> nat \<Rightarrow> bytes \<Rightarrow> 'h \<Rightarrow> 'h redisReader \<Rightarrow> 'h \<Rightarrow> bytes \<Rightarrow> bool" where
  "pending fns obj rest hf r h x \<longleftrightarrow> r_err r = 0 \<and> r_ridx r \<ge> - 1 \<and> r_stack r \<noteq> [] \<and>
     (\<exists>r3 e. more_input (rooted r) r3 x \<and> r_fn r3 = Some fns \<and> completes r3 h e hf \<and> ended e fns obj rest)"

lemma rooted_put: "rooted (put_input b p l r) = put_input b p l (rooted r)"
  by (simp add: rooted_def put_input_def root_task_def)

lemma rooted_sel [simp]:
  "r_buf (rooted r) = r_buf r" "r_pos (rooted r) = r_pos r" "r_len (rooted r) = r_len r" "r_err (rooted r) = r_err r"
  "r_fn (rooted r) = r_fn r"
  by (simp_all add: rooted_def)

lemma rooted_view: "input_ok (rooted r) = input_ok r" "unread (rooted r) = unread r" "received (rooted r) = received r"
  by (simp_all add: input_ok_def unread_def received_def cong: option.case_cong)

lemma pending_input: "pending fns obj rest hf r h x \<Longrightarrow> input_ok r"
  by (auto simp: pending_def more_input_def rooted_view)

lemma rooted_idem: "r_ridx r \<ge> 0 \<Longrightarrow> rooted r = r"
  by (simp add: rooted_def)

text \<open>Replacing the buffer by one with more of the bytes.\<close>

lemma more_input_fed:
  assumes "more_input r r3 (c @ x)" "input_ok (put_input b p l r)" "unread (put_input b p l r) = unread r @ c"
  shows "more_input (put_input b p l r) r3 x"
proof -
  obtain b' p' l' where "r = put_input b' p' l' r3" using assms(1) by (auto simp: more_input_def)
  then have "put_input b p l r = put_input b p l r3" by (simp add: put_input_def)
  then show ?thesis using assms by (auto simp: more_input_def)
qed

lemma pending_fed:
  assumes "pending fns obj rest hf r h (c @ x)" "input_ok (put_input b p l r)" "unread (put_input b p l r) = unread r @ c"
  shows "pending fns obj rest hf (put_input b p l r) h x"
proof -
  have "input_ok (put_input b p l (rooted r))" "unread (put_input b p l (rooted r)) = unread (rooted r) @ c"
    using assms(2,3) rooted_view [of "put_input b p l r"] by (simp_all add: rooted_put rooted_view)
  then show ?thesis using assms(1) more_input_fed by (fastforce simp: pending_def rooted_put)
qed

section \<open>Asking for the reply\<close>

text \<open>What follows the loop when the reply is not complete.\<close>

lemma discard_keeps:
  assumes "input_ok r"
  shows "\<exists>b p l. (if r_pos r \<ge> 1024
       then bindR (deref (r_buf r)) (\<lambda>s. bindR (sdsrange s (int32 (r_pos r)) (- 1)) (\<lambda>s.
                      Inr (r\<lparr>r_buf := Some s, r_pos := 0, r_len := sdslen s\<rparr>)))
       else Inr r) = Inr (put_input b p l r) \<and> input_ok (put_input b p l r) \<and> unread (put_input b p l r) = unread r \<and>
    received (put_input b p l r) \<le> received r \<and> p < 1024"
proof -
  obtain s where s: "r_buf r = Some s" "sds_ok s" "r_len r = sh_len s" "0 \<le> r_pos r" "r_pos r \<le> r_len r"
    using assms by (auto simp: input_ok_def split: option.splits)
  show ?thesis
    by (rule discard_consumed [OF s])
      (use s in \<open>auto simp: put_input_def input_ok_def unread_def received_def intro!: exI\<close>)
qed

lemma set_root: "r_ridx r = - 1 \<Longrightarrow> r_stack r \<noteq> [] \<Longrightarrow>
    set_task (r\<lparr>r_ridx := 0\<rparr>) 0 (root_task r) = Inr (rooted r)"
  by (simp add: set_task_def rooted_def)

lemma redisReaderGetReply_loop:
  assumes "r_err r = 0" "r_len r \<noteq> 0" "r_ridx r \<ge> - 1" "r_stack r \<noteq> []" "process_loop (rooted r, h) = Inr (e, h1)" "r_err e = 0" "input_ok e"
  shows "\<exists>b p l. redisReaderGetReply (r, h) =
      Inr (REDIS_OK, if r_ridx e = - 1 then (r_reply e, (put_input b p l e)\<lparr>r_reply := 0\<rparr>, h1) else (0, put_input b p l e, h1)) \<and>
    input_ok (put_input b p l e) \<and> unread (put_input b p l e) = unread e \<and> received (put_input b p l e) \<le> received e \<and> p < 1024"
proof -
  have st: "(if r_ridx r = - 1 then set_task (r\<lparr>r_ridx := 0\<rparr>) 0 (root_task r) else Inr r) = Inr (rooted r)"
    using assms(3,4) set_root [of r] by (auto simp: rooted_def)
  from discard_keeps [OF assms(7)] obtain b p l where cut: "(if r_pos e \<ge> 1024
       then bindR (deref (r_buf e)) (\<lambda>s. bindR (sdsrange s (int32 (r_pos e)) (- 1)) (\<lambda>s.
                      Inr (e\<lparr>r_buf := Some s, r_pos := 0, r_len := sdslen s\<rparr>)))
       else Inr e) = Inr (put_input b p l e)"
    "input_ok (put_input b p l e)" "unread (put_input b p l e) = unread e" "received (put_input b p l e) \<le> received e" "p < 1024" by blast
  have "redisReaderGetReply (r, h) =
      Inr (REDIS_OK, if r_ridx e = - 1 then (r_reply e, (put_input b p l e)\<lparr>r_reply := 0\<rparr>, h1) else (0, put_input b p l e, h1))"
    by (simp only: redisReaderGetReply_def Let_def case_prod_conv assms(1,2,5,6) root_task_def [symmetric] st bindR_simps cut(1) simp_thms
        if_True if_False) simp
  then show ?thesis using cut(2-5) by blast
qed

lemma completes_pos: "completes r h e h' \<Longrightarrow> r_len e = r_len r \<and> r_pos r \<le> r_pos e \<and> (r_ridx r \<ge> 0 \<longrightarrow> r_pos r < r_pos e)"
proof (induction rule: completes.induct)
  case (item r h r1 h1 e h')
  then show ?case using processItem_OK [OF item.hyps(2)] by (auto simp: consumed_def same_input_def)
qed simp

lemma rooted_ridx: "r_ridx r \<ge> - 1 \<Longrightarrow> r_ridx (rooted r) \<ge> 0"
  by (simp add: rooted_def)

context reply_functions
begin

lemma pending_start:
  assumes "reader_idle r" "r_fn r = Some fns" "unread r @ x = encode rep @ rest" "int (length (unread r @ x)) < 2 ^ 31"
    and "wf_at 0 rep" "build B None rep h = Inr (obj, h')"
  shows "pending fns obj rest h' r h x"
proof -
  let ?u = "unread r @ x"
  define r2 where "r2 = put_input (Some (sds_of ?u)) 0 (int (length ?u)) r"
  have ok: "input_ok r2" "unread r2 = ?u" using sds_of(1) [OF assms(4)] sds_of(2) [of ?u] by (simp_all add: r2_def input_ok_def unread_def sds_of_def)
  then have idle: "reader_idle r2" using put_input_idle [OF assms(1)] by (simp add: r2_def)
  have fn: "r_fn r2 = Some fns" using assms(2) by (simp add: r2_def)
  obtain e where e: "process_loop (rooted r2, h) = Inr (e, h')" "r_err e = 0" "r_ridx e = - 1" "r_buf e = r_buf r2" "r_pos e = r_pos r2 + int (length (encode rep))"
      "r_fn e = Some fns" "length (r_stack e) = 9" "r_reply e = obj" "length (r_errstr e) = 128"
    using rooted_run [OF idle fn _ assms(5,6)] ok(2) assms(3) by auto
  have "unread e = drop (length (encode rep)) (unread r2)"
    using e(4,5) by (simp add: unread_def r2_def)
  then have "ended e fns obj rest" using e ok(2) assms(3) by (simp add: ended_def)
  moreover have "completes (rooted r2) h e h'" by (rule loop_completes) (use e in auto)
  moreover have "more_input (rooted r) (rooted r2) x"
  proof -
    have "rooted r = put_input (r_buf r) (r_pos r) (r_len r) (rooted r2)"
      by (simp add: r2_def rooted_put) (simp add: put_input_def rooted_def)
    moreover have "input_ok (rooted r)" "input_ok (rooted r2)" "unread (rooted r2) = unread (rooted r) @ x"
      using ok idle_input_ok [OF assms(1)] by (simp_all add: rooted_view)
    ultimately show ?thesis unfolding more_input_def by blast
  qed
  ultimately show ?thesis using assms(1) fn by (auto simp: pending_def reader_idle_def)
qed

lemma pending_reply:
  assumes "pending fns obj rest hf r h x"
  shows "(\<exists>r'. redisReaderGetReply (r, h) = Inr (REDIS_OK, obj, r', hf) \<and> reader_idle r' \<and> r_fn r' = Some fns \<and> unread r' @ x = rest \<and> r_pos r' < 1024) \<or>
    (x \<noteq> [] \<and> (\<exists>r' h1. redisReaderGetReply (r, h) = Inr (REDIS_OK, 0, r', h1) \<and> pending fns obj rest hf r' h1 x \<and> received r' \<le> received r))"
proof -
  obtain r3 e where p: "r_err r = 0" "r_ridx r \<ge> - 1" "r_stack r \<noteq> []" "more_input (rooted r) r3 x" "r_fn r3 = Some fns" "completes r3 h e hf" "ended e fns obj rest"
    using assms by (auto simp: pending_def)
  note io = pending_input [OF assms]
  have rcv: "received e1 = received r" if "r_buf e1 = r_buf r" for e1 :: "'a redisReader" using that by (simp add: received_def)
  have "r_err r3 = 0" using more_input_same [OF p(4)] p(1) by simp
  from completes_fewer [OF p(6,4,5) this] show ?thesis
  proof (elim disjE exE conjE)
    fix e1 assume e1: "completes (rooted r) h e1 hf" "more_input e1 e x" "r_buf e1 = r_buf (rooted r)"
    have pl: "process_loop (rooted r, h) = Inr (e1, hf)" using completes_loop [OF e1(1)] by simp
    have s: "r_err e1 = 0" "r_ridx e1 = - 1" "length (r_stack e1) = 9" "length (r_errstr e1) = 128" "r_fn e1 = Some fns" "r_reply e1 = obj"
        "unread e1 @ x = rest" "input_ok e1"
      using e1(2) p(7) by (auto simp: more_input_def ended_def put_input_def)
    have ne: "r_len r \<noteq> 0"
    proof
      assume "r_len r = 0"
      moreover have "0 \<le> r_pos r" "r_pos e1 \<le> r_len e1" using io s(8) by (simp_all add: input_ok_def)
      ultimately show False using completes_pos [OF e1(1)] rooted_ridx [OF p(2)] by simp
    qed
    from redisReaderGetReply_loop [OF p(1) ne p(2,3) pl s(1,8)] obtain b q l where
      g: "redisReaderGetReply (r, h) = Inr (REDIS_OK, obj, (put_input b q l e1)\<lparr>r_reply := 0\<rparr>, hf)" "input_ok (put_input b q l e1)"
        "unread (put_input b q l e1) = unread e1" "q < 1024" using s(2,6) by auto
    let ?r' = "(put_input b q l e1)\<lparr>r_reply := 0\<rparr>"
    have "reader_idle ?r'" "r_pos ?r' < 1024" using s g(2,4) by (auto simp: reader_idle_def input_ok_def put_input_def split: option.splits)
    moreover have "unread ?r' = unread e1" "r_fn ?r' = Some fns"
      using g(3) s(5) by (simp_all add: unread_def cong: option.case_cong)
    ultimately show ?thesis using g(1) s(7) by auto
  next
    fix r1 h1 r4 assume r1: "x \<noteq> []" "process_loop (rooted r, h) = Inr (r1, h1)" "r_ridx r1 \<ge> 0" "r_err r1 = 0" "r_stack r1 \<noteq> []"
      "r_buf r1 = r_buf (rooted r)" "more_input r1 r4 x" "r_fn r4 = Some fns" "completes r4 h1 e hf"
    show ?thesis
    proof (cases "r_len r = 0")
      case True
      then have "redisReaderGetReply (r, h) = Inr (REDIS_OK, 0, r, h)" using p(1) by (simp add: redisReaderGetReply_def)
      then show ?thesis using assms r1(1) by blast
    next
      case False
      have "input_ok r1" using r1(7) by (simp add: more_input_def)
      from redisReaderGetReply_loop [OF p(1) False p(2,3) r1(2,4) this] r1(3) obtain b q l where
        g: "redisReaderGetReply (r, h) = Inr (REDIS_OK, 0, put_input b q l r1, h1)" "input_ok (put_input b q l r1)"
          "unread (put_input b q l r1) = unread r1" "received (put_input b q l r1) \<le> received r1" by auto
      have "more_input (put_input b q l r1) r4 x" using more_input_fed [of r1 r4 "[]" x] r1(7) g(2,3) by simp
      then have "pending fns obj rest hf (put_input b q l r1) h1 x"
        using r1 p(7) by (auto simp: pending_def rooted_idem)
      then show ?thesis using g(1,4) r1(1,6) rcv [of r1] by auto
    qed
  qed
qed

end

end
