(* ===== verification/ContextReply.thy ===== *)
theory ContextReply
  imports ContextProof ReaderChunks ReaderContract
begin

text \<open>
  A blocking connection to a server: one call of \<^verbatim>\<open>redisGetReply\<close> sends the buffered command and
  returns the reply, whatever the sizes of the pieces the socket takes and gives.
\<close>

section \<open>Servers\<close>

text \<open>\<open>sent\<close> is what has gone out, \<open>got\<close> counts what was read back, and \<open>serve\<close> gives all that the server
  answers to what it was sent. A read while answers are outstanding returns some of them.\<close>

definition server :: "'w system \<Rightarrow> ('w \<Rightarrow> bytes) \<Rightarrow> ('w \<Rightarrow> nat) \<Rightarrow> (bytes \<Rightarrow> bytes) \<Rightarrow> bool" where
  "server S sent got serve \<longleftrightarrow> stream_write S sent \<and> write_progress S \<and>
     (\<forall>fd out w. got (snd (sys_write S fd out w)) = got w) \<and>
     (\<forall>fd n w. drop (got w) (serve (sent w)) \<noteq> [] \<and> n > 0 \<longrightarrow>
        (\<exists>k. 1 \<le> k \<and> int k \<le> n \<and> k \<le> length (drop (got w) (serve (sent w))) \<and>
          fst (sys_read S fd n w) = Inr (take k (drop (got w) (serve (sent w)))) \<and>
          got (snd (sys_read S fd n w)) = got w + k \<and> sent (snd (sys_read S fd n w)) = sent w))"

lemma server_read:
  assumes "server S sent got serve" "drop (got w) (serve (sent w)) = x" "x \<noteq> []"
  obtains k w' where "sys_read S fd 16384 w = (Inr (take k x), w')" "1 \<le> k" "k \<le> length x" "got w' = got w + k" "sent w' = sent w"
proof -
  have "drop (got w) (serve (sent w)) \<noteq> [] \<and> (16384::int) > 0" using assms by simp
  with assms(1) obtain k where "1 \<le> k" "k \<le> length x" "fst (sys_read S fd 16384 w) = Inr (take k x)"
      "got (snd (sys_read S fd 16384 w)) = got w + k" "sent (snd (sys_read S fd 16384 w)) = sent w"
    unfolding server_def assms(2) [symmetric] by blast
  then show thesis using that [of k "snd (sys_read S fd 16384 w)"] by (metis prod.collapse)
qed

section \<open>Reading\<close>

lemma redisBufferRead_some:
  assumes A: "\<forall>k. can_alloc A k" and c: "c_err c = 0" "c_reader c = Some r" and rd: "sys_read S (c_fd c) 16384 w = (Inr b, w')" "b \<noteq> []"
    and p: "pending F obj rest hf r h (b @ x)" and l: "int (received r + length b) < sds_limit"
  shows "\<exists>r'. redisBufferRead S A (c, h, w) = Inr (REDIS_OK, c\<lparr>c_reader := Some r'\<rparr>, h, w') \<and> pending F obj rest hf r' h x \<and>
    received r' \<le> received r + length b"
proof -
  have e: "r_err r = 0" using p by (simp add: pending_def)
  have run: "redisBufferRead S A (c, h, w) = bindR (redisReaderFeed A (r, h) (Some b) (int (length b))) (\<lambda>(rc, r, h).
              let c = c\<lparr>c_reader := Some r\<rparr> in
              if rc \<noteq> REDIS_OK then bindR (reader_error S c) (\<lambda>c. Inr (REDIS_ERR, c, h, w'))
              else Inr (REDIS_OK, c, h, w'))"
    using c rd by (simp add: redisBufferRead_def)
  from e pending_input [OF p] spec [OF A] order_refl l show ?thesis
  proof (cases rule: redisReaderFeed_input [where h = h])
    case oom
    then show ?thesis using A by blast
  next
    case (fed b' q n)
    then have "pending F obj rest hf (put_input b' q n r) h x" using pending_fed [OF p] by simp
    then show ?thesis using run fed by auto
  qed
qed

lemma read_until_reply_ends:
  assumes A: "\<forall>k. can_alloc A k" and S: "server S sent got serve" and obj: "obj \<noteq> 0"
  shows "c_err c = 0 \<Longrightarrow> c_reader c = Some r \<Longrightarrow> pending (defaultFunctions A) obj [] hf r h x \<Longrightarrow> x \<noteq> [] \<Longrightarrow> drop (got w) (serve (sent w)) = x \<Longrightarrow>
    int (received r + length x) < sds_limit \<Longrightarrow>
    \<exists>r' w'. read_until_reply S A (c, h, w) = Some (Inr (REDIS_OK, obj, c\<lparr>c_reader := Some r'\<rparr>, hf, w')) \<and> reader_idle r' \<and>
      r_fn r' = Some (defaultFunctions A) \<and> unread r' = [] \<and> r_pos r' < 1024 \<and> sent w' = sent w \<and> got w' = got w + length x"
proof (induction "length x" arbitrary: c r h x w rule: less_induct)
  case less
  obtain k w1 where k: "sys_read S (c_fd c) 16384 w = (Inr (take k x), w1)" "1 \<le> k" "k \<le> length x" "got w1 = got w + k" "sent w1 = sent w"
    using server_read [OF S less.prems(5,4)] .
  have split: "x = take k x @ drop k x" "take k x \<noteq> []" "length (take k x) = k" using k by auto
  obtain r1 where r1: "redisBufferRead S A (c, h, w) = Inr (REDIS_OK, c\<lparr>c_reader := Some r1\<rparr>, h, w1)"
      "pending (defaultFunctions A) obj [] hf r1 h (drop k x)" "received r1 \<le> received r + k"
    using redisBufferRead_some [OF A less.prems(1,2) k(1) split(2), of "defaultFunctions A" obj "[]" hf h "drop k x"] less.prems(3,6) split k(3) by auto
  let ?c = "c\<lparr>c_reader := Some r1\<rparr>"
  have get: "redisGetReplyFromReader S (?c, h, w1) = Inr (REDIS_OK, o', c\<lparr>c_reader := Some r'\<rparr>, h', w1)"
    if "redisReaderGetReply (r1, h) = Inr (REDIS_OK, o', r', h')" for o' r' h'
    using that by (simp add: redisGetReplyFromReader_def)
  from objects.pending_reply [OF r1(2)] show ?case
  proof (elim disjE exE conjE)
    fix r' assume r': "redisReaderGetReply (r1, h) = Inr (REDIS_OK, obj, r', hf)" "reader_idle r'" "r_fn r' = Some (defaultFunctions A)"
      "unread r' @ drop k x = []" "r_pos r' < 1024"
    have "read_until_reply S A (c, h, w) = Some (Inr (REDIS_OK, obj, c\<lparr>c_reader := Some r'\<rparr>, hf, w1))"
      using r1(1) get [OF r'(1)] obj by (subst read_until_reply.simps) simp
    then show ?thesis using r' k by auto
  next
    fix r' h1 assume r': "drop k x \<noteq> []" "redisReaderGetReply (r1, h) = Inr (REDIS_OK, 0, r', h1)"
      "pending (defaultFunctions A) obj [] hf r' h1 (drop k x)" "received r' \<le> received r1"
    have next': "read_until_reply S A (c, h, w) = read_until_reply S A (c\<lparr>c_reader := Some r'\<rparr>, h1, w1)"
      using r1(1) get [OF r'(2)] by (subst read_until_reply.simps) simp
    have "drop (got w1) (serve (sent w1)) = drop k x" using k(4,5) less.prems(5) by (metis drop_drop add.commute)
    moreover have "length (drop k x) < length x" using k(2,3) by simp
    moreover have "int (received r' + length (drop k x)) < sds_limit" using r'(4) r1(3) less.prems(6) k(3) by simp
    ultimately obtain r2 w2 where
      "read_until_reply S A (c\<lparr>c_reader := Some r'\<rparr>, h1, w1) = Some (Inr (REDIS_OK, obj, c\<lparr>c_reader := Some r2\<rparr>, hf, w2))"
      "reader_idle r2" "r_fn r2 = Some (defaultFunctions A)" "unread r2 = []" "r_pos r2 < 1024" "sent w2 = sent w1" "got w2 = got w1 + length (drop k x)"
      using less.hyps [of "drop k x" "c\<lparr>c_reader := Some r'\<rparr>" r' h1 w1] less.prems(1) r'(1,3) by auto
    then show ?thesis using next' k by auto
  qed
qed

section \<open>Commands\<close>

text \<open>A blocking connection between two commands.\<close>

definition ready :: "allocator \<Rightarrow> redisContext \<Rightarrow> bool" where
  "ready A c \<longleftrightarrow> context_ok c \<and> c_err c = 0 \<and> is_block c \<and> obuf_str c = [] \<and>
     (case c_reader c of None \<Rightarrow> False
      | Some r \<Rightarrow> reader_idle r \<and> r_fn r = Some (defaultFunctions A) \<and> unread r = [] \<and> r_pos r < 1024)"

lemma readyE:
  assumes "ready A c"
  obtains s r where "c_obuf c = Some s" "sds_ok s" "sds_str s = []" "c_reader c = Some r" "reader_idle r" "r_fn r = Some (defaultFunctions A)"
    "unread r = []" "received r < 1024" "context_ok c" "c_err c = 0" "is_block c"
proof -
  obtain r where r: "c_reader c = Some r" "reader_idle r" "r_fn r = Some (defaultFunctions A)" "unread r = []" "r_pos r < 1024"
    using assms by (auto simp: ready_def split: option.splits)
  have "received r < 1024" using r(2) by (rule reader_idleE) (use r(4,5) in auto)
  then show thesis using assms r that by (auto simp: ready_def context_ok_def obuf_str_def split: option.splits)
qed

lemma append_raw_ready:
  assumes A: "\<forall>k. can_alloc A k" and c: "ready A c" and l: "length cmd \<le> length b" "int (length cmd) < sds_limit" "take (length cmd) b = cmd"
  shows "\<exists>s. redisAppendCommand_raw S A c b (int (length cmd)) = Inr (REDIS_OK, c\<lparr>c_obuf := Some s\<rparr>) \<and> sds_ok s \<and> sds_str s = cmd"
proof -
  from c obtain s where s: "c_obuf c = Some s" "sds_ok s" "sds_str s = []" by (rule readyE)
  obtain s' where "sdscatlen A s b (int (length cmd)) = Inr (Some s')" "sds_ok s'" "sds_str s' = cmd"
    using sdscatlen_total [OF A s(2) l(1)] s(3) l(2,3) by auto
  then show ?thesis using s(1) by (intro exI [of _ s']) (simp add: redisAppendCommand_raw_def)
qed

text \<open>Writing reads nothing.\<close>

lemma write_until_done_server:
  assumes S: "server S sent got serve" and A: "can_alloc A 9" and c: "context_ok c" "c_err c = 0"
  shows "\<exists>c' w'. write_until_done S A (c, h, w) = Some (Inr (REDIS_OK, c', h, w')) \<and> context_ok c' \<and> c_err c' = 0 \<and>
    obuf_str c' = [] \<and> sent w' = sent w @ obuf_str c \<and> c_reader c' = c_reader c \<and> c_flags c' = c_flags c \<and> got w' = got w"
proof -
  let ?both = "\<lambda>w. replicate (got w) NUL @ sent w"
  have S1: "stream_write S sent" "write_progress S" "\<And>fd out w. got (snd (sys_write S fd out w)) = got w"
    using S unfolding server_def by blast+
  have "stream_write S ?both"
    using S1(1,3) unfolding stream_write_def by (simp cong: sum.case_cong split: sum.splits)
  from write_until_done_ends [OF this S1(2) A c, of h w] write_until_done_ends [OF S1(1,2) A c, of h w] show ?thesis
    by (auto dest!: arg_cong [of "replicate _ _ @ _" _ length])
qed

lemma redisGetReply_answer:
  assumes A: "\<forall>k. can_alloc A k" and S: "server S sent got serve" and c: "ready A c" "sds_ok s"
    and rep: "wf_at 0 rep" "drop (got w) (serve (sent w @ sds_str s)) = encode rep" "int (length (encode rep)) + 1024 < sds_limit"
  shows "\<exists>c' w'. redisGetReply S A (c\<lparr>c_obuf := Some s\<rparr>, h, w) = Some (Inr (REDIS_OK, Suc (length h), c', h @ map Some (objs (length h) rep), w')) \<and>
    ready A c' \<and> sent w' = sent w @ sds_str s \<and> got w' = got w + length (encode rep)"
proof -
  obtain r where r: "c_reader c = Some r" "reader_idle r" "r_fn r = Some (defaultFunctions A)" "unread r = []" "received r < 1024"
    and k: "context_ok c" "c_err c = 0" "is_block c" using c(1) by (rule readyE)
  let ?hf = "h @ map Some (objs (length h) rep)" and ?obj = "Suc (length h)"
  have "length (encode rep) < 2 ^ 31" using rep(3) by simp
  then have "build (default_builders A) None rep h = Inr (?obj, ?hf)"
    using build_objs(1) [OF A, of rep None h] by (simp add: place_ok_def linked_def)
  then have "pending (defaultFunctions A) ?obj [] ?hf r h (encode rep)"
    using objects.pending_start [OF r(2,3), of "encode rep" rep "[]"] r(4) rep(1,3) by simp
  from objects.pending_reply [OF this] obtain r1 h1 where r1: "redisReaderGetReply (r, h) = Inr (REDIS_OK, 0, r1, h1)"
      "pending (defaultFunctions A) ?obj [] ?hf r1 h1 (encode rep)" "received r1 \<le> received r" by auto
  let ?c = "c\<lparr>c_obuf := Some s, c_reader := Some r1\<rparr>"
  have get: "redisGetReplyFromReader S (c\<lparr>c_obuf := Some s\<rparr>, h, w) = Inr (REDIS_OK, 0, ?c, h1, w)"
    using r1(1) r(1) by (simp add: redisGetReplyFromReader_def)
  have "context_ok ?c" "c_err ?c = 0" using k c(2) by (simp_all add: context_ok_def)
  from write_until_done_server [OF S spec [OF A] this, of h1 w] obtain c2 w2 where
    c2: "write_until_done S A (?c, h1, w) = Some (Inr (REDIS_OK, c2, h1, w2))" "context_ok c2" "c_err c2 = 0" "obuf_str c2 = []"
      "sent w2 = sent w @ sds_str s" "c_reader c2 = Some r1" "c_flags c2 = c_flags c" "got w2 = got w"
    using r(1) by (auto simp: obuf_str_def)
  have len: "int (received r1 + length (encode rep)) < sds_limit" using r1(3) r(5) rep(3) by simp
  have "drop (got w2) (serve (sent w2)) = encode rep" using rep(2) c2(5,8) by simp
  from read_until_reply_ends [OF A S _ c2(3,6) r1(2) _ this len] obtain r3 w3 where
    r3: "read_until_reply S A (c2, h1, w2) = Some (Inr (REDIS_OK, ?obj, c2\<lparr>c_reader := Some r3\<rparr>, ?hf, w3))" "reader_idle r3"
      "r_fn r3 = Some (defaultFunctions A)" "unread r3 = []" "r_pos r3 < 1024" "sent w3 = sent w2" "got w3 = got w2 + length (encode rep)" by auto
  have "redisGetReply S A (c\<lparr>c_obuf := Some s\<rparr>, h, w) = Some (Inr (REDIS_OK, ?obj, c2\<lparr>c_reader := Some r3\<rparr>, ?hf, w3))"
    using get c2(1) r3(1) k(3) by (simp add: redisGetReply_def is_block_def)
  moreover have "ready A (c2\<lparr>c_reader := Some r3\<rparr>)"
    using c2 r3 k(3) by (auto simp: ready_def context_ok_def obuf_str_def is_block_def)
  ultimately show ?thesis using r3(6,7) c2(5,8) by auto
qed

abbreviation command :: "bytes list \<Rightarrow> bytes" where
  "command texts \<equiv> encode (Array (map Bulk texts))"

lemma redisCommandArgv_answer:
  assumes A: "\<forall>k. can_alloc A k" and S: "server S sent got serve" and c: "ready A c" and g: "got w = length (serve (sent w))"
    and cmd: "argv_holds argv argvlen texts" "int (length (command texts)) < sds_limit"
    and rep: "wf_at 0 rep" "int (length (encode rep)) + 1024 < sds_limit" "serve (sent w @ command texts) = serve (sent w) @ encode rep"
  shows "\<exists>c' w'. redisCommandArgv S A (c, h, w) (int (length texts)) argv argvlen =
      Some (Inr (Suc (length h), c', h @ map Some (objs (length h) rep), w')) \<and>
    ready A c' \<and> sent w' = sent w @ command texts \<and> got w' = length (serve (sent w'))"
proof -
  let ?n = "int (length (command texts))"
  have cb: "int (length (command_bytes texts)) < sds_limit" using cmd(2) by (simp only: command_bytes_encode)
  from redisFormatSdsCommandArgv_bytes [OF cmd(1) cb A] obtain f where
    f: "redisFormatSdsCommandArgv A True (int (length texts)) argv argvlen = Inr (?n, Some f)" "sds_ok f" "sds_str f = command texts"
    unfolding command_bytes_encode by blast
  have buf: "length (command texts) \<le> length (sh_buf f)" "take (length (command texts)) (sh_buf f) = command texts"
    using sds_str_le_buf [OF f(2)] f(3) by (simp_all del: encode.simps)
  from append_raw_ready [OF A c buf(1) cmd(2) buf(2)] obtain s where
    s: "redisAppendCommand_raw S A c (sh_buf f) ?n = Inr (REDIS_OK, c\<lparr>c_obuf := Some s\<rparr>)" "sds_ok s" "sds_str s = command texts" by blast
  have "uint64 ?n = ?n" using cmd(2) by (simp add: cint del: encode.simps)
  then have app: "redisAppendCommandArgv S A c (int (length texts)) argv argvlen = Inr (REDIS_OK, c\<lparr>c_obuf := Some s\<rparr>)"
    using f(1) s(1) by (simp add: redisAppendCommandArgv_def del: encode.simps)
  have "drop (got w) (serve (sent w @ sds_str s)) = encode rep" using g rep(3) s(3) by simp
  from redisGetReply_answer [OF A S c s(2) rep(1) this rep(2), of h] obtain c' w' where
    r: "redisGetReply S A (c\<lparr>c_obuf := Some s\<rparr>, h, w) = Some (Inr (REDIS_OK, Suc (length h), c', h @ map Some (objs (length h) rep), w'))"
      "ready A c'" "sent w' = sent w @ command texts" "got w' = got w + length (encode rep)"
    using s(3) by auto
  have "redisCommandArgv S A (c, h, w) (int (length texts)) argv argvlen =
      Some (Inr (Suc (length h), c', h @ map Some (objs (length h) rep), w'))"
    using app r(1) c by (simp add: redisCommandArgv_def after_append_def redisBlockForReply_def ready_def is_block_def)
  then show ?thesis using r(2-4) g rep(3) by simp
qed

lemma connected_ready:
  assumes A: "\<forall>k. can_alloc A k"
  shows "\<exists>c. redisConnectFd S A fd (h, w) = Inr (Some c, h, w) \<and> ready A c \<and> c_fd c = fd"
proof -
  obtain r where r: "redisReaderCreate A = Inr (Some r)" "reader_idle r" "unread r = []" "received r = 0" "r_fn r = Some (defaultFunctions A)"
    using reader_created [OF A] by blast
  have "r_pos r < 1024" using r(2) by (rule reader_idleE) (use r(4) in auto)
  then show ?thesis
    using r A sds_of [of "[]"]
    by (simp add: redisConnectFd_def redisContextInit_def sdsempty_spec ready_def context_ok_def is_block_def obuf_str_def sds_of_def)
qed

end
