(* ===== verification/ContextContract.thy ===== *)
theory ContextContract
  imports ContextReply
begin

text \<open>
  What a connection promises: no byte of the output buffer is lost or sent twice; a session of
  commands on a new connection returns the server's answers as objects, in order; a closed
  connection is reported once and for all.
\<close>

section \<open>Sessions\<close>

text \<open>A caller that issues commands one after the other.\<close>

fun session :: "'w system \<Rightarrow> allocator \<Rightarrow> 'w cstate \<Rightarrow> (int \<times> bytes list \<times> int list option) list \<Rightarrow> (nat list \<times> 'w cstate) res option" where
  "session S A st [] = Some (Inr ([], st))"
| "session S A st ((argc, argv, argvlen) # cmds) =
     (case redisCommandArgv S A st argc argv argvlen of
        None \<Rightarrow> None
      | Some (Inl e) \<Rightarrow> Some (Inl e)
      | Some (Inr (obj, st)) \<Rightarrow>
          (case session S A st cmds of
             None \<Rightarrow> None
           | Some (Inl e) \<Rightarrow> Some (Inl e)
           | Some (Inr (os, st)) \<Rightarrow> Some (Inr (obj # os, st))))"

text \<open>The server answers each command by one reply; the commands are given by argument vectors.\<close>

fun answers :: "(bytes \<Rightarrow> bytes) \<Rightarrow> bytes \<Rightarrow> (int \<times> bytes list \<times> int list option) list \<Rightarrow> bytes list list \<Rightarrow> reply list \<Rightarrow> bool" where
  "answers serve pre [] [] [] \<longleftrightarrow> True"
| "answers serve pre ((argc, argv, argvlen) # cmds) (texts # ts) (rep # reps) \<longleftrightarrow>
     argc = int (length texts) \<and> argv_holds argv argvlen texts \<and> int (length (command texts)) < sds_limit \<and>
     wf_at 0 rep \<and> int (length (encode rep)) + 1024 < sds_limit \<and>
     serve (pre @ command texts) = serve pre @ encode rep \<and> answers serve (pre @ command texts) cmds ts reps"
| "answers serve pre _ _ _ \<longleftrightarrow> False"

lemma session_answers:
  assumes A: "\<forall>k. can_alloc A k"
  shows "answers serve pre cmds ts reps \<Longrightarrow> ready A c \<Longrightarrow> got w = length (serve (sent w)) \<Longrightarrow> server S sent got serve \<Longrightarrow> sent w = pre \<Longrightarrow>
    \<exists>c' w'. session S A (c, h, w) cmds = Some (Inr (addrs (length h) reps, c', h @ map Some (objs_list (length h) reps), w')) \<and>
      ready A c' \<and> sent w' = sent w @ concat (map command ts)"
proof (induction serve pre cmds ts reps arbitrary: c h w rule: answers.induct)
  case (2 serve pre argc argv argvlen cmds texts ts rep reps)
  have pre: "sent w = pre" and law: "argv_holds argv argvlen texts" "int (length (command texts)) < sds_limit" "wf_at 0 rep"
      "int (length (encode rep)) + 1024 < sds_limit" "serve (sent w @ command texts) = serve (sent w) @ encode rep"
      "argc = int (length texts)" "answers serve (pre @ command texts) cmds ts reps"
    using "2.prems"(1,5) by (simp_all del: encode.simps)
  obtain c1 w1 where step: "redisCommandArgv S A (c, h, w) argc argv argvlen =
      Some (Inr (Suc (length h), c1, h @ map Some (objs (length h) rep), w1))" "ready A c1" "sent w1 = pre @ command texts" "got w1 = length (serve (sent w1))"
    using redisCommandArgv_answer [OF A "2.prems"(4,2,3) law(1-5), of h] law(6) pre by auto
  from "2.IH" [OF law(7) step(2,4) "2.prems"(4) step(3), of "h @ map Some (objs (length h) rep)"] show ?case
    using step(1,3) pre by (auto simp del: encode.simps)
qed simp_all

section \<open>Theorems\<close>

text \<open>
  C12. Conservation on the way out: whatever the socket takes, refuses or fails with, the bytes
  already sent followed by the output buffer stay the same under \<^verbatim>\<open>redisBufferWrite\<close>; no byte is
  lost, duplicated or reordered, \<^verbatim>\<open>done\<close> is stored exactly when the buffer is empty, and only an
  I/O error makes the call fail.
\<close>

theorem write_conserves:
  assumes "stream_write S sent" "can_alloc A 9" "context_ok c" "c_err c = 0"
  shows "\<exists>rc d c' w'. redisBufferWrite S A (c, h, w) = Inr (rc, d, c', h, w') \<and> context_ok c' \<and>
    sent w' @ obuf_str c' = sent w @ obuf_str c \<and>
    (rc = REDIS_OK \<and> c_err c' = 0 \<and> d = Some (obuf_str c' = []) \<or> rc = REDIS_ERR \<and> c_err c' = REDIS_ERR_IO)"
  using redisBufferWrite_result [OF assms, of h w] by blast

text \<open>
  C9. Sessions: a new connection on a descriptor, used for commands one after the other against a
  server that answers each command by one reply, returns for every command the object of its reply.
  The server is sent exactly the encoded commands, and it may deliver its answers, and the socket
  accept the commands, in pieces of any size. Each call returns, and the connection ends ready for
  the next command.
\<close>

theorem session_replies:
  assumes "\<forall>k. can_alloc A k" "server S sent got serve" "sent w = []" "got w = 0" "serve [] = []" "answers serve [] cmds ts reps"
  shows "\<exists>c os c' h' w'. redisConnectFd S A fd (h, w) = Inr (Some c, h, w) \<and> session S A (c, h, w) cmds = Some (Inr (os, c', h', w')) \<and>
    reps_at h' os reps \<and> take (length h) h' = h \<and> sent w' = concat (map command ts) \<and> ready A c'"
proof -
  obtain c where c: "redisConnectFd S A fd (h, w) = Inr (Some c, h, w)" "ready A c"
    using connected_ready [OF assms(1), of S fd h w] by blast
  have "reps_at (h @ map Some (objs_list (length h) reps)) (addrs (length h) reps) reps"
    using objs_rep_at(2) [of "length h" h reps "[]"] by simp
  then show ?thesis using session_answers [OF assms(1) assms(6) c(2), of got w sent S h] assms c(1) by auto
qed

text \<open>A server over a world of the bytes sent and the number of bytes read: it takes at most five bytes
  at a time and gives at most three.\<close>

definition small_net :: "(bytes \<Rightarrow> bytes) \<Rightarrow> (bytes \<times> nat) system" where
  "small_net serve =
     \<lparr>sys_read = (\<lambda>fd n (s, g). let c = take (min 3 (nat n)) (drop g (serve s)) in (Inr c, s, g + length c)),
      sys_write = (\<lambda>fd out (s, g). (Inr (int (min 5 (length out))), s @ take 5 out, g)),
      sys_close = (\<lambda>fd w. w), sys_strerror = (\<lambda>e. [])\<rparr>"

lemma small_net: "server (small_net serve) fst snd serve"
  unfolding server_def stream_write_def write_progress_def
  by (auto simp: small_net_def Let_def min_def Suc_le_eq intro!: exI [of _ "min 3 (nat _)"])

definition out_context :: "bytes \<Rightarrow> redisContext" where
  "out_context bs =
     \<lparr>c_err = 0, c_errstr = replicate 128 NUL, c_fd = 3, c_flags = REDIS_BLOCK, c_obuf = Some (sds_of bs), c_reader = None,
      c_type = REDIS_CONN_TCP, c_timeout = None, c_host = None, c_source_addr = None, c_port = 0, c_path = None\<rparr>"

theorem write_conserves_witness:
  "\<exists>rc d c' w'. redisBufferWrite (small_net id) libc (out_context ''GET foo'', [], ([], 0)) = Inr (rc, d, c', [], w') \<and>
     fst w' @ obuf_str c' = ''GET foo''"
proof -
  have "context_ok (out_context ''GET foo'')" "obuf_str (out_context ''GET foo'') = ''GET foo''" "c_err (out_context ''GET foo'') = 0"
    using sds_of [of "''GET foo''"] by (simp_all add: out_context_def context_ok_def obuf_str_def)
  moreover have "stream_write (small_net id) fst" using small_net unfolding server_def by blast
  ultimately show ?thesis using write_conserves [of "small_net id" fst libc "out_context ''GET foo''" "[]" "([], 0)"] by auto
qed

definition ping_server :: "bytes \<Rightarrow> bytes" where
  "ping_server s =
     (if s = [] then [] else if s = command [''PING''] then encode (Status ''PONG'') else encode (Status ''PONG'') @ encode Nil)"

theorem session_replies_witness:
  "\<exists>c os c' h' w'. redisConnectFd (small_net ping_server) libc 3 ([], ([], 0)) = Inr (Some c, [], ([], 0)) \<and>
     session (small_net ping_server) libc (c, [], ([], 0))
       [(1, [''PING'' @ [NUL]], None), (2, [''GET'', ''k''], Some [3, 1])] = Some (Inr (os, c', h', w')) \<and>
     reps_at h' os [Status ''PONG'', Nil] \<and> fst w' = command [''PING''] @ command [''GET'', ''k'']"
proof -
  have four: "decimal (Suc (Suc (Suc (Suc 0)))) = ''4''" by code_simp
  have "answers ping_server [] [(1, [''PING'' @ [NUL]], None), (2, [''GET'', ''k''], Some [3, 1])] [[''PING''], [''GET'', ''k'']] [Status ''PONG'', Nil]"
    using four by (simp add: argv_holds_def ping_server_def one_digit)
  from session_replies [OF _ small_net _ _ _ this, of libc "([], 0)" 3 "[]"] show ?thesis
    by (auto simp: ping_server_def [of "[]"])
qed

section \<open>Closed connections\<close>

text \<open>
  The server closes the connection: \<^verbatim>\<open>redisBufferRead\<close> fails with \<^verbatim>\<open>REDIS_ERR_EOF\<close> and the
  description of the error, whatever the error buffer held. From then on every read and write fails
  at once: no system call is made and nothing changes.
\<close>

theorem closed_connection_reported:
  assumes "c_err c = 0" "length (c_errstr c) = 128" "sys_read S (c_fd c) 16384 w = (Inr [], w')"
  shows "\<exists>c' u. redisBufferRead S A (c, h, w) = Inr (REDIS_ERR, c', h, w') \<and> c_err c' = REDIS_ERR_EOF \<and>
    c_errstr c' = ''Server closed the connection'' @ NUL # u \<and> length (c_errstr c') = 128 \<and>
    (\<forall>w h. redisBufferRead S A (c', h, w) = Inr (REDIS_ERR, c', h, w) \<and> redisBufferWrite S A (c', h, w) = Inr (REDIS_ERR, None, c', h, w))"
proof -
  let ?msg = "''Server closed the connection''"
  let ?c = "c\<lparr>c_err := REDIS_ERR_EOF, c_errstr := ?msg @ NUL # drop (Suc (length ?msg)) (c_errstr c)\<rparr>"
  have "NUL \<notin> set ?msg" "length ?msg \<le> 127" by simp_all
  then have "redisSetError S c REDIS_ERR_EOF (Inr (?msg @ [NUL])) = Inr ?c"
    by (rule redisSetError_text [OF assms(2)])
  then have "redisBufferRead S A (c, h, w) = Inr (REDIS_ERR, ?c, h, w')"
    using assms(1,3) by (simp add: redisBufferRead_def)
  then show ?thesis
    using assms(2) by (intro exI [of _ ?c]) (simp add: redisBufferRead_def redisBufferWrite_def)
qed

definition closed_net :: "unit system" where
  "closed_net = \<lparr>sys_read = (\<lambda>fd n w. (Inr [], w)), sys_write = (\<lambda>fd out w. (Inl EAGAIN, w)), sys_close = (\<lambda>fd w. w), sys_strerror = (\<lambda>e. [])\<rparr>"

theorem closed_connection_reported_witness:
  "\<exists>c' u. redisBufferRead closed_net libc (out_context [], [], ()) = Inr (REDIS_ERR, c', [], ()) \<and> c_err c' = REDIS_ERR_EOF \<and>
    c_errstr c' = ''Server closed the connection'' @ NUL # u"
  using closed_connection_reported [of "out_context []" closed_net "()" "()" libc "[]"]
  by (auto simp: out_context_def closed_net_def)

end
