(* ===== verification/ConnectContract.thy ===== *)
theory ConnectContract
  imports Connect ContextContract
begin

unbundle bit_operations_syntax

text \<open>
  What connecting promises about descriptors: a connect function leaves no descriptor open but the
  one the context holds, on every path, and a connection that is reported made holds an open one.
\<close>

section \<open>Descriptors\<close>

text \<open>\<open>opened\<close> observes the open descriptors: \<^verbatim>\<open>socket\<close> opens a new one or fails, \<^verbatim>\<open>close\<close> closes one, the
  other calls do neither.\<close>

definition descriptor_laws :: "'w system \<Rightarrow> 'w net \<Rightarrow> ('w \<Rightarrow> int set) \<Rightarrow> bool" where
  "descriptor_laws S N opened \<longleftrightarrow>
     (\<forall>f t p w. case n_socket N f t p w of (s, w') \<Rightarrow> if s = - 1 then opened w' = opened w else 0 \<le> s \<and> opened w' = insert s (opened w)) \<and>
     (\<forall>fd w. opened (sys_close S fd w) = opened w - {fd}) \<and>
     (\<forall>e w. opened (n_set_errno N e w) = opened w) \<and>
     (\<forall>fd w. opened (snd (n_getfl N fd w)) = opened w) \<and>
     (\<forall>fd fl w. opened (snd (n_setfl N fd fl w)) = opened w) \<and>
     (\<forall>fd opt v w. opened (snd (n_setsockopt N fd opt v w)) = opened w) \<and>
     (\<forall>fd w. opened (snd (n_so_error N fd w)) = opened w) \<and>
     (\<forall>fd m w. opened (snd (n_poll_out N fd m w)) = opened w) \<and>
     (\<forall>a p f w. opened (snd (n_getaddrinfo N a p f w)) = opened w) \<and>
     (\<forall>fd a w. opened (snd (n_bind N fd a w)) = opened w) \<and>
     (\<forall>fd a w. opened (snd (n_connect N fd a w)) = opened w)"

text \<open>A result whose open descriptors are among those of \<open>X\<close> and the context's own; with status \<^verbatim>\<open>REDIS_OK\<close>
  the own one is open. The flags other than \<^verbatim>\<open>REDIS_CONNECTED\<close> stay.\<close>

definition held :: "('w \<Rightarrow> int set) \<Rightarrow> int set \<Rightarrow> bool \<Rightarrow> 'w conn \<Rightarrow> bool" where
  "held opened X reuse cw \<longleftrightarrow> (case cw of (c, w) \<Rightarrow>
     opened w \<subseteq> insert (c_fd c) X \<and> (c_flags c AND REDIS_REUSEADDR \<noteq> 0) = reuse)"

definition live :: "('w \<Rightarrow> int set) \<Rightarrow> 'w conn \<Rightarrow> bool" where
  "live opened cw \<longleftrightarrow> c_fd (fst cw) \<in> opened (snd cw)"

text \<open>A call on a live descriptor: on return the descriptors are held, and with \<^verbatim>\<open>REDIS_OK\<close> it is live.\<close>

definition holds :: "('w \<Rightarrow> int set) \<Rightarrow> int set \<Rightarrow> bool \<Rightarrow> (int \<times> 'w conn) res \<Rightarrow> bool" where
  "holds opened X b m \<longleftrightarrow> (\<forall>r cw. m = Inr (r, cw) \<longrightarrow> held opened X b cw \<and> (r = REDIS_OK \<longrightarrow> live opened cw))"

lemma holds_bindR:
  assumes "holds opened X b m" "\<And>r c w. held opened X b (c, w) \<Longrightarrow> (r = REDIS_OK \<longrightarrow> live opened (c, w)) \<Longrightarrow> holds opened X b (f (r, c, w))"
  shows "holds opened X b (bindR m f)"
proof (cases m)
  case (Inr x)
  then obtain r c w where x: "m = Inr (r, c, w)" by (cases x) auto
  then show ?thesis using assms(1) assms(2) [of c w r] by (simp add: holds_def)
qed (simp add: holds_def)

lemma holds_Inr: "held opened X b cw \<Longrightarrow> (r = REDIS_OK \<longrightarrow> live opened cw) \<Longrightarrow> holds opened X b (Inr (r, cw))"
  by (auto simp: holds_def simp del: split_paired_All)

lemma holds_err: "held opened X b cw \<Longrightarrow> holds opened X b (Inr (REDIS_ERR, cw))"
  by (auto simp: holds_def simp del: split_paired_All)

lemma redisSetError_fields:
  "redisSetError S c ty m = Inr c' \<Longrightarrow> c_fd c' = c_fd c \<and> c_flags c' = c_flags c \<and> c_timeout c' = c_timeout c \<and> c_source_addr c' = c_source_addr c"
  by (auto simp: redisSetError_def bindR_eq_Inr Let_def split: sum.splits)

lemma errno_fields:
  "redisSetErrorFromErrno S N (c, w) ty p = Inr (c', w') \<Longrightarrow> w' = w \<and> c_fd c' = c_fd c \<and> c_flags c' = c_flags c"
  by (auto simp: redisSetErrorFromErrno_def bindR_eq_Inr Let_def dest: redisSetError_fields)

lemma holds_errno:
  assumes "held opened X b (c, w)"
  shows "holds opened X b (bindR (redisSetErrorFromErrno S N (c, w) ty p) (\<lambda>cw. Inr (REDIS_ERR, cw)))"
  using assms errno_fields [of S N c w ty p]
  by (cases "redisSetErrorFromErrno S N (c, w) ty p") (auto simp: holds_def held_def)

lemma close_held: "descriptor_laws S N opened \<Longrightarrow> held opened X b cw \<Longrightarrow> held opened X b (redisContextCloseFd S cw)"
  by (cases cw) (auto simp: redisContextCloseFd_def held_def descriptor_laws_def)

lemma holds_errno_close:
  assumes "descriptor_laws S N opened" "held opened X b (c, w)"
  shows "holds opened X b (errno_close S N (c, w) p)"
  using holds_errno [OF assms(2), of S N REDIS_ERR_IO p] close_held [OF assms(1)]
  unfolding errno_close_def
  by (cases "redisSetErrorFromErrno S N (c, w) REDIS_ERR_IO p") (auto simp: holds_def simp del: split_paired_All)

lemma holds_fail_with: "held opened X b cw \<Longrightarrow> holds opened X b (fail_with S cw text)"
  by (cases cw) (auto simp: fail_with_def holds_def bindR_eq_Inr held_def dest!: redisSetError_fields)

text \<open>The calls that open and close nothing.\<close>

lemma law_calls:
  assumes "descriptor_laws S N opened"
  shows "opened (snd (n_getfl N fd w)) = opened w" "opened (snd (n_setfl N fd fl w)) = opened w"
    "opened (snd (n_setsockopt N fd opt v w)) = opened w" "opened (snd (n_so_error N fd w)) = opened w"
    "opened (snd (n_poll_out N fd m w)) = opened w" "opened (snd (n_getaddrinfo N a p f w)) = opened w"
    "opened (snd (n_bind N fd ad w)) = opened w" "opened (snd (n_connect N fd ad w)) = opened w"
    "opened (n_set_errno N e w) = opened w"
  using assms unfolding descriptor_laws_def by simp_all

lemma law_socket:
  assumes "descriptor_laws S N opened" "n_socket N f t p w = (s, w')"
  shows "if s = - 1 then opened w' = opened w else 0 \<le> s \<and> opened w' = insert s (opened w)"
  using assms unfolding descriptor_laws_def by (metis (mono_tags, lifting) case_prod_conv)

lemma same_opened:
  "opened w' = opened w \<Longrightarrow> held opened X b (c, w) \<Longrightarrow> held opened X b (c, w')" "opened w' = opened w \<Longrightarrow> live opened (c, w) \<Longrightarrow> live opened (c, w')"
  by (simp_all add: held_def live_def)

text \<open>A call in front of the rest.\<close>

lemma holds_call:
  assumes "held opened X b (c, w)" "live opened (c, w)" "opened (snd x) = opened w"
    "\<And>r w'. held opened X b (c, w') \<Longrightarrow> live opened (c, w') \<Longrightarrow> holds opened X b (f r w')"
  shows "holds opened X b (case x of (r, w') \<Rightarrow> f r w')"
  using same_opened(1) [OF _ assms(1)] same_opened(2) [OF _ assms(2)] assms(3,4) by (cases x) simp

lemma holds_if: "(P \<Longrightarrow> holds opened X b m) \<Longrightarrow> (\<not> P \<Longrightarrow> holds opened X b n) \<Longrightarrow> holds opened X b (if P then m else n)"
  by simp

lemma redisSetBlocking_holds:
  assumes "descriptor_laws S N opened" "held opened X b (c, w)" "live opened (c, w)"
  shows "holds opened X b (redisSetBlocking S N (c, w) bl)"
  unfolding redisSetBlocking_def Let_def prod.case
  by (rule holds_call [OF assms(2,3)] holds_if holds_call law_calls [OF assms(1)] holds_errno_close [OF assms(1)] holds_Inr impI | assumption)+

lemma redisSetTcpNoDelay_holds:
  assumes "descriptor_laws S N opened" "held opened X b (c, w)" "live opened (c, w)"
  shows "holds opened X b (redisSetTcpNoDelay S N (c, w))"
  unfolding redisSetTcpNoDelay_def Let_def prod.case
  by (rule holds_if holds_call law_calls [OF assms(1)] holds_errno_close [OF assms(1)] holds_Inr impI assms(2,3) | assumption)+

lemma held_set_errno:
  "descriptor_laws S N opened \<Longrightarrow> held opened X b (c, w) \<Longrightarrow> held opened X b (c, n_set_errno N e w)"
  using same_opened(1) law_calls(9) by metis

lemma redisCheckSocketError_holds:
  assumes "descriptor_laws S N opened" "held opened X b (c, w)" "live opened (c, w)"
  shows "holds opened X b (redisCheckSocketError S N (c, w))"
proof -
  obtain r err w' where x: "n_so_error N (c_fd c) w = ((r, err), w')" by (metis prod.exhaust)
  then have "opened w' = opened w" using law_calls(4) [OF assms(1)] by (metis snd_conv)
  then have "held opened X b (c, w')" "live opened (c, w')" using assms(2,3) same_opened by metis+
  then show ?thesis
    using x by (simp add: redisCheckSocketError_def holds_errno holds_Inr held_set_errno [OF assms(1)] split: option.split)
qed

lemma redisContextWaitReady_holds:
  assumes "descriptor_laws S N opened" "held opened X b (c, w)" "live opened (c, w)"
  shows "holds opened X b (redisContextWaitReady S N (c, w) t)"
proof (cases "timeout_msec t")
  case (Inl e)
  then show ?thesis by (simp add: redisContextWaitReady_def holds_def)
next
  case (Inr m)
  have "holds opened X b (let (res, w) = n_poll_out N (c_fd c) msec w in
            if res = - 1 then errno_close S N (c, w) (Some ''poll(2)'')
            else if res = 0 then errno_close S N (c, n_set_errno N ETIMEDOUT w) None
            else bindR (redisCheckSocketError S N (c, w)) (\<lambda>(r, cw). Inr (if r \<noteq> REDIS_OK then (REDIS_ERR, cw) else (REDIS_OK, cw))))" for msec
    unfolding Let_def
    by (rule holds_call [OF assms(2,3)] law_calls [OF assms(1)] holds_if)+
      (auto intro!: holds_errno_close [OF assms(1)] held_set_errno [OF assms(1)] holds_bindR [OF redisCheckSocketError_holds [OF assms(1)]] holds_Inr)
  then show ?thesis
    using Inr assms(2) by (simp add: redisContextWaitReady_def holds_errno_close [OF assms(1)] Let_def split: option.split)
qed

lemma reuse_flag: "(c_flags c OR REDIS_CONNECTED) AND REDIS_REUSEADDR = c_flags c AND REDIS_REUSEADDR"
  by (simp add: bit.conj_disj_distrib2)

lemma connected_holds:
  assumes "descriptor_laws S N opened" "held opened X b (c, w)" "live opened (c, w)"
  shows "holds opened X b (connected S N (c, w))"
proof -
  have blk: "holds opened X b (if is_block c then redisSetBlocking S N (c, w) True else Inr (REDIS_OK, c, w))"
    using redisSetBlocking_holds [OF assms] assms(2,3) by (simp add: holds_Inr)
  have nd: "holds opened X b (bindR (redisSetTcpNoDelay S N (c', w')) (\<lambda>(r, c, w).
       if r \<noteq> REDIS_OK then Inr (REDIS_ERR, c, w) else Inr (REDIS_OK, c\<lparr>c_flags := c_flags c OR REDIS_CONNECTED\<rparr>, w)))"
    if "held opened X b (c', w')" "live opened (c', w')" for c' w'
    by (rule holds_bindR [OF redisSetTcpNoDelay_holds [OF assms(1) that]])
      (auto simp: held_def live_def holds_def reuse_flag)
  show ?thesis
    unfolding connected_def fst_conv by (rule holds_bindR [OF blk]) (auto intro!: holds_err nd)
qed

text \<open>An attempt: a finished one is as above, one that goes on to the next address has closed its
  descriptor, and without \<^verbatim>\<open>REDIS_REUSEADDR\<close> none is repeated.\<close>

definition attempt_holds :: "('w \<Rightarrow> int set) \<Rightarrow> int set \<Rightarrow> (attempt \<times> 'w conn) res \<Rightarrow> bool" where
  "attempt_holds opened X m \<longleftrightarrow> (\<forall>a c w. m = Inr (a, c, w) \<longrightarrow>
     (case a of Finished r \<Rightarrow> holds opened X False (Inr (r, c, w))
      | NextAddr \<Rightarrow> opened w \<subseteq> X \<and> c_flags c AND REDIS_REUSEADDR = 0
      | AddrRetry \<Rightarrow> False))"

lemma attempt_go: "holds opened X False m \<Longrightarrow> attempt_holds opened X (bindR m (\<lambda>(r, cw). Inr (Finished r, cw)))"
  by (cases m) (auto simp: attempt_holds_def holds_def)

lemma attempt_bindR:
  assumes "holds opened X False m"
    "\<And>r c w. held opened X False (c, w) \<Longrightarrow> (r = REDIS_OK \<longrightarrow> live opened (c, w)) \<Longrightarrow> attempt_holds opened X (f (r, c, w))"
  shows "attempt_holds opened X (bindR m f)"
proof (cases m)
  case (Inr x)
  then obtain r c w where x: "m = Inr (r, c, w)" by (cases x) auto
  then show ?thesis using assms(1) assms(2) [of c w r] by (simp add: holds_def)
qed (simp add: attempt_holds_def)

lemma attempt_err: "held opened X False cw \<Longrightarrow> attempt_holds opened X (Inr (Finished REDIS_ERR, cw))"
  by (cases cw) (simp add: attempt_holds_def holds_def)

lemma try_connect_holds:
  assumes "descriptor_laws S N opened" "held opened X False (c, w)" "live opened (c, w)" "0 \<le> c_fd c"
  shows "attempt_holds opened X (try_connect S N (c, w) s p False)"
proof -
  obtain r w1 where x: "n_connect N s (ai_addr p) w = (r, w1)" by fastforce
  then have "opened w1 = opened w" using law_calls(8) [OF assms(1)] by (metis snd_conv)
  then have w1: "held opened X False (c, w1)" "live opened (c, w1)" using assms(2,3) same_opened by metis+
  have go: "attempt_holds opened X (bindR (connected S N (c', w')) (\<lambda>(r, cw). Inr (Finished r, cw)))"
    if "held opened X False (c', w')" "live opened (c', w')" for c' w'
    by (rule attempt_go [OF connected_holds [OF assms(1) that]])
  have nxt: "attempt_holds opened X (Inr (NextAddr, redisContextCloseFd S (c, w1)))"
    using w1 assms(1,4) by (auto simp: attempt_holds_def redisContextCloseFd_def held_def descriptor_laws_def)
  have wait: "attempt_holds opened X (bindR (redisContextWaitReady S N (c, w1) (c_timeout c)) (\<lambda>(r, cw).
                if r \<noteq> REDIS_OK then Inr (Finished REDIS_ERR, cw) else bindR (connected S N cw) (\<lambda>(r, cw). Inr (Finished r, cw))))"
    by (rule attempt_bindR [OF redisContextWaitReady_holds [OF assms(1) w1]]) (auto intro!: attempt_err go)
  show ?thesis using x go [OF w1] nxt wait by (simp add: try_connect_def Let_def)
qed

lemma bind_loop_opened: "descriptor_laws S N opened \<Longrightarrow> opened (snd (bind_loop N s bs w)) = opened w"
proof (induction bs arbitrary: w)
  case (Cons b bs)
  obtain r w' where x: "n_bind N s (ai_addr b) w = (r, w')" by fastforce
  then have "opened w' = opened w" using law_calls(7) [OF Cons.prems] by (metis snd_conv)
  then show ?case using x Cons.IH [OF Cons.prems, of w'] by simp
qed simp

lemma bind_source_holds:
  assumes L: "descriptor_laws S N opened" and h: "held opened X b (c, w)" "live opened (c, w)"
  shows "holds opened X b (bind_source S N (c, w) f s ra)"
proof (cases "c_source_addr c")
  case None
  then show ?thesis using h by (simp add: bind_source_def holds_Inr)
next
  case (Some a)
  obtain rv w1 where x: "n_getaddrinfo N (Some a) None f w = (rv, w1)" by fastforce
  then have w1: "opened w1 = opened w" using law_calls(6) [OF L] by (metis snd_conv)
  obtain r w2 where y: "(if ra then n_setsockopt N s SO_REUSEADDR (OInt 1) w1 else (0, w1)) = (r, w2)" by fastforce
  then have w2: "opened w2 = opened w" using w1 law_calls(3) [OF L] by (metis snd_conv)
  have h': "held opened X b (c, w')" "live opened (c, w')" if "opened w' = opened w" for w'
    using h that same_opened by metis+
  show ?thesis
  proof (cases rv)
    case (Inl e)
    then show ?thesis using Some x h'(1) [OF w1] by (simp add: bind_source_def holds_fail_with)
  next
    case (Inr bs)
    obtain bd w3 where z: "bind_loop N s bs w2 = (bd, w3)" by fastforce
    then have "opened w3 = opened w" using bind_loop_opened [OF L, of s bs w2] w2 by simp
    then show ?thesis
      using Some x y z Inr h'(1) [OF w2] h' by (simp add: bind_source_def holds_fail_with holds_err holds_Inr)
  qed
qed

text \<open>Socket and status of the callee's context are those of the caller's where the address is tried.\<close>

lemma same_fd:
  "redisSetBlocking S N (c, w) bl = Inr (REDIS_OK, c', w') \<Longrightarrow> c_fd c' = c_fd c"
  "bind_source S N (c, w) f s ra = Inr (REDIS_OK, c', w') \<Longrightarrow> c_fd c' = c_fd c"
  by (auto simp: redisSetBlocking_def bind_source_def errno_close_def fail_with_def bindR_eq_Inr Let_def
      split: prod.splits if_splits option.splits sum.splits)

lemma attempt_addr_holds:
  assumes L: "descriptor_laws S N opened" and h: "opened w \<subseteq> X" "c_flags c AND REDIS_REUSEADDR = 0"
  shows "attempt_holds opened X (attempt_addr S N (c, w) f p)"
proof -
  obtain s w1 where x: "n_socket N (ai_family p) (ai_socktype p) (ai_protocol p) w = (s, w1)" by fastforce
  note ls = law_socket [OF L x]
  show ?thesis
  proof (cases "s = - 1")
    case True
    then show ?thesis using x ls h by (simp add: attempt_addr_def attempt_holds_def)
  next
    case False
    let ?c = "c\<lparr>c_fd := s\<rparr>"
    have s: "held opened X False (?c, w1)" "live opened (?c, w1)" "0 \<le> s"
      using False ls h by (auto simp: held_def live_def)
    have bind: "attempt_holds opened X (bindR (bind_source S N (c2, w2) f s False) (\<lambda>(r, cw).
             if r \<noteq> REDIS_OK then Inr (Finished REDIS_ERR, cw) else try_connect S N cw s p False))"
      if h2: "held opened X False (c2, w2)" "live opened (c2, w2)" "c_fd c2 = s" for c2 w2
    proof (cases "bind_source S N (c2, w2) f s False")
      case (Inr y)
      then obtain r c3 w3 where y: "bind_source S N (c2, w2) f s False = Inr (r, c3, w3)" by (cases y) auto
      have h3: "held opened X False (c3, w3)" "r = REDIS_OK \<longrightarrow> live opened (c3, w3)"
        using bind_source_holds [OF L h2(1,2), of f s False] y by (auto simp: holds_def)
      show ?thesis
      proof (cases "r = REDIS_OK")
        case True
        then have "c_fd c3 = s" using same_fd(2) y h2(3) by metis
        then show ?thesis using try_connect_holds [OF L h3(1)] h3(2) True y s(3) by simp
      qed (use y h3(1) in \<open>simp add: attempt_err\<close>)
    qed (simp add: attempt_holds_def)
    show ?thesis
    proof (cases "redisSetBlocking S N (?c, w1) False")
      case (Inr y)
      then obtain r c2 w2 where y: "redisSetBlocking S N (?c, w1) False = Inr (r, c2, w2)" by (cases y) auto
      have h2: "held opened X False (c2, w2)" "r = REDIS_OK \<longrightarrow> live opened (c2, w2)"
        using redisSetBlocking_holds [OF L s(1,2), of False] y by (auto simp: holds_def)
      show ?thesis
      proof (cases "r = REDIS_OK")
        case True
        then have "c_fd c2 = s" using same_fd(1) [of S N ?c w1 False c2 w2] y by simp
        then show ?thesis using bind [OF h2(1)] h2(2) True y x False h(2) by (simp add: attempt_addr_def)
      qed (use y h2(1) x False in \<open>simp add: attempt_addr_def attempt_err\<close>)
    qed (use x False in \<open>simp add: attempt_addr_def attempt_holds_def\<close>)
  qed
qed

lemma connect_loop_holds:
  assumes L: "descriptor_laws S N opened"
  shows "opened w \<subseteq> X \<Longrightarrow> c_flags c AND REDIS_REUSEADDR = 0 \<Longrightarrow> holds opened X False (connect_loop S N f (c, w) n ps)"
proof (induction ps arbitrary: c w)
  case Nil
  then show ?case by (auto simp: held_def intro!: holds_fail_with)
next
  case (Cons p ps)
  note at = attempt_addr_holds [OF L Cons.prems, of f p]
  show ?case
  proof (cases "attempt_addr S N (c, w) f p")
    case (Inr x)
    then obtain a c1 w1 where x: "attempt_addr S N (c, w) f p = Inr (a, c1, w1)" by (cases x) auto
    show ?thesis
      using at x Cons.IH [of w1 c1] by (cases a) (simp_all add: attempt_holds_def)
  qed (simp add: holds_def)
qed

lemma keep_timeout_fields: "keep_timeout A c t = Inr c' \<Longrightarrow> c_fd c' = c_fd c \<and> c_flags c' = c_flags c"
  by (cases t) (auto simp: keep_timeout_def split: option.splits if_splits)

lemma keep_params_fields:
  assumes "keep_params A c addr port t sa = Inr c'"
  shows "c_fd c' = c_fd c \<and> c_flags c' = c_flags c"
proof -
  obtain c1 where c1: "keep_timeout A (case addr of Same \<Rightarrow> c\<lparr>c_type := REDIS_CONN_TCP, c_port := port\<rparr>
      | Given a \<Rightarrow> c\<lparr>c_type := REDIS_CONN_TCP, c_port := port, c_host := strdup A a\<rparr>) t = Inr c1"
    and c': "c' = (case sa of Same \<Rightarrow> c1 | Given None \<Rightarrow> c1\<lparr>c_source_addr := None\<rparr> | Given (Some a) \<Rightarrow> c1\<lparr>c_source_addr := strdup A a\<rparr>)"
    using assms by (auto simp: keep_params_def bindR_eq_Inr Let_def)
  have "c_fd c1 = c_fd c \<and> c_flags c1 = c_flags c" using keep_timeout_fields [OF c1] by (cases addr) simp_all
  then show ?thesis using c' by (auto split: arg.splits option.splits)
qed

section \<open>Theorems\<close>

text \<open>
  C23. No descriptor is leaked: connecting a context over TCP (without address reuse), to any list of
  addresses and with any failures of the calls, leaves no descriptor open that was not open before
  except the one in the context, which \<^verbatim>\<open>redisFree\<close> closes; and when it answers \<^verbatim>\<open>REDIS_OK\<close> that
  descriptor is open.
\<close>

theorem connect_no_leak:
  assumes "descriptor_laws S N opened" "c_flags c AND REDIS_REUSEADDR = 0"
    "redisContextConnectTcp_bind S N A (c, w) addr port timeout source_addr = Inr (r, c', w')"
  shows "opened w' \<subseteq> insert (c_fd c') (opened w) \<and> (r = REDIS_OK \<longrightarrow> c_fd c' \<in> opened w')"
proof -
  obtain c1 where c1: "keep_params A c addr port timeout source_addr = Inr c1" using assms(3) by (auto simp: redisContextConnectTcp_bind_def bindR_eq_Inr)
  note f = keep_params_fields [OF c1]
  note ai = law_calls(6) [OF assms(1)]
  let ?p = "Some (take 5 (decimal_int port))"
  obtain rv w1 where x: "n_getaddrinfo N (c_host c1) ?p AF_INET w = (rv, w1)" by fastforce
  then have w1: "opened w1 = opened w" using ai by (metis snd_conv)
  obtain rv2 w2 where y: "n_getaddrinfo N (case addr of Same \<Rightarrow> c_host c1 | Given a \<Rightarrow> Some a) ?p AF_INET6 w1 = (rv2, w2)" by fastforce
  then have w2: "opened w2 = opened w" using ai w1 by (metis snd_conv)
  have "holds opened (opened w) False (redisContextConnectTcp_bind S N A (c, w) addr port timeout source_addr)"
    using c1 x y w1 w2 f assms(2)
    by (auto simp: redisContextConnectTcp_bind_def held_def intro!: connect_loop_holds [OF assms(1)] holds_fail_with split: sum.split)
  then show ?thesis using assms(3) by (auto simp: holds_def held_def live_def)
qed

text \<open>A network of one listening address behind one that refuses.\<close>

definition two_hosts :: "int list net" where
  "two_hosts =
     \<lparr>n_errno = (\<lambda>_. EHOSTUNREACH), n_set_errno = (\<lambda>_ w. w), n_socket = (\<lambda>_ _ _ w. let s = int (length w) + 3 in (s, s # w)),
      n_getfl = (\<lambda>_ w. (0, w)), n_setfl = (\<lambda>_ _ w. (0, w)), n_setsockopt = (\<lambda>_ _ _ w. (0, w)), n_so_error = (\<lambda>_ w. ((0, None), w)),
      n_poll_out = (\<lambda>_ _ w. (1, w)),
      n_getaddrinfo = (\<lambda>_ _ f w. (Inr [\<lparr>ai_family = f, ai_socktype = SOCK_STREAM, ai_protocol = 0, ai_addr = a\<rparr>. a \<leftarrow> [''down'', ''up'']], w)),
      n_gai_strerror = (\<lambda>_. []), n_bind = (\<lambda>_ _ w. (0, w)), n_connect = (\<lambda>_ a w. (if a = ''up'' then 0 else - 1, w))\<rparr>"

definition plain_io :: "int list system" where
  "plain_io = \<lparr>sys_read = (\<lambda>_ _ w. (Inr [], w)), sys_write = (\<lambda>_ b w. (Inr (int (length b)), w)), sys_close = (\<lambda>fd w. filter ((\<noteq>) fd) w),
     sys_strerror = (\<lambda>_. [])\<rparr>"

lemma two_hosts_laws: "descriptor_laws plain_io two_hosts set"
  by (auto simp: descriptor_laws_def two_hosts_def plain_io_def Let_def)

lemma two_hosts_calls:
  "redisSetBlocking plain_io two_hosts (c, w) b = Inr (REDIS_OK, c, w)" "redisSetTcpNoDelay plain_io two_hosts (c, w) = Inr (REDIS_OK, c, w)"
  "bind_source plain_io two_hosts (c\<lparr>c_source_addr := None\<rparr>, w) f s ra = Inr (REDIS_OK, c\<lparr>c_source_addr := None\<rparr>, w)"
  by (simp_all add: redisSetBlocking_def redisSetTcpNoDelay_def bind_source_def two_hosts_def)

lemma two_hosts_sel:
  "n_socket two_hosts f t p w = (int (length w) + 3, (int (length w) + 3) # w)"
  "n_connect two_hosts s a w = (if a = ''up'' then 0 else - 1, w)" "n_errno two_hosts w = EHOSTUNREACH"
  "n_getaddrinfo two_hosts h q f w = (Inr [\<lparr>ai_family = f, ai_socktype = SOCK_STREAM, ai_protocol = 0, ai_addr = ''down''\<rparr>,
     \<lparr>ai_family = f, ai_socktype = SOCK_STREAM, ai_protocol = 0, ai_addr = ''up''\<rparr>], w)"
  by (simp_all add: two_hosts_def Let_def)

lemma two_hosts_connect:
  assumes "c_source_addr c = None"
  shows "\<exists>c' w'. connect_loop plain_io two_hosts f (c, w) 0
    [\<lparr>ai_family = f, ai_socktype = SOCK_STREAM, ai_protocol = 0, ai_addr = ''down''\<rparr>,
     \<lparr>ai_family = f, ai_socktype = SOCK_STREAM, ai_protocol = 0, ai_addr = ''up''\<rparr>] = Inr (REDIS_OK, c', w')"
proof -
  have src: "bind_source plain_io two_hosts (c\<lparr>c_fd := x\<rparr>, v) f s ra = Inr (REDIS_OK, c\<lparr>c_fd := x\<rparr>, v)" for x v s ra
    using assms by (simp add: bind_source_def)
  have "attempt_addr plain_io two_hosts (c, w) f \<lparr>ai_family = f, ai_socktype = SOCK_STREAM, ai_protocol = 0, ai_addr = ''down''\<rparr> =
      Inr (NextAddr, redisContextCloseFd plain_io (c\<lparr>c_fd := int (length w) + 3\<rparr>, (int (length w) + 3) # w))"
    using src by (simp add: attempt_addr_def two_hosts_calls try_connect_def two_hosts_sel Let_def)
  moreover obtain c' w' where "attempt_addr plain_io two_hosts (redisContextCloseFd plain_io (c\<lparr>c_fd := int (length w) + 3\<rparr>, (int (length w) + 3) # w)) f
      \<lparr>ai_family = f, ai_socktype = SOCK_STREAM, ai_protocol = 0, ai_addr = ''up''\<rparr> = Inr (Finished REDIS_OK, c', w')"
    using src by (simp add: redisContextCloseFd_def attempt_addr_def two_hosts_calls try_connect_def two_hosts_sel connected_def Let_def)
  ultimately show ?thesis by simp
qed

theorem connect_no_leak_witness:
  "\<exists>c' w'. redisContextConnectTcp_bind plain_io two_hosts libc (out_context [], []) (Given ''redis'') 6379 (Given None) (Given None) =
     Inr (REDIS_OK, c', w') \<and> set w' \<subseteq> {c_fd c'} \<and> c_fd c' \<in> set w'"
proof -
  let ?m = "redisContextConnectTcp_bind plain_io two_hosts libc (out_context [], []) (Given ''redis'') 6379 (Given None) (Given None)"
  have f: "c_flags (out_context []) AND REDIS_REUSEADDR = 0" by (simp add: out_context_def)
  have "\<exists>c' w'. ?m = Inr (REDIS_OK, c', w')"
    using two_hosts_connect [of "(out_context [])\<lparr>c_type := REDIS_CONN_TCP, c_port := 6379, c_host := Some ''redis'', c_timeout := None, c_source_addr := None\<rparr>" AF_INET "[]"]
    by (simp add: redisContextConnectTcp_bind_def keep_params_def keep_timeout_def strdup_def two_hosts_sel Let_def)
  then obtain c' w' where c: "?m = Inr (REDIS_OK, c', w')" by blast
  note leak = connect_no_leak [OF two_hosts_laws f c, unfolded list.set]
  show ?thesis by (intro exI [of _ c'] exI [of _ w'] conjI c leak [THEN conjunct1] mp [OF leak [THEN conjunct2] refl])
qed

end
