(* ===== verification/Async.thy ===== *)
theory Async
  imports CallbackDict Connect
begin

unbundle bit_operations_syntax

text \<open>
  The event-driven client, \<^verbatim>\<open>redis/hiredis/async.c\<close>. The callbacks of the program, the hooks of its
  event loop and the socket calls are parameters; a callback is named by a number, 0 is NULL, and may do
  anything to the client, the heap and the world that its function says. A list of callbacks is the list
  of its cells, so its links play no role. Handlers may free the client: then \<open>None\<close> takes its place.
  Loops that run callbacks of the program may not end, so they are partial functions.
\<close>

section \<open>The client\<close>

text \<open>\<open>ac_errstr\<close> tells whether the pointer is set to the text of the context; the tables are \<open>None\<close> once they are
  released.\<close>

record 'w redisAsyncContext =
  ac_c :: redisContext
  ac_err :: int
  ac_errstr :: bool
  ac_data :: nat
  ev_data :: nat
  ev_addRead :: "(nat \<Rightarrow> 'w \<Rightarrow> 'w) option"
  ev_delRead :: "(nat \<Rightarrow> 'w \<Rightarrow> 'w) option"
  ev_addWrite :: "(nat \<Rightarrow> 'w \<Rightarrow> 'w) option"
  ev_delWrite :: "(nat \<Rightarrow> 'w \<Rightarrow> 'w) option"
  ev_cleanup :: "(nat \<Rightarrow> 'w \<Rightarrow> 'w) option"
  ac_onDisconnect :: nat
  ac_onConnect :: nat
  ac_replies :: "redisCallback list"
  ac_invalid :: "redisCallback list"
  ac_channels :: "(sds, redisCallback, freed list) dict option"
  ac_patterns :: "(sds, redisCallback, freed list) dict option"

type_synonym 'w astate = "'w redisAsyncContext \<times> heap \<times> 'w"
type_synonym 'w alive = "'w redisAsyncContext option \<times> heap \<times> 'w"

text \<open>The functions of the program: a reply callback gets the address of the reply and its private data, a
  connect or disconnect callback a status.\<close>

record 'w user =
  u_callback :: "nat \<Rightarrow> 'w astate \<Rightarrow> nat \<Rightarrow> nat \<Rightarrow> 'w astate res"
  u_connect :: "nat \<Rightarrow> 'w astate \<Rightarrow> int \<Rightarrow> 'w astate res"
  u_disconnect :: "nat \<Rightarrow> 'w astate \<Rightarrow> int \<Rightarrow> 'w astate res"

abbreviation (input) REDIS_DISCONNECTING :: int where "REDIS_DISCONNECTING \<equiv> 4"
abbreviation (input) REDIS_FREEING :: int where "REDIS_FREEING \<equiv> 8"
abbreviation (input) REDIS_IN_CALLBACK :: int where "REDIS_IN_CALLBACK \<equiv> 16"
abbreviation (input) REDIS_SUBSCRIBED :: int where "REDIS_SUBSCRIBED \<equiv> 32"
abbreviation (input) REDIS_MONITORING :: int where "REDIS_MONITORING \<equiv> 64"

definition has_flag :: "'w redisAsyncContext \<Rightarrow> int \<Rightarrow> bool" where
  "has_flag ac f \<longleftrightarrow> c_flags (ac_c ac) AND f \<noteq> 0"

definition set_flag :: "int \<Rightarrow> 'w redisAsyncContext \<Rightarrow> 'w redisAsyncContext" where
  "set_flag f ac = ac\<lparr>ac_c := (ac_c ac)\<lparr>c_flags := c_flags (ac_c ac) OR f\<rparr>\<rparr>"

definition clear_flag :: "int \<Rightarrow> 'w redisAsyncContext \<Rightarrow> 'w redisAsyncContext" where
  "clear_flag f ac = ac\<lparr>ac_c := (ac_c ac)\<lparr>c_flags := c_flags (ac_c ac) AND NOT f\<rparr>\<rparr>"

text \<open>\<^verbatim>\<open>_EL_ADD_READ\<close> and its siblings: the hook, if it is set, is called on the data of the event loop.\<close>

definition hook :: "('w redisAsyncContext \<Rightarrow> (nat \<Rightarrow> 'w \<Rightarrow> 'w) option) \<Rightarrow> 'w astate \<Rightarrow> 'w astate" where
  "hook sel st = (let (ac, h, w) = st in (ac, h, case sel ac of None \<Rightarrow> w | Some f \<Rightarrow> f (ev_data ac) w))"

section \<open>Creating a client\<close>

text \<open>\<open>fresh\<close> is what a new block for a table happens to hold.\<close>

definition redisAsyncInitialize ::
  "allocator \<Rightarrow> (sds, redisCallback, freed list) dict \<Rightarrow> redisContext \<Rightarrow> 'w redisAsyncContext option res" where
  "redisAsyncInitialize A fresh c =
     (if \<not> can_alloc A 344 then Inr None
      else
        bindR (dictCreate A fresh callbackDict []) (\<lambda>channels.
        bindR (dictCreate A fresh callbackDict []) (\<lambda>patterns.
        Inr (Some \<lparr>ac_c = c\<lparr>c_flags := c_flags c AND NOT REDIS_CONNECTED\<rparr>, ac_err = 0, ac_errstr = False, ac_data = 0,
          ev_data = 0, ev_addRead = None, ev_delRead = None, ev_addWrite = None, ev_delWrite = None, ev_cleanup = None,
          ac_onDisconnect = 0, ac_onConnect = 0, ac_replies = [], ac_invalid = [],
          ac_channels = Some channels, ac_patterns = Some patterns\<rparr>))))"

definition redisAsyncCopyError :: "'w redisAsyncContext \<Rightarrow> 'w redisAsyncContext" where
  "redisAsyncCopyError ac = ac\<lparr>ac_err := c_err (ac_c ac), ac_errstr := True\<rparr>"

text \<open>The two ways to go on from a new context: with the checks, and without.\<close>

definition async_of ::
  "'w system \<Rightarrow> allocator \<Rightarrow> (sds, redisCallback, freed list) dict \<Rightarrow> (redisContext option \<times> heap \<times> 'w) res \<Rightarrow> 'w alive res" where
  "async_of S A fresh m =
     bindR m (\<lambda>(c, h, w).
     case c of
       None \<Rightarrow> Inr (None, h, w)
     | Some c \<Rightarrow>
         bindR (redisAsyncInitialize A fresh c) (\<lambda>ac.
         case ac of
           None \<Rightarrow> bindR (redisFree S (c, h, w)) (\<lambda>(h, w). Inr (None, h, w))
         | Some ac \<Rightarrow> Inr (Some (redisAsyncCopyError ac), h, w)))"

definition async_of_unchecked ::
  "allocator \<Rightarrow> (sds, redisCallback, freed list) dict \<Rightarrow> (redisContext \<times> heap \<times> 'w) res \<Rightarrow> 'w alive res" where
  "async_of_unchecked A fresh m =
     bindR m (\<lambda>(c, h, w).
     bindR (redisAsyncInitialize A fresh c) (\<lambda>ac. Inr (map_option redisAsyncCopyError ac, h, w)))"

definition redisAsyncConnect where
  "redisAsyncConnect S N A fresh ip port hw = async_of S A fresh (redisConnectNonBlock S N A ip port hw)"

definition redisAsyncConnectBind where
  "redisAsyncConnectBind S N A fresh ip port source_addr hw = async_of_unchecked A fresh (redisConnectBindNonBlock S N A ip port source_addr hw)"

definition redisAsyncConnectBindWithReuse where
  "redisAsyncConnectBindWithReuse S N A fresh ip port source_addr hw =
     async_of_unchecked A fresh (redisConnectBindNonBlockWithReuse S N A ip port source_addr hw)"

definition redisAsyncConnectUnix where
  "redisAsyncConnectUnix S N A fresh path hw = async_of S A fresh (redisConnectUnixNonBlock S N A path hw)"

definition redisAsyncSetConnectCallback :: "'w astate \<Rightarrow> nat \<Rightarrow> int \<times> 'w astate" where
  "redisAsyncSetConnectCallback st fn =
     (let (ac, h, w) = st in
      if ac_onConnect ac = 0 then (REDIS_OK, hook ev_addWrite (ac\<lparr>ac_onConnect := fn\<rparr>, h, w)) else (REDIS_ERR, st))"

definition redisAsyncSetDisconnectCallback :: "'w redisAsyncContext \<Rightarrow> nat \<Rightarrow> int \<times> 'w redisAsyncContext" where
  "redisAsyncSetDisconnectCallback ac fn =
     (if ac_onDisconnect ac = 0 then (REDIS_OK, ac\<lparr>ac_onDisconnect := fn\<rparr>) else (REDIS_ERR, ac))"

section \<open>Lists of callbacks\<close>

definition redisPushCallback :: "allocator \<Rightarrow> redisCallback list \<Rightarrow> redisCallback \<Rightarrow> int \<times> redisCallback list" where
  "redisPushCallback A list source =
     (if can_alloc A 24 then (REDIS_OK, list @ [source\<lparr>cb_next := 0\<rparr>]) else (REDIS_ERR_OOM, list))"

fun redisShiftCallback :: "redisCallback list \<Rightarrow> redisCallback \<Rightarrow> int \<times> redisCallback list \<times> redisCallback" where
  "redisShiftCallback [] target = (REDIS_ERR, [], target)"
| "redisShiftCallback (cb # list) target = (REDIS_OK, list, cb)"

definition redisRunCallback :: "'w user \<Rightarrow> 'w astate \<Rightarrow> redisCallback \<Rightarrow> nat \<Rightarrow> 'w astate res" where
  "redisRunCallback U st cb reply =
     (let (ac, h, w) = st in
      if cb_fn cb \<noteq> 0
      then bindR (u_callback U (cb_fn cb) (set_flag REDIS_IN_CALLBACK ac, h, w) reply (cb_privdata cb)) (\<lambda>(ac, h, w).
           Inr (clear_flag REDIS_IN_CALLBACK ac, h, w))
      else Inr st)"

section \<open>Freeing and disconnecting\<close>

text \<open>\<^verbatim>\<open>while (__redisShiftCallback(list,&cb) == REDIS_OK) __redisRunCallback(ac,&cb,NULL);\<close>, for the list that \<open>get\<close> and
  \<open>put\<close> select.\<close>

partial_function (option) run_pending ::
  "'w user \<Rightarrow> ('w redisAsyncContext \<Rightarrow> redisCallback list) \<Rightarrow> (redisCallback list \<Rightarrow> 'w redisAsyncContext \<Rightarrow> 'w redisAsyncContext) \<Rightarrow>
    'w astate \<Rightarrow> 'w astate res option" where
  "run_pending U get put st =
     (case get (fst st) of
        [] \<Rightarrow> Some (Inr st)
      | cb # cbs \<Rightarrow>
          bindO (Some (redisRunCallback U (put cbs (fst st), snd st) cb 0)) (\<lambda>st. run_pending U get put st))"

text \<open>The callbacks of the table that \<open>sel\<close> selects, as the iterator finds them.\<close>

partial_function (option) run_subscriptions ::
  "'w user \<Rightarrow> ('w redisAsyncContext \<Rightarrow> (sds, redisCallback, freed list) dict option) \<Rightarrow> (sds, redisCallback) dictIterator \<Rightarrow>
    'w astate \<Rightarrow> 'w astate res option" where
  "run_subscriptions U sel it st =
     (case sel (fst st) of
        None \<Rightarrow> Some (Inl UseAfterFree)
      | Some d \<Rightarrow>
          bindO (Some (dictNext d it)) (\<lambda>(de, it).
          case de of
            None \<Rightarrow> Some (Inr st)
          | Some (k, v) \<Rightarrow> bindO (Some (redisRunCallback U st v 0)) (\<lambda>st. run_subscriptions U sel it st)))"

definition release_table ::
  "('w redisAsyncContext \<Rightarrow> (sds, redisCallback, freed list) dict option) \<Rightarrow> 'w astate \<Rightarrow> unit res" where
  "release_table sel st =
     (case sel (fst st) of None \<Rightarrow> Inl UseAfterFree | Some d \<Rightarrow> bindR (dictRelease d) (\<lambda>_. Inr ()))"

text \<open>\<^verbatim>\<open>__redisAsyncFree\<close>: nothing is left of the client.\<close>

definition redisAsyncFree_now :: "'w system \<Rightarrow> 'w user \<Rightarrow> 'w astate \<Rightarrow> 'w alive res option" where
  "redisAsyncFree_now S U st =
     bindO (run_pending U ac_replies (\<lambda>l ac. ac\<lparr>ac_replies := l\<rparr>) st) (\<lambda>st.
     bindO (run_pending U ac_invalid (\<lambda>l ac. ac\<lparr>ac_invalid := l\<rparr>) st) (\<lambda>st.
     bindO (run_subscriptions U ac_channels dictGetIterator st) (\<lambda>st.
     bindO (Some (release_table ac_channels st)) (\<lambda>_.
     let st = ((fst st)\<lparr>ac_channels := None\<rparr>, snd st) in
     bindO (run_subscriptions U ac_patterns dictGetIterator st) (\<lambda>st.
     bindO (Some (release_table ac_patterns st)) (\<lambda>_.
     let st = ((fst st)\<lparr>ac_patterns := None\<rparr>, snd st);
         st = hook ev_cleanup st;
         ac = fst st in
     Some (bindR (if ac_onDisconnect ac \<noteq> 0 \<and> has_flag ac REDIS_CONNECTED
                  then u_disconnect U (ac_onDisconnect ac) st
                         (if has_flag ac REDIS_FREEING then REDIS_OK else if ac_err ac = 0 then REDIS_OK else REDIS_ERR)
                  else Inr st) (\<lambda>(ac, h, w).
           bindR (redisFree S (ac_c ac, h, w)) (\<lambda>(h, w). Inr (None, h, w))))))))))"

definition redisAsyncFree :: "'w system \<Rightarrow> 'w user \<Rightarrow> 'w astate \<Rightarrow> 'w alive res option" where
  "redisAsyncFree S U st =
     (let (ac, h, w) = st; ac = set_flag REDIS_FREEING ac in
      if \<not> has_flag ac REDIS_IN_CALLBACK then redisAsyncFree_now S U (ac, h, w) else Some (Inr (Some ac, h, w)))"

text \<open>\<^verbatim>\<open>__redisAsyncDisconnect\<close>. The shift inside the \<^verbatim>\<open>assert\<close> changes nothing when it succeeds.\<close>

definition redisAsyncDisconnect_now :: "'w system \<Rightarrow> 'w user \<Rightarrow> 'w astate \<Rightarrow> 'w alive res option" where
  "redisAsyncDisconnect_now S U st =
     (let (ac, h, w) = st; ac = redisAsyncCopyError ac in
      if ac_err ac = 0
      then bindO (Some (assertR (ac_replies ac = []))) (\<lambda>_. redisAsyncFree_now S U (ac, h, w))
      else redisAsyncFree_now S U (set_flag REDIS_DISCONNECTING ac, h, w))"

definition redisAsyncDisconnect :: "'w system \<Rightarrow> 'w user \<Rightarrow> 'w astate \<Rightarrow> 'w alive res option" where
  "redisAsyncDisconnect S U st =
     (let (ac, h, w) = st; ac = set_flag REDIS_DISCONNECTING ac in
      if \<not> has_flag ac REDIS_IN_CALLBACK \<and> ac_replies ac = [] then redisAsyncDisconnect_now S U (ac, h, w)
      else Some (Inr (Some ac, h, w)))"

section \<open>Replies\<close>

text \<open>\<^verbatim>\<open>strncasecmp(b+i, lit, n)\<close> for a literal \<open>lit\<close> of \<open>n\<close> characters.\<close>

fun strncasecmp :: "bytes \<Rightarrow> int \<Rightarrow> bytes \<Rightarrow> int res" where
  "strncasecmp b i [] = Inr 0"
| "strncasecmp b i (c # cs) =
     bindR (rd b i) (\<lambda>x.
     if tolower x \<noteq> tolower c then Inr (int (of_char (tolower x)) - int (of_char (tolower c)))
     else if x = NUL then Inr 0 else strncasecmp b (i + 1) cs)"

text \<open>\<^verbatim>\<open>reply->element[i]\<close>\<close>

definition reply_elem :: "heap \<Rightarrow> redisReply \<Rightarrow> int \<Rightarrow> redisReply res" where
  "reply_elem h r i = bindR (deref (rp_element r)) (\<lambda>es. bindR (at es i) (get_obj h))"

text \<open>The entry of the channel is removed; with the last one the client leaves the subscribed mode.\<close>

definition unsubscribe ::
  "'w redisAsyncContext \<Rightarrow> heap \<Rightarrow> redisReply \<Rightarrow> bool \<Rightarrow> (sds, redisCallback, freed list) dict \<Rightarrow> sds \<Rightarrow> 'w redisAsyncContext res" where
  "unsubscribe ac h reply pvariant d sname =
     bindR (dictDelete d sname) (\<lambda>(_, d).
     let ac = (if pvariant then ac\<lparr>ac_patterns := Some d\<rparr> else ac\<lparr>ac_channels := Some d\<rparr>) in
     bindR (reply_elem h reply 2) (\<lambda>e2.
     bindR (assertR (rp_type e2 = REDIS_REPLY_INTEGER)) (\<lambda>_.
     Inr (if rp_integer e2 = 0 then clear_flag REDIS_SUBSCRIBED ac else ac))))"

text \<open>The callback of a channel; the target is left alone when there is none. An empty table does not look at the
  name, so that it may be NULL.\<close>

definition channel_callback ::
  "'w redisAsyncContext \<Rightarrow> heap \<Rightarrow> redisReply \<Rightarrow> bytes \<Rightarrow> bool \<Rightarrow> sds option \<Rightarrow> redisCallback \<Rightarrow> ('w redisAsyncContext \<times> redisCallback) res" where
  "channel_callback ac h reply stype pvariant sname dstcb =
     bindR (case if pvariant then ac_patterns ac else ac_channels ac of None \<Rightarrow> Inl UseAfterFree | Some d \<Rightarrow> Inr d) (\<lambda>d.
     if ht_size d = 0 then Inr (ac, dstcb)
     else
       bindR (deref sname) (\<lambda>sname.
       bindR (dictFind d sname) (\<lambda>de.
       case de of
         None \<Rightarrow> Inr (ac, dstcb)
       | Some (k, v) \<Rightarrow>
           bindR (strncasecmp stype (if pvariant then 1 else 0) (''unsubscribe'' @ [NUL])) (\<lambda>cmp.
           bindR (if cmp = 0 then unsubscribe ac h reply pvariant d sname else Inr ac) (\<lambda>ac. Inr (ac, v))))))"

definition redisGetSubscribeCallback ::
  "allocator \<Rightarrow> 'w redisAsyncContext \<Rightarrow> heap \<Rightarrow> redisReply \<Rightarrow> redisCallback \<Rightarrow> ('w redisAsyncContext \<times> redisCallback) res" where
  "redisGetSubscribeCallback A ac h reply dstcb =
     (if rp_type reply = REDIS_REPLY_ARRAY then
        bindR (assertR (rp_elements reply \<ge> 2)) (\<lambda>_.
        bindR (reply_elem h reply 0) (\<lambda>e0.
        bindR (assertR (rp_type e0 = REDIS_REPLY_STRING)) (\<lambda>_.
        bindR (deref (rp_str e0)) (\<lambda>stype.
        bindR (rd stype 0) (\<lambda>c0.
        let pvariant = (tolower c0 = CHR ''p'') in
        bindR (reply_elem h reply 1) (\<lambda>e1.
        bindR (assertR (rp_type e1 = REDIS_REPLY_STRING)) (\<lambda>_.
        bindR (sdsnewlen A (rp_str e1) (uint64 (rp_len e1))) (\<lambda>sname.
        channel_callback ac h reply stype pvariant sname dstcb))))))))
      else
        let (_, list, cb) = redisShiftCallback (ac_invalid ac) dstcb in Inr (ac\<lparr>ac_invalid := list\<rparr>, cb))"

text \<open>\<^verbatim>\<open>c->reader->fn->freeObject(reply)\<close>\<close>

definition free_reply :: "redisContext \<Rightarrow> nat \<Rightarrow> heap \<Rightarrow> heap res" where
  "free_reply c reply h =
     bindR (deref (c_reader c)) (\<lambda>r. bindR (deref (fn_of freeObject r)) (\<lambda>f. f reply h))"

text \<open>The error reply of a server that refuses the connection becomes the error of the context.\<close>

definition refused :: "redisContext \<Rightarrow> redisReply \<Rightarrow> redisContext res" where
  "refused c r =
     bindR (deref (rp_str r)) (\<lambda>s. bindR (strlen s) (\<lambda>n.
     bindR (wrn (c_errstr c) 0 (take 127 (take (nat n) s) @ [NUL])) (\<lambda>es.
     Inr (c\<lparr>c_err := REDIS_ERR_OTHER, c_errstr := es\<rparr>))))"

text \<open>The callback for a reply when none is waiting.\<close>

definition spontaneous ::
  "allocator \<Rightarrow> 'w redisAsyncContext \<Rightarrow> heap \<Rightarrow> redisReply \<Rightarrow> redisCallback \<Rightarrow> ('w redisAsyncContext \<times> redisCallback) res" where
  "spontaneous A ac h r cb =
     bindR (assertR (has_flag ac REDIS_SUBSCRIBED \<or> has_flag ac REDIS_MONITORING)) (\<lambda>_.
     if has_flag ac REDIS_SUBSCRIBED then redisGetSubscribeCallback A ac h r cb else Inr (ac, cb))"

text \<open>The callback to run for a reply, \<open>None\<close> if the reply is a refusal.\<close>

definition next_callback ::
  "allocator \<Rightarrow> 'w redisAsyncContext \<Rightarrow> heap \<Rightarrow> nat \<Rightarrow> redisCallback \<Rightarrow> (redisCallback option \<times> 'w redisAsyncContext) res" where
  "next_callback A ac h reply cb =
     (let (r, list, cb) = redisShiftCallback (ac_replies ac) cb; ac = ac\<lparr>ac_replies := list\<rparr> in
      if r = REDIS_OK then Inr (Some cb, ac)
      else
        bindR (get_obj h reply) (\<lambda>r.
        if rp_type r = REDIS_REPLY_ERROR then Inr (None, ac)
        else bindR (spontaneous A ac h r cb) (\<lambda>(ac, cb). Inr (Some cb, ac))))"

text \<open>The loop of \<^verbatim>\<open>redisProcessCallbacks\<close>; \<open>cb\<close> keeps its value from one turn to the next.\<close>

partial_function (option) process_loop_callbacks ::
  "'w system \<Rightarrow> 'w user \<Rightarrow> allocator \<Rightarrow> redisCallback \<Rightarrow> 'w astate \<Rightarrow> 'w alive res option" where
  "process_loop_callbacks S U A cb st =
     bindO (redisGetReply S A (ac_c (fst st), snd st)) (\<lambda>(status, reply, c, h, w).
     let ac = (fst st)\<lparr>ac_c := c\<rparr> in
     if status \<noteq> REDIS_OK then redisAsyncDisconnect_now S U (ac, h, w)
     else if reply = 0 then
       bindO (Some (if has_flag ac REDIS_DISCONNECTING then bindR (deref (c_obuf c)) (\<lambda>s. Inr (sdslen s = 0)) else Inr False)) (\<lambda>flushed.
       if flushed \<and> ac_replies ac = [] then redisAsyncDisconnect_now S U (ac, h, w)
       else Some (Inr (Some (if has_flag ac REDIS_MONITORING then ac\<lparr>ac_replies := snd (redisPushCallback A (ac_replies ac) cb)\<rparr> else ac), h, w)))
     else
       bindO (Some (next_callback A ac h reply cb)) (\<lambda>(next_cb, ac).
       case next_cb of
         None \<Rightarrow>
           bindO (Some (bindR (get_obj h reply) (refused (ac_c ac)))) (\<lambda>c.
           bindO (Some (free_reply c reply h)) (\<lambda>h. redisAsyncDisconnect_now S U (ac\<lparr>ac_c := c\<rparr>, h, w)))
       | Some cb \<Rightarrow>
           if cb_fn cb \<noteq> 0 then
             bindO (Some (redisRunCallback U (ac, h, w) cb reply)) (\<lambda>(ac, h, w).
             bindO (Some (free_reply (ac_c ac) reply h)) (\<lambda>h.
             if has_flag ac REDIS_FREEING then redisAsyncFree_now S U (ac, h, w)
             else process_loop_callbacks S U A cb (ac, h, w)))
           else bindO (Some (free_reply (ac_c ac) reply h)) (\<lambda>h. process_loop_callbacks S U A cb (ac, h, w))))"

definition redisProcessCallbacks :: "'w system \<Rightarrow> 'w user \<Rightarrow> allocator \<Rightarrow> 'w astate \<Rightarrow> 'w alive res option" where
  "redisProcessCallbacks S U A st = process_loop_callbacks S U A \<lparr>cb_next = 0, cb_fn = 0, cb_privdata = 0\<rparr> st"

section \<open>Events\<close>

text \<open>The status and what is left of the client. \<^verbatim>\<open>errno\<close> is read after the call that may have set it.\<close>

definition redisAsyncHandleConnect :: "'w system \<Rightarrow> 'w net \<Rightarrow> 'w user \<Rightarrow> 'w astate \<Rightarrow> (int \<times> 'w alive) res option" where
  "redisAsyncHandleConnect S N U st =
     (let (ac, h, w) = st;
          on = (\<lambda>status ac w. if ac_onConnect ac \<noteq> 0 then u_connect U (ac_onConnect ac) (ac, h, w) status else Inr (ac, h, w)) in
      bindO (Some (redisCheckSocketError S N (ac_c ac, w))) (\<lambda>(r, c, w).
      let ac = ac\<lparr>ac_c := c\<rparr> in
      if r = REDIS_ERR then
        if n_errno N w = EINPROGRESS then Some (Inr (REDIS_OK, Some ac, h, w))
        else
          bindO (Some (on REDIS_ERR ac w)) (\<lambda>st.
          bindO (redisAsyncDisconnect_now S U st) (\<lambda>st. Some (Inr (REDIS_ERR, st))))
      else
        bindO (Some (on REDIS_OK (set_flag REDIS_CONNECTED ac) w)) (\<lambda>(ac, h, w). Some (Inr (REDIS_OK, Some ac, h, w)))))"

text \<open>The common start of the two handlers: \<open>go\<close> runs once the client is connected.\<close>

definition when_connected ::
  "'w system \<Rightarrow> 'w net \<Rightarrow> 'w user \<Rightarrow> ('w astate \<Rightarrow> 'w alive res option) \<Rightarrow> 'w astate \<Rightarrow> 'w alive res option" where
  "when_connected S N U go st =
     (if has_flag (fst st) REDIS_CONNECTED then go st
      else
        bindO (redisAsyncHandleConnect S N U st) (\<lambda>(r, ac, h, w).
        if r \<noteq> REDIS_OK then Some (Inr (ac, h, w))
        else case ac of
          None \<Rightarrow> Some (Inl UseAfterFree)
        | Some ac \<Rightarrow> if has_flag ac REDIS_CONNECTED then go (ac, h, w) else Some (Inr (Some ac, h, w))))"

definition redisAsyncHandleRead :: "'w system \<Rightarrow> 'w net \<Rightarrow> 'w user \<Rightarrow> allocator \<Rightarrow> 'w astate \<Rightarrow> 'w alive res option" where
  "redisAsyncHandleRead S N U A =
     when_connected S N U (\<lambda>(ac, h, w).
       bindO (Some (redisBufferRead S A (ac_c ac, h, w))) (\<lambda>(r, c, h, w).
       let ac = ac\<lparr>ac_c := c\<rparr> in
       if r = REDIS_ERR then redisAsyncDisconnect_now S U (ac, h, w)
       else redisProcessCallbacks S U A (hook ev_addRead (ac, h, w))))"

definition redisAsyncHandleWrite :: "'w system \<Rightarrow> 'w net \<Rightarrow> 'w user \<Rightarrow> allocator \<Rightarrow> 'w astate \<Rightarrow> 'w alive res option" where
  "redisAsyncHandleWrite S N U A =
     when_connected S N U (\<lambda>(ac, h, w).
       bindO (Some (redisBufferWrite S A (ac_c ac, h, w))) (\<lambda>(r, wdone, c, h, w).
       let ac = ac\<lparr>ac_c := c\<rparr> in
       if r = REDIS_ERR then redisAsyncDisconnect_now S U (ac, h, w)
       else
         let st = (if wdone = Some True then hook ev_delWrite (ac, h, w) else hook ev_addWrite (ac, h, w));
             (ac, h, w) = hook ev_addRead st
         in Some (Inr (Some ac, h, w))))"

section \<open>Commands\<close>

text \<open>\<^verbatim>\<open>strchr(s+i, c)\<close> for a byte that is not zero: its index.\<close>

function find_byte :: "bytes \<Rightarrow> int \<Rightarrow> char \<Rightarrow> int option res" where
  "find_byte s i c =
     (if 0 \<le> i \<and> i < int (length s)
      then if s ! nat i = c then Inr (Some i) else if s ! nat i = NUL then Inr None else find_byte s (i + 1) c
      else Inl OutOfBounds)"
  by pat_completeness auto
termination by (relation "measure (\<lambda>(s, i, c). nat (int (length s) - i))") auto

declare find_byte.simps [simp del]

text \<open>\<^verbatim>\<open>strtol(s+i, NULL, 10)\<close>: white space, a sign, digits; the value is clamped to a \<^verbatim>\<open>long\<close>.\<close>

function digits_from :: "bytes \<Rightarrow> int \<Rightarrow> int \<Rightarrow> int res" where
  "digits_from s i v =
     (if 0 \<le> i \<and> i < int (length s)
      then if is_digit (s ! nat i) then digits_from s (i + 1) (v * 10 + (of_char (s ! nat i) - 48)) else Inr v
      else Inl OutOfBounds)"
  by pat_completeness auto
termination by (relation "measure (\<lambda>(s, i, v). nat (int (length s) - i))") auto

declare digits_from.simps [simp del]

function skip_space :: "bytes \<Rightarrow> int \<Rightarrow> int res" where
  "skip_space s i =
     (if 0 \<le> i \<and> i < int (length s) then if isspace (s ! nat i) then skip_space s (i + 1) else Inr i else Inl OutOfBounds)"
  by pat_completeness auto
termination by (relation "measure (\<lambda>(s, i). nat (int (length s) - i))") auto

declare skip_space.simps [simp del]

definition strtol10 :: "bytes \<Rightarrow> int \<Rightarrow> int res" where
  "strtol10 s i =
     bindR (skip_space s i) (\<lambda>i.
     bindR (rd s i) (\<lambda>c.
     bindR (digits_from s (if c = CHR ''-'' \<or> c = CHR ''+'' then i + 1 else i) 0) (\<lambda>v.
     let v = (if c = CHR ''-'' then - v else v) in Inr (max (- (2 ^ 63)) (min (2 ^ 63 - 1) v)))))"

text \<open>The start of the following argument, the start and the length of this one; \<open>None\<close> is NULL.\<close>

definition nextArgument :: "bytes \<Rightarrow> int \<Rightarrow> (int \<times> int \<times> int) option res" where
  "nextArgument cmd start =
     bindR (rd cmd start) (\<lambda>c.
     bindR (if c \<noteq> CHR ''$'' then find_byte cmd start (CHR ''$'') else Inr (Some start)) (\<lambda>p.
     case p of
       None \<Rightarrow> Inr None
     | Some p \<Rightarrow>
         bindR (strtol10 cmd (p + 1)) (\<lambda>n.
         let len = int32 n in
         bindR (find_byte cmd p CR) (\<lambda>p.
         case p of None \<Rightarrow> Inl AssertFailed | Some p \<Rightarrow> Inr (Some (p + 2 + len + 2, p + 2, uint64 len))))))"

text \<open>\<^verbatim>\<open>while ((p = nextArgument(p,&astr,&alen)) != NULL)\<close>: every further argument is a name for the callback.\<close>

partial_function (option) subscribe_loop ::
  "allocator \<Rightarrow> bytes \<Rightarrow> redisCallback \<Rightarrow> int \<Rightarrow> (sds, redisCallback, freed list) dict \<Rightarrow> (sds, redisCallback, freed list) dict res option" where
  "subscribe_loop A cmd cb p d =
     bindO (Some (nextArgument cmd p)) (\<lambda>a.
     case a of
       None \<Rightarrow> Some (Inr d)
     | Some (p, astr, alen) \<Rightarrow>
         bindO (Some (bindR (sdsnewlen A (Some (drop (nat astr) cmd)) alen) (\<lambda>sname.
                      bindR (deref sname) (\<lambda>sname. dictReplace A d sname cb)))) (\<lambda>(ret, d).
         subscribe_loop A cmd cb p d))"

text \<open>Where the callback of a command goes; \<open>None\<close> refuses the command. The status of a push is not looked at.\<close>

definition register_callback ::
  "allocator \<Rightarrow> 'w redisAsyncContext \<Rightarrow> bytes \<Rightarrow> redisCallback \<Rightarrow> 'w redisAsyncContext option res option" where
  "register_callback A ac cmd cb =
     bindO (Some (nextArgument cmd 0)) (\<lambda>a.
     case a of
       None \<Rightarrow> Some (Inl AssertFailed)
     | Some (p, cstr, clen) \<Rightarrow>
         bindO (Some (rd cmd p)) (\<lambda>c.
         bindO (Some (rd cmd cstr)) (\<lambda>c0.
         let pvariant = (tolower c0 = CHR ''p''); cstr = (if pvariant then cstr + 1 else cstr) in
         bindO (Some (if c = CHR ''$'' then strncasecmp cmd cstr (''subscribe'' @ CRLF) else Inr 1)) (\<lambda>sub.
         if sub = 0 then
           let ac = set_flag REDIS_SUBSCRIBED ac in
           bindO (Some (case if pvariant then ac_patterns ac else ac_channels ac of None \<Rightarrow> Inl UseAfterFree | Some d \<Rightarrow> Inr d)) (\<lambda>d.
           bindO (subscribe_loop A cmd cb p d) (\<lambda>d.
           Some (Inr (Some (if pvariant then ac\<lparr>ac_patterns := Some d\<rparr> else ac\<lparr>ac_channels := Some d\<rparr>)))))
         else
           bindO (Some (strncasecmp cmd cstr (''unsubscribe'' @ CRLF))) (\<lambda>unsub.
           if unsub = 0 then Some (Inr (if has_flag ac REDIS_SUBSCRIBED then Some ac else None))
           else
             bindO (Some (strncasecmp cmd cstr (''monitor'' @ CRLF))) (\<lambda>mon.
             Some (Inr (Some
               (if mon = 0 then
                  let ac = set_flag REDIS_MONITORING ac in ac\<lparr>ac_replies := snd (redisPushCallback A (ac_replies ac) cb)\<rparr>
                else if has_flag ac REDIS_SUBSCRIBED then ac\<lparr>ac_invalid := snd (redisPushCallback A (ac_invalid ac) cb)\<rparr>
                else ac\<lparr>ac_replies := snd (redisPushCallback A (ac_replies ac) cb)\<rparr>)))))))))"

text \<open>\<^verbatim>\<open>__redisAsyncCommand\<close>. The status of the append is not looked at either.\<close>

definition redisAsyncCommand_raw ::
  "'w system \<Rightarrow> allocator \<Rightarrow> 'w astate \<Rightarrow> nat \<Rightarrow> nat \<Rightarrow> bytes \<Rightarrow> int \<Rightarrow> (int \<times> 'w astate) res option" where
  "redisAsyncCommand_raw S A st fn privdata cmd len =
     (let (ac, h, w) = st in
      if has_flag ac (REDIS_DISCONNECTING OR REDIS_FREEING) then Some (Inr (REDIS_ERR, st))
      else
        bindO (register_callback A ac cmd \<lparr>cb_next = 0, cb_fn = fn, cb_privdata = privdata\<rparr>) (\<lambda>ac'.
        case ac' of
          None \<Rightarrow> Some (Inr (REDIS_ERR, st))
        | Some ac \<Rightarrow>
            bindO (Some (redisAppendCommand_raw S A (ac_c ac) cmd len)) (\<lambda>(_, c).
            Some (Inr (REDIS_OK, hook ev_addWrite (ac\<lparr>ac_c := c\<rparr>, h, w))))))"

definition redisvAsyncCommand ::
  "'w system \<Rightarrow> allocator \<Rightarrow> (bytes \<Rightarrow> va \<Rightarrow> bytes) \<Rightarrow> 'w astate \<Rightarrow> nat \<Rightarrow> nat \<Rightarrow> bytes \<Rightarrow> va list \<Rightarrow> (int \<times> 'w astate) res option" where
  "redisvAsyncCommand S A pf st fn privdata fmt ap =
     bindO (Some (redisvFormatCommand A pf True fmt ap)) (\<lambda>(len, cmd).
     if len < 0 then Some (Inr (REDIS_ERR, st))
     else bindO (Some (deref cmd)) (\<lambda>cmd. redisAsyncCommand_raw S A st fn privdata cmd (uint64 len)))"

definition redisAsyncCommand where
  "redisAsyncCommand S A pf st fn privdata fmt ap = redisvAsyncCommand S A pf st fn privdata fmt ap"

text \<open>The length is not tested: when the command could not be formatted, the pointer is indeterminate.\<close>

definition redisAsyncCommandArgv ::
  "'w system \<Rightarrow> allocator \<Rightarrow> 'w astate \<Rightarrow> nat \<Rightarrow> nat \<Rightarrow> int \<Rightarrow> bytes list \<Rightarrow> int list option \<Rightarrow> (int \<times> 'w astate) res option" where
  "redisAsyncCommandArgv S A st fn privdata argc argv argvlen =
     bindO (Some (redisFormatSdsCommandArgv A True argc argv argvlen)) (\<lambda>(len, cmd).
     bindO (Some (deref cmd)) (\<lambda>cmd. redisAsyncCommand_raw S A st fn privdata (sh_buf cmd) (uint64 len)))"

definition redisAsyncFormattedCommand where
  "redisAsyncFormattedCommand S A st fn privdata cmd len = redisAsyncCommand_raw S A st fn privdata cmd len"

end
