(* ===== verification/AsyncContract.thy ===== *)
theory AsyncContract
  imports Async ContextContract
begin

unbundle bit_operations_syntax

text \<open>
  What the event-driven client promises: however the server's replies are cut into read events, the
  callbacks are run with them in the order of the commands, and none is left out or run twice.
\<close>

section \<open>Flags\<close>

lemma flag_in_callback:
  "f \<in> {1, 2, 4, 8, 64} \<Longrightarrow> has_flag (clear_flag REDIS_IN_CALLBACK ac) f = has_flag ac f"
  "f \<in> {1, 2, 4, 8, 64} \<Longrightarrow> has_flag (set_flag REDIS_IN_CALLBACK ac) f = has_flag ac f"
  by (auto simp: has_flag_def clear_flag_def set_flag_def and.assoc bit.conj_disj_distrib2)

lemma flag_sel [simp]:
  "ac_replies (set_flag f ac) = ac_replies ac" "ac_replies (clear_flag f ac) = ac_replies ac"
  "c_reader (ac_c (set_flag f ac)) = c_reader (ac_c ac)" "c_reader (ac_c (clear_flag f ac)) = c_reader (ac_c ac)"
  "c_err (ac_c (set_flag f ac)) = c_err (ac_c ac)" "c_err (ac_c (clear_flag f ac)) = c_err (ac_c ac)"
  "ev_addRead (set_flag f ac) = ev_addRead ac" "ev_addRead (clear_flag f ac) = ev_addRead ac"
  by (simp_all add: set_flag_def clear_flag_def)

text \<open>A connected client in normal operation.\<close>

definition steady :: "'w redisAsyncContext \<Rightarrow> bool" where
  "steady ac \<longleftrightarrow> has_flag ac REDIS_CONNECTED \<and> \<not> has_flag ac REDIS_BLOCK \<and> \<not> has_flag ac REDIS_DISCONNECTING \<and>
     \<not> has_flag ac REDIS_FREEING \<and> \<not> has_flag ac REDIS_MONITORING \<and> c_err (ac_c ac) = 0"

lemma steady_cong: "c_flags (ac_c ac') = c_flags (ac_c ac) \<Longrightarrow> c_err (ac_c ac') = c_err (ac_c ac) \<Longrightarrow> steady ac' = steady ac"
  by (simp add: steady_def has_flag_def)

lemma steady_flags [simp]: "steady (clear_flag REDIS_IN_CALLBACK ac) = steady ac" "steady (set_flag REDIS_IN_CALLBACK ac) = steady ac"
  by (simp_all add: steady_def flag_in_callback)

section \<open>Programs that observe their replies\<close>

text \<open>\<open>log\<close> records the replies a callback was given, \<open>todo\<close> the bytes that have still to arrive. A callback may
  append callbacks by sending commands, and change what the reader does not use.\<close>

definition observes :: "'w user \<Rightarrow> (reply \<Rightarrow> 'v) \<Rightarrow> ('w \<Rightarrow> (nat \<times> nat \<times> 'v) list) \<Rightarrow> ('w \<Rightarrow> bytes) \<Rightarrow> bool" where
  "observes U view log todo \<longleftrightarrow> (\<forall>fn ac h w a pd v. rep_at h a v \<longrightarrow>
     (\<exists>ac' new w'. u_callback U fn (ac, h, w) a pd = Inr (ac', h, w') \<and> ac_replies ac' = ac_replies ac @ new \<and>
       c_reader (ac_c ac') = c_reader (ac_c ac) \<and> c_flags (ac_c ac') = c_flags (ac_c ac) \<and> c_err (ac_c ac') = c_err (ac_c ac) \<and>
       ev_addRead ac' = ev_addRead ac \<and> log w' = log w @ [(fn, pd, view v)] \<and> todo w' = todo w))"

definition deliveries :: "(reply \<Rightarrow> 'v) \<Rightarrow> redisCallback list \<Rightarrow> reply list \<Rightarrow> (nat \<times> nat \<times> 'v) list" where
  "deliveries view cbs reps =
     concat (map (\<lambda>(cb, rep). if cb_fn cb = 0 then [] else [(cb_fn cb, cb_privdata cb, view rep)]) (zip cbs reps))"

lemma deliveries_simps [simp]:
  "deliveries view cbs [] = []"
  "deliveries view (cb # cbs) (rep # reps) = (if cb_fn cb = 0 then [] else [(cb_fn cb, cb_privdata cb, view rep)]) @ deliveries view cbs reps"
  by (simp_all add: deliveries_def)

lemma deliveries_append:
  "length cbs1 = length reps1 \<Longrightarrow> deliveries view (cbs1 @ cbs2) (reps1 @ reps2) = deliveries view cbs1 reps1 @ deliveries view cbs2 reps2"
  by (simp add: deliveries_def)

lemma deliveries_take: "length reps \<le> length cbs \<Longrightarrow> deliveries view (cbs @ new) reps = deliveries view cbs reps"
  by (simp add: deliveries_def zip_append1)

text \<open>What the reader has still to get: the rest of the first reply and the replies after it.\<close>

definition expecting :: "allocator \<Rightarrow> redisContext \<Rightarrow> heap \<Rightarrow> reply list \<Rightarrow> bytes \<Rightarrow> bool" where
  "expecting A c h reps x \<longleftrightarrow> (\<exists>r. c_reader c = Some r \<and> int (received r + length x) < sds_limit \<and>
     (case reps of
        [] \<Rightarrow> x = []
      | rep # reps' \<Rightarrow> x \<noteq> [] \<and> (\<exists>h0. pending (defaultFunctions A) (Suc (length h0)) (concat (map encode reps')) (h0 @ map Some (objs (length h0) rep)) r h x)))"

text \<open>One callback on one reply, which is then freed.\<close>

lemma run_one:
  assumes U: "observes U view log todo" and st: "steady ac" and cb: "cb_fn cb \<noteq> 0" and r: "rep_at h a v"
  obtains ac' new w' where "redisRunCallback U (ac, h, w) cb a = Inr (ac', h, w')" "steady ac'" "ac_replies ac' = ac_replies ac @ new"
    "c_reader (ac_c ac') = c_reader (ac_c ac)" "ev_addRead ac' = ev_addRead ac" "log w' = log w @ [(cb_fn cb, cb_privdata cb, view v)]" "todo w' = todo w"
proof -
  let ?s = "set_flag REDIS_IN_CALLBACK ac"
  obtain ac' new w' where u: "u_callback U (cb_fn cb) (?s, h, w) a (cb_privdata cb) = Inr (ac', h, w')" "ac_replies ac' = ac_replies ?s @ new"
       "c_reader (ac_c ac') = c_reader (ac_c ?s)" "c_flags (ac_c ac') = c_flags (ac_c ?s)" "c_err (ac_c ac') = c_err (ac_c ?s)"
       "ev_addRead ac' = ev_addRead ?s" "log w' = log w @ [(cb_fn cb, cb_privdata cb, view v)]" "todo w' = todo w"
    using U r unfolding observes_def by meson
  show thesis
    using that [of "clear_flag REDIS_IN_CALLBACK ac'" w' new] u cb st steady_cong [OF u(4,5)]
    by (simp add: redisRunCallback_def)
qed

section \<open>Processing the replies that have arrived\<close>

lemma get_reply_nonblocking:
  assumes "steady ac" "c_reader (ac_c ac) = Some r" "redisReaderGetReply (r, h) = Inr (REDIS_OK, obj, r', h')"
  shows "redisGetReply S A (ac_c ac, h, w) = Some (Inr (REDIS_OK, obj, (ac_c ac)\<lparr>c_reader := Some r'\<rparr>, h', w))"
  using assms by (simp add: redisGetReply_def redisGetReplyFromReader_def is_block_def steady_def has_flag_def)

lemma free_default:
  assumes "c_reader c = Some r" "r_fn r = Some (defaultFunctions A)"
  shows "free_reply c a h = freeReplyObject a h"
  using assms by (simp add: free_reply_def fn_of_def defaultFunctions_def)

text \<open>A turn of the loop without a reply ends it.\<close>

lemma loop_no_reply:
  assumes "steady ac" "c_reader (ac_c ac) = Some r" "redisReaderGetReply (r, h) = Inr (REDIS_OK, 0, r', h')"
  shows "process_loop_callbacks S U A cb (ac, h, w) = Some (Inr (Some (ac\<lparr>ac_c := (ac_c ac)\<lparr>c_reader := Some r'\<rparr>\<rparr>), h', w))"
  using get_reply_nonblocking [OF assms, of S A w] assms(1)
  by (subst process_loop_callbacks.simps) (simp add: steady_def has_flag_def)

text \<open>A turn with a reply: the first callback gets it, and the reply is freed.\<close>

lemma loop_reply:
  assumes U: "observes U view log todo" and st: "steady ac" and r: "c_reader (ac_c ac) = Some r"
    and get: "redisReaderGetReply (r, h) = Inr (REDIS_OK, Suc (length h0), r', h0 @ map Some (objs (length h0) rep))" "r_fn r' = Some (defaultFunctions A)"
    and q: "ac_replies ac = cb # cbs"
  obtains ac' w' new where
    "process_loop_callbacks S U A cb0 (ac, h, w) = process_loop_callbacks S U A cb (ac', h0 @ replicate (nobjs rep) None, w')"
    "steady ac'" "ac_replies ac' = cbs @ new" "c_reader (ac_c ac') = Some r'" "ev_addRead ac' = ev_addRead ac"
    "log w' = log w @ deliveries view [cb] [rep]" "todo w' = todo w"
proof -
  let ?h = "h0 @ map Some (objs (length h0) rep)" and ?a = "Suc (length h0)"
  define ac1 where "ac1 = ac\<lparr>ac_c := (ac_c ac)\<lparr>c_reader := Some r'\<rparr>, ac_replies := cbs\<rparr>"
  have s1: "steady ac1" using st steady_cong [of ac1 ac] by (simp add: ac1_def)
  have rep: "rep_at ?h ?a rep" using objs_rep_at(1) [of "length h0" h0 rep "[]"] by simp
  have nc: "next_callback A (ac\<lparr>ac_c := (ac_c ac)\<lparr>c_reader := Some r'\<rparr>\<rparr>) ?h ?a cb0 = Inr (Some cb, ac1)"
    using q by (simp add: next_callback_def ac1_def)
  note step = get_reply_nonblocking [OF st r get(1), of S A w]
  show thesis
  proof (cases "cb_fn cb = 0")
    case True
    have "free_reply (ac_c ac1) ?a ?h = Inr (h0 @ replicate (nobjs rep) None)"
      using free_default [of "ac_c ac1" r' A ?a ?h] get(2) free_reply [of h0 rep] by (simp add: ac1_def)
    then have "process_loop_callbacks S U A cb0 (ac, h, w) = process_loop_callbacks S U A cb (ac1, h0 @ replicate (nobjs rep) None, w)"
      using step nc True by (subst process_loop_callbacks.simps) simp
    then show thesis using that [of ac1 w "[]"] s1 True by (simp add: ac1_def)
  next
    case False
    obtain ac' new w' where u: "redisRunCallback U (ac1, ?h, w) cb ?a = Inr (ac', ?h, w')" "steady ac'" "ac_replies ac' = ac_replies ac1 @ new"
        "c_reader (ac_c ac') = c_reader (ac_c ac1)" "ev_addRead ac' = ev_addRead ac1" "log w' = log w @ [(cb_fn cb, cb_privdata cb, view rep)]" "todo w' = todo w"
      by (rule run_one [OF U s1 False rep])
    have "free_reply (ac_c ac') ?a ?h = Inr (h0 @ replicate (nobjs rep) None)"
      using free_default [of "ac_c ac'" r' A ?a ?h] u(4) get(2) free_reply [of h0 rep] by (simp add: ac1_def)
    moreover have "\<not> has_flag ac' REDIS_FREEING" using u(2) by (simp add: steady_def)
    ultimately have "process_loop_callbacks S U A cb0 (ac, h, w) = process_loop_callbacks S U A cb (ac', h0 @ replicate (nobjs rep) None, w')"
      using step nc u(1) False by (subst process_loop_callbacks.simps) simp
    then show thesis using that [of ac' w' new] u False by (simp add: ac1_def)
  qed
qed

text \<open>What a read event leaves: a client in normal operation that has run the callbacks of the replies \<open>reps1\<close> that were
  complete, and waits for the others.\<close>

definition processed ::
  "allocator \<Rightarrow> (reply \<Rightarrow> 'v) \<Rightarrow> ('w \<Rightarrow> (nat \<times> nat \<times> 'v) list) \<Rightarrow> ('w \<Rightarrow> bytes) \<Rightarrow> 'w redisAsyncContext \<Rightarrow> 'w \<Rightarrow> reply list \<Rightarrow> bytes \<Rightarrow> 'w alive res option \<Rightarrow> bool" where
  "processed A view log todo ac w reps x m \<longleftrightarrow> (\<exists>ac' h' w' reps1 reps2 new.
     m = Some (Inr (Some ac', h', w')) \<and> reps = reps1 @ reps2 \<and> steady ac' \<and> ev_addRead ac' = ev_addRead ac \<and>
     ac_replies ac' = drop (length reps1) (ac_replies ac) @ new \<and> log w' = log w @ deliveries view (ac_replies ac) reps1 \<and> todo w' = todo w \<and>
     expecting A (ac_c ac') h' reps2 x)"

abbreviation encodes :: "reply list \<Rightarrow> bytes" where
  "encodes reps \<equiv> concat (map encode reps)"

definition at_rest :: "allocator \<Rightarrow> 'w redisAsyncContext \<Rightarrow> reply list \<Rightarrow> bytes \<Rightarrow> bool" where
  "at_rest A ac reps x \<longleftrightarrow> steady ac \<and> (\<forall>rep\<in>set reps. wf_at 0 rep) \<and> length reps \<le> length (ac_replies ac) \<and>
     int (1024 + length (encodes reps)) < sds_limit \<and>
     (\<exists>r. c_reader (ac_c ac) = Some r \<and> reader_idle r \<and> r_fn r = Some (defaultFunctions A) \<and> unread r @ x = encodes reps \<and>
       int (received r + length x) < sds_limit)"

lemma pending_built:
  assumes A: "\<forall>k. can_alloc A k" and r: "reader_idle r" "r_fn r = Some (defaultFunctions A)" "unread r @ x = encode rep @ rest"
    and l: "int (length (encode rep @ rest)) < 2 ^ 31" "wf_at 0 rep"
  shows "pending (defaultFunctions A) (Suc (length h)) rest (h @ map Some (objs (length h) rep)) r h x"
proof -
  have "length (encode rep) < 2 ^ 31" using l(1) by simp
  then have "build (default_builders A) None rep h = Inr (Suc (length h), h @ map Some (objs (length h) rep))"
    using build_objs(1) [OF A, of rep None h] by (simp add: place_ok_def linked_def)
  with r l show ?thesis by (intro objects.pending_start [where rep = rep]) simp_all
qed

lemma received_idle: "reader_idle r \<Longrightarrow> r_pos r < 1024 \<Longrightarrow> received r < 1024 + length (unread r)"
  by (erule reader_idleE) auto

lemma process_pending:
  assumes A: "\<forall>k. can_alloc A k" and U: "observes U view log todo" and ac: "steady ac" "c_reader (ac_c ac) = Some r"
    and p: "pending (defaultFunctions A) (Suc (length h0)) (encodes reps) (h0 @ map Some (objs (length h0) rep)) r h x"
    and n: "\<forall>rep\<in>set (rep # reps). wf_at 0 rep" "length (rep # reps) \<le> length (ac_replies ac)" "int (1024 + length (encodes (rep # reps))) < sds_limit"
      "int (received r + length x) < sds_limit"
    and IH: "\<And>ac h w cb. at_rest A ac reps x \<Longrightarrow> processed A view log todo ac w reps x (process_loop_callbacks S U A cb (ac, h, w))"
  shows "processed A view log todo ac w (rep # reps) x (process_loop_callbacks S U A cb (ac, h, w))"
  using objects.pending_reply [OF p]
proof (elim disjE exE conjE)
  fix r' assume r': "redisReaderGetReply (r, h) = Inr (REDIS_OK, Suc (length h0), r', h0 @ map Some (objs (length h0) rep))" "reader_idle r'"
    "r_fn r' = Some (defaultFunctions A)" "unread r' @ x = encodes reps" "r_pos r' < 1024"
  obtain c0 cbs where q: "ac_replies ac = c0 # cbs" using n(2) by (cases "ac_replies ac") auto
  obtain ac1 w1 new where l: "process_loop_callbacks S U A cb (ac, h, w) = process_loop_callbacks S U A c0 (ac1, h0 @ replicate (nobjs rep) None, w1)"
    "steady ac1" "ac_replies ac1 = cbs @ new" "c_reader (ac_c ac1) = Some r'" "ev_addRead ac1 = ev_addRead ac"
    "log w1 = log w @ deliveries view [c0] [rep]" "todo w1 = todo w"
    by (rule loop_reply [OF U ac r'(1,3) q])
  have len: "length reps \<le> length cbs" using n(2) q by simp
  have "int (received r' + length x) < sds_limit"
    using received_idle [OF r'(2,5)] arg_cong [OF r'(4), of length] n(3) by simp
  then have "at_rest A ac1 reps x" using l r' n len by (auto simp: at_rest_def)
  from IH [OF this, of w1 c0 "h0 @ replicate (nobjs rep) None"] obtain ac' h' w' reps1 reps2 new' where
    P: "process_loop_callbacks S U A cb (ac, h, w) = Some (Inr (Some ac', h', w'))" "reps = reps1 @ reps2" "steady ac'"
      "ev_addRead ac' = ev_addRead ac1" "ac_replies ac' = drop (length reps1) (ac_replies ac1) @ new'"
      "log w' = log w1 @ deliveries view (ac_replies ac1) reps1" "todo w' = todo w1" "expecting A (ac_c ac') h' reps2 x"
    unfolding processed_def l(1) by blast
  have d: "deliveries view (cbs @ new) reps1 = deliveries view cbs reps1" by (rule deliveries_take) (use len P(2) in simp)
  show ?thesis unfolding processed_def
    by (intro exI [of _ ac'] exI [of _ h'] exI [of _ w'] exI [of _ "rep # reps1"] exI [of _ reps2] exI [of _ "new @ new'"])
      (use P l q d len in simp)
next
  fix r' h1 assume r': "x \<noteq> []" "redisReaderGetReply (r, h) = Inr (REDIS_OK, 0, r', h1)"
    "pending (defaultFunctions A) (Suc (length h0)) (encodes reps) (h0 @ map Some (objs (length h0) rep)) r' h1 x" "received r' \<le> received r"
  let ?ac = "ac\<lparr>ac_c := (ac_c ac)\<lparr>c_reader := Some r'\<rparr>\<rparr>"
  have "steady ?ac" using ac(1) steady_cong [of ?ac ac] by simp
  moreover have "expecting A (ac_c ?ac) h1 (rep # reps) x" using r' n(4) by (auto simp: expecting_def)
  ultimately show ?thesis unfolding processed_def
    by (intro exI [of _ ?ac] exI [of _ h1] exI [of _ w] exI [of _ "[]"] exI [of _ "rep # reps"] exI [of _ "[]"])
      (use loop_no_reply [OF ac r'(2), of S U A cb w] in simp)
qed

lemma process_idle:
  assumes A: "\<forall>k. can_alloc A k" and U: "observes U view log todo"
  shows "at_rest A ac reps x \<Longrightarrow> processed A view log todo ac w reps x (process_loop_callbacks S U A cb (ac, h, w))"
proof (induction reps arbitrary: ac w cb h)
  case Nil
  then obtain r where r: "steady ac" "c_reader (ac_c ac) = Some r" "reader_idle r" "r_fn r = Some (defaultFunctions A)" "unread r = []" "x = []"
      "int (received r) < sds_limit"
    by (auto simp: at_rest_def)
  have "pending (defaultFunctions A) (Suc (length h)) [] (h @ map Some (objs (length h) reply.Nil)) r h (encode reply.Nil)"
    by (rule pending_built [OF A r(3,4)]) (use r(5) in simp_all)
  from objects.pending_reply [OF this] obtain r' h1 where r': "redisReaderGetReply (r, h) = Inr (REDIS_OK, 0, r', h1)" "received r' \<le> received r"
    by auto
  let ?ac = "ac\<lparr>ac_c := (ac_c ac)\<lparr>c_reader := Some r'\<rparr>\<rparr>"
  have "steady ?ac" using r(1) steady_cong [of ?ac ac] by simp
  moreover have "expecting A (ac_c ?ac) h1 [] x" using r' r(6,7) by (auto simp: expecting_def)
  ultimately show ?case unfolding processed_def
    by (intro exI [of _ ?ac] exI [of _ h1] exI [of _ w] exI [of _ "[]"])
      (use loop_no_reply [OF r(1,2) r'(1), of S U A cb w] in simp)
next
  case (Cons rep reps)
  then obtain r where r: "steady ac" "c_reader (ac_c ac) = Some r" "reader_idle r" "r_fn r = Some (defaultFunctions A)"
      "unread r @ x = encode rep @ encodes reps" "int (received r + length x) < sds_limit" "wf_at 0 rep"
      "int (1024 + length (encode rep @ encodes reps)) < sds_limit"
    by (auto simp: at_rest_def)
  have "pending (defaultFunctions A) (Suc (length h)) (encodes reps) (h @ map Some (objs (length h) rep)) r h x"
    by (rule pending_built [OF A r(3-5) _ r(7)]) (use r(8) in simp)
  from process_pending [OF A U r(1,2) this] show ?case
    using Cons r(6) by (auto simp: at_rest_def)
qed

section \<open>Read events\<close>

text \<open>The event loop calls the read handler \<open>n\<close> times, as long as the client lives.\<close>

fun read_events :: "'w system \<Rightarrow> 'w net \<Rightarrow> 'w user \<Rightarrow> allocator \<Rightarrow> nat \<Rightarrow> 'w alive \<Rightarrow> 'w alive res option" where
  "read_events S N U A 0 st = Some (Inr st)"
| "read_events S N U A (Suc n) (None, h, w) = Some (Inr (None, h, w))"
| "read_events S N U A (Suc n) (Some ac, h, w) = bindO (redisAsyncHandleRead S N U A (ac, h, w)) (read_events S N U A n)"

text \<open>A socket that gives a part of the bytes that have still to arrive.\<close>

definition delivers :: "'w system \<Rightarrow> ('w \<Rightarrow> (nat \<times> nat \<times> 'v) list) \<Rightarrow> ('w \<Rightarrow> bytes) \<Rightarrow> bool" where
  "delivers S log todo \<longleftrightarrow> (\<forall>fd n w. todo w \<noteq> [] \<and> n > 0 \<longrightarrow>
     (\<exists>k w'. sys_read S fd n w = (Inr (take k (todo w)), w') \<and> 1 \<le> k \<and> k \<le> length (todo w) \<and> todo w' = drop k (todo w) \<and> log w' = log w))"

definition quiet_hook :: "'w redisAsyncContext \<Rightarrow> ('w \<Rightarrow> (nat \<times> nat \<times> 'v) list) \<Rightarrow> ('w \<Rightarrow> bytes) \<Rightarrow> bool" where
  "quiet_hook ac log todo \<longleftrightarrow> (case ev_addRead ac of None \<Rightarrow> True | Some f \<Rightarrow> \<forall>d w. log (f d w) = log w \<and> todo (f d w) = todo w)"

lemma hook_addRead:
  assumes "quiet_hook ac log todo"
  obtains w' where "hook ev_addRead (ac, h, w) = (ac, h, w')" "log w' = log w" "todo w' = todo w"
  using assms by (cases "ev_addRead ac") (auto simp: hook_def quiet_hook_def)

lemma read_event:
  assumes A: "\<forall>k. can_alloc A k" and U: "observes U view log todo" and S: "delivers S log todo" and ac: "steady ac" "quiet_hook ac log todo"
    and e: "expecting A (ac_c ac) h reps (todo w)" "todo w \<noteq> []"
    and n: "\<forall>rep\<in>set reps. wf_at 0 rep" "length reps \<le> length (ac_replies ac)" "int (1024 + length (encodes reps)) < sds_limit"
  obtains w1 where "length (todo w1) < length (todo w)" "log w1 = log w"
    "processed A view log todo ac w1 reps (todo w1) (redisAsyncHandleRead S N U A (ac, h, w))"
proof -
  obtain rep reps' where reps: "reps = rep # reps'" using e by (cases reps) (auto simp: expecting_def)
  obtain r h0 where r: "c_reader (ac_c ac) = Some r" "int (received r + length (todo w)) < sds_limit"
    and p: "pending (defaultFunctions A) (Suc (length h0)) (encodes reps') (h0 @ map Some (objs (length h0) rep)) r h (todo w)"
    using e(1) reps by (auto simp: expecting_def)
  have "todo w \<noteq> [] \<and> (16384::int) > 0" using e(2) by simp
  then obtain k w1 where k: "sys_read S (c_fd (ac_c ac)) 16384 w = (Inr (take k (todo w)), w1)" "1 \<le> k" "k \<le> length (todo w)"
      "todo w1 = drop k (todo w)" "log w1 = log w"
    using S unfolding delivers_def by meson
  have split: "todo w = take k (todo w) @ todo w1" "take k (todo w) \<noteq> []" "length (take k (todo w)) = k" using k e(2) by auto
  have err: "c_err (ac_c ac) = 0" using ac(1) by (simp add: steady_def)
  obtain r1 where r1: "redisBufferRead S A (ac_c ac, h, w) = Inr (REDIS_OK, (ac_c ac)\<lparr>c_reader := Some r1\<rparr>, h, w1)"
      "pending (defaultFunctions A) (Suc (length h0)) (encodes reps') (h0 @ map Some (objs (length h0) rep)) r1 h (todo w1)"
      "received r1 \<le> received r + k"
    using redisBufferRead_some [OF A err r(1) k(1) split(2), of "defaultFunctions A" _ "encodes reps'" _ h "todo w1"] p split(1,3) r(2) k(3) by auto
  define ac1 where "ac1 = ac\<lparr>ac_c := (ac_c ac)\<lparr>c_reader := Some r1\<rparr>\<rparr>"
  have s1: "steady ac1" "c_reader (ac_c ac1) = Some r1" "quiet_hook ac1 log todo" "ac_replies ac1 = ac_replies ac" "ev_addRead ac1 = ev_addRead ac"
    using ac steady_cong [of ac1 ac] by (simp_all add: ac1_def quiet_hook_def)
  obtain w2 where w2: "hook ev_addRead (ac1, h, w1) = (ac1, h, w2)" "log w2 = log w1" "todo w2 = todo w1"
    using hook_addRead [OF s1(3)] by blast
  have run: "redisAsyncHandleRead S N U A (ac, h, w) = redisProcessCallbacks S U A (ac1, h, w2)"
    using ac(1) r1(1) w2(1) by (simp add: redisAsyncHandleRead_def when_connected_def steady_def ac1_def)
  have "int (received r1 + length (todo w1)) < sds_limit" using r1(3) r(2) k(3,4) by simp
  then have "processed A view log todo ac1 w2 reps (todo w1) (redisProcessCallbacks S U A (ac1, h, w2))"
    unfolding redisProcessCallbacks_def reps
    by (intro process_pending [OF A U s1(1,2) r1(2)] process_idle [OF A U]) (use n s1(4) reps in simp_all)
  then have "processed A view log todo ac w2 reps (todo w1) (redisAsyncHandleRead S N U A (ac, h, w))"
    unfolding run by (simp add: processed_def s1(4,5))
  then show thesis using that [of w2] w2(2,3) k by simp
qed

lemma read_events_add:
  "read_events S N U A (Suc n) (Some ac, h, w) = Some (Inr y)" if "redisAsyncHandleRead S N U A (ac, h, w) = Some (Inr x)" "read_events S N U A n x = Some (Inr y)"
  using that by simp

lemma read_all:
  assumes A: "\<forall>k. can_alloc A k" and U: "observes U view log todo" and S: "delivers S log todo"
  shows "steady ac \<Longrightarrow> quiet_hook ac log todo \<Longrightarrow> expecting A (ac_c ac) h reps (todo w) \<Longrightarrow> \<forall>rep\<in>set reps. wf_at 0 rep \<Longrightarrow>
    length reps \<le> length (ac_replies ac) \<Longrightarrow> int (1024 + length (encodes reps)) < sds_limit \<Longrightarrow>
    \<exists>n ac' h' w' new. n \<le> length (todo w) \<and> read_events S N U A n (Some ac, h, w) = Some (Inr (Some ac', h', w')) \<and> todo w' = [] \<and>
      log w' = log w @ deliveries view (ac_replies ac) reps \<and> ac_replies ac' = drop (length reps) (ac_replies ac) @ new \<and> steady ac'"
proof (induction "length (todo w)" arbitrary: ac h w reps rule: less_induct)
  case less
  show ?case
  proof (cases "todo w = []")
    case True
    then have "reps = []" using less.prems(3) by (cases reps) (auto simp: expecting_def)
    then show ?thesis using True less.prems(1) by (intro exI [of _ 0]) simp
  next
    case False
    obtain w1 where w1: "length (todo w1) < length (todo w)" "log w1 = log w"
        "processed A view log todo ac w1 reps (todo w1) (redisAsyncHandleRead S N U A (ac, h, w))"
      by (rule read_event [OF A U S less.prems(1-3) False less.prems(4-6)])
    obtain ac2 h2 w2 reps1 reps2 new where P: "redisAsyncHandleRead S N U A (ac, h, w) = Some (Inr (Some ac2, h2, w2))" "reps = reps1 @ reps2"
        "steady ac2" "ev_addRead ac2 = ev_addRead ac" "ac_replies ac2 = drop (length reps1) (ac_replies ac) @ new"
        "log w2 = log w @ deliveries view (ac_replies ac) reps1" "todo w2 = todo w1" "expecting A (ac_c ac2) h2 reps2 (todo w1)"
      using w1(2,3) unfolding processed_def by metis
    have q: "quiet_hook ac2 log todo" using less.prems(2) P(4) by (simp add: quiet_hook_def)
    have bounds: "\<forall>rep\<in>set reps2. wf_at 0 rep" "length reps2 \<le> length (ac_replies ac2)" "int (1024 + length (encodes reps2)) < sds_limit"
      using less.prems(4-6) P(2,5) by auto
    have shorter: "length (todo w2) < length (todo w)" using w1(1) P(7) by simp
    have ex: "expecting A (ac_c ac2) h2 reps2 (todo w2)" using P(7,8) by simp
    obtain n ac' h' w' new' where R: "n \<le> length (todo w2)" "read_events S N U A n (Some ac2, h2, w2) = Some (Inr (Some ac', h', w'))" "todo w' = []"
        "log w' = log w2 @ deliveries view (ac_replies ac2) reps2" "ac_replies ac' = drop (length reps2) (ac_replies ac2) @ new'" "steady ac'"
      using less.hyps [OF shorter P(3) q ex bounds] by blast
    have l: "length reps1 + length reps2 \<le> length (ac_replies ac)" using less.prems(5) P(2) by simp
    have "deliveries view (ac_replies ac) (reps1 @ reps2) = deliveries view (ac_replies ac) reps1 @ deliveries view (ac_replies ac2) reps2"
      using deliveries_append [of "take (length reps1) (ac_replies ac)" reps1 view "drop (length reps1) (ac_replies ac)" reps2]
        deliveries_take [of reps1 "take (length reps1) (ac_replies ac)" view "drop (length reps1) (ac_replies ac)"]
        deliveries_take [of reps2 "drop (length reps1) (ac_replies ac)" view new] l P(5) by simp
    moreover have "drop (length reps2) (ac_replies ac2) = drop (length reps) (ac_replies ac) @ new" using l P(2,5) by (simp add: add.commute)
    ultimately show ?thesis
      using read_events_add [OF P(1) R(2)] R(1,3-6) P(2,6) shorter
      by (intro exI [of _ "Suc n"] exI [of _ ac'] exI [of _ h'] exI [of _ w'] exI [of _ "new @ new'"]) simp
  qed
qed

section \<open>Theorems\<close>

text \<open>
  C11. Replies reach their callbacks in order: when a connected client has sent commands whose
  callbacks wait in its queue, and the encodings of the replies arrive cut in any way into read events,
  then after at most as many events as there are bytes every reply has been given, in order, to the
  callback at its place in the queue, exactly once; callbacks that were not yet answered, and those the
  callbacks added by sending commands, remain queued in their order. A callback gets its
  reply only when it is complete.
\<close>

theorem replies_in_order:
  assumes "\<forall>k. can_alloc A k" "observes U view log todo" "delivers S log todo" "steady ac" "quiet_hook ac log todo"
    "c_reader (ac_c ac) = Some r" "reader_idle r" "r_fn r = Some (defaultFunctions A)" "unread r = []" "r_pos r < 1024"
    "todo w = encodes reps" "\<forall>rep\<in>set reps. wf_at 0 rep" "length reps \<le> length (ac_replies ac)" "int (1024 + length (encodes reps)) < sds_limit"
  shows "\<exists>n ac' h' w' new. n \<le> length (todo w) \<and> read_events S N U A n (Some ac, h, w) = Some (Inr (Some ac', h', w')) \<and> todo w' = [] \<and>
    log w' = log w @ deliveries view (ac_replies ac) reps \<and> ac_replies ac' = drop (length reps) (ac_replies ac) @ new \<and> steady ac'"
proof -
  have rcv: "int (received r + length (todo w)) < sds_limit" using received_idle [OF assms(7,10)] assms(9,11,14) by simp
  have "expecting A (ac_c ac) h reps (todo w)"
  proof (cases reps)
    case Nil
    then show ?thesis using assms(6,11) rcv by (simp add: expecting_def)
  next
    case (Cons rep reps')
    then have "unread r @ todo w = encode rep @ encodes reps'" "wf_at 0 rep" "int (length (encode rep @ encodes reps')) < 2 ^ 31"
      using assms(9,11,12,14) by simp_all
    from pending_built [OF assms(1,7,8) this(1,3,2)] show ?thesis
      using assms(6,11) rcv Cons by (auto simp: expecting_def)
  qed
  from read_all [OF assms(1-5) this assms(12-14)] show ?thesis .
qed

text \<open>A socket that gives three bytes at a time, and a program that records the types of its replies.\<close>

definition slow_socket :: "((nat \<times> nat \<times> int) list \<times> bytes) system" where
  "slow_socket =
     \<lparr>sys_read = (\<lambda>fd n (l, t). (Inr (take (min 3 (nat n)) t), l, drop (min 3 (nat n)) t)), sys_write = (\<lambda>fd out w. (Inr (int (length out)), w)),
      sys_close = (\<lambda>fd w. w), sys_strerror = (\<lambda>e. [])\<rparr>"

definition recorder :: "((nat \<times> nat \<times> int) list \<times> bytes) user" where
  "recorder =
     \<lparr>u_callback = (\<lambda>fn (ac, h, l, t) a pd. bindR (get_obj h a) (\<lambda>x. Inr (ac, h, l @ [(fn, pd, rp_type x)], t))),
      u_connect = (\<lambda>fn st status. Inr st), u_disconnect = (\<lambda>fn st status. Inr st)\<rparr>"

fun kind :: "reply \<Rightarrow> int" where
  "kind (Status _) = REDIS_REPLY_STATUS"
| "kind (Error _) = REDIS_REPLY_ERROR"
| "kind (Integer _) = REDIS_REPLY_INTEGER"
| "kind (Bulk _) = REDIS_REPLY_STRING"
| "kind reply.Nil = REDIS_REPLY_NIL"
| "kind (Array _) = REDIS_REPLY_ARRAY"

lemma recorder_observes: "observes recorder kind fst snd"
  unfolding observes_def
proof (intro allI impI)
  fix fn :: nat and ac :: "((nat \<times> nat \<times> int) list \<times> bytes) redisAsyncContext" and h w a pd v
  assume "rep_at h a v"
  then obtain x where "get_obj h a = Inr x" "rp_type x = kind v"
    by (cases v) (auto simp: obj_defs split: sum.splits)
  then show "\<exists>ac' new w'. u_callback recorder fn (ac, h, w) a pd = Inr (ac', h, w') \<and> ac_replies ac' = ac_replies ac @ new \<and>
       c_reader (ac_c ac') = c_reader (ac_c ac) \<and> c_flags (ac_c ac') = c_flags (ac_c ac) \<and> c_err (ac_c ac') = c_err (ac_c ac) \<and>
       ev_addRead ac' = ev_addRead ac \<and> fst w' = fst w @ [(fn, pd, kind v)] \<and> snd w' = snd w"
    by (cases w) (simp add: recorder_def)
qed

lemma slow_socket_delivers: "delivers slow_socket fst snd"
  unfolding delivers_def slow_socket_def
  by (auto simp: Suc_le_eq min_def intro!: exI [of _ "min (min 3 (nat _)) (length _)"])

definition waiting_client :: "redisCallback list \<Rightarrow> ((nat \<times> nat \<times> int) list \<times> bytes) redisAsyncContext" where
  "waiting_client cbs =
     \<lparr>ac_c = (out_context [])\<lparr>c_flags := REDIS_CONNECTED, c_reader := Some (reader_on [])\<rparr>, ac_err = 0, ac_errstr = True, ac_data = 0,
      ev_data = 0, ev_addRead = None, ev_delRead = None, ev_addWrite = None, ev_delWrite = None, ev_cleanup = None,
      ac_onDisconnect = 0, ac_onConnect = 0, ac_replies = cbs, ac_invalid = [], ac_channels = None, ac_patterns = None\<rparr>"

abbreviation (input) callback :: "nat \<Rightarrow> nat \<Rightarrow> redisCallback" where
  "callback fn pd \<equiv> \<lparr>cb_next = 0, cb_fn = fn, cb_privdata = pd\<rparr>"

theorem replies_in_order_witness:
  "\<forall>N. \<exists>n ac' h' w'. read_events slow_socket N recorder libc n
      (Some (waiting_client [callback 1 10, callback 0 0, callback 2 20, callback 1 30]), [], ([], ''+OK'' @ CRLF @ ''$-1'' @ CRLF @ '':7'' @ CRLF)) =
        Some (Inr (Some ac', h', w')) \<and>
      fst w' = [(1, 10, REDIS_REPLY_STATUS), (2, 20, REDIS_REPLY_INTEGER)]"
proof
  fix N
  let ?reps = "[Status ''OK'', reply.Nil, Integer 7]" and ?cbs = "[callback 1 10, callback 0 0, callback 2 20, callback 1 30]"
  have d: "decimal_int 7 = ''7''" by code_simp
  then have t: "''+OK'' @ CRLF @ ''$-1'' @ CRLF @ '':7'' @ CRLF = encodes ?reps" by simp
  have s: "steady (waiting_client ?cbs)" by (simp add: steady_def has_flag_def waiting_client_def out_context_def)
  have q: "quiet_hook (waiting_client ?cbs) fst snd" by (simp add: quiet_hook_def waiting_client_def)
  have r: "c_reader (ac_c (waiting_client ?cbs)) = Some (reader_on [])" "r_pos (reader_on []) < 1024"
    by (simp_all add: waiting_client_def reader_on_def)
  have u: "reader_idle (reader_on [])" "r_fn (reader_on []) = Some (defaultFunctions libc)" "unread (reader_on []) = []"
    using reader_on [of "[]"] by simp_all
  have len: "length ?reps \<le> length (ac_replies (waiting_client ?cbs))" by (simp add: waiting_client_def)
  have A: "\<forall>k. can_alloc libc k" "snd ([] :: (nat \<times> nat \<times> int) list, encodes ?reps) = encodes ?reps"
      "\<forall>rep\<in>set ?reps. wf_at 0 rep" "int (1024 + length (encodes ?reps)) < sds_limit" by (simp_all add: d)
  show "\<exists>n ac' h' w'. read_events slow_socket N recorder libc n
      (Some (waiting_client ?cbs), [], ([], ''+OK'' @ CRLF @ ''$-1'' @ CRLF @ '':7'' @ CRLF)) = Some (Inr (Some ac', h', w')) \<and>
      fst w' = [(1, 10, REDIS_REPLY_STATUS), (2, 20, REDIS_REPLY_INTEGER)]"
    unfolding t
    apply (insert replies_in_order [OF A(1) recorder_observes slow_socket_delivers s q r(1) u r(2) A(2,3) len A(4), of N "[]"])
    apply (elim exE conjE)
    subgoal for n ac' h' w' new
      by (intro exI [of _ n] exI [of _ ac'] exI [of _ h'] exI [of _ w'] conjI) (assumption, simp add: waiting_client_def)
    done
qed

end
