(* ===== verification/Generators.thy ===== *)
theory Generators
  imports NvmDb SdsText "HOL-Library.Word"
begin

unbundle bit_operations_syntax

text \<open>
  The number generators of the benchmark, \<^verbatim>\<open>core/*_generator.h\<close>, with the helpers of \<^verbatim>\<open>core/utils.h\<close> and
  the properties of \<^verbatim>\<open>core/properties.h\<close>. Floating-point arithmetic and the random engines of the C++
  library are parameters; 64-bit integers are words. Each \<^verbatim>\<open>Next\<close> holds a lock or is atomic, so it is one
  step.
\<close>

section \<open>Utilities\<close>

definition kFNVOffsetBasis64 :: "64 word" where "kFNVOffsetBasis64 = 0xCBF29CE484222325"
definition kFNVPrime64 :: "64 word" where "kFNVPrime64 = 1099511628211"

fun fnv_loop :: "nat \<Rightarrow> 64 word \<Rightarrow> 64 word \<Rightarrow> 64 word" where
  "fnv_loop 0 val hash = hash"
| "fnv_loop (Suc n) val hash =
     (let octet = val AND 0xff; val = drop_bit 8 val; hash = hash XOR octet in fnv_loop n val (hash * kFNVPrime64))"

definition FNVHash64 :: "64 word \<Rightarrow> 64 word" where
  "FNVHash64 val = fnv_loop 8 val kFNVOffsetBasis64"

definition StrToBool :: "string \<Rightarrow> exn + bool" where
  "StrToBool str =
     (let str = map tolower str in
      if str = ''true'' \<or> str = ''1'' then Inr True
      else if str = ''false'' \<or> str = ''0'' then Inr False
      else Inl (UtilsException (''Invalid bool string: '' @ str)))"

definition Trim :: "string \<Rightarrow> string" where
  "Trim str = rev (dropWhile isspace (rev (dropWhile isspace str)))"

section \<open>Properties\<close>

type_synonym properties = "(string \<times> string) list"

definition GetProperty :: "properties \<Rightarrow> string \<Rightarrow> string \<Rightarrow> string" where
  "GetProperty p k default_value = (case map_of p k of None \<Rightarrow> default_value | Some v \<Rightarrow> v)"

text \<open>\<^verbatim>\<open>operator[]\<close>, which is \<^verbatim>\<open>at\<close>.\<close>

definition property_at :: "properties \<Rightarrow> string \<Rightarrow> exn + string" where
  "property_at p k = (case map_of p k of None \<Rightarrow> Inl OutOfRange | Some v \<Rightarrow> Inr v)"

definition SetProperty :: "properties \<Rightarrow> string \<Rightarrow> string \<Rightarrow> properties" where
  "SetProperty p k v = map_put k v p"

text \<open>One line: comments and lines without an equals sign are skipped.\<close>

definition load_line :: "properties \<Rightarrow> string \<Rightarrow> properties" where
  "load_line p line =
     (if line \<noteq> [] \<and> hd line = CHR ''#'' then p
      else if CHR ''='' \<notin> set line then p
      else SetProperty p (Trim (takeWhile ((\<noteq>) (CHR ''='')) line)) (Trim (tl (dropWhile ((\<noteq>) (CHR ''='')) line))))"

text \<open>The lines as \<^verbatim>\<open>getline\<close> gives them; \<open>None\<close> is a file that is not open. A stream that breaks in the middle ends
  the loop like the end of the file.\<close>

definition Load :: "properties \<Rightarrow> string list option \<Rightarrow> exn + properties" where
  "Load p input =
     (case input of None \<Rightarrow> Inl (UtilsException ''File not open!'') | Some lines \<Rightarrow> Inr (foldl load_line p lines))"

section \<open>The C++ library\<close>

text \<open>Floating-point numbers \<open>'d\<close> with their conversions, the state \<open>'g\<close> of the global engines, the state \<open>'m\<close> of
  a \<^verbatim>\<open>std::mt19937_64\<close>. \<open>fp_lit n k\<close> is the literal \<open>n\<close> with \<open>k\<close> decimals.\<close>

record ('d, 'g, 'm) lib =
  fp_of :: "int \<Rightarrow> 'd"
  fp_lit :: "nat \<Rightarrow> nat \<Rightarrow> 'd"
  fp_add :: "'d \<Rightarrow> 'd \<Rightarrow> 'd"
  fp_sub :: "'d \<Rightarrow> 'd \<Rightarrow> 'd"
  fp_mul :: "'d \<Rightarrow> 'd \<Rightarrow> 'd"
  fp_div :: "'d \<Rightarrow> 'd \<Rightarrow> 'd"
  fp_pow :: "'d \<Rightarrow> 'd \<Rightarrow> 'd"
  fp_less :: "'d \<Rightarrow> 'd \<Rightarrow> bool"
  fp_uint64 :: "'d \<Rightarrow> 64 word"
  fp_int :: "'d \<Rightarrow> int"
  fp_stod :: "string \<Rightarrow> exn + 'd"
  rnd_double :: "'g \<Rightarrow> 'd \<times> 'g"
  rnd_rand :: "'g \<Rightarrow> int \<times> 'g"
  mt_seed :: 'm
  mt_uniform :: "64 word \<Rightarrow> 64 word \<Rightarrow> 'm \<Rightarrow> 64 word \<times> 'm"

text \<open>The documented law of \<^verbatim>\<open>std::uniform_int_distribution\<close>.\<close>

definition uniform_law :: "('d, 'g, 'm) lib \<Rightarrow> bool" where
  "uniform_law L \<longleftrightarrow> (\<forall>lo hi m. lo \<le> hi \<longrightarrow> lo \<le> fst (mt_uniform L lo hi m) \<and> fst (mt_uniform L lo hi m) \<le> hi)"

definition RandomPrintChar :: "('d, 'g, 'm) lib \<Rightarrow> 'g \<Rightarrow> char \<times> 'g" where
  "RandomPrintChar L g = (let (r, g) = rnd_rand L g in (char_of (nat (r mod 94 + 33)), g))"

section \<open>Zipfian numbers\<close>

record 'd ZipfianGenerator =
  zg_num_items :: "64 word"
  zg_base :: "64 word"
  zg_theta :: 'd
  zg_zeta_n :: 'd
  zg_eta :: 'd
  zg_alpha :: 'd
  zg_zeta_2 :: 'd
  zg_n_for_zeta :: "64 word"
  zg_last_value :: "64 word"

definition kMaxNumItems :: "64 word" where
  "kMaxNumItems = drop_bit 24 (- 1)"

text \<open>The loop of \<^verbatim>\<open>Zeta\<close>; its bound is below \<^verbatim>\<open>kMaxNumItems\<close>, so the index does not wrap.\<close>

definition Zeta :: "('d, 'g, 'm) lib \<Rightarrow> 64 word \<Rightarrow> 64 word \<Rightarrow> 'd \<Rightarrow> 'd \<Rightarrow> 'd" where
  "Zeta L last_num cur_num theta last_zeta =
     foldl (\<lambda>zeta i. fp_add L zeta (fp_div L (fp_of L 1) (fp_pow L (fp_of L (int i)) theta))) last_zeta [Suc (unat last_num)..<Suc (unat cur_num)]"

definition RaiseZeta :: "('d, 'g, 'm) lib \<Rightarrow> 'd ZipfianGenerator \<Rightarrow> 64 word \<Rightarrow> 'd ZipfianGenerator res" where
  "RaiseZeta L z num =
     bindR (assertR (num \<ge> zg_n_for_zeta z)) (\<lambda>_.
     Inr (z\<lparr>zg_zeta_n := Zeta L (zg_n_for_zeta z) num (zg_theta z) (zg_zeta_n z), zg_n_for_zeta := num\<rparr>))"

definition Eta :: "('d, 'g, 'm) lib \<Rightarrow> 'd ZipfianGenerator \<Rightarrow> 'd" where
  "Eta L z =
     fp_div L (fp_sub L (fp_of L 1) (fp_pow L (fp_div L (fp_of L 2) (fp_of L (uint (zg_num_items z)))) (fp_sub L (fp_of L 1) (zg_theta z))))
              (fp_sub L (fp_of L 1) (fp_div L (zg_zeta_2 z) (zg_zeta_n z)))"

definition Zipfian_Next :: "('d, 'g, 'm) lib \<Rightarrow> 'd ZipfianGenerator \<Rightarrow> 64 word \<Rightarrow> 'g \<Rightarrow> (64 word \<times> 'd ZipfianGenerator \<times> 'g) res" where
  "Zipfian_Next L z num g =
     bindR (assertR (num \<ge> 2 \<and> num < kMaxNumItems)) (\<lambda>_.
     bindR (if num > zg_n_for_zeta z then bindR (RaiseZeta L z num) (\<lambda>z. Inr (z\<lparr>zg_eta := Eta L z\<rparr>)) else Inr z) (\<lambda>z.
     let (u, g) = rnd_double L g;
         uz = fp_mul L u (zg_zeta_n z);
         value = (if fp_less L uz (fp_of L 1) then 0
                  else if fp_less L uz (fp_add L (fp_of L 1) (fp_pow L (fp_lit L 5 1) (zg_theta z))) then 1
                  else fp_uint64 L (fp_add L (fp_of L (uint (zg_base z))) (fp_mul L (fp_of L (uint num))
                         (fp_pow L (fp_add L (fp_sub L (fp_mul L (zg_eta z) u) (zg_eta z)) (fp_of L 1)) (zg_alpha z)))))
     in Inr (value, z\<lparr>zg_last_value := value\<rparr>, g)))"

text \<open>The constructor; the fields that are set later in it start with what the memory held, here 0.\<close>

definition ZipfianGenerator_ctor :: "('d, 'g, 'm) lib \<Rightarrow> 64 word \<Rightarrow> 64 word \<Rightarrow> 'd \<Rightarrow> 'g \<Rightarrow> ('d ZipfianGenerator \<times> 'g) res" where
  "ZipfianGenerator_ctor L lo hi zipfian_const g =
     (let n = hi - lo + 1 in
      bindR (assertR (n \<ge> 2 \<and> n < kMaxNumItems)) (\<lambda>_.
      let z = \<lparr>zg_num_items = n, zg_base = lo, zg_theta = zipfian_const, zg_zeta_n = fp_of L 0, zg_eta = fp_of L 0,
               zg_alpha = fp_div L (fp_of L 1) (fp_sub L (fp_of L 1) zipfian_const), zg_zeta_2 = Zeta L 0 2 zipfian_const (fp_of L 0),
               zg_n_for_zeta = 0, zg_last_value = 0\<rparr> in
      bindR (RaiseZeta L z n) (\<lambda>z.
      bindR (Zipfian_Next L (z\<lparr>zg_eta := Eta L z\<rparr>) n g) (\<lambda>(_, z, g). Inr (z, g)))))"

definition kZipfianConst :: "('d, 'g, 'm) lib \<Rightarrow> 'd" where
  "kZipfianConst L = fp_lit L 99 2"

definition Scramble :: "64 word \<Rightarrow> 64 word \<Rightarrow> 64 word \<Rightarrow> 64 word" where
  "Scramble lo n v = lo + FNVHash64 v mod n"

section \<open>Generators\<close>

text \<open>The classes behind \<^verbatim>\<open>Generator<uint64_t>\<close>. The last value is a field where the class keeps one. A skewed generator
  refers to a counter, whose value is an argument of its operations.\<close>

datatype ('d, 'm) generator =
    ConstGenerator "64 word"
  | CounterGenerator "64 word"
  | UniformGenerator "64 word" "64 word" 'm "64 word"
  | Zipfian "'d ZipfianGenerator"
  | ScrambledZipfianGenerator "64 word" "64 word" "'d ZipfianGenerator"
  | SkewedLatestGenerator "'d ZipfianGenerator" "64 word"

definition counter_Last :: "64 word \<Rightarrow> 64 word" where
  "counter_Last counter = counter - 1"

fun generator_Next :: "('d, 'g, 'm) lib \<Rightarrow> 64 word \<Rightarrow> ('d, 'm) generator \<Rightarrow> 'g \<Rightarrow> (64 word \<times> ('d, 'm) generator \<times> 'g) res" where
  "generator_Next L basis (ConstGenerator c) g = Inr (c, ConstGenerator c, g)"
| "generator_Next L basis (CounterGenerator n) g = Inr (n, CounterGenerator (n + 1), g)"
| "generator_Next L basis (UniformGenerator lo hi m _) g = (let (v, m) = mt_uniform L lo hi m in Inr (v, UniformGenerator lo hi m v, g))"
| "generator_Next L basis (Zipfian z) g = bindR (Zipfian_Next L z (zg_num_items z) g) (\<lambda>(v, z, g). Inr (v, Zipfian z, g))"
| "generator_Next L basis (ScrambledZipfianGenerator lo n z) g =
     bindR (Zipfian_Next L z (zg_num_items z) g) (\<lambda>(v, z, g). Inr (Scramble lo n v, ScrambledZipfianGenerator lo n z, g))"
| "generator_Next L basis (SkewedLatestGenerator z _) g =
     (let max = counter_Last basis in
      bindR (Zipfian_Next L z max g) (\<lambda>(v, z, g). Inr (max - v, SkewedLatestGenerator z (max - v), g)))"

fun generator_Last :: "('d, 'm) generator \<Rightarrow> 64 word" where
  "generator_Last (ConstGenerator c) = c"
| "generator_Last (CounterGenerator n) = counter_Last n"
| "generator_Last (UniformGenerator _ _ _ v) = v"
| "generator_Last (Zipfian z) = zg_last_value z"
| "generator_Last (ScrambledZipfianGenerator lo n z) = Scramble lo n (zg_last_value z)"
| "generator_Last (SkewedLatestGenerator _ v) = v"

definition new_ConstGenerator :: "int \<Rightarrow> ('d, 'm) generator" where
  "new_ConstGenerator constant = ConstGenerator (word_of_int constant)"

definition new_UniformGenerator :: "('d, 'g, 'm) lib \<Rightarrow> 64 word \<Rightarrow> 64 word \<Rightarrow> ('d, 'm) generator" where
  "new_UniformGenerator L lo hi = (let (v, m) = mt_uniform L lo hi (mt_seed L) in UniformGenerator lo hi m v)"

definition new_ZipfianGenerator where
  "new_ZipfianGenerator L lo hi g = bindR (ZipfianGenerator_ctor L lo hi (kZipfianConst L) g) (\<lambda>(z, g). Inr (Zipfian z, g))"

definition new_ScrambledZipfianGenerator where
  "new_ScrambledZipfianGenerator L num_items g =
     (let lo = 0; hi = num_items - 1 in
      bindR (ZipfianGenerator_ctor L lo hi (kZipfianConst L) g) (\<lambda>(z, g). Inr (ScrambledZipfianGenerator lo (hi - lo + 1) z, g)))"

text \<open>The Zipfian part is made for the items \<open>0\<close> to the last value of the counter less one.\<close>

definition new_SkewedLatestGenerator where
  "new_SkewedLatestGenerator L basis g =
     bindR (ZipfianGenerator_ctor L 0 (counter_Last basis - 1) (kZipfianConst L) g) (\<lambda>(z, g).
     bindR (generator_Next L basis (SkewedLatestGenerator z 0) g) (\<lambda>(_, gen, g). Inr (gen, g)))"

section \<open>Weighted choices\<close>

record ('d, 'v) DiscreteGenerator =
  dg_values :: "('v \<times> 'd) list"
  dg_sum :: 'd
  dg_last :: "'v option"

definition DiscreteGenerator_ctor :: "('d, 'g, 'm) lib \<Rightarrow> ('d, 'v) DiscreteGenerator" where
  "DiscreteGenerator_ctor L = \<lparr>dg_values = [], dg_sum = fp_of L 0, dg_last = None\<rparr>"

definition AddValue :: "('d, 'g, 'm) lib \<Rightarrow> ('d, 'v) DiscreteGenerator \<Rightarrow> 'v \<Rightarrow> 'd \<Rightarrow> ('d, 'v) DiscreteGenerator" where
  "AddValue L d value weight =
     (let d = (if dg_values d = [] then d\<lparr>dg_last := Some value\<rparr> else d) in
      d\<lparr>dg_values := dg_values d @ [(value, weight)], dg_sum := fp_add L (dg_sum d) weight\<rparr>)"

fun pick :: "('d, 'g, 'm) lib \<Rightarrow> 'd \<Rightarrow> ('v \<times> 'd) list \<Rightarrow> 'd \<Rightarrow> 'v option" where
  "pick L wsum [] chooser = None"
| "pick L wsum ((v, weight) # ps) chooser =
     (if fp_less L chooser (fp_div L weight wsum) then Some v else pick L wsum ps (fp_sub L chooser (fp_div L weight wsum)))"

definition Discrete_Next :: "('d, 'g, 'm) lib \<Rightarrow> ('d, 'v) DiscreteGenerator \<Rightarrow> 'g \<Rightarrow> ('v \<times> ('d, 'v) DiscreteGenerator \<times> 'g) res" where
  "Discrete_Next L d g =
     (let (chooser, g) = rnd_double L g in
      case pick L (dg_sum d) (dg_values d) chooser of
        None \<Rightarrow> Inl AssertFailed
      | Some v \<Rightarrow> Inr (v, d\<lparr>dg_last := Some v\<rparr>, g))"

end
