(* ===== verification/Workload.thy ===== *)
theory Workload
  imports Generators
begin

text \<open>
  The core workload, \<^verbatim>\<open>core/core_workload.h\<close> and \<^verbatim>\<open>core/core_workload.cc\<close>, and the client that runs it
  against a database, \<^verbatim>\<open>core/client.h\<close>. The database is reached through virtual calls: its operations
  are an argument. Choosing the key of a transaction repeats until a key is found, so it is a partial
  function.
\<close>

section \<open>The workload\<close>

datatype Operation = INSERT | READ | UPDATE | SCAN | READMODIFYWRITE

text \<open>A generator pointer may be NULL; the counter of inserted keys is its value.\<close>

record ('d, 'm) CoreWorkload =
  wl_table_name :: string
  wl_field_count :: int
  wl_read_all_fields :: bool
  wl_write_all_fields :: bool
  wl_field_len_generator :: "('d, 'm) generator option"
  wl_key_generator :: "('d, 'm) generator option"
  wl_op_chooser :: "('d, Operation) DiscreteGenerator"
  wl_key_chooser :: "('d, 'm) generator option"
  wl_field_chooser :: "('d, 'm) generator option"
  wl_scan_len_chooser :: "('d, 'm) generator option"
  wl_insert_key_sequence :: "64 word"
  wl_ordered_inserts :: bool
  wl_record_count :: "64 word"

definition CoreWorkload_ctor :: "('d, 'g, 'm) lib \<Rightarrow> ('d, 'm) CoreWorkload" where
  "CoreWorkload_ctor L =
     \<lparr>wl_table_name = '''', wl_field_count = 0, wl_read_all_fields = False, wl_write_all_fields = False,
      wl_field_len_generator = None, wl_key_generator = None, wl_op_chooser = DiscreteGenerator_ctor L, wl_key_chooser = None,
      wl_field_chooser = None, wl_scan_len_chooser = None, wl_insert_key_sequence = 3, wl_ordered_inserts = True, wl_record_count = 0\<rparr>"

definition GetFieldLenGenerator :: "('d, 'g, 'm) lib \<Rightarrow> properties \<Rightarrow> 'g \<Rightarrow> err + ('d, 'm) generator \<times> 'g" where
  "GetFieldLenGenerator L p g =
     (let field_len_dist = GetProperty p ''field_len_dist'' ''constant'' in
      bindR (throws (stoi (GetProperty p ''fieldlength'' ''100''))) (\<lambda>field_len.
      if field_len_dist = ''constant'' then Inr (new_ConstGenerator field_len, g)
      else if field_len_dist = ''uniform'' then Inr (new_UniformGenerator L 1 (word_of_int field_len), g)
      else if field_len_dist = ''zipfian'' then lift (new_ZipfianGenerator L 1 (word_of_int field_len) g)
      else Inl (Exn (UtilsException (''Unknown field length distribution: '' @ field_len_dist)))))"

text \<open>The chooser of operations gets those of positive proportion, in this order.\<close>

definition add_proportions :: "('d, 'g, 'm) lib \<Rightarrow> ('d, Operation) DiscreteGenerator \<Rightarrow> (Operation \<times> 'd) list \<Rightarrow> ('d, Operation) DiscreteGenerator" where
  "add_proportions L = foldl (\<lambda>d (op, p). if fp_less L (fp_of L 0) p then AddValue L d op p else d)"

definition new_key_chooser :: "('d, 'g, 'm) lib \<Rightarrow> properties \<Rightarrow> string \<Rightarrow> 64 word \<Rightarrow> 64 word \<Rightarrow> 'd \<Rightarrow> 'g \<Rightarrow> err + ('d, 'm) generator \<times> 'g" where
  "new_key_chooser L p request_dist record_count sequence insert_proportion g =
     (if request_dist = ''uniform'' then Inr (new_UniformGenerator L 0 (record_count - 1), g)
      else if request_dist = ''zipfian'' then
        bindR (throws (stoi (GetProperty p ''operationcount'' ''''))) (\<lambda>op_count.
        let new_keys = fp_int L (fp_mul L (fp_mul L (fp_of L op_count) insert_proportion) (fp_of L 2)) in
        lift (new_ScrambledZipfianGenerator L (record_count + word_of_int new_keys) g))
      else if request_dist = ''latest'' then lift (new_SkewedLatestGenerator L sequence g)
      else Inl (Exn (UtilsException (''Unknown request distribution: '' @ request_dist))))"

definition new_scan_len_chooser :: "('d, 'g, 'm) lib \<Rightarrow> string \<Rightarrow> int \<Rightarrow> 'g \<Rightarrow> err + ('d, 'm) generator \<times> 'g" where
  "new_scan_len_chooser L scan_len_dist max_scan_len g =
     (if scan_len_dist = ''uniform'' then Inr (new_UniformGenerator L 1 (word_of_int max_scan_len), g)
      else if scan_len_dist = ''zipfian'' then lift (new_ZipfianGenerator L 1 (word_of_int max_scan_len) g)
      else Inl (Exn (UtilsException (''Distribution not allowed for scan length: '' @ scan_len_dist))))"

text \<open>\<^verbatim>\<open>Init\<close>, in the order of its statements: what it reads and throws first, then what it builds.\<close>

definition Init :: "('d, 'g, 'm) lib \<Rightarrow> ('d, 'm) CoreWorkload \<Rightarrow> properties \<Rightarrow> 'g \<Rightarrow> err + ('d, 'm) CoreWorkload \<times> 'g" where
  "Init L wl p g =
     (let stod = (\<lambda>name default. throws (fp_stod L (GetProperty p name default))) in
      bindR (throws (stoi (GetProperty p ''fieldcount'' ''10''))) (\<lambda>field_count.
      bindR (GetFieldLenGenerator L p g) (\<lambda>(field_len_generator, g).
      bindR (stod ''readproportion'' ''0.95'') (\<lambda>read_proportion.
      bindR (stod ''updateproportion'' ''0.05'') (\<lambda>update_proportion.
      bindR (stod ''insertproportion'' ''0.0'') (\<lambda>insert_proportion.
      bindR (stod ''scanproportion'' ''0.0'') (\<lambda>scan_proportion.
      bindR (stod ''readmodifywriteproportion'' ''0.0'') (\<lambda>readmodifywrite_proportion.
      bindR (throws (stoi (GetProperty p ''recordcount'' ''''))) (\<lambda>record_count.
      bindR (throws (stoi (GetProperty p ''maxscanlength'' ''1000''))) (\<lambda>max_scan_len.
      bindR (throws (stoi (GetProperty p ''insertstart'' ''0''))) (\<lambda>insert_start.
      bindR (throws (StrToBool (GetProperty p ''readallfields'' ''true''))) (\<lambda>read_all_fields.
      bindR (throws (StrToBool (GetProperty p ''writeallfields'' ''false''))) (\<lambda>write_all_fields.
      let wl = wl\<lparr>wl_table_name := GetProperty p ''table'' ''usertable'', wl_field_count := field_count,
                  wl_field_len_generator := Some field_len_generator, wl_record_count := word_of_int record_count,
                  wl_read_all_fields := read_all_fields, wl_write_all_fields := write_all_fields,
                  wl_ordered_inserts := (GetProperty p ''insertorder'' ''hashed'' \<noteq> ''hashed''),
                  wl_key_generator := Some (CounterGenerator (word_of_int insert_start)),
                  wl_op_chooser := add_proportions L (wl_op_chooser wl)
                    [(READ, read_proportion), (UPDATE, update_proportion), (INSERT, insert_proportion), (SCAN, scan_proportion),
                     (READMODIFYWRITE, readmodifywrite_proportion)],
                  wl_insert_key_sequence := word_of_int record_count\<rparr> in
      bindR (new_key_chooser L p (GetProperty p ''requestdistribution'' ''uniform'') (wl_record_count wl) (wl_insert_key_sequence wl)
               insert_proportion g) (\<lambda>(key_chooser, g).
      let wl = wl\<lparr>wl_key_chooser := Some key_chooser,
                  wl_field_chooser := Some (new_UniformGenerator L 0 (word_of_int field_count - 1))\<rparr> in
      bindR (new_scan_len_chooser L (GetProperty p ''scanlengthdistribution'' ''uniform'') max_scan_len g) (\<lambda>(scan_len_chooser, g).
      Inr (wl\<lparr>wl_scan_len_chooser := Some scan_len_chooser\<rparr>, g))))))))))))))))"

text \<open>\<^verbatim>\<open>gen->Next()\<close> for the generator of a field.\<close>

definition next_of ::
  "('d, 'g, 'm) lib \<Rightarrow> (('d, 'm) CoreWorkload \<Rightarrow> ('d, 'm) generator option) \<Rightarrow>
    (('d, 'm) generator option \<Rightarrow> ('d, 'm) CoreWorkload \<Rightarrow> ('d, 'm) CoreWorkload) \<Rightarrow> ('d, 'm) CoreWorkload \<Rightarrow> 'g \<Rightarrow>
    err + 64 word \<times> ('d, 'm) CoreWorkload \<times> 'g" where
  "next_of L get put wl g =
     bindR (lift (deref (get wl))) (\<lambda>gen.
     bindR (lift (generator_Next L (wl_insert_key_sequence wl) gen g)) (\<lambda>(v, gen, g). Inr (v, put (Some gen) wl, g)))"

abbreviation (input) next_field_len where
  "next_field_len L \<equiv> next_of L wl_field_len_generator (\<lambda>gen. wl_field_len_generator_update (\<lambda>_. gen))"

definition BuildKeyName :: "('d, 'm) CoreWorkload \<Rightarrow> 64 word \<Rightarrow> string" where
  "BuildKeyName wl key_num =
     (let key_num = (if \<not> wl_ordered_inserts wl then FNVHash64 key_num else key_num) in decimal (unat key_num))"

definition NextSequenceKey :: "('d, 'g, 'm) lib \<Rightarrow> ('d, 'm) CoreWorkload \<Rightarrow> 'g \<Rightarrow> err + string \<times> ('d, 'm) CoreWorkload \<times> 'g" where
  "NextSequenceKey L wl g =
     bindR (next_of L wl_key_generator (\<lambda>gen. wl_key_generator_update (\<lambda>_. gen)) wl g) (\<lambda>(key_num, wl, g). Inr (BuildKeyName wl key_num, wl, g))"

partial_function (option) NextTransactionKey ::
  "('d, 'g, 'm) lib \<Rightarrow> ('d, 'm) CoreWorkload \<Rightarrow> 'g \<Rightarrow> (err + string \<times> ('d, 'm) CoreWorkload \<times> 'g) option" where
  "NextTransactionKey L wl g =
     bindO (Some (next_of L wl_key_chooser (\<lambda>gen. wl_key_chooser_update (\<lambda>_. gen)) wl g)) (\<lambda>(key_num, wl, g).
     if key_num > counter_Last (wl_insert_key_sequence wl) then NextTransactionKey L wl g
     else Some (Inr (BuildKeyName wl key_num, wl, g)))"

definition NextFieldName :: "('d, 'g, 'm) lib \<Rightarrow> ('d, 'm) CoreWorkload \<Rightarrow> 'g \<Rightarrow> err + string \<times> ('d, 'm) CoreWorkload \<times> 'g" where
  "NextFieldName L wl g =
     bindR (next_of L wl_field_chooser (\<lambda>gen. wl_field_chooser_update (\<lambda>_. gen)) wl g) (\<lambda>(v, wl, g).
     Inr (''field'' @ decimal (unat v), wl, g))"

definition NextScanLength :: "('d, 'g, 'm) lib \<Rightarrow> ('d, 'm) CoreWorkload \<Rightarrow> 'g \<Rightarrow> err + 64 word \<times> ('d, 'm) CoreWorkload \<times> 'g" where
  "NextScanLength L = next_of L wl_scan_len_chooser (\<lambda>gen. wl_scan_len_chooser_update (\<lambda>_. gen))"

definition NextOperation :: "('d, 'g, 'm) lib \<Rightarrow> ('d, 'm) CoreWorkload \<Rightarrow> 'g \<Rightarrow> err + Operation \<times> ('d, 'm) CoreWorkload \<times> 'g" where
  "NextOperation L wl g =
     bindR (lift (Discrete_Next L (wl_op_chooser wl) g)) (\<lambda>(op, d, g). Inr (op, wl\<lparr>wl_op_chooser := d\<rparr>, g))"

text \<open>A field of the length drawn, filled with one random character.\<close>

definition random_value :: "('d, 'g, 'm) lib \<Rightarrow> ('d, 'm) CoreWorkload \<Rightarrow> 'g \<Rightarrow> err + string \<times> ('d, 'm) CoreWorkload \<times> 'g" where
  "random_value L wl g =
     bindR (next_field_len L wl g) (\<lambda>(n, wl, g). let (c, g) = RandomPrintChar L g in Inr (replicate (unat n) c, wl, g))"

fun build_values :: "('d, 'g, 'm) lib \<Rightarrow> nat \<Rightarrow> nat \<Rightarrow> ('d, 'm) CoreWorkload \<Rightarrow> 'g \<Rightarrow> err + kvpair list \<times> ('d, 'm) CoreWorkload \<times> 'g" where
  "build_values L i 0 wl g = Inr ([], wl, g)"
| "build_values L i (Suc n) wl g =
     bindR (random_value L wl g) (\<lambda>(v, wl, g).
     bindR (build_values L (Suc i) n wl g) (\<lambda>(vs, wl, g). Inr ((''field'' @ decimal i, v) # vs, wl, g)))"

text \<open>\<^verbatim>\<open>for (int i = 0; i < field_count_; ++i)\<close>, appending to an empty vector.\<close>

definition BuildValues :: "('d, 'g, 'm) lib \<Rightarrow> ('d, 'm) CoreWorkload \<Rightarrow> 'g \<Rightarrow> err + kvpair list \<times> ('d, 'm) CoreWorkload \<times> 'g" where
  "BuildValues L wl g = build_values L 0 (nat (wl_field_count wl)) wl g"

definition BuildUpdate :: "('d, 'g, 'm) lib \<Rightarrow> ('d, 'm) CoreWorkload \<Rightarrow> 'g \<Rightarrow> err + kvpair list \<times> ('d, 'm) CoreWorkload \<times> 'g" where
  "BuildUpdate L wl g =
     bindR (NextFieldName L wl g) (\<lambda>(name, wl, g).
     bindR (random_value L wl g) (\<lambda>(v, wl, g). Inr ([(name, v)], wl, g)))"

section \<open>The client\<close>

record 'b db_ops =
  db_Read :: "'b \<Rightarrow> string \<Rightarrow> string \<Rightarrow> string list option \<Rightarrow> kvpair list \<Rightarrow> err + int \<times> kvpair list \<times> 'b"
  db_Scan :: "'b \<Rightarrow> string \<Rightarrow> string \<Rightarrow> int \<Rightarrow> string list option \<Rightarrow> kvpair list list \<Rightarrow> err + int \<times> kvpair list list \<times> 'b"
  db_Update :: "'b \<Rightarrow> string \<Rightarrow> string \<Rightarrow> kvpair list \<Rightarrow> err + int \<times> 'b"
  db_Insert :: "'b \<Rightarrow> string \<Rightarrow> string \<Rightarrow> kvpair list \<Rightarrow> err + int \<times> 'b"
  db_Delete :: "'b \<Rightarrow> string \<Rightarrow> string \<Rightarrow> err + int \<times> 'b"

text \<open>The state of a client: the database, the workload and the engines of the library.\<close>

type_synonym ('d, 'm, 'b, 'g) client = "'b \<times> ('d, 'm) CoreWorkload \<times> 'g"

definition DoInsert :: "('d, 'g, 'm) lib \<Rightarrow> 'b db_ops \<Rightarrow> ('d, 'm, 'b, 'g) client \<Rightarrow> err + bool \<times> ('d, 'm, 'b, 'g) client" where
  "DoInsert L D st =
     (let (db, wl, g) = st in
      bindR (NextSequenceKey L wl g) (\<lambda>(key, wl, g).
      bindR (BuildValues L wl g) (\<lambda>(pairs, wl, g).
      bindR (db_Insert D db (wl_table_name wl) key pairs) (\<lambda>(status, db). Inr (status = kOK, db, wl, g)))))"

text \<open>The fields a read asks for: NULL, or one name, which is prefixed once more.\<close>

definition read_fields :: "('d, 'g, 'm) lib \<Rightarrow> ('d, 'm) CoreWorkload \<Rightarrow> 'g \<Rightarrow> err + string list option \<times> ('d, 'm) CoreWorkload \<times> 'g" where
  "read_fields L wl g =
     (if \<not> wl_read_all_fields wl then bindR (NextFieldName L wl g) (\<lambda>(name, wl, g). Inr (Some [''field'' @ name], wl, g))
      else Inr (None, wl, g))"

text \<open>The values a write sends.\<close>

definition write_values :: "('d, 'g, 'm) lib \<Rightarrow> ('d, 'm) CoreWorkload \<Rightarrow> 'g \<Rightarrow> err + kvpair list \<times> ('d, 'm) CoreWorkload \<times> 'g" where
  "write_values L wl g = (if wl_write_all_fields wl then BuildValues L wl g else BuildUpdate L wl g)"

definition TransactionRead :: "('d, 'g, 'm) lib \<Rightarrow> 'b db_ops \<Rightarrow> ('d, 'm, 'b, 'g) client \<Rightarrow> (err + int \<times> ('d, 'm, 'b, 'g) client) option" where
  "TransactionRead L D st =
     (let (db, wl, g) = st; table = wl_table_name wl in
      bindO (NextTransactionKey L wl g) (\<lambda>(key, wl, g).
      Some (bindR (read_fields L wl g) (\<lambda>(flds, wl, g).
            bindR (db_Read D db table key flds []) (\<lambda>(status, result, db). Inr (status, db, wl, g))))))"

definition TransactionReadModifyWrite ::
  "('d, 'g, 'm) lib \<Rightarrow> 'b db_ops \<Rightarrow> ('d, 'm, 'b, 'g) client \<Rightarrow> (err + int \<times> ('d, 'm, 'b, 'g) client) option" where
  "TransactionReadModifyWrite L D st =
     (let (db, wl, g) = st; table = wl_table_name wl in
      bindO (NextTransactionKey L wl g) (\<lambda>(key, wl, g).
      Some (bindR (read_fields L wl g) (\<lambda>(flds, wl, g).
            bindR (db_Read D db table key flds []) (\<lambda>(_, result, db).
            bindR (write_values L wl g) (\<lambda>(values, wl, g).
            bindR (db_Update D db table key values) (\<lambda>(status, db). Inr (status, db, wl, g))))))))"

text \<open>The length is a \<^verbatim>\<open>size_t\<close> stored into an \<^verbatim>\<open>int\<close>.\<close>

definition TransactionScan :: "('d, 'g, 'm) lib \<Rightarrow> 'b db_ops \<Rightarrow> ('d, 'm, 'b, 'g) client \<Rightarrow> (err + int \<times> ('d, 'm, 'b, 'g) client) option" where
  "TransactionScan L D st =
     (let (db, wl, g) = st; table = wl_table_name wl in
      bindO (NextTransactionKey L wl g) (\<lambda>(key, wl, g).
      Some (bindR (NextScanLength L wl g) (\<lambda>(len, wl, g).
            bindR (read_fields L wl g) (\<lambda>(flds, wl, g).
            bindR (db_Scan D db table key (int32 (uint len)) flds []) (\<lambda>(status, result, db). Inr (status, db, wl, g)))))))"

definition TransactionUpdate :: "('d, 'g, 'm) lib \<Rightarrow> 'b db_ops \<Rightarrow> ('d, 'm, 'b, 'g) client \<Rightarrow> (err + int \<times> ('d, 'm, 'b, 'g) client) option" where
  "TransactionUpdate L D st =
     (let (db, wl, g) = st; table = wl_table_name wl in
      bindO (NextTransactionKey L wl g) (\<lambda>(key, wl, g).
      Some (bindR (write_values L wl g) (\<lambda>(values, wl, g).
            bindR (db_Update D db table key values) (\<lambda>(status, db). Inr (status, db, wl, g))))))"

definition TransactionInsert :: "('d, 'g, 'm) lib \<Rightarrow> 'b db_ops \<Rightarrow> ('d, 'm, 'b, 'g) client \<Rightarrow> err + int \<times> ('d, 'm, 'b, 'g) client" where
  "TransactionInsert L D st =
     (let (db, wl, g) = st; table = wl_table_name wl in
      bindR (NextSequenceKey L wl g) (\<lambda>(key, wl, g).
      bindR (BuildValues L wl g) (\<lambda>(values, wl, g).
      bindR (db_Insert D db table key values) (\<lambda>(status, db). Inr (status, db, wl, g)))))"

definition DoTransaction :: "('d, 'g, 'm) lib \<Rightarrow> 'b db_ops \<Rightarrow> ('d, 'm, 'b, 'g) client \<Rightarrow> (err + bool \<times> ('d, 'm, 'b, 'g) client) option" where
  "DoTransaction L D st =
     (let (db, wl, g) = st in
      bindO (Some (NextOperation L wl g)) (\<lambda>(op, wl, g).
      let st = (db, wl, g) in
      bindO (case op of
               READ \<Rightarrow> TransactionRead L D st
             | UPDATE \<Rightarrow> TransactionUpdate L D st
             | INSERT \<Rightarrow> Some (TransactionInsert L D st)
             | SCAN \<Rightarrow> TransactionScan L D st
             | READMODIFYWRITE \<Rightarrow> TransactionReadModifyWrite L D st) (\<lambda>(status, st).
      Some (bindR (lift (assertR (status \<ge> 0))) (\<lambda>_. Inr (status = kOK, st))))))"

end
