(* ===== verification/Driver.thy ===== *)
theory Driver
  imports Workload
begin

text \<open>
  The driver \<^verbatim>\<open>ycsbc.cc\<close>: its command line, and the function that each thread runs with a client. The
  clock is an argument. The sampling thread only writes statistics and has no part in the result; the
  threads of \<^verbatim>\<open>main2\<close> and their futures are not modelled, one client is.
\<close>

section \<open>The command line\<close>

definition StrStartWith :: "string \<Rightarrow> string \<Rightarrow> bool" where
  "StrStartWith str pre \<longleftrightarrow> take (length pre) str = pre"

text \<open>An exit of the process with its message, or an exception.\<close>

datatype stop = Usage | Message string | Uncaught exn

definition option_name :: "string \<Rightarrow> string option" where
  "option_name arg =
     (if arg = ''-threads'' then Some ''threadcount'' else if arg = ''-db'' then Some ''dbname''
      else if arg = ''-host'' then Some ''host'' else if arg = ''-port'' then Some ''port''
      else if arg = ''-slaves'' then Some ''slaves'' else None)"

text \<open>The arguments from \<^verbatim>\<open>argindex\<close> on, and whether it is still 1; \<open>files\<close> gives the lines of a file that can be opened.
  The handler around \<^verbatim>\<open>Load\<close> catches strings, which \<^verbatim>\<open>Load\<close> does not throw.\<close>

fun parse_args :: "(string \<Rightarrow> string list option) \<Rightarrow> bool \<Rightarrow> string list \<Rightarrow> string \<Rightarrow> properties \<Rightarrow> stop + string \<times> properties" where
  "parse_args files start [] filename props = (if start then Inl Usage else Inr (filename, props))"
| "parse_args files start (arg # args) filename props =
     (if \<not> StrStartWith arg ''-'' then Inl Usage
      else case option_name arg of
        Some name \<Rightarrow> (case args of [] \<Rightarrow> Inl Usage | v # args \<Rightarrow> parse_args files False args filename (SetProperty props name v))
      | None \<Rightarrow>
          if arg = ''-P'' then
            (case args of
               [] \<Rightarrow> Inl Usage
             | f # args \<Rightarrow> (case Load props (files f) of Inl e \<Rightarrow> Inl (Uncaught e) | Inr props \<Rightarrow> parse_args files False args f props))
          else Inl (Message (''Unknown option '' @ [CHR 0x27] @ arg @ [CHR 0x27])))"

definition ParseCommandLine :: "(string \<Rightarrow> string list option) \<Rightarrow> string list \<Rightarrow> properties \<Rightarrow> stop + string \<times> properties" where
  "ParseCommandLine files argv props = parse_args files True (tl argv) '''' props"

section \<open>Databases by name\<close>

datatype database = BasicDB | LockStlDB | TbbRandDB | TbbScanDB | NVMDB_of kNVMDBType

definition CreateDB :: "properties \<Rightarrow> exn + database option" where
  "CreateDB props =
     bindR (property_at props ''dbname'') (\<lambda>name.
     Inr (if name = ''basic'' then Some BasicDB
          else if name = ''lock_stl'' then Some LockStlDB
          else if name = ''tbb_rand'' then Some TbbRandDB
          else if name = ''tbb_scan'' then Some TbbScanDB
          else if name = ''nvmrec'' then Some (NVMDB_of kNVMRec)
          else if name = ''nvmlog'' then Some (NVMDB_of kNVMLog)
          else if name = ''nvmblk'' then Some (NVMDB_of kNVMBlk)
          else None))"

section \<open>A client's thread\<close>

text \<open>\<^verbatim>\<open>oks += client.DoInsert()\<close>, \<open>n\<close> times.\<close>

fun load_loop :: "('d, 'g, 'm) lib \<Rightarrow> 'b db_ops \<Rightarrow> nat \<Rightarrow> int \<Rightarrow> ('d, 'm, 'b, 'g) client \<Rightarrow> err + int \<times> ('d, 'm, 'b, 'g) client" where
  "load_loop L D 0 oks st = Inr (oks, st)"
| "load_loop L D (Suc n) oks st = bindR (DoInsert L D st) (\<lambda>(ok, st). load_loop L D n (oks + of_bool ok) st)"

fun transaction_loop ::
  "('d, 'g, 'm) lib \<Rightarrow> 'b db_ops \<Rightarrow> nat \<Rightarrow> int \<Rightarrow> ('d, 'm, 'b, 'g) client \<Rightarrow> (err + int \<times> ('d, 'm, 'b, 'g) client) option" where
  "transaction_loop L D 0 oks st = Some (Inr (oks, st))"
| "transaction_loop L D (Suc n) oks st = bindO (DoTransaction L D st) (\<lambda>(ok, st). transaction_loop L D n (oks + of_bool ok) st)"

text \<open>The timed loop: transactions until more than \<open>exec_time\<close> whole seconds have passed since \<open>before\<close>. The number of
  seconds is compared as an unsigned value.\<close>

partial_function (option) timed_loop ::
  "('d, 'g, 'm) lib \<Rightarrow> 'b db_ops \<Rightarrow> ('g \<Rightarrow> int \<times> 'g) \<Rightarrow> int \<Rightarrow> int \<Rightarrow> int \<Rightarrow> ('d, 'm, 'b, 'g) client \<Rightarrow> (err + int \<times> ('d, 'm, 'b, 'g) client) option" where
  "timed_loop L D clock before exec_time oks st =
     bindO (DoTransaction L D st) (\<lambda>(ok, db, wl, g).
     let (after, g) = clock g; oks = oks + of_bool ok in
     if uint64 (after - before) \<le> exec_time then timed_loop L D clock before exec_time oks (db, wl, g)
     else Some (Inr (oks, db, wl, g)))"

text \<open>\<^verbatim>\<open>oks = 0;\<close> stands between the two loops.\<close>

definition DelegateClient ::
  "('d, 'g, 'm) lib \<Rightarrow> 'b db_ops \<Rightarrow> ('g \<Rightarrow> int \<times> 'g) \<Rightarrow> int \<Rightarrow> bool \<Rightarrow> bool \<Rightarrow> int \<Rightarrow> ('d, 'm, 'b, 'g) client \<Rightarrow> (err + int \<times> ('d, 'm, 'b, 'g) client) option" where
  "DelegateClient L D clock num_ops is_loading is_timed exec_time st =
     bindO (if is_loading then Some (load_loop L D (nat num_ops) 0 st)
            else if is_timed then Some (Inr (0, st))
            else transaction_loop L D (nat num_ops) 0 st) (\<lambda>(oks, st).
     let oks = 0 in
     if \<not> is_loading \<and> is_timed then
       let (db, wl, g) = st; (before, g) = clock g in timed_loop L D clock before exec_time oks (db, wl, g)
     else Some (Inr (oks, st)))"

section \<open>The workload on the recoverable database\<close>

text \<open>The virtual functions of \<^verbatim>\<open>NVMDB\<close>.\<close>

definition nvmdb_ops :: "'e engine_ops \<Rightarrow> 'e NVMDB db_ops" where
  "nvmdb_ops E =
     \<lparr>db_Read = (\<lambda>db table k flds result. let (s, r) = NVMDB_Read db table k flds result in Inr (s, r, db)),
      db_Scan = (\<lambda>db table k n flds result. bindR (NVMDB_Scan db table k n flds result) (\<lambda>(s, r). Inr (s, r, db))),
      db_Update = NVMDB_Update E, db_Insert = NVMDB_Insert E, db_Delete = NVMDB_Delete E\<rparr>"

end
