(* ===== verification/WorkloadContract.thy ===== *)
theory WorkloadContract
  imports Driver NvmDbContract
begin

text \<open>
  The benchmark as a whole: the load phase of a client fills the database so that every key a
  transaction draws is there, in memory and in the image of the recovery engine; and what a read of a
  single field finds.
\<close>

section \<open>Keys and values of a workload\<close>

definition key_num :: "('d, 'm) CoreWorkload \<Rightarrow> 64 word \<Rightarrow> 64 word" where
  "key_num wl x = (if \<not> wl_ordered_inserts wl then FNVHash64 x else x)"

lemma BuildKeyName_num: "BuildKeyName wl x = decimal (unat (key_num wl x))"
  by (simp add: BuildKeyName_def key_num_def)

lemma stoul_decimal: "stoul (decimal (unat (x :: 64 word))) = Inr (uint x)"
proof -
  have "unat x < 2 ^ LENGTH(64)" by (rule unsigned_less)
  moreover have "0 \<le> uint x" "uint x < 2 ^ 64" using uint_bounded [of x] by simp_all
  ultimately show ?thesis using parse_decimal [of "unat x"] by (simp add: stoul_def cint)
qed

text \<open>The key under which a number is stored determines the key in the image, and the other way round.\<close>

lemma BuildKeyName_eq: "BuildKeyName wl x = BuildKeyName wl y \<longleftrightarrow> key_num wl x = key_num wl y"
proof
  assume "BuildKeyName wl x = BuildKeyName wl y"
  then have "stoul (BuildKeyName wl x) = stoul (BuildKeyName wl y)" by simp
  then show "key_num wl x = key_num wl y" unfolding BuildKeyName_num stoul_decimal by (simp add: word_uint_eq_iff)
qed (simp add: BuildKeyName_num)

text \<open>A workload of \<open>k\<close> fields of the constant length \<open>l\<close>, whose records fit the tuples; and such a record: the
  fields in order, each filled with one character.\<close>

definition fits :: "nat \<Rightarrow> nat \<Rightarrow> ('d, 'm) CoreWorkload \<Rightarrow> bool" where
  "fits k l wl \<longleftrightarrow> nat (wl_field_count wl) = k \<and> k \<le> 10 \<and> l \<le> 100 \<and> (\<exists>c. wl_field_len_generator wl = Some (ConstGenerator c) \<and> unat c = l)"

definition full_record :: "nat \<Rightarrow> nat \<Rightarrow> kvpair list \<Rightarrow> bool" where
  "full_record k l vs \<longleftrightarrow> map fst vs = map field_name [0..<k] \<and> (\<forall>(f, v)\<in>set vs. \<exists>ch. ch \<noteq> NUL \<and> v = replicate l ch)"

lemma random_value_fits:
  assumes "wl_field_len_generator wl = Some (ConstGenerator c)"
  obtains ch g' where "random_value L wl g = Inr (replicate (unat c) ch, wl, g')" "ch \<noteq> NUL"
proof -
  obtain r g' where r: "rnd_rand L g = (r, g')" by fastforce
  let ?k = "nat (r mod 94 + 33)"
  have k: "33 \<le> ?k" "?k < 127" using pos_mod_sign [of 94 r] pos_mod_bound [of 94 r] by linarith+
  have e: "(of_char (char_of ?k :: char) :: nat) = ?k" using k by simp
  have "char_of ?k \<noteq> NUL"
  proof
    assume "char_of ?k = NUL"
    then have "(of_char (char_of ?k :: char) :: nat) = of_char NUL" by (rule arg_cong)
    then show False using e k by simp
  qed
  moreover have "random_value L wl g = Inr (replicate (unat c) (char_of ?k), wl, g')"
    using assms r by (simp add: random_value_def next_of_def RandomPrintChar_def)
  ultimately show thesis using that by blast
qed

text \<open>The records it builds.\<close>

lemma build_values_fits:
  assumes "wl_field_len_generator wl = Some (ConstGenerator c)"
  shows "\<exists>vs g'. build_values L i n wl g = Inr (vs, wl, g') \<and> map fst vs = map field_name [i..<i + n] \<and>
    (\<forall>(f, v)\<in>set vs. \<exists>ch. ch \<noteq> NUL \<and> v = replicate (unat c) ch)"
proof (induction n arbitrary: i g)
  case (Suc n)
  obtain ch g1 where v: "random_value L wl g = Inr (replicate (unat c) ch, wl, g1)" "ch \<noteq> NUL"
    by (rule random_value_fits [OF assms(1)])
  obtain vs g2 where vs: "build_values L (Suc i) n wl g1 = Inr (vs, wl, g2)" "map fst vs = map field_name [Suc i..<Suc i + n]"
      "\<forall>(f, v)\<in>set vs. \<exists>ch. ch \<noteq> NUL \<and> v = replicate (unat c) ch"
    using Suc.IH [of "Suc i" g1] by auto
  have "[i..<i + Suc n] = i # [Suc i..<Suc i + n]" by (simp add: upt_rec)
  then show ?case using v vs by (auto simp: field_name_def)
qed simp

lemma full_record_storable:
  assumes "full_record k l vs" "k \<le> 10" "l \<le> 100"
  shows "storable vs"
proof -
  have f: "map fst vs = map field_name [0..<k]" "\<forall>(f, v)\<in>set vs. \<exists>ch. ch \<noteq> NUL \<and> v = replicate l ch"
    using assms(1) by (simp_all add: full_record_def)
  have "\<exists>i<kNumOfFields. f = field_name i" if "f \<in> set (map fst vs)" for f
    using that assms(2) unfolding f(1) by auto
  moreover have "distinct (map fst vs)" unfolding f(1) by (simp add: distinct_map inj_on_def)
  ultimately show ?thesis using f(2) assms(3) by (force simp: storable_def)
qed

lemma BuildValues_full:
  assumes "fits k l wl"
  shows "\<exists>vs g'. BuildValues L wl g = Inr (vs, wl, g') \<and> full_record k l vs"
proof -
  obtain c where c: "wl_field_len_generator wl = Some (ConstGenerator c)" "unat c = l" "nat (wl_field_count wl) = k"
    using assms by (auto simp: fits_def)
  from build_values_fits [OF c(1), of L 0 k g] show ?thesis unfolding BuildValues_def c(2,3) by (auto simp: full_record_def)
qed

section \<open>Loading\<close>

definition counted :: "('d, 'm) CoreWorkload \<Rightarrow> nat \<Rightarrow> ('d, 'm) CoreWorkload" where
  "counted wl n = wl\<lparr>wl_key_generator := Some (CounterGenerator (of_nat n))\<rparr>"

lemma counted_sel [simp]:
  "wl_table_name (counted wl n) = wl_table_name wl" "fits k l (counted wl n) = fits k l wl" "BuildKeyName (counted wl n) = BuildKeyName wl"
  "key_num (counted wl n) = key_num wl" "wl_read_all_fields (counted wl n) = wl_read_all_fields wl" "counted (counted wl n) m = counted wl m"
  by (simp_all add: counted_def fits_def BuildKeyName_def key_num_def fun_eq_iff)

lemma NextSequenceKey_counted: "NextSequenceKey L (counted wl n) g = Inr (BuildKeyName wl (of_nat n), counted wl (Suc n), g)"
  by (simp add: NextSequenceKey_def next_of_def counted_def BuildKeyName_def add.commute)

text \<open>The first \<open>n\<close> keys of the workload have a full record in the table, and its tuple in the image of the engine.\<close>

definition loaded_record ::
  "('e \<Rightarrow> int \<Rightarrow> tuple option) \<Rightarrow> 'e NVMDB \<Rightarrow> ('d, 'm) CoreWorkload \<Rightarrow> nat \<Rightarrow> nat \<Rightarrow> 64 word \<Rightarrow> kvpair list \<Rightarrow> bool" where
  "loaded_record img db wl k l x vs \<longleftrightarrow> db_get db (wl_table_name wl) (BuildKeyName wl x) = Some vs \<and> full_record k l vs \<and>
     (\<exists>t. update_tuple (uint (key_num wl x)) vs = Inr t \<and> img (rec_engine db) (uint (key_num wl x)) = Some t)"

definition present :: "('e \<Rightarrow> int \<Rightarrow> tuple option) \<Rightarrow> 'e NVMDB \<Rightarrow> ('d, 'm) CoreWorkload \<Rightarrow> nat \<Rightarrow> nat \<Rightarrow> nat \<Rightarrow> bool" where
  "present img db wl k l n \<longleftrightarrow> (\<forall>j<n. \<exists>vs. loaded_record img db wl k l (of_nat j) vs)"

context recovery_engine
begin

lemma DoInsert_ok:
  assumes "inv (rec_engine db)" "db_ok db" "fits k l wl" "present image db wl k l n"
  shows "\<exists>db' g'. DoInsert L (nvmdb_ops (ops_of update delete)) (db, counted wl n, g) = Inr (True, db', counted wl (Suc n), g') \<and>
    inv (rec_engine db') \<and> db_ok db' \<and> present image db' wl k l (Suc n)"
proof -
  let ?k = "BuildKeyName wl (of_nat n)" and ?n = "uint (key_num wl (of_nat n))"
  obtain vs g' where vs: "BuildValues L (counted wl (Suc n)) g = Inr (vs, counted wl (Suc n), g')" "full_record k l vs"
    using BuildValues_full [of k l "counted wl (Suc n)" L g] assms(3) by auto
  have st: "storable vs" by (rule full_record_storable [OF vs(2)]) (use assms(3) in \<open>simp_all add: fits_def\<close>)
  have k: "stoul ?k = Inr ?n" by (simp add: BuildKeyName_num stoul_decimal)
  obtain t where t: "update_tuple ?n vs = Inr t" using update_tuple_ok [OF st] stoul_range [OF k] by blast
  obtain db' where db': "NVMDB_Insert (ops_of update delete) db (wl_table_name wl) ?k vs = Inr (kOK, db')" "inv (rec_engine db')" "db_ok db'"
      "\<And>table' k'. db_get db' table' k' = (if table' = wl_table_name wl \<and> k' = ?k then Some vs else db_get db table' k')"
      "image (rec_engine db') = (image (rec_engine db))(?n := Some t)"
    using Insert_ok [OF assms(1,2) k st t(1), of "wl_table_name wl"] by blast
  have "DoInsert L (nvmdb_ops (ops_of update delete)) (db, counted wl n, g) = Inr (True, db', counted wl (Suc n), g')"
    using vs(1) db'(1) by (simp add: DoInsert_def NextSequenceKey_counted nvmdb_ops_def)
  moreover have "\<exists>vs. loaded_record image db' wl k l (of_nat j) vs" if "j < Suc n" for j
  proof (cases "key_num wl (of_nat j) = key_num wl (of_nat n)")
    case True
    then have "BuildKeyName wl (of_nat j) = ?k" by (simp only: BuildKeyName_eq)
    then show ?thesis using True vs(2) t by (intro exI [of _ vs]) (simp add: loaded_record_def db'(4,5))
  next
    case False
    then have "BuildKeyName wl (of_nat j) \<noteq> ?k" by (simp only: BuildKeyName_eq not_False_eq_True)
    moreover have "j < n" using that False by (cases "j = n") simp_all
    then obtain vs' where "loaded_record image db wl k l (of_nat j) vs'"
      using assms(4) unfolding present_def by blast
    moreover have "uint (key_num wl (of_nat j)) \<noteq> ?n" using False by (simp add: word_uint_eq_iff)
    ultimately show ?thesis by (intro exI [of _ vs']) (simp add: loaded_record_def db'(4,5))
  qed
  ultimately show ?thesis using db'(2,3) by (auto simp: present_def)
qed

lemma load_loop_ok:
  "inv (rec_engine db) \<Longrightarrow> db_ok db \<Longrightarrow> fits fc fl wl \<Longrightarrow> present image db wl fc fl i \<Longrightarrow>
    \<exists>db' g'. load_loop L (nvmdb_ops (ops_of update delete)) k oks (db, counted wl i, g) = Inr (oks + int k, db', counted wl (i + k), g') \<and>
      inv (rec_engine db') \<and> db_ok db' \<and> present image db' wl fc fl (i + k)"
proof (induction k arbitrary: db i g oks)
  case (Suc k)
  obtain db1 g1 where 1: "DoInsert L (nvmdb_ops (ops_of update delete)) (db, counted wl i, g) = Inr (True, db1, counted wl (Suc i), g1)"
      "inv (rec_engine db1)" "db_ok db1" "present image db1 wl fc fl (Suc i)"
    using DoInsert_ok [OF Suc.prems, of L g] by blast
  from Suc.IH [OF 1(2,3) Suc.prems(3) 1(4), of "oks + 1" g1] 1(1) show ?case by (auto simp: algebra_simps)
qed auto

end

section \<open>Transactions\<close>

lemma unat_small: "n < 2 ^ 64 \<Longrightarrow> unat (of_nat n :: 64 word) = n"
  by (simp add: unat_of_nat)

lemma counter_key:
  assumes "0 < n" "n < 2 ^ 64" "v \<le> of_nat n - (1 :: 64 word)"
  shows "\<exists>j<n. v = of_nat j"
proof (intro exI conjI)
  have "(1 :: 64 word) \<le> of_nat n" using assms(1,2) by (simp add: word_le_nat_alt unat_small)
  then have "unat (of_nat n - (1 :: 64 word)) = n - 1" using assms(2) by (simp add: unat_sub unat_small)
  then show "unat v < n" using assms(1,3) by (simp add: word_le_nat_alt)
  show "v = of_nat (unat v)" by simp
qed

text \<open>A uniform choice of keys finds an existing key at once.\<close>

lemma NextTransactionKey_uniform:
  assumes "uniform_law L" "wl_key_chooser wl = Some (UniformGenerator 0 (of_nat n - 1) m v)" "wl_insert_key_sequence wl = of_nat n"
    "0 < n" "n < 2 ^ 64" "mt_uniform L 0 (of_nat n - 1) m = (x, m')"
  shows "\<exists>j<n. x = of_nat j"
    "NextTransactionKey L wl g = Some (Inr (BuildKeyName wl x, wl\<lparr>wl_key_chooser := Some (UniformGenerator 0 (of_nat n - 1) m' x)\<rparr>, g))"
proof -
  have "(0 :: 64 word) \<le> of_nat n - 1" by simp
  then have le: "x \<le> of_nat n - 1" using assms(1,6) unfolding uniform_law_def by (metis fst_conv)
  then show "\<exists>j<n. x = of_nat j" using counter_key [OF assms(4,5)] by blast
  show "NextTransactionKey L wl g = Some (Inr (BuildKeyName wl x, wl\<lparr>wl_key_chooser := Some (UniformGenerator 0 (of_nat n - 1) m' x)\<rparr>, g))"
    using assms(2,3,6) by (subst NextTransactionKey.simps) (simp add: next_of_def counter_Last_def BuildKeyName_def leD [OF le])
qed

text \<open>The name of the single field it reads has a second prefix.\<close>

lemma double_prefix: "''field'' @ ''field'' @ decimal d \<noteq> field_name i"
  using decimal_hd_digit [of i] by (cases "decimal i") (auto simp: field_name_def is_digit_def)

lemma read_fields_ok:
  assumes "wl_field_chooser wl = Some (UniformGenerator a b m v)" "storable vs"
  shows "\<exists>flds fc. read_fields L wl g = Inr (flds, wl\<lparr>wl_field_chooser := fc\<rparr>, g) \<and>
    (case flds of None \<Rightarrow> vs | Some fs \<Rightarrow> FilterByFields vs fs) = (if wl_read_all_fields wl then vs else [])"
proof (cases "wl_read_all_fields wl")
  case True
  then show ?thesis by (intro exI [of _ None] exI [of _ "wl_field_chooser wl"]) (simp add: read_fields_def)
next
  case False
  obtain x m' where x: "mt_uniform L a b m = (x, m')" by fastforce
  have "FilterByFields vs [''field'' @ ''field'' @ decimal (unat x)] = []"
    using assms(2) double_prefix [of "unat x"] by (fastforce simp: FilterByFields_def storable_def filter_empty_conv)
  then show ?thesis using False x assms(1)
    by (intro exI [of _ "Some [''field'' @ ''field'' @ decimal (unat x)]"] exI [of _ "Some (UniformGenerator a b m' x)"])
      (simp add: read_fields_def NextFieldName_def next_of_def)
qed

lemma Init_loading:
  assumes "Init L (CoreWorkload_ctor L) p g = Inr (wl, g1)" "GetProperty p ''insertstart'' ''0'' = ''0''"
    "GetProperty p ''requestdistribution'' ''uniform'' = ''uniform''" "GetProperty p ''field_len_dist'' ''constant'' = ''constant''"
    "stoi (GetProperty p ''fieldcount'' ''10'') = Inr k" "k \<le> 10" "stoi (GetProperty p ''fieldlength'' ''100'') = Inr l" "0 \<le> l" "l \<le> 100"
    "stoi (GetProperty p ''recordcount'' '''') = Inr n" "0 < n"
  shows "wl = counted wl 0" "fits (nat k) (nat l) wl" "wl_insert_key_sequence wl = of_nat (nat n)" "nat n < 2 ^ 64"
    "\<exists>a b m v. wl_field_chooser wl = Some (UniformGenerator a b m v)"
proof -
  have z: "stoi ''0'' = Inr 0" by code_simp
  have "n < 2 ^ 31" using assms(10) by (auto simp: stoi_def bindR_eq_Inr Let_def split: if_splits)
  then show "nat n < 2 ^ 64" by simp
  have w: "(word_of_int n :: 64 word) = of_nat (nat n)" using assms(11) by simp
  have l: "unat (word_of_int l :: 64 word) = nat l"
    using assms(8,9) by (simp add: unat_small flip: of_nat_nat)
  note I = assms(1) [unfolded Init_def Let_def GetFieldLenGenerator_def, unfolded assms(2-4) assms(5) assms(7) assms(10) z]
  show "wl = counted wl 0" "fits (nat k) (nat l) wl" "wl_insert_key_sequence wl = of_nat (nat n)"
    "\<exists>a b m v. wl_field_chooser wl = Some (UniformGenerator a b m v)"
    using I assms(6,9) l w
    by (auto simp: bindR_eq_Inr new_key_chooser_def new_UniformGenerator_def counted_def fits_def new_ConstGenerator_def split: prod.splits)
qed

context recovery_engine
begin

text \<open>A read transaction on a loaded database, from any state of the two choosers it draws from.\<close>

lemma TransactionRead_present:
  assumes "uniform_law L" "present image db wl k l n" "0 < n" "n < 2 ^ 64" "wl_insert_key_sequence wl = of_nat n"
    "k \<le> 10" "l \<le> 100" "mt_uniform L 0 (of_nat n - 1) m = (x, m')"
    "wl1 = (counted wl n)\<lparr>wl_key_chooser := Some (UniformGenerator 0 (of_nat n - 1) m v), wl_field_chooser := Some (UniformGenerator a b fm fv)\<rparr>"
    "wl2 = wl1\<lparr>wl_key_chooser := Some (UniformGenerator 0 (of_nat n - 1) m' x)\<rparr>"
  shows "\<exists>j vs flds fc. j < n \<and> x = of_nat j \<and> loaded_record image db wl k l x vs \<and>
    NextTransactionKey L wl1 g = Some (Inr (BuildKeyName wl x, wl2, g)) \<and>
    read_fields L wl2 g = Inr (flds, wl2\<lparr>wl_field_chooser := fc\<rparr>, g) \<and>
    NVMDB_Read db (wl_table_name wl) (BuildKeyName wl x) flds [] = (kOK, if wl_read_all_fields wl then vs else []) \<and>
    TransactionRead L (nvmdb_ops (ops_of update delete)) (db, wl1, g) = Some (Inr (kOK, db, wl2\<lparr>wl_field_chooser := fc\<rparr>, g))"
proof -
  have w: "BuildKeyName wl1 = BuildKeyName wl" "wl_table_name wl1 = wl_table_name wl" "wl_read_all_fields wl2 = wl_read_all_fields wl"
    "wl_key_chooser wl1 = Some (UniformGenerator 0 (of_nat n - 1) m v)" "wl_insert_key_sequence wl1 = of_nat n"
    "wl_field_chooser wl2 = Some (UniformGenerator a b fm fv)"
    using assms(5) by (simp_all add: assms(9,10) BuildKeyName_def counted_def fun_eq_iff)
  note nk = NextTransactionKey_uniform [OF assms(1) w(4,5) assms(3,4,8), folded assms(10), unfolded w(1)]
  obtain j where j: "j < n" "x = of_nat j" using nk(1) by blast
  then obtain vs where vs: "loaded_record image db wl k l x vs" using assms(2) by (auto simp: present_def)
  then have st: "storable vs" using full_record_storable assms(6,7) by (auto simp: loaded_record_def)
  obtain flds fc where f: "read_fields L wl2 g = Inr (flds, wl2\<lparr>wl_field_chooser := fc\<rparr>, g)"
      "(case flds of None \<Rightarrow> vs | Some fs \<Rightarrow> FilterByFields vs fs) = (if wl_read_all_fields wl2 then vs else [])"
    using read_fields_ok [OF w(6) st, of L g] by blast
  have r: "NVMDB_Read db (wl_table_name wl) (BuildKeyName wl x) flds [] = (kOK, if wl_read_all_fields wl then vs else [])"
    using vs f(2) w(3) by (simp add: loaded_record_def NVMDB_Read_get)
  then have "TransactionRead L (nvmdb_ops (ops_of update delete)) (db, wl1, g) = Some (Inr (kOK, db, wl2\<lparr>wl_field_chooser := fc\<rparr>, g))"
    using nk(2) [of g] f(1) w(2) by (simp add: TransactionRead_def nvmdb_ops_def)
  then show ?thesis using j vs nk(2) [of g] f(1) r by blast
qed

end

section \<open>Theorems\<close>

text \<open>
  C1. Load, then read: a client that loads the database \<^verbatim>\<open>NVMDB\<close> over the log engine with as many records as the
  workload counts succeeds. Then every key of the workload has its full record in the table: all the fields in order, each of the
  configured length; and the image of the engine holds the live tuple of that record. From then on every read transaction,
  wherever the uniform choices of keys and of fields stand, takes exactly one draw to find its key, which is the one drawn; it
  answers \<^verbatim>\<open>kOK\<close>, with the whole record when all fields are read (and with nothing otherwise), changes nothing in the
  database and moves only the choosers, so the next read transaction does the same. The count of loaded records that the thread
  reports is always 0, since the code resets it after the loop. The workload starts at key 0 and has at most ten fields of at
  most 100 bytes.
\<close>

theorem load_then_read:
  assumes "Init L (CoreWorkload_ctor L) p g = Inr (wl, g1)" "GetProperty p ''insertstart'' ''0'' = ''0''"
    "GetProperty p ''requestdistribution'' ''uniform'' = ''uniform''" "GetProperty p ''field_len_dist'' ''constant'' = ''constant''"
    "stoi (GetProperty p ''fieldcount'' ''10'') = Inr k" "k \<le> 10" "stoi (GetProperty p ''fieldlength'' ''100'') = Inr l" "0 \<le> l" "l \<le> 100"
    "stoi (GetProperty p ''recordcount'' '''') = Inr n" "0 < n"
    and L: "uniform_law L" and db: "log_inv api data os (rec_engine db)" "db_ok db"
  shows "\<exists>db' wl' g'. DelegateClient L (nvmdb_ops (log_ops api os)) clock n True timed exec_time (db, wl, g1) = Some (Inr (0, db', wl', g')) \<and>
    log_inv api data os (rec_engine db') \<and>
    (\<forall>j<nat n. \<exists>vs t. db_get db' (wl_table_name wl) (BuildKeyName wl (of_nat j)) = Some vs \<and> full_record (nat k) (nat l) vs \<and>
      update_tuple (uint (key_num wl (of_nat j))) vs = Inr t \<and> \<not> tp_deleted t \<and>
      log_image data (rec_engine db') (uint (key_num wl (of_nat j))) = Some t) \<and>
    (\<forall>m v a b fm fv g2. case mt_uniform L 0 (of_nat (nat n) - 1) m of (x, m') \<Rightarrow>
      let wl1 = wl'\<lparr>wl_key_chooser := Some (UniformGenerator 0 (of_nat (nat n) - 1) m v), wl_field_chooser := Some (UniformGenerator a b fm fv)\<rparr>;
          wl2 = wl1\<lparr>wl_key_chooser := Some (UniformGenerator 0 (of_nat (nat n) - 1) m' x)\<rparr>
      in \<exists>j vs flds fc. j < nat n \<and> x = of_nat j \<and> db_get db' (wl_table_name wl) (BuildKeyName wl x) = Some vs \<and>
        NextTransactionKey L wl1 g2 = Some (Inr (BuildKeyName wl x, wl2, g2)) \<and>
        read_fields L wl2 g2 = Inr (flds, wl2\<lparr>wl_field_chooser := fc\<rparr>, g2) \<and>
        NVMDB_Read db' (wl_table_name wl) (BuildKeyName wl x) flds [] = (kOK, if wl_read_all_fields wl then vs else []) \<and>
        TransactionRead L (nvmdb_ops (log_ops api os)) (db', wl1, g2) = Some (Inr (kOK, db', wl2\<lparr>wl_field_chooser := fc\<rparr>, g2)))"
proof -
  note wl = Init_loading [OF assms(1-11)]
  have kl: "nat k \<le> 10" "nat l \<le> 100" using assms(6,9) by simp_all
  have "present (log_image data) db wl (nat k) (nat l) 0" by (simp add: present_def)
  then obtain db' g' where ld: "load_loop L (nvmdb_ops (log_ops api os)) (nat n) 0 (db, counted wl 0, g1) =
        Inr (int (nat n), db', counted wl (nat n), g')" "log_inv api data os (rec_engine db')"
      and pr: "present (log_image data) db' wl (nat k) (nat l) (nat n)"
    using log_engine.load_loop_ok [OF db wl(2), of 0 L "nat n" 0 g1] by auto
  have "DelegateClient L (nvmdb_ops (log_ops api os)) clock n True timed exec_time (db, wl, g1) = Some (Inr (0, db', counted wl (nat n), g'))"
    using ld(1) wl(1) by (simp add: DelegateClient_def)
  moreover have "\<exists>vs t. db_get db' (wl_table_name wl) (BuildKeyName wl (of_nat j)) = Some vs \<and> full_record (nat k) (nat l) vs \<and>
      update_tuple (uint (key_num wl (of_nat j))) vs = Inr t \<and> \<not> tp_deleted t \<and>
      log_image data (rec_engine db') (uint (key_num wl (of_nat j))) = Some t" if j: "j < nat n" for j
  proof -
    obtain vs t where r: "db_get db' (wl_table_name wl) (BuildKeyName wl (of_nat j)) = Some vs" "full_record (nat k) (nat l) vs"
        "update_tuple (uint (key_num wl (of_nat j))) vs = Inr t" "log_image data (rec_engine db') (uint (key_num wl (of_nat j))) = Some t"
      using pr j unfolding present_def loaded_record_def by blast
    have "uint (key_num wl (of_nat j)) < 2 ^ 64" using uint_bounded [of "key_num wl (of_nat j)"] by simp
    then have "\<not> tp_deleted t"
      using update_tuple_ok [OF full_record_storable [OF r(2) kl], of "uint (key_num wl (of_nat j))"] r(3) by auto
    with r show ?thesis by blast
  qed
  moreover note log_engine.TransactionRead_present [OF L pr _ wl(4,3) kl _ refl refl] assms(11)
  ultimately show ?thesis using ld(2)
    by (intro exI [of _ db'] exI [of _ "counted wl (nat n)"] exI [of _ g'])
      (fastforce simp: Let_def loaded_record_def split: prod.split)
qed

text \<open>
  C33. A transaction that reads a single field finds nothing: with \<^verbatim>\<open>readallfields=false\<close> the client puts a second
  prefix before the name of the field, which no stored field has, so the read of a record that is there answers
  \<^verbatim>\<open>kOK\<close> with an empty result, whatever field was drawn.
\<close>

theorem single_field_read_empty:
  assumes "\<not> wl_read_all_fields wl" "read_fields L wl g = Inr (flds, wl', g')" "db_get db table k = Some vs" "storable vs"
  shows "NVMDB_Read db table k flds [] = (kOK, [])"
proof -
  obtain d where flds: "flds = Some [''field'' @ ''field'' @ decimal d]"
    using assms(1,2) by (auto simp: read_fields_def NextFieldName_def bindR_eq_Inr)
  have "FilterByFields vs [''field'' @ ''field'' @ decimal d] = []"
    using assms(4) double_prefix [of d] by (fastforce simp: FilterByFields_def storable_def filter_empty_conv)
  then show ?thesis using flds assms(3) by (simp add: NVMDB_Read_get)
qed

text \<open>A library whose numbers are integers and whose engines count.\<close>

definition counting_lib :: "(int, nat, nat) lib" where
  "counting_lib =
     \<lparr>fp_of = id, fp_lit = (\<lambda>n k. int n), fp_add = (+), fp_sub = (-), fp_mul = (*), fp_div = (div), fp_pow = (\<lambda>x y. x), fp_less = (<),
      fp_uint64 = word_of_int, fp_int = id, fp_stod = (\<lambda>s. Inr 1), rnd_double = (\<lambda>g. (int g, Suc g)), rnd_rand = (\<lambda>g. (int g, Suc g)),
      mt_seed = 0, mt_uniform = (\<lambda>lo hi m. (if m mod 2 = 0 then lo else hi, Suc m))\<rparr>"

lemma counting_lib_law: "uniform_law counting_lib"
  by (simp add: uniform_law_def counting_lib_def)

abbreviation (input) two_records :: properties where
  "two_records \<equiv> [(''readallfields'', ''false''), (''recordcount'', ''2'')]"

lemma two_records_init: "\<exists>wl g1. Init counting_lib (CoreWorkload_ctor counting_lib) two_records 0 = Inr (wl, g1) \<and> wl_table_name wl = ''usertable'' \<and>
    \<not> wl_read_all_fields wl"
proof -
  have s: "stoi ''10'' = Inr 10" "stoi ''100'' = Inr 100" "stoi ''2'' = Inr 2" "stoi ''1000'' = Inr 1000" "stoi ''0'' = Inr 0"
    "StrToBool ''false'' = Inr False" by code_simp+
  show ?thesis
    by (simp add: Init_def GetProperty_def s GetFieldLenGenerator_def new_key_chooser_def new_scan_len_chooser_def counting_lib_def Let_def)
qed

theorem load_then_read_witness:
  "\<exists>wl g1 db' wl' g' vs. Init counting_lib (CoreWorkload_ctor counting_lib) two_records 0 = Inr (wl, g1) \<and>
     DelegateClient counting_lib (nvmdb_ops (log_ops mem_log posix)) (\<lambda>g. (0, g)) 2 True False 0 (db_log, wl, g1) = Some (Inr (0, db', wl', g')) \<and>
     db_get db' ''usertable'' (BuildKeyName wl 1) = Some vs \<and> map fst vs = map field_name [0..<10] \<and>
     (\<exists>wl3. TransactionRead counting_lib (nvmdb_ops (log_ops mem_log posix))
        (db', wl'\<lparr>wl_key_chooser := Some (UniformGenerator 0 1 1 0), wl_field_chooser := Some (UniformGenerator 0 9 0 0)\<rparr>, 7) =
        Some (Inr (kOK, db', wl3, 7)) \<and> wl_key_chooser wl3 = Some (UniformGenerator 0 1 2 1))"
proof -
  obtain wl g1 where wl: "Init counting_lib (CoreWorkload_ctor counting_lib) two_records 0 = Inr (wl, g1)" "wl_table_name wl = ''usertable''"
    using two_records_init by blast
  have s: "stoi ''10'' = Inr 10" "stoi ''100'' = Inr 100" "stoi ''2'' = Inr 2" by code_simp+
  have x: "mt_uniform counting_lib 0 1 (Suc 0) = (1, 2)" by (simp add: counting_lib_def)
  have p: "GetProperty two_records ''insertstart'' ''0'' = ''0''" "GetProperty two_records ''requestdistribution'' ''uniform'' = ''uniform''"
    "GetProperty two_records ''field_len_dist'' ''constant'' = ''constant''" "stoi (GetProperty two_records ''fieldcount'' ''10'') = Inr 10"
    "stoi (GetProperty two_records ''fieldlength'' ''100'') = Inr 100" "stoi (GetProperty two_records ''recordcount'' '''') = Inr 2"
    using s by (simp_all add: GetProperty_def)
  have T: "(10 :: int) \<le> 10" "(0 :: int) \<le> 100" "(100 :: int) \<le> 100" "(0 :: int) < 2" by simp_all
  note T = load_then_read [OF wl(1) p(1-4) T(1) p(5) T(2,3) p(6) T(4) counting_lib_law _ db_log_ok(1), of mem_log snd posix "\<lambda>g. (0, g)" False 0]
  have i: "log_inv mem_log snd posix (rec_engine db_log)" using log0_inv db_log_ok(2) by simp
  from T [OF i] show ?thesis
  proof (elim exE conjE, goal_cases)
    case (1 db' wl' g')
    obtain vs where vs: "db_get db' ''usertable'' (BuildKeyName wl 1) = Some vs" "full_record 10 100 vs"
      using 1(3) [rule_format, of 1] wl(2) by auto
    moreover from this have "map fst vs = map field_name [0..<10]" by (simp add: full_record_def)
    moreover have "\<exists>wl3. TransactionRead counting_lib (nvmdb_ops (log_ops mem_log posix))
        (db', wl'\<lparr>wl_key_chooser := Some (UniformGenerator 0 1 1 0), wl_field_chooser := Some (UniformGenerator 0 9 0 0)\<rparr>, 7) =
        Some (Inr (kOK, db', wl3, 7)) \<and> wl_key_chooser wl3 = Some (UniformGenerator 0 1 2 1)"
      using 1(4) [rule_format, where m = 1 and v = 0 and a = 0 and b = 9 and fm = 0 and fv = 0 and ?g2.0 = 7] by (auto simp: x Let_def)
    ultimately show ?case using wl(1) 1(1) by blast
  qed
qed

theorem single_field_read_empty_witness:
  "\<exists>wl g1 flds wl' g'. Init counting_lib (CoreWorkload_ctor counting_lib) two_records 0 = Inr (wl, g1) \<and>
     read_fields counting_lib wl g1 = Inr (flds, wl', g') \<and>
     NVMDB_Read (db_log\<lparr>tables := [(''usertable'', [(''7'', [(''field0'', ''x'')])])]\<rparr>) ''usertable'' ''7'' flds [] = (kOK, [])"
proof -
  let ?db = "db_log\<lparr>tables := [(''usertable'', [(''7'', [(''field0'', ''x'')])])]\<rparr>"
  obtain wl g1 where wl: "Init counting_lib (CoreWorkload_ctor counting_lib) two_records 0 = Inr (wl, g1)" "\<not> wl_read_all_fields wl"
    using two_records_init by blast
  have s: "stoi ''10'' = Inr 10" "stoi ''100'' = Inr 100" "stoi ''2'' = Inr 2" by code_simp+
  have "\<exists>a b m v. wl_field_chooser wl = Some (UniformGenerator a b m v)"
    by (rule Init_loading(5) [OF wl(1), of 10 100 2]) (use s in \<open>simp_all add: GetProperty_def\<close>)
  then obtain a b m v where "wl_field_chooser wl = Some (UniformGenerator a b m v)" by blast
  then obtain flds wl' g' where f: "read_fields counting_lib wl g1 = Inr (flds, wl', g')"
    using read_fields_ok [of wl a b m v "[]" counting_lib g1] by (auto simp: storable_def)
  have "decimal 0 = ''0''" by code_simp
  then have "field_name 0 = ''field0''" by (simp add: field_name_def)
  then have "storable [(''field0'', ''x'')]" by (auto simp: storable_def intro!: exI [of _ 0])
  moreover have "db_get ?db ''usertable'' ''7'' = Some [(''field0'', ''x'')]" by (simp add: db_get_def)
  ultimately show ?thesis using wl f single_field_read_empty [OF wl(2) f, of ?db "''usertable''" "''7''" "[(''field0'', ''x'')]"] by blast
qed

end
