(* ===== verification/StlTable.thy ===== *)
theory StlTable
  imports Generators "HOL-Library.AList" "HOL-Library.Multiset"
begin

text \<open>
  The string-keyed hash tables of \<^verbatim>\<open>src/lib\<close>: hashed strings (\<^verbatim>\<open>string.h\<close>), the interface
  (\<^verbatim>\<open>string_hashtable.h\<close>) as a record of its operations and as a locale of what its clients rely on, and its
  implementation on \<^verbatim>\<open>std::unordered_map\<close> under a lock (\<^verbatim>\<open>stl_hashtable.h\<close>, \<^verbatim>\<open>lock_stl_hashtable.h\<close>). A C string is its
  text up to the terminator, NULL is \<open>None\<close>. The map of the C++ library is the list of its nodes in the order of
  iteration; an insertion may reorder them, as a parameter \<open>ord\<close> says. A table keeps copies of its keys, blocks of \<^verbatim>\<open>malloc\<close> in a
  heap that all tables share: every operation that makes, reads or frees a copy does so there. \<^verbatim>\<open>Malloc\<close> is taken to
  succeed.
\<close>

section \<open>Blocks of memory\<close>

text \<open>A heap of one kind of block: an address is a position, a block that has been freed is \<open>None\<close>.\<close>

definition at_addr :: "'a option list \<Rightarrow> nat \<Rightarrow> 'a res" where
  "at_addr h a = (if a < length h then case h ! a of None \<Rightarrow> Inl UseAfterFree | Some x \<Rightarrow> Inr x else Inl OutOfBounds)"

definition live :: "'a option list \<Rightarrow> nat \<rightharpoonup> 'a" where
  "live h a = (if a < length h then h ! a else None)"

lemma at_addr_live: "live h a = Some x \<Longrightarrow> at_addr h a = Inr x"
  by (auto simp: live_def at_addr_def split: if_splits)

lemma live_length: "live h a = Some x \<Longrightarrow> a < length h"
  by (auto simp: live_def split: if_splits)

lemma live_fresh [simp]: "live h (length h) = None"
  by (simp add: live_def)

lemma live_append [simp]: "live (h @ [x]) = (live h)(length h := x)"
  by (auto simp: live_def nth_append)

lemma live_update: "a < length h \<Longrightarrow> live (h[a := x]) = (live h)(a := x)"
  by (auto simp: live_def nth_list_update)

lemma live_Nil [simp]: "live [] = Map.empty"
  by (simp add: live_def fun_eq_iff)

section \<open>Hashed strings\<close>

definition c_str :: "string \<Rightarrow> string" where
  "c_str s = takeWhile ((\<noteq>) NUL) s"

lemma c_str_id: "NUL \<notin> set s \<Longrightarrow> c_str s = s"
  by (auto simp: c_str_def takeWhile_eq_all_conv)

text \<open>Where the text of a string is: in memory of the caller, or in a block of the heap of key copies.\<close>

datatype cptr = Caller string | Block nat

type_synonym keyheap = "string option list"

definition cstr_at :: "keyheap \<Rightarrow> cptr option \<Rightarrow> string res" where
  "cstr_at K p = (case p of None \<Rightarrow> Inl NullDeref | Some (Caller s) \<Rightarrow> Inr s | Some (Block a) \<Rightarrow> at_addr K a)"

record vstring =
  s_hash :: "64 word"
  s_value :: "cptr option"
  s_len :: nat

definition String_ctor :: vstring where
  "String_ctor = \<lparr>s_hash = 0, s_value = None, s_len = 0\<rparr>"

text \<open>\<^verbatim>\<open>c = *cstr++\<close>: a signed \<^verbatim>\<open>char\<close> converted to 64 bits.\<close>

definition char64 :: "char \<Rightarrow> 64 word" where
  "char64 c = signed (of_char c :: 8 word)"

fun sdbm_loop :: "string \<Rightarrow> 64 word \<Rightarrow> 64 word" where
  "sdbm_loop [] hash = hash"
| "sdbm_loop (c # cstr) hash = sdbm_loop cstr (char64 c + push_bit 6 hash + push_bit 16 hash - hash)"

definition SDBMHash :: "string \<Rightarrow> 64 word" where
  "SDBMHash cstr = sdbm_loop cstr 0"

definition set_string_value :: "keyheap \<Rightarrow> vstring \<Rightarrow> cptr \<Rightarrow> vstring res" where
  "set_string_value K s v =
     bindR (cstr_at K (Some v)) (\<lambda>t. Inr (s\<lparr>s_value := Some v, s_len := length t, s_hash := SDBMHash t\<rparr>))"

text \<open>The block of a copy stays allocated until it is freed.\<close>

definition Copy :: "keyheap \<Rightarrow> string option \<Rightarrow> (vstring \<times> keyheap) res" where
  "Copy K cstr =
     (case cstr of None \<Rightarrow> Inl AssertFailed
      | Some c \<Rightarrow>
          let K = K @ [Some c] in
          bindR (set_string_value K String_ctor (Block (length K - 1))) (\<lambda>hstr.
          bindR (assertR (s_len hstr = length c)) (\<lambda>_. Inr (hstr, K))))"

definition Wrap :: "keyheap \<Rightarrow> string option \<Rightarrow> vstring res" where
  "Wrap K cstr = (case cstr of None \<Rightarrow> Inl AssertFailed | Some c \<Rightarrow> set_string_value K String_ctor (Caller c))"

text \<open>\<^verbatim>\<open>free\<close> of NULL does nothing; of memory that is not a block of the heap, or not any more, it is undefined.\<close>

definition String_Free :: "keyheap \<Rightarrow> vstring \<Rightarrow> keyheap res" where
  "String_Free K hstr =
     (case s_value hstr of None \<Rightarrow> Inr K
      | Some (Caller _) \<Rightarrow> Inl BadFree
      | Some (Block a) \<Rightarrow> bindR (at_addr K a) (\<lambda>_. Inr (K[a := None])))"

definition String_eq :: "keyheap \<Rightarrow> vstring \<Rightarrow> vstring \<Rightarrow> bool res" where
  "String_eq K a b =
     (if s_hash a \<noteq> s_hash b then Inr False
      else bindR (cstr_at K (s_value a)) (\<lambda>x. bindR (cstr_at K (s_value b)) (\<lambda>y. Inr (x = y))))"

section \<open>The interface\<close>

text \<open>\<^verbatim>\<open>Entries\<close> answers pointers to the keys; its callers read the texts before any other change, so they are read here.\<close>

record ('t, 'v) hashtable_ops =
  ht_new :: 't
  ht_Get :: "keyheap \<Rightarrow> 't \<Rightarrow> string option \<Rightarrow> 'v option res"
  ht_Insert :: "keyheap \<Rightarrow> 't \<Rightarrow> string option \<Rightarrow> 'v \<Rightarrow> (bool \<times> 't \<times> keyheap) res"
  ht_Update :: "keyheap \<Rightarrow> 't \<Rightarrow> string option \<Rightarrow> 'v \<Rightarrow> ('v option \<times> 't) res"
  ht_Remove :: "keyheap \<Rightarrow> 't \<Rightarrow> string option \<Rightarrow> ('v option \<times> 't \<times> keyheap) res"
  ht_Entries :: "keyheap \<Rightarrow> 't \<Rightarrow> string option \<Rightarrow> nat \<Rightarrow> (string \<times> 'v) list res"
  ht_Size :: "'t \<Rightarrow> nat"

text \<open>
  What the clients of a table rely on: it is a finite map, listed by its entries in some order, and each of its keys has
  a live block of its own (\<open>kptr\<close>). It depends on no other block. An insertion leaves one block more, also when the key is there
  already; a removal frees the block of the key.
\<close>

locale string_hashtable =
  fixes H :: "('t, 'v) hashtable_ops" and inv :: "keyheap \<Rightarrow> 't \<Rightarrow> bool" and entries :: "keyheap \<Rightarrow> 't \<Rightarrow> (string \<times> 'v) list"
    and kptr :: "keyheap \<Rightarrow> 't \<Rightarrow> string \<rightharpoonup> nat"
  assumes new: "inv K (ht_new H)" "entries K (ht_new H) = []"
    and distinct: "inv K t \<Longrightarrow> distinct (map fst (entries K t))"
    and kptr_dom: "inv K t \<Longrightarrow> dom (kptr K t) = dom (map_of (entries K t))"
    and kptr_live: "inv K t \<Longrightarrow> kptr K t k = Some a \<Longrightarrow> live K a = Some k"
    and frame: "inv K t \<Longrightarrow> (\<And>k a. kptr K t k = Some a \<Longrightarrow> live K' a = Some k) \<Longrightarrow>
        inv K' t \<and> entries K' t = entries K t \<and> kptr K' t = kptr K t"
    and Get: "inv K t \<Longrightarrow> ht_Get H K t (Some k) = Inr (map_of (entries K t) k)"
    and Insert: "inv K t \<Longrightarrow> \<exists>t'. ht_Insert H K t (Some k) v = Inr (map_of (entries K t) k = None, t', K @ [Some k]) \<and> inv (K @ [Some k]) t' \<and>
        map_of (entries (K @ [Some k]) t') =
          (if map_of (entries K t) k = None then (map_of (entries K t))(k \<mapsto> v) else map_of (entries K t)) \<and>
        kptr (K @ [Some k]) t' = (if map_of (entries K t) k = None then (kptr K t)(k \<mapsto> length K) else kptr K t)"
    and Update: "inv K t \<Longrightarrow> \<exists>t'. ht_Update H K t (Some k) v = Inr (map_of (entries K t) k, t') \<and> inv K t' \<and>
        map_of (entries K t') = (if map_of (entries K t) k = None then map_of (entries K t) else (map_of (entries K t))(k \<mapsto> v)) \<and>
        kptr K t' = kptr K t"
    and Remove: "inv K t \<Longrightarrow> K' = (case kptr K t k of None \<Rightarrow> K | Some a \<Rightarrow> K[a := None]) \<Longrightarrow>
        \<exists>t'. ht_Remove H K t (Some k) = Inr (map_of (entries K t) k, t', K') \<and> inv K' t' \<and>
        map_of (entries K' t') = (map_of (entries K t))(k := None) \<and> kptr K' t' = (kptr K t)(k := None)"
    and Entries: "inv K t \<Longrightarrow> ht_Entries H K t None n = Inr (take n (entries K t))"
      "inv K t \<Longrightarrow> ht_Entries H K t (Some k) n = Inr (take n (dropWhile (\<lambda>p. fst p \<noteq> k) (entries K t)))"

section \<open>The table on an unordered map\<close>

type_synonym 'v nodes = "(vstring \<times> 'v) list"

text \<open>\<^verbatim>\<open>find\<close>: the position of the node whose key is equal, as its comparisons read the texts.\<close>

fun find_node :: "keyheap \<Rightarrow> 'v nodes \<Rightarrow> vstring \<Rightarrow> nat option res" where
  "find_node K [] k = Inr None"
| "find_node K (p # tb) k =
     bindR (String_eq K (fst p) k) (\<lambda>eq. if eq then Inr (Some 0) else bindR (find_node K tb k) (\<lambda>i. Inr (map_option Suc i)))"

definition erase_node :: "'v nodes \<Rightarrow> nat \<Rightarrow> 'v nodes" where
  "erase_node tb pos = take pos tb @ drop (Suc pos) tb"

definition Stl_Get :: "keyheap \<Rightarrow> 'v nodes \<Rightarrow> string option \<Rightarrow> 'v option res" where
  "Stl_Get K tb key =
     bindR (Wrap K key) (\<lambda>k. bindR (find_node K tb k) (\<lambda>pos.
     Inr (case pos of None \<Rightarrow> None | Some pos \<Rightarrow> Some (snd (tb ! pos)))))"

text \<open>The order after an insertion: \<open>ord\<close>, where it is a reordering.\<close>

definition rehash :: "('v nodes \<Rightarrow> 'v nodes) \<Rightarrow> 'v nodes \<Rightarrow> 'v nodes" where
  "rehash ord tb = (if mset (ord tb) = mset tb then ord tb else tb)"

text \<open>The key is copied first; the copy is lost when the key is there already.\<close>

definition Stl_Insert ::
  "('v nodes \<Rightarrow> 'v nodes) \<Rightarrow> keyheap \<Rightarrow> 'v nodes \<Rightarrow> string option \<Rightarrow> 'v \<Rightarrow> (bool \<times> 'v nodes \<times> keyheap) res" where
  "Stl_Insert ord K tb key value =
     (if key = None then Inr (False, tb, K)
      else bindR (Copy K key) (\<lambda>(skey, K). bindR (find_node K tb skey) (\<lambda>pos.
        Inr (case pos of Some _ \<Rightarrow> (False, tb, K) | None \<Rightarrow> (True, rehash ord ((skey, value) # tb), K)))))"

definition Stl_Update :: "keyheap \<Rightarrow> 'v nodes \<Rightarrow> string option \<Rightarrow> 'v \<Rightarrow> ('v option \<times> 'v nodes) res" where
  "Stl_Update K tb key value =
     bindR (Wrap K key) (\<lambda>k. bindR (find_node K tb k) (\<lambda>pos.
     Inr (case pos of None \<Rightarrow> (None, tb)
          | Some pos \<Rightarrow> let old = snd (tb ! pos) in (Some old, tb[pos := (fst (tb ! pos), value)]))))"

text \<open>The text of the key is freed before its node is erased.\<close>

definition Stl_Remove :: "keyheap \<Rightarrow> 'v nodes \<Rightarrow> string option \<Rightarrow> ('v option \<times> 'v nodes \<times> keyheap) res" where
  "Stl_Remove K tb key =
     bindR (Wrap K key) (\<lambda>k. bindR (find_node K tb k) (\<lambda>pos.
     case pos of None \<Rightarrow> Inr (None, tb, K)
     | Some pos \<Rightarrow>
         bindR (String_Free K (fst (tb ! pos))) (\<lambda>K. let old = snd (tb ! pos) in Inr (Some old, erase_node tb pos, K))))"

fun node_texts :: "keyheap \<Rightarrow> 'v nodes \<Rightarrow> (string \<times> 'v) list res" where
  "node_texts K [] = Inr []"
| "node_texts K ((k, v) # tb) = bindR (cstr_at K (s_value k)) (\<lambda>t. bindR (node_texts K tb) (\<lambda>ps. Inr ((t, v) # ps)))"

definition Stl_Entries :: "keyheap \<Rightarrow> 'v nodes \<Rightarrow> string option \<Rightarrow> nat \<Rightarrow> (string \<times> 'v) list res" where
  "Stl_Entries K tb key n =
     bindR (case key of None \<Rightarrow> Inr tb
            | Some _ \<Rightarrow> bindR (Wrap K key) (\<lambda>k. bindR (find_node K tb k) (\<lambda>pos.
                Inr (case pos of None \<Rightarrow> [] | Some pos \<Rightarrow> drop pos tb)))) (\<lambda>pos.
     node_texts K (take n pos))"

definition Stl_Size :: "'v nodes \<Rightarrow> nat" where
  "Stl_Size tb = length tb"

text \<open>The locked table: each operation holds the lock while it runs that of the base class, so it is one step.\<close>

definition LockStlHashtable :: "('v nodes \<Rightarrow> 'v nodes) \<Rightarrow> ('v nodes, 'v) hashtable_ops" where
  "LockStlHashtable ord =
     \<lparr>ht_new = [], ht_Get = Stl_Get, ht_Insert = Stl_Insert ord, ht_Update = Stl_Update, ht_Remove = Stl_Remove,
      ht_Entries = Stl_Entries, ht_Size = Stl_Size\<rparr>"

section \<open>Nodes and their blocks\<close>

text \<open>A node of the key \<open>k\<close>, whose copy is in the block \<open>a\<close>; a list of them with the texts, blocks and values spelled out.\<close>

definition key_of :: "nat \<Rightarrow> string \<Rightarrow> vstring" where
  "key_of a k = \<lparr>s_hash = SDBMHash k, s_value = Some (Block a), s_len = length k\<rparr>"

definition nodes_of :: "(string \<times> nat \<times> 'v) list \<Rightarrow> 'v nodes" where
  "nodes_of es = map (\<lambda>(k, a, v). (key_of a k, v)) es"

definition held :: "keyheap \<Rightarrow> (string \<times> nat \<times> 'v) list \<Rightarrow> bool" where
  "held K es \<longleftrightarrow> list_all (\<lambda>(k, a, v). live K a = Some k) es"

definition stl_es :: "keyheap \<Rightarrow> 'v nodes \<Rightarrow> (string \<times> nat \<times> 'v) list" where
  "stl_es K tb = map (\<lambda>(q, v). (case cstr_at K (s_value q) of Inr t \<Rightarrow> t | Inl _ \<Rightarrow> [],
     case s_value q of Some (Block a) \<Rightarrow> a | _ \<Rightarrow> 0, v)) tb"

definition stl_inv :: "keyheap \<Rightarrow> 'v nodes \<Rightarrow> bool" where
  "stl_inv K tb \<longleftrightarrow> tb = nodes_of (stl_es K tb) \<and> held K (stl_es K tb) \<and> distinct (map fst (stl_es K tb))"

definition stl_entries :: "keyheap \<Rightarrow> 'v nodes \<Rightarrow> (string \<times> 'v) list" where
  "stl_entries K tb = map (\<lambda>(k, a, v). (k, v)) (stl_es K tb)"

definition stl_kptr :: "keyheap \<Rightarrow> 'v nodes \<Rightarrow> string \<rightharpoonup> nat" where
  "stl_kptr K tb = (\<lambda>k. map_option fst (map_of (stl_es K tb) k))"

lemma heldD: "held K es \<Longrightarrow> (k, a, v) \<in> set es \<Longrightarrow> live K a = Some k"
  by (auto simp: held_def list_all_iff)

lemma heldI: "(\<And>k a v. (k, a, v) \<in> set es \<Longrightarrow> live K a = Some k) \<Longrightarrow> held K es"
  by (auto simp: held_def list_all_iff)

lemma map_of_vals: "map_of (map (\<lambda>(k, a, v). (k, v)) es) k = map_option snd (map_of es k)"
  by (induction es) auto

lemma nodes_of_simps [simp]:
  "nodes_of [] = []" "nodes_of ((k, a, v) # es) = (key_of a k, v) # nodes_of es" "nodes_of (es @ fs) = nodes_of es @ nodes_of fs"
  "length (nodes_of es) = length es"
  by (simp_all add: nodes_of_def)

lemma held_simps [simp]:
  "held K []" "held K ((k, a, v) # es) \<longleftrightarrow> live K a = Some k \<and> held K es" "held K (es @ fs) \<longleftrightarrow> held K es \<and> held K fs"
  by (simp_all add: held_def)

lemma stl_es_nodes: "held K es \<Longrightarrow> stl_es K (nodes_of es) = es"
  by (induction es) (auto simp: stl_es_def key_of_def cstr_at_def at_addr_live)

text \<open>Such a list of nodes, in any order, is a table.\<close>

lemma stl_nodes:
  assumes "held K es" "distinct (map fst es)" "mset tb = mset (nodes_of es)"
  shows "stl_inv K tb" "map_of (stl_entries K tb) = (\<lambda>k. map_option snd (map_of es k))" "stl_kptr K tb = (\<lambda>k. map_option fst (map_of es k))"
proof -
  let ?f = "\<lambda>(q, v). (case cstr_at K (s_value q) of Inr t \<Rightarrow> t | Inl _ \<Rightarrow> [], case s_value q of Some (Block a) \<Rightarrow> a | _ \<Rightarrow> 0, v)"
  have "mset (stl_es K tb) = mset (stl_es K (nodes_of es))" using assms(3) by (simp add: stl_es_def)
  then have m: "mset (stl_es K tb) = mset es" by (simp only: stl_es_nodes [OF assms(1)])
  then have s: "set (stl_es K tb) = set es" by (rule mset_eq_setD)
  have d: "distinct (map fst (stl_es K tb))" using assms(2) m by (metis mset_map mset_eq_imp_distinct_iff)
  have "map (\<lambda>(k, a, v). (key_of a k, v)) (map ?f tb) = tb"
    unfolding map_map
  proof (rule map_idI)
    fix p assume "p \<in> set tb"
    then have "p \<in> set (nodes_of es)" using mset_eq_setD [OF assms(3)] by simp
    then show "((\<lambda>(k, a, v). (key_of a k, v)) \<circ> ?f) p = p"
      using heldD [OF assms(1)] by (auto simp: nodes_of_def key_of_def cstr_at_def at_addr_live)
  qed
  then show "stl_inv K tb" using d assms(1) s by (simp add: stl_inv_def nodes_of_def stl_es_def held_def list_all_iff)
  have "map_of (stl_es K tb) = map_of es" using d assms(2) s by (simp add: map_of_inject_set)
  then show "map_of (stl_entries K tb) = (\<lambda>k. map_option snd (map_of es k))" "stl_kptr K tb = (\<lambda>k. map_option fst (map_of es k))"
    by (simp_all add: stl_entries_def stl_kptr_def map_of_vals fun_eq_iff)
qed

lemma stl_inv_obtain:
  assumes "stl_inv K tb"
  obtains es where "tb = nodes_of es" "held K es" "distinct (map fst es)" "stl_es K tb = es"
  using that [of "stl_es K tb"] assms unfolding stl_inv_def by blast

section \<open>Finding a key\<close>

lemma String_eq_key:
  "live K a = Some k' \<Longrightarrow> cstr_at K (s_value q) = Inr k \<Longrightarrow> s_hash q = SDBMHash k \<Longrightarrow> String_eq K (key_of a k') q = Inr (k' = k)"
  by (auto simp: String_eq_def key_of_def cstr_at_def at_addr_live)

lemma find_nodes:
  assumes "cstr_at K (s_value q) = Inr k" "s_hash q = SDBMHash k"
  shows "held K es \<Longrightarrow> map_of es k = None \<Longrightarrow> find_node K (nodes_of es) q = Inr None"
    "held K (es1 @ (k, a, v) # es2) \<Longrightarrow> map_of es1 k = None \<Longrightarrow> find_node K (nodes_of (es1 @ (k, a, v) # es2)) q = Inr (Some (length es1))"
proof -
  show "held K es \<Longrightarrow> map_of es k = None \<Longrightarrow> find_node K (nodes_of es) q = Inr None"
    by (induction es) (auto simp: String_eq_key [OF _ assms] split: if_splits)
  show "held K (es1 @ (k, a, v) # es2) \<Longrightarrow> map_of es1 k = None \<Longrightarrow> find_node K (nodes_of (es1 @ (k, a, v) # es2)) q = Inr (Some (length es1))"
    by (induction es1) (auto simp: String_eq_key [OF _ assms] split: if_splits)
qed

lemma map_of_split:
  assumes "map_of es k = Some x"
  obtains es1 es2 where "es = es1 @ (k, x) # es2" "map_of es1 k = None"
proof -
  have "\<exists>es1 es2. es = es1 @ (k, x) # es2 \<and> map_of es1 k = None"
    using assms
  proof (induction es)
    case (Cons e es)
    show ?case
    proof (cases "fst e = k")
      case True
      then show ?thesis using Cons.prems by (intro exI [of _ "[]"] exI [of _ es]) (cases e; simp)
    next
      case False
      then obtain es1 es2 where "es = es1 @ (k, x) # es2" "map_of es1 k = None" using Cons by (auto split: if_splits)
      then show ?thesis using False by (intro exI [of _ "e # es1"] exI [of _ es2]) (cases e; simp)
    qed
  qed simp
  then show thesis using that by blast
qed

lemma stl_find:
  assumes "stl_inv K tb" "cstr_at K (s_value q) = Inr k" "s_hash q = SDBMHash k"
  obtains (none) "map_of (stl_entries K tb) k = None" "stl_kptr K tb k = None" "find_node K tb q = Inr None"
      "dropWhile (\<lambda>p. fst p \<noteq> k) (stl_entries K tb) = []"
  | (found) i a v where "i < length tb" "tb ! i = (key_of a k, v)" "find_node K tb q = Inr (Some i)" "map_of (stl_entries K tb) k = Some v"
      "stl_kptr K tb k = Some a" "live K a = Some k" "dropWhile (\<lambda>p. fst p \<noteq> k) (stl_entries K tb) = drop i (stl_entries K tb)"
proof -
  obtain es where es: "tb = nodes_of es" "held K es" "distinct (map fst es)" "stl_es K tb = es" by (rule stl_inv_obtain [OF assms(1)])
  show thesis
  proof (cases "map_of es k")
    case None
    have "dropWhile (\<lambda>p. fst p \<noteq> k) (stl_entries K tb) = []"
      using None by (force simp: stl_entries_def es(4) dropWhile_eq_Nil_conv map_of_eq_None_iff)
    then show thesis using None find_nodes(1) [OF assms(2,3) es(2) None] es(1,4)
      by (intro none) (simp_all add: stl_entries_def stl_kptr_def map_of_vals)
  next
    case (Some x)
    obtain a v where x: "x = (a, v)" by fastforce
    obtain es1 es2 where s: "es = es1 @ (k, a, v) # es2" "map_of es1 k = None" using map_of_split [OF Some] x by blast
    have n: "\<forall>e\<in>set es1. fst e \<noteq> k" using s(2) by (auto simp: map_of_eq_None_iff)
    have "nodes_of es ! length es1 = (key_of a k, v)" unfolding s(1) by (simp add: nth_append)
    moreover have "dropWhile (\<lambda>p. fst p \<noteq> k) (stl_entries K tb) = drop (length es1) (stl_entries K tb)"
      unfolding stl_entries_def es(4) s(1) using n
      by (subst map_append, subst dropWhile_append2) (auto simp: case_prod_beta)
    moreover have "map_of (stl_entries K tb) k = Some v" "stl_kptr K tb k = Some a"
      using Some unfolding x stl_entries_def stl_kptr_def es(4) map_of_vals by simp_all
    ultimately show thesis using Some x s(1) find_nodes(2) [OF assms(2,3) es(2) [unfolded s(1)] s(2)] es
      by (intro found [of "length es1" a v]) simp_all
  qed
qed

text \<open>The strings that are looked for: the caller's, and a copy that has just been made.\<close>

lemma Wrap_key: "\<exists>q. Wrap K (Some k) = Inr q \<and> cstr_at K (s_value q) = Inr k \<and> s_hash q = SDBMHash k"
  by (simp add: Wrap_def set_string_value_def cstr_at_def)

lemma Copy_key [simp]: "Copy K (Some k) = Inr (key_of (length K) k, K @ [Some k])"
  by (simp add: Copy_def set_string_value_def cstr_at_def at_addr_def key_of_def String_ctor_def)

lemma key_of_sel [simp]: "s_hash (key_of a k) = SDBMHash k" "cstr_at K (s_value (key_of a k)) = at_addr K a"
  by (simp_all add: key_of_def cstr_at_def)

section \<open>What the operations do to a table\<close>

lemma stl_distinct: "stl_inv K tb \<Longrightarrow> distinct (map fst (stl_entries K tb))"
  by (simp add: stl_inv_def stl_entries_def o_def case_prod_beta)

lemma stl_kptr_dom: "dom (stl_kptr K tb) = dom (map_of (stl_entries K tb))"
  by (auto simp: stl_kptr_def stl_entries_def map_of_vals dom_def)

lemma stl_kptr_live: "stl_inv K tb \<Longrightarrow> stl_kptr K tb k = Some a \<Longrightarrow> live K a = Some k"
  by (auto simp: stl_inv_def stl_kptr_def dest!: map_of_SomeD intro: heldD)

lemma stl_frame:
  assumes "stl_inv K tb" "\<And>k a. stl_kptr K tb k = Some a \<Longrightarrow> live K' a = Some k"
  shows "stl_inv K' tb" "stl_entries K' tb = stl_entries K tb" "stl_kptr K' tb = stl_kptr K tb"
proof -
  obtain es where es: "tb = nodes_of es" "held K es" "distinct (map fst es)" "stl_es K tb = es" by (rule stl_inv_obtain [OF assms(1)])
  have "live K' a = Some k" if "(k, a, v) \<in> set es" for k a v
    by (rule assms(2)) (use map_of_is_SomeI [OF es(3) that] in \<open>simp add: stl_kptr_def es(4)\<close>)
  then have "held K' es" by (rule heldI)
  then have "stl_es K' tb = es" unfolding es(1) by (rule stl_es_nodes)
  then show "stl_inv K' tb" "stl_entries K' tb = stl_entries K tb" "stl_kptr K' tb = stl_kptr K tb"
    using es \<open>held K' es\<close> by (simp_all add: stl_inv_def stl_entries_def stl_kptr_def)
qed

lemma stl_insert:
  assumes "stl_inv K tb" "map_of (stl_entries K tb) k = None" "mset tb' = mset ((key_of (length K) k, v) # tb)"
  shows "stl_inv (K @ [Some k]) tb' \<and> map_of (stl_entries (K @ [Some k]) tb') = (map_of (stl_entries K tb))(k \<mapsto> v) \<and>
    stl_kptr (K @ [Some k]) tb' = (stl_kptr K tb)(k \<mapsto> length K)"
proof -
  obtain es where es: "tb = nodes_of es" "held K es" "distinct (map fst es)" "stl_es K tb = es" by (rule stl_inv_obtain [OF assms(1)])
  have h: "held (K @ [Some k]) ((k, length K, v) # es)" using heldD [OF es(2)] live_length by (fastforce intro!: heldI)
  have "map_of es k = None" using assms(2) by (simp add: stl_entries_def es(4) map_of_vals)
  then have d: "distinct (map fst ((k, length K, v) # es))" using es(3) by (simp add: map_of_eq_None_iff)
  have "mset tb' = mset (nodes_of ((k, length K, v) # es))" using assms(3) es(1) by simp
  from stl_nodes [OF h d this] show ?thesis by (auto simp: stl_entries_def stl_kptr_def es(4) map_of_vals fun_eq_iff)
qed

text \<open>One node changed or removed, given by its position.\<close>

lemma stl_split:
  assumes "stl_inv K tb" "i < length tb" "tb ! i = (key_of a k, v)" "live K a = Some k"
  obtains es1 es2 where "tb = nodes_of (es1 @ (k, a, v) # es2)" "length es1 = i" "held K (es1 @ (k, a, v) # es2)"
    "distinct (map fst (es1 @ (k, a, v) # es2))" "stl_es K tb = es1 @ (k, a, v) # es2"
proof -
  obtain es where es: "tb = nodes_of es" "held K es" "distinct (map fst es)" "stl_es K tb = es" by (rule stl_inv_obtain [OF assms(1)])
  obtain k' a' v' where e: "es ! i = (k', a', v')" by (cases "es ! i") auto
  have i: "i < length es" using assms(2) es(1) by simp
  then have "(k', a', v') \<in> set es" using e nth_mem by metis
  then have "live K a' = Some k'" by (rule heldD [OF es(2)])
  moreover have "key_of a' k' = key_of a k" "v' = v" using assms(3) i e by (simp_all add: es(1) nodes_of_def)
  ultimately have "es ! i = (k, a, v)" using e assms(4) by (simp add: key_of_def)
  then have "es = take i es @ (k, a, v) # drop (Suc i) es" using id_take_nth_drop [OF i] by simp
  then show thesis using es i by (intro that [of "take i es" "drop (Suc i) es"]) simp_all
qed

lemma stl_update:
  assumes "stl_inv K tb" "i < length tb" "tb ! i = (key_of a k, v)" "live K a = Some k" "mset tb' = mset (tb[i := (fst (tb ! i), x)])"
  shows "stl_inv K tb' \<and> map_of (stl_entries K tb') = (map_of (stl_entries K tb))(k \<mapsto> x) \<and> stl_kptr K tb' = stl_kptr K tb"
proof -
  obtain es1 es2 where es: "tb = nodes_of (es1 @ (k, a, v) # es2)" "length es1 = i" "held K (es1 @ (k, a, v) # es2)"
      "distinct (map fst (es1 @ (k, a, v) # es2))" "stl_es K tb = es1 @ (k, a, v) # es2"
    by (rule stl_split [OF assms(1-4)])
  have "tb[i := (fst (tb ! i), x)] = nodes_of (es1 @ (k, a, x) # es2)"
    unfolding assms(3) using es(2) by (simp add: es(1) list_update_append)
  then have m: "mset tb' = mset (nodes_of (es1 @ (k, a, x) # es2))" using assms(5) by simp
  have n: "map_of es1 k = None" using es(4) by (auto simp: map_of_eq_None_iff)
  have "held K (es1 @ (k, a, x) # es2)" "distinct (map fst (es1 @ (k, a, x) # es2))" using es(3,4) by simp_all
  from stl_nodes [OF this m] show ?thesis
    using n by (auto simp: stl_entries_def stl_kptr_def es(5) map_of_vals fun_eq_iff map_add_def split: option.split)
qed

lemma stl_remove:
  assumes "stl_inv K tb" "i < length tb" "tb ! i = (key_of a k, v)" "live K a = Some k" "mset tb' = mset (erase_node tb i)"
  shows "stl_inv (K[a := None]) tb' \<and> map_of (stl_entries (K[a := None]) tb') = (map_of (stl_entries K tb))(k := None) \<and>
    stl_kptr (K[a := None]) tb' = (stl_kptr K tb)(k := None)"
proof -
  obtain es1 es2 where es: "tb = nodes_of (es1 @ (k, a, v) # es2)" "length es1 = i" "held K (es1 @ (k, a, v) # es2)"
      "distinct (map fst (es1 @ (k, a, v) # es2))" "stl_es K tb = es1 @ (k, a, v) # es2"
    by (rule stl_split [OF assms(1-4)])
  have "erase_node tb i = nodes_of (es1 @ es2)" using es(2) by (simp add: es(1) erase_node_def)
  then have m: "mset tb' = mset (nodes_of (es1 @ es2))" using assms(5) by simp
  have n: "map_of es1 k = None" "map_of es2 k = None" using es(4) by (auto simp: map_of_eq_None_iff)
  have h: "held K (es1 @ es2)" using es(3) by simp
  have "held (K[a := None]) (es1 @ es2)"
  proof (rule heldI)
    fix k' b w assume e: "(k', b, w) \<in> set (es1 @ es2)"
    then have "k' \<in> set (map fst (es1 @ es2))" by force
    then have "k' \<noteq> k" using es(4) by auto
    then have "b \<noteq> a" using heldD [OF h e] assms(4) by auto
    then show "live (K[a := None]) b = Some k'" using heldD [OF h e] live_length [OF assms(4)] by (simp add: live_update)
  qed
  moreover have "distinct (map fst (es1 @ es2))" using es(4) by simp
  ultimately show ?thesis using stl_nodes [OF _ _ m] n
    by (auto simp: stl_entries_def stl_kptr_def es(5) map_of_vals fun_eq_iff map_add_def split: option.split)
qed

lemma node_texts_nodes: "held K es \<Longrightarrow> node_texts K (nodes_of es) = Inr (map (\<lambda>(k, a, v). (k, v)) es)"
  by (induction es) (auto simp: at_addr_live)

lemma stl_texts: "stl_inv K tb \<Longrightarrow> node_texts K (take n (drop i tb)) = Inr (take n (drop i (stl_entries K tb)))"
proof -
  assume "stl_inv K tb"
  then obtain es where es: "tb = nodes_of es" "held K es" "stl_es K tb = es" by (rule stl_inv_obtain)
  have "take n (drop i tb) = nodes_of (take n (drop i es))" by (simp add: es(1) nodes_of_def take_map drop_map)
  moreover have "held K (take n (drop i es))" using heldD [OF es(2)] by (intro heldI) (blast dest: in_set_takeD in_set_dropD)
  ultimately show ?thesis using node_texts_nodes by (simp add: stl_entries_def es(3) take_map drop_map)
qed

section \<open>It is a table of strings\<close>

text \<open>The table meets the interface, however the map orders its nodes.\<close>

lemma rehash_mset: "mset (rehash ord tb) = mset tb"
  by (simp add: rehash_def)

lemma Stl_Insert_ok:
  assumes "stl_inv K tb"
  shows "\<exists>tb'. Stl_Insert ord K tb (Some k) v = Inr (map_of (stl_entries K tb) k = None, tb', K @ [Some k]) \<and> stl_inv (K @ [Some k]) tb' \<and>
    map_of (stl_entries (K @ [Some k]) tb') =
      (if map_of (stl_entries K tb) k = None then (map_of (stl_entries K tb))(k \<mapsto> v) else map_of (stl_entries K tb)) \<and>
    stl_kptr (K @ [Some k]) tb' = (if map_of (stl_entries K tb) k = None then (stl_kptr K tb)(k \<mapsto> length K) else stl_kptr K tb)"
proof -
  let ?K = "K @ [Some k]" and ?q = "key_of (length K) k"
  have fr: "stl_inv ?K tb" "stl_entries ?K tb = stl_entries K tb" "stl_kptr ?K tb = stl_kptr K tb"
    using stl_frame [OF assms, of ?K] stl_kptr_live [OF assms] live_length by fastforce+
  have q: "cstr_at ?K (s_value ?q) = Inr k" by (simp add: at_addr_def)
  show ?thesis
  proof (rule stl_find [OF fr(1) q key_of_sel(1)], goal_cases)
    case 1
    then have n: "map_of (stl_entries K tb) k = None" using fr by simp
    show ?thesis using stl_insert [OF assms n rehash_mset [of ord]] n 1(3)
      by (intro exI [of _ "rehash ord ((?q, v) # tb)"]) (simp add: Stl_Insert_def)
  next
    case (2 i a w)
    then show ?thesis using fr by (intro exI [of _ tb]) (simp add: Stl_Insert_def)
  qed
qed

lemma Stl_Update_ok:
  assumes "stl_inv K tb"
  shows "\<exists>tb'. Stl_Update K tb (Some k) v = Inr (map_of (stl_entries K tb) k, tb') \<and> stl_inv K tb' \<and>
    map_of (stl_entries K tb') = (if map_of (stl_entries K tb) k = None then map_of (stl_entries K tb) else (map_of (stl_entries K tb))(k \<mapsto> v)) \<and>
    stl_kptr K tb' = stl_kptr K tb"
proof -
  obtain q where q: "Wrap K (Some k) = Inr q" "cstr_at K (s_value q) = Inr k" "s_hash q = SDBMHash k" using Wrap_key by blast
  show ?thesis
  proof (rule stl_find [OF assms q(2,3)], goal_cases)
    case 1
    then show ?thesis using assms q(1) by (intro exI [of _ tb]) (simp add: Stl_Update_def)
  next
    case (2 i a w)
    then show ?thesis using stl_update [OF assms 2(1,2,6) refl, of v] q(1)
      by (intro exI [of _ "tb[i := (fst (tb ! i), v)]"]) (simp add: Stl_Update_def)
  qed
qed

lemma Stl_Remove_ok:
  assumes "stl_inv K tb" "K' = (case stl_kptr K tb k of None \<Rightarrow> K | Some a \<Rightarrow> K[a := None])"
  shows "\<exists>tb'. Stl_Remove K tb (Some k) = Inr (map_of (stl_entries K tb) k, tb', K') \<and> stl_inv K' tb' \<and>
    map_of (stl_entries K' tb') = (map_of (stl_entries K tb))(k := None) \<and> stl_kptr K' tb' = (stl_kptr K tb)(k := None)"
proof -
  obtain q where q: "Wrap K (Some k) = Inr q" "cstr_at K (s_value q) = Inr k" "s_hash q = SDBMHash k" using Wrap_key by blast
  show ?thesis
  proof (rule stl_find [OF assms(1) q(2,3)], goal_cases)
    case 1
    then show ?thesis using assms q(1) by (intro exI [of _ tb]) (simp add: Stl_Remove_def fun_upd_idem)
  next
    case (2 i a w)
    then have "String_Free K (fst (tb ! i)) = Inr K'" using assms(2) by (simp add: String_Free_def key_of_def at_addr_live)
    then show ?thesis using stl_remove [OF assms(1) 2(1,2,6) refl] q(1) 2 assms(2)
      by (intro exI [of _ "erase_node tb i"]) (simp add: Stl_Remove_def)
  qed
qed

lemma Stl_Get_ok: "stl_inv K tb \<Longrightarrow> Stl_Get K tb (Some k) = Inr (map_of (stl_entries K tb) k)"
proof -
  assume i: "stl_inv K tb"
  obtain q where q: "Wrap K (Some k) = Inr q" "cstr_at K (s_value q) = Inr k" "s_hash q = SDBMHash k" using Wrap_key by blast
  show ?thesis by (rule stl_find [OF i q(2,3)]) (simp_all add: Stl_Get_def q(1))
qed

lemma Stl_Entries_ok:
  assumes "stl_inv K tb"
  shows "Stl_Entries K tb None n = Inr (take n (stl_entries K tb))"
    "Stl_Entries K tb (Some k) n = Inr (take n (dropWhile (\<lambda>p. fst p \<noteq> k) (stl_entries K tb)))"
proof -
  show "Stl_Entries K tb None n = Inr (take n (stl_entries K tb))" using stl_texts [OF assms, of n 0] by (simp add: Stl_Entries_def)
  obtain q where q: "Wrap K (Some k) = Inr q" "cstr_at K (s_value q) = Inr k" "s_hash q = SDBMHash k" using Wrap_key by blast
  show "Stl_Entries K tb (Some k) n = Inr (take n (dropWhile (\<lambda>p. fst p \<noteq> k) (stl_entries K tb)))"
    by (rule stl_find [OF assms q(2,3)]) (simp_all add: Stl_Entries_def q(1) stl_texts [OF assms])
qed

interpretation lock_stl: string_hashtable "LockStlHashtable ord" stl_inv stl_entries stl_kptr for ord
proof (unfold_locales, goal_cases)
  case 1 then show ?case by (simp add: LockStlHashtable_def stl_inv_def stl_es_def)
next
  case 2 then show ?case by (simp add: LockStlHashtable_def stl_entries_def stl_es_def)
next
  case 3 then show ?case by (rule stl_distinct)
next
  case 4 then show ?case by (simp only: stl_kptr_dom)
next
  case 5 then show ?case by (rule stl_kptr_live)
next
  case 6 then show ?case using stl_frame by blast
next
  case 7 then show ?case by (simp add: LockStlHashtable_def Stl_Get_ok)
next
  case (8 K t k v) then show ?case using Stl_Insert_ok [OF 8, of ord k v] by (simp add: LockStlHashtable_def)
next
  case (9 K t k v) then show ?case using Stl_Update_ok [OF 9, of k v] by (simp add: LockStlHashtable_def)
next
  case (10 K t K' k) then show ?case using Stl_Remove_ok [OF 10] by (simp add: LockStlHashtable_def)
next
  case 11 then show ?case by (simp add: LockStlHashtable_def Stl_Entries_ok)
next
  case 12 then show ?case by (simp add: LockStlHashtable_def Stl_Entries_ok)
qed

end
