(* ===== verification/HashtableDb.thy ===== *)
theory HashtableDb
  imports StlTable Workload
begin

text \<open>
  The database on string-keyed hash tables, \<^verbatim>\<open>db/hashtable_db.cc\<close>, with the virtual functions that
  \<^verbatim>\<open>db/lock_stl_db.h\<close> gives it. A table of records holds pointers to tables of fields, which hold pointers to
  C strings: pointers are addresses in two heaps, where \<open>None\<close> is what has been deleted. A third heap is the
  one of the copies of keys that all the tables keep. The operations of the tables are an argument. Allocations are taken to
  succeed.
\<close>

section \<open>State\<close>

record 't hdb =
  key_table :: 't
  tabs :: "'t option list"
  strs :: "string option list"
  keys :: keyheap

definition LockStlDB_ctor :: "('t, nat) hashtable_ops \<Rightarrow> 't hdb" where
  "LockStlDB_ctor H = \<lparr>key_table = ht_new H, tabs = [], strs = [], keys = []\<rparr>"

definition NewFieldHashtable :: "('t, nat) hashtable_ops \<Rightarrow> 't hdb \<Rightarrow> nat \<times> 't hdb" where
  "NewFieldHashtable H db = (length (tabs db), db\<lparr>tabs := tabs db @ [Some (ht_new H)]\<rparr>)"

definition CopyString :: "'t hdb \<Rightarrow> string \<Rightarrow> nat \<times> 't hdb" where
  "CopyString db str = (length (strs db), db\<lparr>strs := strs db @ [Some (c_str str)]\<rparr>)"

definition DeleteString :: "'t hdb \<Rightarrow> nat \<Rightarrow> 't hdb res" where
  "DeleteString db a = bindR (at_addr (strs db) a) (\<lambda>_. Inr (db\<lparr>strs := (strs db)[a := None]\<rparr>))"

fun delete_strings :: "'t hdb \<Rightarrow> (string \<times> nat) list \<Rightarrow> 't hdb res" where
  "delete_strings db [] = Inr db"
| "delete_strings db ((_, a) # pairs) = bindR (DeleteString db a) (\<lambda>db. delete_strings db pairs)"

text \<open>The default number of entries, \<^verbatim>\<open>-1\<close> as a \<^verbatim>\<open>size_t\<close>.\<close>

abbreviation (input) npos :: nat where "npos \<equiv> 2 ^ 64 - 1"

definition DeleteFieldHashtable :: "('t, nat) hashtable_ops \<Rightarrow> 't hdb \<Rightarrow> nat \<Rightarrow> 't hdb res" where
  "DeleteFieldHashtable H db a =
     bindR (at_addr (tabs db) a) (\<lambda>t.
     bindR (ht_Entries H (keys db) t None npos) (\<lambda>pairs.
     bindR (delete_strings db pairs) (\<lambda>db.
     Inr (db\<lparr>tabs := (tabs db)[a := None]\<rparr>))))"

fun delete_tables :: "('t, nat) hashtable_ops \<Rightarrow> 't hdb \<Rightarrow> (string \<times> nat) list \<Rightarrow> 't hdb res" where
  "delete_tables H db [] = Inr db"
| "delete_tables H db ((_, a) # pairs) = bindR (DeleteFieldHashtable H db a) (\<lambda>db. delete_tables H db pairs)"

text \<open>The destructor; the table of records is gone after it, the heaps remain. Neither it nor \<^verbatim>\<open>delete table\<close> frees the
  copies of keys: \<^verbatim>\<open>~StringHashtable\<close> has an empty body and \<^verbatim>\<open>String\<close> no destructor.\<close>

definition LockStlDB_dtor :: "('t, nat) hashtable_ops \<Rightarrow> 't hdb \<Rightarrow> ('t option list \<times> string option list \<times> keyheap) res" where
  "LockStlDB_dtor H db =
     bindR (ht_Entries H (keys db) (key_table db) None npos) (\<lambda>key_pairs.
     bindR (delete_tables H db key_pairs) (\<lambda>db. Inr (tabs db, strs db, keys db)))"

section \<open>Reading\<close>

text \<open>\<^verbatim>\<open>make_pair(field_pair.first, field_pair.second)\<close> makes strings of the C strings.\<close>

fun entry_values :: "'t hdb \<Rightarrow> (string \<times> nat) list \<Rightarrow> kvpair list res" where
  "entry_values db [] = Inr []"
| "entry_values db ((f, a) # pairs) =
     bindR (at_addr (strs db) a) (\<lambda>v. bindR (entry_values db pairs) (\<lambda>r. Inr ((f, v) # r)))"

fun field_values :: "('t, nat) hashtable_ops \<Rightarrow> 't hdb \<Rightarrow> 't \<Rightarrow> string list \<Rightarrow> kvpair list res" where
  "field_values H db t [] = Inr []"
| "field_values H db t (f # flds) =
     bindR (ht_Get H (keys db) t (Some (c_str f))) (\<lambda>p.
     case p of None \<Rightarrow> field_values H db t flds
     | Some a \<Rightarrow> bindR (at_addr (strs db) a) (\<lambda>v. bindR (field_values H db t flds) (\<lambda>r. Inr ((f, v) # r))))"

definition record_values :: "('t, nat) hashtable_ops \<Rightarrow> 't hdb \<Rightarrow> nat \<Rightarrow> string list option \<Rightarrow> kvpair list res" where
  "record_values H db a flds =
     bindR (at_addr (tabs db) a) (\<lambda>t.
     case flds of None \<Rightarrow> bindR (ht_Entries H (keys db) t None npos) (entry_values db) | Some fs \<Rightarrow> field_values H db t fs)"

definition Hashtable_Read ::
  "('t, nat) hashtable_ops \<Rightarrow> 't hdb \<Rightarrow> string \<Rightarrow> string \<Rightarrow> string list option \<Rightarrow> kvpair list \<Rightarrow> (int \<times> kvpair list) res" where
  "Hashtable_Read H db table key flds result =
     (let key_index = table @ key in
      bindR (ht_Get H (keys db) (key_table db) (Some (c_str key_index))) (\<lambda>field_table.
      case field_table of None \<Rightarrow> Inr (kErrorNoData, result)
      | Some a \<Rightarrow> bindR (record_values H db a flds) (\<lambda>result. Inr (kOK, result))))"

fun scan_records :: "('t, nat) hashtable_ops \<Rightarrow> 't hdb \<Rightarrow> (string \<times> nat) list \<Rightarrow> string list option \<Rightarrow> kvpair list list res" where
  "scan_records H db [] flds = Inr []"
| "scan_records H db ((_, a) # key_pairs) flds =
     bindR (record_values H db a flds) (\<lambda>r. bindR (scan_records H db key_pairs flds) (\<lambda>rs. Inr (r # rs)))"

definition Hashtable_Scan ::
  "('t, nat) hashtable_ops \<Rightarrow> 't hdb \<Rightarrow> string \<Rightarrow> string \<Rightarrow> int \<Rightarrow> string list option \<Rightarrow> kvpair list list \<Rightarrow> (int \<times> kvpair list list) res" where
  "Hashtable_Scan H db table key len flds result =
     (let key_index = table @ key in
      bindR (ht_Entries H (keys db) (key_table db) (Some (c_str key_index)) (nat (uint64 len))) (\<lambda>key_pairs.
      bindR (scan_records H db key_pairs flds) (\<lambda>result. Inr (kOK, result))))"

section \<open>Writing\<close>

text \<open>The table of fields is changed where it stands.\<close>

definition set_tab :: "'t hdb \<Rightarrow> nat \<Rightarrow> 't \<Rightarrow> 't hdb" where
  "set_tab db a t = db\<lparr>tabs := (tabs db)[a := Some t]\<rparr>"

definition insert_field :: "('t, nat) hashtable_ops \<Rightarrow> 't hdb \<Rightarrow> nat \<Rightarrow> string \<Rightarrow> nat \<Rightarrow> (bool \<times> 't hdb) res" where
  "insert_field H db a f v =
     bindR (at_addr (tabs db) a) (\<lambda>t. bindR (ht_Insert H (keys db) t (Some (c_str f)) v) (\<lambda>(ok, t, K).
     Inr (ok, (set_tab db a t)\<lparr>keys := K\<rparr>)))"

definition update_field :: "('t, nat) hashtable_ops \<Rightarrow> 't hdb \<Rightarrow> nat \<Rightarrow> string \<Rightarrow> nat \<Rightarrow> (nat option \<times> 't hdb) res" where
  "update_field H db a f v =
     bindR (at_addr (tabs db) a) (\<lambda>t. bindR (ht_Update H (keys db) t (Some (c_str f)) v) (\<lambda>(old, t). Inr (old, set_tab db a t)))"

text \<open>The loop of \<^verbatim>\<open>Update\<close> for a new record: the results of the insertions are dropped.\<close>

fun fill_fields :: "('t, nat) hashtable_ops \<Rightarrow> 't hdb \<Rightarrow> nat \<Rightarrow> kvpair list \<Rightarrow> 't hdb res" where
  "fill_fields H db a [] = Inr db"
| "fill_fields H db a ((f, v) # values) =
     (let (value, db) = CopyString db v in
      bindR (insert_field H db a f value) (\<lambda>(_, db). fill_fields H db a values))"

fun update_fields :: "('t, nat) hashtable_ops \<Rightarrow> 't hdb \<Rightarrow> nat \<Rightarrow> kvpair list \<Rightarrow> 't hdb res" where
  "update_fields H db a [] = Inr db"
| "update_fields H db a ((f, v) # values) =
     (let (value, db) = CopyString db v in
      bindR (update_field H db a f value) (\<lambda>(old, db).
      bindR (case old of None \<Rightarrow> bindR (insert_field H db a f value) (\<lambda>(_, db). Inr db) | Some s \<Rightarrow> DeleteString db s) (\<lambda>db.
      update_fields H db a values)))"

text \<open>\<^verbatim>\<open>NewFieldHashtable\<close>, entered into the table of records.\<close>

definition new_record :: "('t, nat) hashtable_ops \<Rightarrow> 't hdb \<Rightarrow> string \<Rightarrow> (nat \<times> 't hdb) res" where
  "new_record H db key_index =
     (let (a, db) = NewFieldHashtable H db in
      bindR (ht_Insert H (keys db) (key_table db) (Some (c_str key_index)) a) (\<lambda>(_, t, K).
      Inr (a, db\<lparr>key_table := t, keys := K\<rparr>)))"

definition Hashtable_Update :: "('t, nat) hashtable_ops \<Rightarrow> 't hdb \<Rightarrow> string \<Rightarrow> string \<Rightarrow> kvpair list \<Rightarrow> (int \<times> 't hdb) res" where
  "Hashtable_Update H db table key values =
     (let key_index = table @ key in
      bindR (ht_Get H (keys db) (key_table db) (Some (c_str key_index))) (\<lambda>field_table.
      bindR (case field_table of
               None \<Rightarrow> bindR (new_record H db key_index) (\<lambda>(a, db). fill_fields H db a values)
             | Some a \<Rightarrow> update_fields H db a values) (\<lambda>db.
      Inr (kOK, db))))"

fun insert_fields :: "('t, nat) hashtable_ops \<Rightarrow> 't hdb \<Rightarrow> nat \<Rightarrow> kvpair list \<Rightarrow> (int \<times> 't hdb) res" where
  "insert_fields H db a [] = Inr (kOK, db)"
| "insert_fields H db a ((f, v) # values) =
     (let (value, db) = CopyString db v in
      bindR (insert_field H db a f value) (\<lambda>(ok, db).
      if \<not> ok then bindR (DeleteString db value) (\<lambda>db. Inr (kErrorConflict, db)) else insert_fields H db a values))"

definition Hashtable_Insert :: "('t, nat) hashtable_ops \<Rightarrow> 't hdb \<Rightarrow> string \<Rightarrow> string \<Rightarrow> kvpair list \<Rightarrow> (int \<times> 't hdb) res" where
  "Hashtable_Insert H db table key values =
     (let key_index = table @ key in
      bindR (ht_Get H (keys db) (key_table db) (Some (c_str key_index))) (\<lambda>field_table.
      bindR (case field_table of None \<Rightarrow> new_record H db key_index | Some a \<Rightarrow> Inr (a, db)) (\<lambda>(a, db).
      insert_fields H db a values)))"

definition Hashtable_Delete :: "('t, nat) hashtable_ops \<Rightarrow> 't hdb \<Rightarrow> string \<Rightarrow> string \<Rightarrow> (int \<times> 't hdb) res" where
  "Hashtable_Delete H db table key =
     (let key_index = table @ key in
      bindR (ht_Remove H (keys db) (key_table db) (Some (c_str key_index))) (\<lambda>(field_table, t, K).
      let db = db\<lparr>key_table := t, keys := K\<rparr> in
      case field_table of None \<Rightarrow> Inr (kErrorNoData, db)
      | Some a \<Rightarrow> bindR (DeleteFieldHashtable H db a) (\<lambda>db. Inr (kOK, db))))"

text \<open>The virtual functions, as the benchmark calls them.\<close>

definition hashtable_db_ops :: "('t, nat) hashtable_ops \<Rightarrow> 't hdb db_ops" where
  "hashtable_db_ops H =
     \<lparr>db_Read = (\<lambda>db table k flds result. lift (bindR (Hashtable_Read H db table k flds result) (\<lambda>(s, r). Inr (s, r, db)))),
      db_Scan = (\<lambda>db table k n flds result. lift (bindR (Hashtable_Scan H db table k n flds result) (\<lambda>(s, r). Inr (s, r, db)))),
      db_Update = (\<lambda>db table k vs. lift (Hashtable_Update H db table k vs)),
      db_Insert = (\<lambda>db table k vs. lift (Hashtable_Insert H db table k vs)),
      db_Delete = (\<lambda>db table k. lift (Hashtable_Delete H db table k))\<rparr>"

end
