(* ===== verification/HashtableDbContract.thy ===== *)
theory HashtableDbContract
  imports HashtableDb
begin

text \<open>
  Ownership in the hash table database: every table of fields belongs to one record, every string to one
  field, and what is not owned is deleted; every copy of a key that a table holds is a live block that no other table holds.
  Under it each operation acts on the map from keys to records, and the destructor releases tables and strings, but not the copies
  of keys. Proved once over the interface \<open>string_hashtable\<close>.
\<close>

section \<open>Heaps\<close>

lemma live_mono: "live h a = Some x \<Longrightarrow> live (h @ ys) a = Some x"
  by (auto simp: live_def nth_append split: if_splits)

lemma card_live: "card (dom (live h)) \<le> length h"
  by (rule order_trans [OF card_mono [of "{..<length h}"]]) (auto simp: live_def split: if_splits)

lemma live_empty: "live h = Map.empty \<Longrightarrow> set h \<subseteq> {None}"
  by (auto simp: live_def fun_eq_iff in_set_conv_nth split: if_splits)

lemma finite_live [simp]: "finite (dom (live h))"
  by (rule finite_subset [of _ "{..<length h}"]) (auto simp: live_def split: if_splits)

section \<open>Owners\<close>

text \<open>Every address of \<open>S\<close> has exactly one owner.\<close>

definition owned :: "('k \<rightharpoonup> nat) \<Rightarrow> (nat \<rightharpoonup> 'a) \<Rightarrow> bool" where
  "owned P S \<longleftrightarrow> inj_on P (dom P) \<and> ran P = dom S"

lemma owned_live: "owned P S \<Longrightarrow> P k = Some a \<Longrightarrow> \<exists>x. S a = Some x"
  by (auto simp: owned_def ran_def dom_def)

lemma owned_unique: "owned P S \<Longrightarrow> P k = Some a \<Longrightarrow> P k' = Some a \<Longrightarrow> k = k'"
  by (auto simp: owned_def inj_on_def dom_def)

lemma owned_empty [simp]: "owned Map.empty S \<longleftrightarrow> S = Map.empty"
  by (auto simp: owned_def)

lemma owned_owner: "owned P S \<Longrightarrow> S a = Some x \<Longrightarrow> \<exists>k. P k = Some a"
  by (auto simp: owned_def ran_def dom_def)

lemma ownedI:
  assumes "\<And>k a. P k = Some a \<Longrightarrow> \<exists>x. S a = Some x" "\<And>a x. S a = Some x \<Longrightarrow> \<exists>k. P k = Some a"
    "\<And>k k' a. P k = Some a \<Longrightarrow> P k' = Some a \<Longrightarrow> k = k'"
  shows "owned P S"
proof -
  have "inj_on P (dom P)"
  proof (rule inj_onI)
    fix k k' assume "k \<in> dom P" "k' \<in> dom P" "P k = P k'"
    then show "k = k'" using assms(3) [of k _ k'] by (auto simp: dom_def)
  qed
  moreover have "ran P = dom S"
  proof (rule set_eqI)
    fix a show "a \<in> ran P \<longleftrightarrow> a \<in> dom S" using assms(1) [of _ a] assms(2) [of a] by (auto simp: ran_def dom_def)
  qed
  ultimately show ?thesis by (simp add: owned_def)
qed

lemma owned_cong: "owned P S \<Longrightarrow> dom S' = dom S \<Longrightarrow> owned P S'"
  by (simp add: owned_def)

text \<open>A new owner of a fresh address; a new address for an owner; an owner that goes with its address.\<close>

lemma owned_new:
  assumes "owned P S" "P k = None" "S a = None"
  shows "owned (P(k \<mapsto> a)) (S(a \<mapsto> x))" "map_comp (S(a \<mapsto> x)) (P(k \<mapsto> a)) = (map_comp S P)(k \<mapsto> x)"
proof -
  have f: "P k' \<noteq> Some a" for k' using owned_live [OF assms(1)] assms(3) by fastforce
  show "owned (P(k \<mapsto> a)) (S(a \<mapsto> x))"
  proof (rule ownedI)
    fix k' b assume "(P(k \<mapsto> a)) k' = Some b"
    then show "\<exists>y. (S(a \<mapsto> x)) b = Some y" using owned_live [OF assms(1), of k' b] by (auto split: if_splits)
  next
    fix b y assume "(S(a \<mapsto> x)) b = Some y"
    then consider "b = a" | k' where "P k' = Some b" using owned_owner [OF assms(1), of b y] by (auto split: if_splits)
    then show "\<exists>k'. (P(k \<mapsto> a)) k' = Some b"
    proof cases
      case 1 then show ?thesis by (intro exI [of _ k]) simp
    next
      case 2 then show ?thesis using assms(2) by (intro exI [of _ k']) auto
    qed
  next
    fix k1 k2 b assume "(P(k \<mapsto> a)) k1 = Some b" "(P(k \<mapsto> a)) k2 = Some b"
    then show "k1 = k2" using owned_unique [OF assms(1), of k1 b k2] f by (auto split: if_splits)
  qed
  show "map_comp (S(a \<mapsto> x)) (P(k \<mapsto> a)) = (map_comp S P)(k \<mapsto> x)"
    using f by (auto simp: map_comp_def fun_eq_iff split: option.splits)
qed

lemma owned_remove:
  assumes "owned P S" "P k = Some a"
  shows "owned (P(k := None)) (S(a := None))" "map_comp (S(a := None)) (P(k := None)) = (map_comp S P)(k := None)"
proof -
  have f: "P k' = Some a \<Longrightarrow> k' = k" for k' using owned_unique [OF assms(1)] assms(2) by blast
  show "owned (P(k := None)) (S(a := None))"
  proof (rule ownedI)
    fix k' b assume "(P(k := None)) k' = Some b"
    then show "\<exists>y. (S(a := None)) b = Some y" using owned_live [OF assms(1), of k' b] f [of k'] by (auto split: if_splits)
  next
    fix b y assume "(S(a := None)) b = Some y"
    then obtain k' where "b \<noteq> a" "P k' = Some b" using owned_owner [OF assms(1), of b y] by (auto split: if_splits)
    then show "\<exists>k'. (P(k := None)) k' = Some b" using assms(2) by (intro exI [of _ k']) auto
  next
    fix k1 k2 b assume "(P(k := None)) k1 = Some b" "(P(k := None)) k2 = Some b"
    then show "k1 = k2" using owned_unique [OF assms(1), of k1 b k2] by (auto split: if_splits)
  qed
  show "map_comp (S(a := None)) (P(k := None)) = (map_comp S P)(k := None)"
    using f by (auto simp: map_comp_def fun_eq_iff split: option.splits)
qed

lemma owned_replace:
  assumes "owned P S" "P k = Some b" "S a = None"
  shows "owned (P(k \<mapsto> a)) (S(a \<mapsto> x, b := None))" "map_comp (S(a \<mapsto> x, b := None)) (P(k \<mapsto> a)) = (map_comp S P)(k \<mapsto> x)"
proof -
  have ne: "a \<noteq> b" using owned_live [OF assms(1,2)] assms(3) by auto
  then have n: "(S(b := None)) a = None" "(P(k := None)) k = None" using assms(3) by simp_all
  have e: "(P(k := None))(k \<mapsto> a) = P(k \<mapsto> a)" "(S(b := None))(a \<mapsto> x) = S(a \<mapsto> x, b := None)" using ne by auto
  show "owned (P(k \<mapsto> a)) (S(a \<mapsto> x, b := None))" "map_comp (S(a \<mapsto> x, b := None)) (P(k \<mapsto> a)) = (map_comp S P)(k \<mapsto> x)"
    using owned_new [OF owned_remove(1) [OF assms(1,2)] n(2,1), of x] unfolding owned_remove(2) [OF assms(1,2)] e by simp_all
qed

text \<open>The addresses in the entries of a table are distinct and live.\<close>

lemma owned_entries:
  assumes "owned P (live h)" "inj g" "distinct (map fst es)" "\<And>k x. map_of es k = Some x \<Longrightarrow> P (g k) = Some x"
  shows "distinct (map snd es)" "length es \<le> length h" "\<forall>x\<in>snd ` set es. live h x \<noteq> None"
proof -
  have P: "P (g k) = Some x" if "(k, x) \<in> set es" for k x using assms(3,4) that by simp
  have "inj_on snd (set es)"
  proof (rule inj_onI)
    fix p q assume p: "p \<in> set es" "q \<in> set es" "snd p = snd q"
    have "P (g (fst p)) = Some (snd p)" using P [of "fst p" "snd p"] p(1) by simp
    moreover have "P (g (fst q)) = Some (snd p)" using P [of "fst q" "snd q"] p(2,3) by simp
    ultimately have "g (fst p) = g (fst q)" by (rule owned_unique [OF assms(1)])
    then show "p = q" using p(3) assms(2) by (auto simp: inj_eq intro: prod_eqI)
  qed
  then show d: "distinct (map snd es)" using assms(3) by (simp add: distinct_map)
  show l: "\<forall>x\<in>snd ` set es. live h x \<noteq> None" using owned_live [OF assms(1) P] by fastforce
  have "length es = card (snd ` set es)" using distinct_card [OF d] by simp
  also have "\<dots> \<le> card (dom (live h))" by (rule card_mono) (use l in \<open>auto simp: domIff\<close>)
  finally show "length es \<le> length h" using card_live [of h] by simp
qed

text \<open>Owners that go with all their addresses.\<close>

lemma owned_restrict:
  assumes "owned P S" "\<And>k a. P k = Some a \<Longrightarrow> a \<in> B \<longleftrightarrow> k \<in> A"
  shows "owned (P |` (- A)) (S |` (- B))" "map_comp (S |` (- B)) (P |` (- A)) = (map_comp S P) |` (- A)"
proof -
  show "owned (P |` (- A)) (S |` (- B))"
  proof (rule ownedI)
    fix k a assume "(P |` (- A)) k = Some a"
    then show "\<exists>x. (S |` (- B)) a = Some x"
      using owned_live [OF assms(1), of k a] assms(2) [of k a] by (auto simp: restrict_map_def split: if_splits)
  next
    fix a x assume "(S |` (- B)) a = Some x"
    then show "\<exists>k. (P |` (- A)) k = Some a"
      using owned_owner [OF assms(1), of a x] assms(2) [of _ a] by (auto simp: restrict_map_def split: if_splits)
  next
    fix k k' a assume "(P |` (- A)) k = Some a" "(P |` (- A)) k' = Some a"
    then show "k = k'" using owned_unique [OF assms(1), of k a k'] by (auto simp: restrict_map_def split: if_splits)
  qed
  show "map_comp (S |` (- B)) (P |` (- A)) = (map_comp S P) |` (- A)"
    using assms(2) by (auto simp: map_comp_def restrict_map_def fun_eq_iff split: option.splits)
qed

section \<open>Blocks that are held once\<close>

definition apart :: "('k \<rightharpoonup> nat) \<Rightarrow> bool" where
  "apart P \<longleftrightarrow> (\<forall>p q b. P p = Some b \<longrightarrow> P q = Some b \<longrightarrow> p = q)"

lemma apart_new: "apart P \<Longrightarrow> (\<And>p. P p \<noteq> Some b) \<Longrightarrow> apart (P(q \<mapsto> b))"
  by (auto simp: apart_def)

lemma apart_less: "apart P \<Longrightarrow> (\<And>p b. P' p = Some b \<Longrightarrow> P p = Some b) \<Longrightarrow> apart P'"
  by (auto simp: apart_def)

section \<open>The database\<close>

text \<open>The pointers of the fields, the blocks of the keys of the table of records and of the tables of fields, the invariant, and the map of
  records.\<close>

definition field_ptr :: "(keyheap \<Rightarrow> 't \<Rightarrow> (string \<times> nat) list) \<Rightarrow> keyheap \<Rightarrow> 't option list \<Rightarrow> nat \<times> string \<rightharpoonup> nat" where
  "field_ptr entries K h = (\<lambda>(a, f). case live h a of None \<Rightarrow> None | Some t \<Rightarrow> map_of (entries K t) f)"

definition key_blocks :: "(keyheap \<Rightarrow> 't \<Rightarrow> string \<rightharpoonup> nat) \<Rightarrow> keyheap \<Rightarrow> 't \<Rightarrow> 't option list \<Rightarrow> nat option \<times> string \<rightharpoonup> nat" where
  "key_blocks kptr K kt h = (\<lambda>(x, k). case x of None \<Rightarrow> kptr K kt k
     | Some a \<Rightarrow> (case live h a of None \<Rightarrow> None | Some t \<Rightarrow> kptr K t k))"

definition hdb_ok ::
  "(keyheap \<Rightarrow> 't \<Rightarrow> bool) \<Rightarrow> (keyheap \<Rightarrow> 't \<Rightarrow> (string \<times> nat) list) \<Rightarrow> (keyheap \<Rightarrow> 't \<Rightarrow> string \<rightharpoonup> nat) \<Rightarrow> 't hdb \<Rightarrow> bool" where
  "hdb_ok tinv entries kptr db \<longleftrightarrow> tinv (keys db) (key_table db) \<and> (\<forall>a t. live (tabs db) a = Some t \<longrightarrow> tinv (keys db) t) \<and>
     owned (map_of (entries (keys db) (key_table db))) (live (tabs db)) \<and>
     owned (field_ptr entries (keys db) (tabs db)) (live (strs db)) \<and> apart (key_blocks kptr (keys db) (key_table db) (tabs db))"

definition contents :: "(keyheap \<Rightarrow> 't \<Rightarrow> (string \<times> nat) list) \<Rightarrow> 't hdb \<Rightarrow> nat \<times> string \<rightharpoonup> string" where
  "contents entries db = map_comp (live (strs db)) (field_ptr entries (keys db) (tabs db))"

definition hdb_record :: "(keyheap \<Rightarrow> 't \<Rightarrow> (string \<times> nat) list) \<Rightarrow> 't hdb \<Rightarrow> string \<Rightarrow> (string \<rightharpoonup> string) option" where
  "hdb_record entries db k = map_option (\<lambda>a f. contents entries db (a, f)) (map_of (entries (keys db) (key_table db)) k)"

text \<open>The same records and tables, with other contents.\<close>

definition same_shape :: "(keyheap \<Rightarrow> 't \<Rightarrow> (string \<times> nat) list) \<Rightarrow> 't hdb \<Rightarrow> 't hdb \<Rightarrow> bool" where
  "same_shape entries db db' \<longleftrightarrow> entries (keys db') (key_table db') = entries (keys db) (key_table db) \<and>
     length (tabs db') = length (tabs db) \<and> dom (live (tabs db')) = dom (live (tabs db))"

lemma same_shape_trans: "same_shape entries db db1 \<Longrightarrow> same_shape entries db1 db2 \<Longrightarrow> same_shape entries db db2"
  by (simp add: same_shape_def)

text \<open>The fields written for the table \<open>a\<close>, and the values as C strings.\<close>

definition at_fields :: "nat \<Rightarrow> kvpair list \<Rightarrow> ((nat \<times> string) \<times> string) list" where
  "at_fields a vs = map (\<lambda>(f, v). ((a, c_str f), c_str v)) vs"

definition c_values :: "kvpair list \<Rightarrow> kvpair list" where
  "c_values vs = map (\<lambda>(f, v). (c_str f, c_str v)) vs"

lemma at_fields_map_of: "map_of (at_fields a vs) (b, f) = (if b = a then map_of (c_values vs) f else None)"
  by (induction vs) (auto simp: at_fields_def c_values_def)

lemma at_fields_fresh: "c_str f \<notin> fst ` set (c_values vs) \<Longrightarrow> (a, c_str f) \<notin> dom (map_of (at_fields a vs))"
  by (auto simp: at_fields_map_of map_of_eq_None_iff domIff)

lemma c_values_Cons [simp]: "c_values [] = []" "c_values ((f, v) # vs) = (c_str f, c_str v) # c_values vs"
  by (simp_all add: c_values_def)

lemma at_fields_Nil [simp]: "at_fields a [] = []"
  by (simp add: at_fields_def)

lemma at_fields_add:
  assumes "c_str f \<notin> fst ` set (c_values vs)"
  shows "m((a, c_str f) \<mapsto> c_str v) ++ map_of (at_fields a vs) = m ++ map_of (at_fields a ((f, v) # vs))"
  using map_add_upd_left [OF at_fields_fresh [OF assms, of a], of m "c_str v"] by (simp add: at_fields_def)

text \<open>The fields of a record, none where there is no record.\<close>

definition fields_of :: "(string \<rightharpoonup> string) option \<Rightarrow> string \<rightharpoonup> string" where
  "fields_of r = (case r of None \<Rightarrow> Map.empty | Some m \<Rightarrow> m)"

lemma fields_of_simps [simp]: "fields_of None = Map.empty" "fields_of (Some m) = m"
  by (simp_all add: fields_of_def)

text \<open>The answer for one record.\<close>

definition answers :: "(string \<rightharpoonup> string) \<Rightarrow> string list option \<Rightarrow> kvpair list \<Rightarrow> bool" where
  "answers m flds r \<longleftrightarrow> (case flds of None \<Rightarrow> distinct (map fst r) \<and> map_of r = m
     | Some fs \<Rightarrow> r = List.map_filter (\<lambda>f. map_option (Pair f) (m (c_str f))) fs)"

section \<open>Its operations\<close>

locale hashtable_db = string_hashtable H inv entries kptr
  for H :: "('t, nat) hashtable_ops" and inv :: "keyheap \<Rightarrow> 't \<Rightarrow> bool" and entries :: "keyheap \<Rightarrow> 't \<Rightarrow> (string \<times> nat) list"
    and kptr :: "keyheap \<Rightarrow> 't \<Rightarrow> string \<rightharpoonup> nat"
begin

text \<open>Blocks of the keys are live, and a longer heap is as good.\<close>

lemma table_inv: "hdb_ok inv entries kptr db \<Longrightarrow> live (tabs db) a = Some t \<Longrightarrow> inv (keys db) t"
  by (auto simp: hdb_ok_def)

lemma key_blocks_live:
  "hdb_ok inv entries kptr db \<Longrightarrow> key_blocks kptr (keys db) (key_table db) (tabs db) (x, k) = Some b \<Longrightarrow> live (keys db) b = Some k"
  by (auto simp: hdb_ok_def key_blocks_def split: option.splits intro: kptr_live)

lemma grow: "inv K t \<Longrightarrow> inv (K @ ks) t \<and> entries (K @ ks) t = entries K t \<and> kptr (K @ ks) t = kptr K t"
  by (rule frame) (auto intro: live_mono kptr_live)

lemma grow_tables:
  assumes "hdb_ok inv entries kptr db"
  shows "field_ptr entries (keys db @ ks) (tabs db) = field_ptr entries (keys db) (tabs db)"
    "key_blocks kptr (keys db @ ks) (key_table db) (tabs db) = key_blocks kptr (keys db) (key_table db) (tabs db)"
  using grow assms by (auto simp: field_ptr_def key_blocks_def hdb_ok_def fun_eq_iff split: option.split)

text \<open>A change of one field of one table, which may take one key block more, and of the strings that the pointers of the fields own.\<close>

lemma put_ok:
  assumes "hdb_ok inv entries kptr db" "live (tabs db) a = Some t" "inv (keys db @ ks) t'"
    "map_of (entries (keys db @ ks) t') = (map_of (entries (keys db) t))(f := x)"
    "kptr (keys db @ ks) t' = kptr (keys db) t \<or> kptr (keys db @ ks) t' = (kptr (keys db) t)(f \<mapsto> length (keys db))"
    "owned ((field_ptr entries (keys db) (tabs db))((a, f) := x)) (live S)"
    "db' = db\<lparr>tabs := (tabs db)[a := Some t'], strs := S, keys := keys db @ ks\<rparr>"
  shows "hdb_ok inv entries kptr db'" "same_shape entries db db'" "live (tabs db') a = Some t'"
    "contents entries db' = map_comp (live S) ((field_ptr entries (keys db) (tabs db))((a, f) := x))"
proof -
  note ok = assms(1) [unfolded hdb_ok_def]
  let ?K = "keys db @ ks" and ?T = "(tabs db)[a := Some t']"
  have kt: "inv ?K (key_table db)" "entries ?K (key_table db) = entries (keys db) (key_table db)" using grow ok by blast+
  have lt: "live ?T = (live (tabs db))(a \<mapsto> t')" using assms(2) by (simp add: live_update live_length)
  then have d: "dom (live ?T) = dom (live (tabs db))" using assms(2) by auto
  have "field_ptr entries ?K ?T = (\<lambda>(b, g). if b = a then map_of (entries ?K t') g else field_ptr entries ?K (tabs db) (b, g))"
    by (auto simp: field_ptr_def lt fun_eq_iff)
  then have fp: "field_ptr entries ?K ?T = (field_ptr entries (keys db) (tabs db))((a, f) := x)"
    unfolding grow_tables(1) [OF assms(1)] assms(4) using assms(2) by (auto simp: field_ptr_def fun_eq_iff)
  let ?P = "key_blocks kptr (keys db) (key_table db) (tabs db)"
  have kb: "key_blocks kptr ?K (key_table db) ?T = (\<lambda>(y, k). if y = Some a then kptr ?K t' k else ?P (y, k))"
    unfolding grow_tables(2) [OF assms(1), of ks, symmetric] by (auto simp: key_blocks_def lt fun_eq_iff split: option.split)
  have pa: "?P (Some a, k) = kptr (keys db) t k" for k using assms(2) by (simp add: key_blocks_def)
  have ap: "apart (key_blocks kptr ?K (key_table db) ?T)"
  proof (rule disjE [OF assms(5)])
    assume "kptr ?K t' = kptr (keys db) t"
    then have "key_blocks kptr ?K (key_table db) ?T = ?P" unfolding kb using pa by auto
    then show ?thesis using ok by simp
  next
    assume "kptr ?K t' = (kptr (keys db) t)(f \<mapsto> length (keys db))"
    then have "key_blocks kptr ?K (key_table db) ?T = ?P((Some a, f) \<mapsto> length (keys db))" unfolding kb using pa by auto
    moreover have "?P p \<noteq> Some (length (keys db))" for p
      using key_blocks_live [OF assms(1), of "fst p" "snd p" "length (keys db)"] by auto
    ultimately show ?thesis using apart_new ok by metis
  qed
  have "owned (map_of (entries (keys db) (key_table db))) (live ?T)" by (rule owned_cong [OF _ d]) (use ok in blast)
  moreover have "\<forall>b u. live ?T b = Some u \<longrightarrow> inv ?K u" using ok assms(3) grow by (auto simp: lt)
  ultimately show "hdb_ok inv entries kptr db'" using kt assms(6) fp ap unfolding hdb_ok_def assms(7) by simp
  show "same_shape entries db db'" using kt(2) d unfolding same_shape_def assms(7) by simp
  show "live (tabs db') a = Some t'" by (simp add: assms(7) lt)
  show "contents entries db' = map_comp (live S) ((field_ptr entries (keys db) (tabs db))((a, f) := x))"
    by (simp add: contents_def fp assms(7))
qed

lemma contents_ptr:
  assumes "hdb_ok inv entries kptr db" "live (tabs db) a = Some t"
  shows "(contents entries db (a, f) = None) = (map_of (entries (keys db) t) f = None)"
    "field_ptr entries (keys db) (tabs db) (a, f) = map_of (entries (keys db) t) f"
proof -
  show p: "field_ptr entries (keys db) (tabs db) (a, f) = map_of (entries (keys db) t) f" using assms(2) by (simp add: field_ptr_def)
  show "(contents entries db (a, f) = None) = (map_of (entries (keys db) t) f = None)"
    using owned_live [of "field_ptr entries (keys db) (tabs db)" "live (strs db)" "(a, f)"] assms(1) p
    by (cases "map_of (entries (keys db) t) f") (auto simp: contents_def hdb_ok_def)
qed

text \<open>\<^verbatim>\<open>CopyString\<close>, then \<^verbatim>\<open>Insert\<close>.\<close>

lemma insert_new_field:
  assumes "hdb_ok inv entries kptr db" "live (tabs db) a = Some t" "contents entries db (a, c_str f) = None"
  shows "\<exists>db'. insert_field H (snd (CopyString db v)) a f (length (strs db)) = Inr (True, db') \<and> hdb_ok inv entries kptr db' \<and>
    same_shape entries db db' \<and> length (strs db') = Suc (length (strs db)) \<and> contents entries db' = (contents entries db)((a, c_str f) \<mapsto> c_str v)"
proof -
  note ok = assms(1) [unfolded hdb_ok_def] and i = table_inv [OF assms(1,2)]
  have m: "map_of (entries (keys db) t) (c_str f) = None" "field_ptr entries (keys db) (tabs db) (a, c_str f) = None"
    using contents_ptr [OF assms(1,2)] assms(3) by simp_all
  let ?K = "keys db @ [Some (c_str f)]"
  obtain t' where t': "ht_Insert H (keys db) t (Some (c_str f)) (length (strs db)) = Inr (True, t', ?K)" "inv ?K t'"
      "map_of (entries ?K t') = (map_of (entries (keys db) t))(c_str f \<mapsto> length (strs db))"
      "kptr ?K t' = (kptr (keys db) t)(c_str f \<mapsto> length (keys db))"
    using Insert [OF i, of "c_str f" "length (strs db)"] m by auto
  have "owned (field_ptr entries (keys db) (tabs db)) (live (strs db))" using ok by blast
  note o = owned_new [OF this m(2) live_fresh, of "c_str v", folded live_append]
  note p = put_ok [OF assms(1,2) t'(2,3) disjI2 [OF t'(4)] o(1) refl]
  show ?thesis
    by (rule exI [of _ "db\<lparr>tabs := (tabs db)[a := Some t'], strs := strs db @ [Some (c_str v)], keys := ?K\<rparr>"])
      (use at_addr_live [OF assms(2)] t'(1) p o(2) in
        \<open>simp add: insert_field_def CopyString_def set_tab_def contents_def [of entries db]\<close>)
qed

text \<open>\<^verbatim>\<open>CopyString\<close>, \<^verbatim>\<open>Insert\<close> that fails, \<^verbatim>\<open>DeleteString\<close>.\<close>

lemma insert_old_field:
  assumes "hdb_ok inv entries kptr db" "live (tabs db) a = Some t" "contents entries db (a, c_str f) \<noteq> None"
  shows "\<exists>db1 db'. insert_field H (snd (CopyString db v)) a f (length (strs db)) = Inr (False, db1) \<and>
    DeleteString db1 (length (strs db)) = Inr db' \<and> hdb_ok inv entries kptr db' \<and>
    same_shape entries db db' \<and> length (strs db') = Suc (length (strs db)) \<and> contents entries db' = contents entries db"
proof -
  note ok = assms(1) [unfolded hdb_ok_def] and i = table_inv [OF assms(1,2)]
  have m: "map_of (entries (keys db) t) (c_str f) \<noteq> None" "field_ptr entries (keys db) (tabs db) (a, c_str f) = map_of (entries (keys db) t) (c_str f)"
    using contents_ptr [OF assms(1,2)] assms(3) by simp_all
  let ?K = "keys db @ [Some (c_str f)]"
  obtain t' where t': "ht_Insert H (keys db) t (Some (c_str f)) (length (strs db)) = Inr (False, t', ?K)" "inv ?K t'"
      "map_of (entries ?K t') = map_of (entries (keys db) t)" "kptr ?K t' = kptr (keys db) t"
    using Insert [OF i, of "c_str f" "length (strs db)"] m by auto
  let ?S = "(strs db @ [Some (c_str v)])[length (strs db) := None]"
  have S: "live ?S = live (strs db)" by (auto simp: live_def nth_append nth_list_update fun_eq_iff)
  have e: "(field_ptr entries (keys db) (tabs db))((a, c_str f) := map_of (entries (keys db) t) (c_str f)) = field_ptr entries (keys db) (tabs db)"
    using m(2) by (simp add: fun_upd_idem)
  have "owned ((field_ptr entries (keys db) (tabs db))((a, c_str f) := map_of (entries (keys db) t) (c_str f))) (live ?S)"
    using ok unfolding e S by blast
  note p = put_ok [OF assms(1,2) t'(2) _ disjI1 [OF t'(4)] this refl, unfolded e S, simplified t'(3) fun_upd_triv, OF refl]
  have "at_addr (strs db @ [Some (c_str v)]) (length (strs db)) = Inr (c_str v)" by (simp add: at_addr_def)
  then show ?thesis
    by (intro exI [of _ "db\<lparr>tabs := (tabs db)[a := Some t'], strs := strs db @ [Some (c_str v)], keys := ?K\<rparr>"]
        exI [of _ "db\<lparr>tabs := (tabs db)[a := Some t'], strs := ?S, keys := ?K\<rparr>"])
      (use at_addr_live [OF assms(2)] t'(1) p in
        \<open>simp add: insert_field_def CopyString_def set_tab_def DeleteString_def contents_def [of entries db]\<close>)
qed

text \<open>\<^verbatim>\<open>CopyString\<close>, then \<^verbatim>\<open>Update\<close> with the string replaced deleted, or \<^verbatim>\<open>Insert\<close> where there is none.\<close>

lemma update_one_field:
  assumes "hdb_ok inv entries kptr db" "live (tabs db) a = Some t"
  shows "\<exists>old db1 db'. update_field H (snd (CopyString db v)) a f (length (strs db)) = Inr (old, db1) \<and>
    (case old of None \<Rightarrow> bindR (insert_field H db1 a f (length (strs db))) (\<lambda>(_, db). Inr db) | Some s \<Rightarrow> DeleteString db1 s) = Inr db' \<and>
    hdb_ok inv entries kptr db' \<and> same_shape entries db db' \<and> length (strs db') = Suc (length (strs db)) \<and>
    contents entries db' = (contents entries db)((a, c_str f) \<mapsto> c_str v)"
proof -
  note ok = assms(1) [unfolded hdb_ok_def] and i = table_inv [OF assms]
  have o: "owned (field_ptr entries (keys db) (tabs db)) (live (strs db))" using ok by blast
  have p: "field_ptr entries (keys db) (tabs db) (a, c_str f) = map_of (entries (keys db) t) (c_str f)" by (rule contents_ptr(2) [OF assms])
  have al: "a < length (tabs db)" by (rule live_length [OF assms(2)])
  obtain t1 where t1: "ht_Update H (keys db) t (Some (c_str f)) (length (strs db)) = Inr (map_of (entries (keys db) t) (c_str f), t1)" "inv (keys db) t1"
      "map_of (entries (keys db) t1) = (if map_of (entries (keys db) t) (c_str f) = None then map_of (entries (keys db) t)
        else (map_of (entries (keys db) t))(c_str f \<mapsto> length (strs db)))" "kptr (keys db) t1 = kptr (keys db) t"
    using Update [OF i, of "c_str f" "length (strs db)"] by blast
  show ?thesis
  proof (cases "map_of (entries (keys db) t) (c_str f)")
    case None
    let ?K = "keys db @ [Some (c_str f)]"
    obtain t' where t': "ht_Insert H (keys db) t1 (Some (c_str f)) (length (strs db)) = Inr (True, t', ?K)" "inv ?K t'"
        "map_of (entries ?K t') = (map_of (entries (keys db) t))(c_str f \<mapsto> length (strs db))"
        "kptr ?K t' = (kptr (keys db) t)(c_str f \<mapsto> length (keys db))"
      using Insert [OF t1(2), of "c_str f" "length (strs db)"] t1(3,4) None by auto
    note o' = owned_new [OF o _ live_fresh, of "(a, c_str f)" "c_str v", folded live_append]
    have n: "field_ptr entries (keys db) (tabs db) (a, c_str f) = None" using p None by simp
    note q = put_ok [OF assms t'(2,3) disjI2 [OF t'(4)] o'(1) [OF n] refl]
    have "at_addr ((tabs db)[a := Some t1]) a = Inr t1" using al by (simp add: at_addr_def)
    then show ?thesis
      by (intro exI [of _ None] exI [of _ "db\<lparr>tabs := (tabs db)[a := Some t1], strs := strs db @ [Some (c_str v)]\<rparr>"]
          exI [of _ "db\<lparr>tabs := (tabs db)[a := Some t'], strs := strs db @ [Some (c_str v)], keys := ?K\<rparr>"])
        (use at_addr_live [OF assms(2)] t1(1) t'(1) q o'(2) [OF n] None in
          \<open>simp add: update_field_def insert_field_def CopyString_def set_tab_def contents_def [of entries db]\<close>)
  next
    case (Some s)
    have ps: "field_ptr entries (keys db) (tabs db) (a, c_str f) = Some s" using p Some by simp
    note o' = owned_replace [OF o ps live_fresh, of "c_str v"]
    obtain w where w: "live (strs db) s = Some w" using owned_live [OF o ps] by blast
    then have sl: "s < length (strs db)" by (rule live_length)
    let ?S = "(strs db @ [Some (c_str v)])[s := None]"
    have S: "live ?S = (live (strs db))(length (strs db) \<mapsto> c_str v, s := None)" using sl by (simp add: live_update)
    have t: "map_of (entries (keys db) t1) = (map_of (entries (keys db) t))(c_str f \<mapsto> length (strs db))" using t1(3) Some by simp
    have "owned ((field_ptr entries (keys db) (tabs db))((a, c_str f) \<mapsto> length (strs db))) (live ?S)" unfolding S by (rule o'(1))
    note q = put_ok [OF assms, of "[]" t1 "c_str f" "Some (length (strs db))" ?S, simplified, OF t1(2) t disjI1 [OF t1(4)] this refl]
    have "at_addr (strs db @ [Some (c_str v)]) s = Inr w"
      using w sl by (auto simp: at_addr_def live_def nth_append split: option.splits)
    then show ?thesis
      by (intro exI [of _ "Some s"] exI [of _ "db\<lparr>tabs := (tabs db)[a := Some t1], strs := strs db @ [Some (c_str v)]\<rparr>"]
          exI [of _ "db\<lparr>tabs := (tabs db)[a := Some t1], strs := ?S\<rparr>"])
        (use at_addr_live [OF assms(2)] t1(1) q o'(2) S Some in
          \<open>simp add: update_field_def DeleteString_def CopyString_def set_tab_def contents_def [of entries db]\<close>)
  qed
qed

text \<open>The loops over the fields of a record.\<close>

lemma same_shape_live:
  assumes "same_shape entries db db'" "live (tabs db) a = Some t"
  shows "\<exists>t'. live (tabs db') a = Some t'"
  using assms by (auto simp: same_shape_def dom_def)

lemma fill_fields_ok:
  "hdb_ok inv entries kptr db \<Longrightarrow> live (tabs db) a = Some t \<Longrightarrow> distinct (map fst (c_values vs)) \<Longrightarrow>
    \<forall>f\<in>fst ` set (c_values vs). contents entries db (a, f) = None \<Longrightarrow>
    \<exists>db'. fill_fields H db a vs = Inr db' \<and> hdb_ok inv entries kptr db' \<and> same_shape entries db db' \<and>
      contents entries db' = contents entries db ++ map_of (at_fields a vs)"
proof (induction vs arbitrary: db t)
  case Nil then show ?case by (simp add: same_shape_def)
next
  case (Cons e vs)
  obtain f v where e: "e = (f, v)" by fastforce
  have n: "contents entries db (a, c_str f) = None" using Cons.prems(4) by (simp add: e)
  obtain db1 where 1: "insert_field H (snd (CopyString db v)) a f (length (strs db)) = Inr (True, db1)" "hdb_ok inv entries kptr db1"
      "same_shape entries db db1" "contents entries db1 = (contents entries db)((a, c_str f) \<mapsto> c_str v)"
    using insert_new_field [OF Cons.prems(1,2) n, of v] by blast
  obtain t1 where t1: "live (tabs db1) a = Some t1" using same_shape_live [OF 1(3) Cons.prems(2)] by blast
  have nn: "c_str f \<notin> fst ` set (c_values vs)" using Cons.prems(3) by (simp add: e)
  have "contents entries db1 (a, f') = None" if "f' \<in> fst ` set (c_values vs)" for f'
    using that nn Cons.prems(4) unfolding 1(4) e by (cases "f' = c_str f") auto
  with Cons.IH [OF 1(2) t1] Cons.prems(3) obtain db' where "fill_fields H db1 a vs = Inr db'" "hdb_ok inv entries kptr db'" "same_shape entries db1 db'"
      "contents entries db' = contents entries db1 ++ map_of (at_fields a vs)" by (auto simp: e)
  then show ?case using 1(1) same_shape_trans [OF 1(3)]
    by (intro exI [of _ db']) (simp add: e CopyString_def 1(4) at_fields_add [OF nn])
qed

lemma update_fields_ok:
  "hdb_ok inv entries kptr db \<Longrightarrow> live (tabs db) a = Some t \<Longrightarrow> distinct (map fst (c_values vs)) \<Longrightarrow>
    \<exists>db'. update_fields H db a vs = Inr db' \<and> hdb_ok inv entries kptr db' \<and> same_shape entries db db' \<and>
      contents entries db' = contents entries db ++ map_of (at_fields a vs)"
proof (induction vs arbitrary: db t)
  case Nil then show ?case by (simp add: same_shape_def)
next
  case (Cons e vs)
  obtain f v where e: "e = (f, v)" by fastforce
  obtain old db0 db1 where 1: "update_field H (snd (CopyString db v)) a f (length (strs db)) = Inr (old, db0)"
      "(case old of None \<Rightarrow> bindR (insert_field H db0 a f (length (strs db))) (\<lambda>(_, db). Inr db) | Some s \<Rightarrow> DeleteString db0 s) = Inr db1"
      "hdb_ok inv entries kptr db1" "same_shape entries db db1" "contents entries db1 = (contents entries db)((a, c_str f) \<mapsto> c_str v)"
    using update_one_field [OF Cons.prems(1,2), of v f] by blast
  obtain t1 where t1: "live (tabs db1) a = Some t1" using same_shape_live [OF 1(4) Cons.prems(2)] by blast
  have nn: "c_str f \<notin> fst ` set (c_values vs)" using Cons.prems(3) by (simp add: e)
  from Cons.IH [OF 1(3) t1] Cons.prems(3) obtain db' where "update_fields H db1 a vs = Inr db'" "hdb_ok inv entries kptr db'" "same_shape entries db1 db'"
      "contents entries db' = contents entries db1 ++ map_of (at_fields a vs)" by (auto simp: e)
  then show ?case using 1(1,2) same_shape_trans [OF 1(4)]
    by (intro exI [of _ db']) (simp add: e CopyString_def 1(5) at_fields_add [OF nn])
qed

text \<open>\<^verbatim>\<open>Insert\<close> stores the fields before the first that exists already.\<close>

lemma insert_fields_ok:
  "hdb_ok inv entries kptr db \<Longrightarrow> live (tabs db) a = Some t \<Longrightarrow> distinct (map fst (c_values vs)) \<Longrightarrow>
    \<exists>db'. insert_fields H db a vs =
        Inr (if \<forall>(f, v)\<in>set vs. contents entries db (a, c_str f) = None then kOK else kErrorConflict, db') \<and>
      hdb_ok inv entries kptr db' \<and> same_shape entries db db' \<and>
      contents entries db' = contents entries db ++ map_of (at_fields a (takeWhile (\<lambda>(f, v). contents entries db (a, c_str f) = None) vs))"
proof (induction vs arbitrary: db t)
  case Nil then show ?case by (simp add: same_shape_def)
next
  case (Cons e vs)
  obtain f v where e: "e = (f, v)" by fastforce
  show ?case
  proof (cases "contents entries db (a, c_str f)")
    case None
    obtain db1 where 1: "insert_field H (snd (CopyString db v)) a f (length (strs db)) = Inr (True, db1)" "hdb_ok inv entries kptr db1"
        "same_shape entries db db1" "contents entries db1 = (contents entries db)((a, c_str f) \<mapsto> c_str v)"
      using insert_new_field [OF Cons.prems(1,2) None, of v] by blast
    obtain t1 where t1: "live (tabs db1) a = Some t1" using same_shape_live [OF 1(3) Cons.prems(2)] by blast
    let ?ok = "\<lambda>db (f, v). contents entries db (a, c_str f) = None"
    have "c_str f \<noteq> c_str (fst p)" if "p \<in> set vs" for p
    proof
      assume "c_str f = c_str (fst p)"
      then have "c_str f \<in> fst ` set (c_values vs)" using imageI [OF that, of "\<lambda>p. c_str (fst p)"] by (simp add: c_values_def image_image case_prod_beta)
      then show False using Cons.prems(3) by (simp add: e)
    qed
    then have eq: "?ok db1 p = ?ok db p" if "p \<in> set vs" for p using that by (fastforce simp: 1(4))
    obtain db' where d: "insert_fields H db1 a vs = Inr (if \<forall>p\<in>set vs. ?ok db1 p then kOK else kErrorConflict, db')"
        "hdb_ok inv entries kptr db'" "same_shape entries db1 db'" "contents entries db' = contents entries db1 ++ map_of (at_fields a (takeWhile (?ok db1) vs))"
      using Cons.IH [OF 1(2) t1] Cons.prems(3) by (auto simp: e)
    have q: "takeWhile (?ok db1) vs = takeWhile (?ok db) vs" "(\<forall>p\<in>set vs. ?ok db1 p) = (\<forall>p\<in>set vs. ?ok db p)"
      using eq by (auto intro!: takeWhile_cong)
    have nn: "c_str f \<notin> fst ` set (c_values (takeWhile (?ok db) vs))"
      using Cons.prems(3) by (force simp: e c_values_def dest!: set_takeWhileD)
    show ?thesis using 1(1) d same_shape_trans [OF 1(3) d(3)] None unfolding q
      by (intro exI [of _ db']) (simp add: e CopyString_def 1(4) at_fields_add [OF nn])
  next
    case (Some w)
    then show ?thesis using insert_old_field [OF Cons.prems(1,2), of f v] by (auto simp: e CopyString_def)
  qed
qed

text \<open>Records: a new one, and the fields written into one.\<close>

lemma new_record_ok:
  assumes "hdb_ok inv entries kptr db" "map_of (entries (keys db) (key_table db)) (c_str k) = None"
  shows "\<exists>db'. new_record H db k = Inr (length (tabs db), db') \<and> hdb_ok inv entries kptr db' \<and> live (tabs db') (length (tabs db)) = Some (ht_new H) \<and>
    map_of (entries (keys db') (key_table db')) = (map_of (entries (keys db) (key_table db)))(c_str k \<mapsto> length (tabs db)) \<and>
    contents entries db' = contents entries db \<and> (\<forall>f. contents entries db (length (tabs db), f) = None)"
proof -
  note ok = assms(1) [unfolded hdb_ok_def]
  let ?K = "keys db @ [Some (c_str k)]" and ?T = "tabs db @ [Some (ht_new H)]"
  have "inv (keys db) (key_table db)" using ok by blast
  from Insert [OF this, of "c_str k" "length (tabs db)"] assms(2) obtain t' where
    t': "ht_Insert H (keys db) (key_table db) (Some (c_str k)) (length (tabs db)) = Inr (True, t', ?K)" "inv ?K t'"
      "map_of (entries ?K t') = (map_of (entries (keys db) (key_table db)))(c_str k \<mapsto> length (tabs db))"
      "kptr ?K t' = (kptr (keys db) (key_table db))(c_str k \<mapsto> length (keys db))" by auto
  let ?db = "db\<lparr>tabs := ?T, key_table := t', keys := ?K\<rparr>"
  have "field_ptr entries ?K ?T = field_ptr entries ?K (tabs db)" using new(2) by (auto simp: field_ptr_def fun_eq_iff)
  then have fp: "field_ptr entries ?K ?T = field_ptr entries (keys db) (tabs db)" by (simp only: grow_tables(1) [OF assms(1)])
  let ?P = "key_blocks kptr (keys db) (key_table db) (tabs db)"
  have "kptr ?K (ht_new H) = Map.empty" using kptr_dom [OF new(1), of ?K] new(2) by simp
  then have "key_blocks kptr ?K t' ?T = (key_blocks kptr ?K (key_table db) (tabs db))((None, c_str k) \<mapsto> length (keys db))"
    using grow [of "keys db" "key_table db" "[Some (c_str k)]"] ok t'(4) by (auto simp: key_blocks_def fun_eq_iff split: option.split)
  then have "key_blocks kptr ?K t' ?T = ?P((None, c_str k) \<mapsto> length (keys db))" by (simp only: grow_tables(2) [OF assms(1)])
  moreover have "?P p \<noteq> Some (length (keys db))" for p using key_blocks_live [OF assms(1), of "fst p" "snd p" "length (keys db)"] by auto
  ultimately have ap: "apart (key_blocks kptr ?K t' ?T)" using apart_new ok by metis
  have "owned (map_of (entries (keys db) (key_table db))) (live (tabs db))" using ok by blast
  from owned_new(1) [OF this assms(2) live_fresh, of "ht_new H"]
  have "hdb_ok inv entries kptr ?db" using ok t'(2,3) new(1) grow ap by (simp add: hdb_ok_def fp)
  moreover have "contents entries ?db = contents entries db" by (simp add: contents_def fp)
  moreover have "contents entries db (length (tabs db), f) = None" for f by (simp add: contents_def field_ptr_def)
  ultimately show ?thesis using t' by (intro exI [of _ ?db]) (simp add: new_record_def NewFieldHashtable_def)
qed

lemma record_write:
  assumes "hdb_ok inv entries kptr db" "map_of (entries (keys db) (key_table db)) k = Some a" "entries (keys db') (key_table db') = entries (keys db) (key_table db)"
    "contents entries db' = contents entries db ++ map_of (at_fields a vs)"
  shows "hdb_record entries db' = (hdb_record entries db)(k \<mapsto> fields_of (hdb_record entries db k) ++ map_of (c_values vs))"
proof (rule ext)
  fix k'
  have o: "owned (map_of (entries (keys db) (key_table db))) (live (tabs db))" using assms(1) by (simp add: hdb_ok_def)
  have "b \<noteq> a" if "k' \<noteq> k" "map_of (entries (keys db) (key_table db)) k' = Some b" for b
    using owned_unique [OF o assms(2), of k'] that by blast
  then show "hdb_record entries db' k' = ((hdb_record entries db)(k \<mapsto> fields_of (hdb_record entries db k) ++ map_of (c_values vs))) k'"
    using assms(2-4) by (cases "map_of (entries (keys db) (key_table db)) k'") (auto simp: hdb_record_def map_add_def at_fields_map_of fun_eq_iff)
qed

lemma record_ptr: "hdb_record entries db k = None \<longleftrightarrow> map_of (entries (keys db) (key_table db)) k = None"
  by (simp add: hdb_record_def)

lemma Get_key: "hdb_ok inv entries kptr db \<Longrightarrow> ht_Get H (keys db) (key_table db) (Some k) = Inr (map_of (entries (keys db) (key_table db)) k)"
  by (simp add: Get hdb_ok_def)

lemma key_live:
  assumes "hdb_ok inv entries kptr db" "map_of (entries (keys db) (key_table db)) k = Some a"
  shows "\<exists>t. live (tabs db) a = Some t \<and> inv (keys db) t"
  using assms owned_live [of "map_of (entries (keys db) (key_table db))" "live (tabs db)" k a] by (auto simp: hdb_ok_def)

lemma Update_ok:
  assumes "hdb_ok inv entries kptr db" "distinct (map fst (c_values vs))" "k = c_str (table @ key)"
  shows "\<exists>db'. Hashtable_Update H db table key vs = Inr (kOK, db') \<and> hdb_ok inv entries kptr db' \<and>
    hdb_record entries db' = (hdb_record entries db)(k \<mapsto> fields_of (hdb_record entries db k) ++ map_of (c_values vs))"
proof (cases "map_of (entries (keys db) (key_table db)) k")
  case None
  obtain db1 where 1: "new_record H db (table @ key) = Inr (length (tabs db), db1)" "hdb_ok inv entries kptr db1"
      "live (tabs db1) (length (tabs db)) = Some (ht_new H)"
      "map_of (entries (keys db1) (key_table db1)) = (map_of (entries (keys db) (key_table db)))(k \<mapsto> length (tabs db))"
      "contents entries db1 = contents entries db" "\<forall>f. contents entries db (length (tabs db), f) = None"
    using new_record_ok [OF assms(1) None [unfolded assms(3)]] unfolding assms(3) by blast
  obtain db' where 2: "fill_fields H db1 (length (tabs db)) vs = Inr db'" "hdb_ok inv entries kptr db'" "same_shape entries db1 db'"
      "contents entries db' = contents entries db1 ++ map_of (at_fields (length (tabs db)) vs)"
    using fill_fields_ok [OF 1(2,3) assms(2)] 1(5,6) by auto
  have "hdb_record entries db1 = (hdb_record entries db)(k \<mapsto> Map.empty)"
    using 1(4-6) by (auto simp: hdb_record_def fun_eq_iff)
  then show ?thesis using 1 2 None record_write [OF 1(2) _ _ 2(4), of k] Get_key [OF assms(1), of k]
    by (intro exI [of _ db']) (simp add: Hashtable_Update_def assms(3) same_shape_def hdb_record_def [of entries db])
next
  case (Some a)
  obtain t where t: "live (tabs db) a = Some t" using key_live [OF assms(1) Some] by blast
  obtain db' where 2: "update_fields H db a vs = Inr db'" "hdb_ok inv entries kptr db'" "same_shape entries db db'"
      "contents entries db' = contents entries db ++ map_of (at_fields a vs)"
    using update_fields_ok [OF assms(1) t assms(2)] by blast
  then show ?thesis using Some record_write [OF assms(1) Some _ 2(4)] Get_key [OF assms(1), of k]
    by (intro exI [of _ db']) (simp add: Hashtable_Update_def assms(3) same_shape_def)
qed

text \<open>\<^verbatim>\<open>Insert\<close>: a field that exists is a conflict; the fields before it stay.\<close>

lemma Insert_ok:
  assumes "hdb_ok inv entries kptr db" "distinct (map fst (c_values vs))" "k = c_str (table @ key)" "m = fields_of (hdb_record entries db k)"
  shows "\<exists>db'. Hashtable_Insert H db table key vs =
      Inr (if \<forall>(f, v)\<in>set vs. m (c_str f) = None then kOK else kErrorConflict, db') \<and> hdb_ok inv entries kptr db' \<and>
    hdb_record entries db' = (hdb_record entries db)(k \<mapsto> m ++ map_of (c_values (takeWhile (\<lambda>(f, v). m (c_str f) = None) vs)))"
proof (cases "map_of (entries (keys db) (key_table db)) k")
  case None
  obtain db1 where 1: "new_record H db (table @ key) = Inr (length (tabs db), db1)" "hdb_ok inv entries kptr db1"
      "live (tabs db1) (length (tabs db)) = Some (ht_new H)"
      "map_of (entries (keys db1) (key_table db1)) = (map_of (entries (keys db) (key_table db)))(k \<mapsto> length (tabs db))"
      "contents entries db1 = contents entries db" "\<forall>f. contents entries db (length (tabs db), f) = None"
    using new_record_ok [OF assms(1) None [unfolded assms(3)]] unfolding assms(3) by blast
  have m: "m = Map.empty" using None by (simp add: assms(4) hdb_record_def)
  have c: "contents entries db1 (length (tabs db), f) = None" for f using 1(5,6) by simp
  have t: "takeWhile (\<lambda>(f :: string, v :: string). True) vs = vs" by (simp add: takeWhile_eq_all_conv case_prod_beta)
  obtain db' where 2: "insert_fields H db1 (length (tabs db)) vs = Inr (kOK, db')" "hdb_ok inv entries kptr db'" "same_shape entries db1 db'"
      "contents entries db' = contents entries db1 ++ map_of (at_fields (length (tabs db)) vs)"
    using insert_fields_ok [OF 1(2,3) assms(2)] by (auto simp: c t)
  have "hdb_record entries db1 = (hdb_record entries db)(k \<mapsto> Map.empty)"
    using 1(4-6) by (auto simp: hdb_record_def fun_eq_iff)
  then show ?thesis using 1 2 None record_write [OF 1(2) _ _ 2(4), of k] Get_key [OF assms(1), of k]
    by (intro exI [of _ db']) (simp add: Hashtable_Insert_def assms(3) same_shape_def m t)
next
  case (Some a)
  obtain t where t: "live (tabs db) a = Some t" using key_live [OF assms(1) Some] by blast
  have m: "m f = contents entries db (a, f)" for f using Some by (simp add: assms(4) hdb_record_def)
  obtain db' where 2: "insert_fields H db a vs = Inr (if \<forall>(f, v)\<in>set vs. contents entries db (a, c_str f) = None then kOK else kErrorConflict, db')"
      "hdb_ok inv entries kptr db'" "same_shape entries db db'"
      "contents entries db' = contents entries db ++ map_of (at_fields a (takeWhile (\<lambda>(f, v). contents entries db (a, c_str f) = None) vs))"
    using insert_fields_ok [OF assms(1) t assms(2)] by blast
  then show ?thesis using Some record_write [OF assms(1) Some _ 2(4)] Get_key [OF assms(1), of k]
    by (intro exI [of _ db']) (simp add: Hashtable_Insert_def assms(3) same_shape_def m [symmetric] assms(4) [symmetric, unfolded assms(3)])
qed

section \<open>Reading\<close>

lemma entry_values_ok:
  assumes "owned (field_ptr entries (keys db) (tabs db)) (live (strs db))" "live (tabs db) a = Some t"
  shows "set ps \<subseteq> set (entries (keys db) t) \<Longrightarrow> inv (keys db) t \<Longrightarrow>
    \<exists>r. entry_values db ps = Inr r \<and> map fst r = map fst ps \<and> (\<forall>(f, v)\<in>set r. contents entries db (a, f) = Some v)"
proof (induction ps)
  case (Cons p ps)
  obtain f s where p: "p = (f, s)" by fastforce
  then have "map_of (entries (keys db) t) f = Some s" using Cons.prems distinct [of "keys db" t] by (auto intro!: map_of_is_SomeI)
  then have f: "field_ptr entries (keys db) (tabs db) (a, f) = Some s" using assms(2) by (simp add: field_ptr_def)
  obtain v where v: "live (strs db) s = Some v" using owned_live [OF assms(1) f] by blast
  obtain r where "entry_values db ps = Inr r" "map fst r = map fst ps" "\<forall>(f, v)\<in>set r. contents entries db (a, f) = Some v"
    using Cons by auto
  then show ?case using f v by (simp add: p at_addr_live contents_def)
qed simp

lemma field_values_ok:
  assumes "hdb_ok inv entries kptr db" "live (tabs db) a = Some t"
  shows "field_values H db t fs = Inr (List.map_filter (\<lambda>f. map_option (Pair f) (contents entries db (a, c_str f))) fs)"
proof (induction fs)
  case (Cons f fs)
  have t: "inv (keys db) t" by (rule table_inv [OF assms])
  note p = contents_ptr [OF assms, of "c_str f"]
  show ?case
  proof (cases "map_of (entries (keys db) t) (c_str f)")
    case None
    then show ?thesis using Cons p by (simp add: Get [OF t] map_filter_simps)
  next
    case (Some s)
    then obtain v where v: "live (strs db) s = Some v"
      using owned_live [of "field_ptr entries (keys db) (tabs db)" "live (strs db)" "(a, c_str f)" s] assms(1) p by (auto simp: hdb_ok_def)
    then show ?thesis using Cons p Some by (simp add: Get [OF t] at_addr_live contents_def map_filter_simps)
  qed
qed (simp add: map_filter_simps)

lemma table_entries:
  assumes "owned (field_ptr entries (keys db) (tabs db)) (live (strs db))" "live (tabs db) a = Some t" "inv (keys db) t"
  shows "distinct (map snd (entries (keys db) t))" "length (entries (keys db) t) \<le> length (strs db)" "\<forall>x\<in>snd ` set (entries (keys db) t). live (strs db) x \<noteq> None"
proof -
  have p: "field_ptr entries (keys db) (tabs db) (a, k) = Some x" if "map_of (entries (keys db) t) k = Some x" for k x
    using that assms(2) by (simp add: field_ptr_def)
  show "distinct (map snd (entries (keys db) t))" "length (entries (keys db) t) \<le> length (strs db)" "\<forall>x\<in>snd ` set (entries (keys db) t). live (strs db) x \<noteq> None"
    by (rule owned_entries [OF assms(1) _ distinct [OF assms(3)], of "Pair a"]; simp add: inj_def p)+
qed

lemma key_entries:
  assumes "hdb_ok inv entries kptr db"
  shows "distinct (map snd (entries (keys db) (key_table db)))" "length (entries (keys db) (key_table db)) \<le> length (tabs db)"
    "\<forall>x\<in>snd ` set (entries (keys db) (key_table db)). live (tabs db) x \<noteq> None"
proof -
  have o: "owned (map_of (entries (keys db) (key_table db))) (live (tabs db))" and d: "distinct (map fst (entries (keys db) (key_table db)))"
    using assms distinct by (auto simp: hdb_ok_def)
  show "distinct (map snd (entries (keys db) (key_table db)))" "length (entries (keys db) (key_table db)) \<le> length (tabs db)"
    "\<forall>x\<in>snd ` set (entries (keys db) (key_table db)). live (tabs db) x \<noteq> None"
    by (rule owned_entries [OF o _ d, of "\<lambda>k. k"]; simp)+
qed

lemma record_values_ok:
  assumes "hdb_ok inv entries kptr db" "map_of (entries (keys db) (key_table db)) k = Some a" "length (strs db) < 2 ^ 64"
  shows "\<exists>r m. record_values H db a flds = Inr r \<and> hdb_record entries db k = Some m \<and> answers m flds r"
proof -
  obtain t where t: "live (tabs db) a = Some t" "inv (keys db) t" using key_live [OF assms(1,2)] by blast
  have r: "hdb_record entries db k = Some (\<lambda>f. contents entries db (a, f))" using assms(2) by (simp add: hdb_record_def)
  have o: "owned (field_ptr entries (keys db) (tabs db)) (live (strs db))" using assms(1) by (simp add: hdb_ok_def)
  show ?thesis
  proof (cases flds)
    case None
    obtain r where e: "entry_values db (entries (keys db) t) = Inr r" "map fst r = map fst (entries (keys db) t)"
        "\<forall>(f, v)\<in>set r. contents entries db (a, f) = Some v"
      using entry_values_ok [OF o t(1) _ t(2), of "entries (keys db) t"] by auto
    have d: "distinct (map fst r)" using distinct [OF t(2)] by (simp add: e(2))
    have "map_of r f = contents entries db (a, f)" for f
    proof (cases "map_of r f")
      case None
      then have "f \<notin> set (map fst (entries (keys db) t))" unfolding e(2) [symmetric] by (simp add: map_of_eq_None_iff)
      then have "map_of (entries (keys db) t) f = None" by (simp add: map_of_eq_None_iff)
      then show ?thesis using None contents_ptr(1) [OF assms(1) t(1), of f] by simp
    next
      case (Some v)
      then show ?thesis using e(3) map_of_SomeD [OF Some] by fastforce
    qed
    moreover have "take npos (entries (keys db) t) = entries (keys db) t" using table_entries(2) [OF o t] assms(3) by simp
    ultimately show ?thesis using e(1) d r at_addr_live [OF t(1)] Entries(1) [OF t(2), of npos]
      by (auto simp: record_values_def None answers_def fun_eq_iff)
  next
    case (Some fs)
    then show ?thesis using r at_addr_live [OF t(1)] field_values_ok [OF assms(1) t(1), of fs]
      by (simp add: record_values_def answers_def)
  qed
qed

lemma Read_ok:
  assumes "hdb_ok inv entries kptr db" "k = c_str (table @ key)" "length (strs db) < 2 ^ 64"
  shows "case hdb_record entries db k of
      None \<Rightarrow> Hashtable_Read H db table key flds result = Inr (kErrorNoData, result)
    | Some m \<Rightarrow> \<exists>r. Hashtable_Read H db table key flds result = Inr (kOK, r) \<and> answers m flds r"
proof (cases "map_of (entries (keys db) (key_table db)) k")
  case None
  then show ?thesis using Get_key [OF assms(1), of k] by (simp add: hdb_record_def Hashtable_Read_def assms(2))
next
  case (Some a)
  then show ?thesis using Get_key [OF assms(1), of k] record_values_ok [OF assms(1) Some assms(3), of flds]
    by (auto simp: Hashtable_Read_def assms(2))
qed

lemma scan_records_ok:
  assumes "hdb_ok inv entries kptr db" "length (strs db) < 2 ^ 64"
  shows "set ps \<subseteq> set (entries (keys db) (key_table db)) \<Longrightarrow>
    \<exists>rs. scan_records H db ps flds = Inr rs \<and> list_all2 (\<lambda>k r. \<exists>m. hdb_record entries db k = Some m \<and> answers m flds r) (map fst ps) rs"
proof (induction ps)
  case (Cons p ps)
  obtain k a where p: "p = (k, a)" by fastforce
  have "map_of (entries (keys db) (key_table db)) k = Some a"
    using Cons.prems distinct assms(1) by (auto simp: p hdb_ok_def intro!: map_of_is_SomeI)
  then show ?case using Cons record_values_ok [OF assms(1) _ assms(2), of k a flds] by (auto simp: p)
qed simp

text \<open>A scan finds its first key and goes on in the order of the table.\<close>

lemma Scan_ok:
  assumes "hdb_ok inv entries kptr db" "k = c_str (table @ key)" "length (strs db) < 2 ^ 64" "0 < n" "n < 2 ^ 31"
  shows "\<exists>ks rs. Hashtable_Scan H db table key n flds result = Inr (kOK, rs) \<and> distinct ks \<and> length ks \<le> nat n \<and>
    (if hdb_record entries db k = None then ks = [] else ks \<noteq> [] \<and> hd ks = k) \<and>
    list_all2 (\<lambda>k r. \<exists>m. hdb_record entries db k = Some m \<and> answers m flds r) ks rs"
proof -
  let ?es = "entries (keys db) (key_table db)" and ?d = "dropWhile (\<lambda>p. fst p \<noteq> k) (entries (keys db) (key_table db))"
  have kt: "inv (keys db) (key_table db)" using assms(1) by (simp add: hdb_ok_def)
  have u: "nat (uint64 n) = nat n" using assms(4,5) by (simp add: cint)
  have sub: "set (take (nat n) ?d) \<subseteq> set ?es" by (meson order_trans set_dropWhileD set_take_subset subsetI)
  obtain rs where rs: "scan_records H db (take (nat n) ?d) flds = Inr rs"
      "list_all2 (\<lambda>k r. \<exists>m. hdb_record entries db k = Some m \<and> answers m flds r) (map fst (take (nat n) ?d)) rs"
    using scan_records_ok [OF assms(1,3) sub] by blast
  have "distinct (map fst ?d)" using distinct_dropWhile [OF distinct [OF kt], of "\<lambda>x. x \<noteq> k"] by (simp add: dropWhile_map o_def)
  then have "distinct (map fst (take (nat n) ?d))" by (simp add: take_map [symmetric])
  moreover have "if hdb_record entries db k = None then take (nat n) ?d = [] else take (nat n) ?d \<noteq> [] \<and> fst (hd (take (nat n) ?d)) = k"
  proof (cases "map_of ?es k")
    case None
    then show ?thesis by (auto simp: record_ptr map_of_eq_None_iff dropWhile_eq_Nil_conv)
  next
    case (Some a)
    then have "?d \<noteq> []" using bexI [OF _ map_of_SomeD [OF Some], of "\<lambda>p. fst p = k"] by (auto simp: dropWhile_eq_Nil_conv)
    then show ?thesis using Some hd_dropWhile [of "\<lambda>p. fst p \<noteq> k" ?es] assms(4) by (simp add: record_ptr hd_take)
  qed
  ultimately show ?thesis using rs Entries(2) [OF kt, of k "nat n"]
    by (intro exI [of _ "map fst (take (nat n) ?d)"] exI [of _ rs])
      (auto simp: Hashtable_Scan_def assms(2) u hd_map split: if_splits)
qed

section \<open>Releasing\<close>

lemma delete_strings_ok:
  "distinct (map snd ps) \<Longrightarrow> \<forall>x\<in>snd ` set ps. live (strs db) x \<noteq> None \<Longrightarrow>
    \<exists>S. delete_strings db ps = Inr (db\<lparr>strs := S\<rparr>) \<and> live S = live (strs db) |` (- snd ` set ps) \<and> length S = length (strs db)"
proof (induction ps arbitrary: db)
  case Nil then show ?case by (intro exI [of _ "strs db"]) simp
next
  case (Cons p ps)
  obtain f s where p: "p = (f, s)" by fastforce
  obtain v where v: "live (strs db) s = Some v" using Cons.prems(2) by (auto simp: p)
  let ?db = "db\<lparr>strs := (strs db)[s := None]\<rparr>"
  have l: "live (strs ?db) = (live (strs db))(s := None)" using live_length [OF v] by (simp add: live_update)
  have "\<forall>x\<in>snd ` set ps. live (strs ?db) x \<noteq> None" using Cons.prems unfolding l p by auto
  then obtain S where S: "delete_strings ?db ps = Inr (?db\<lparr>strs := S\<rparr>)" "live S = live (strs ?db) |` (- snd ` set ps)" "length S = length (strs ?db)"
    using Cons.IH [of ?db] Cons.prems(1) by auto
  have "live S = live (strs db) |` (- snd ` set (p # ps))" unfolding S(2) l by (auto simp: p restrict_map_def fun_eq_iff)
  then show ?case using S(1,3) by (auto simp: p DeleteString_def at_addr_live [OF v])
qed

text \<open>A table of fields goes with its strings.\<close>

lemma delete_table_ok:
  assumes "owned (field_ptr entries (keys db) (tabs db)) (live (strs db))" "live (tabs db) a = Some t" "inv (keys db) t" "length (strs db) < 2 ^ 64"
  shows "\<exists>db'. DeleteFieldHashtable H db a = Inr db' \<and> key_table db' = key_table db \<and> keys db' = keys db \<and>
    live (tabs db') = (live (tabs db))(a := None) \<and> owned (field_ptr entries (keys db) (tabs db')) (live (strs db')) \<and>
    length (strs db') = length (strs db) \<and> contents entries db' = contents entries db |` {p. fst p \<noteq> a}"
proof -
  let ?E = "entries (keys db)"
  note e = table_entries [OF assms(1-3)]
  obtain S where S: "delete_strings db (?E t) = Inr (db\<lparr>strs := S\<rparr>)" "live S = live (strs db) |` (- snd ` set (?E t))"
      "length S = length (strs db)"
    using delete_strings_ok [OF e(1,3)] by blast
  let ?db = "db\<lparr>strs := S, tabs := (tabs db)[a := None]\<rparr>"
  have "take npos (?E t) = ?E t" using e(2) assms(4) by simp
  then have d: "DeleteFieldHashtable H db a = Inr ?db"
    using S(1) at_addr_live [OF assms(2)] Entries(1) [OF assms(3), of npos] by (simp add: DeleteFieldHashtable_def)
  have lt: "live ((tabs db)[a := None]) = (live (tabs db))(a := None)" using live_length [OF assms(2)] by (simp add: live_update)
  have fp: "field_ptr entries (keys db) ((tabs db)[a := None]) = field_ptr entries (keys db) (tabs db) |` (- {p. fst p = a})"
    by (auto simp: field_ptr_def lt restrict_map_def fun_eq_iff)
  have o: "x \<in> snd ` set (?E t) \<longleftrightarrow> p \<in> {p. fst p = a}" if "field_ptr entries (keys db) (tabs db) p = Some x" for p x
  proof
    assume "x \<in> snd ` set (?E t)"
    then obtain f where "(f, x) \<in> set (?E t)" by auto
    then have "field_ptr entries (keys db) (tabs db) (a, f) = Some x" using assms(2) distinct [OF assms(3)] by (simp add: field_ptr_def)
    then show "p \<in> {p. fst p = a}" using owned_unique [OF assms(1) that] by fastforce
  next
    assume "p \<in> {p. fst p = a}"
    then have "map_of (?E t) (snd p) = Some x" using that assms(2) by (cases p) (simp add: field_ptr_def)
    from map_of_SomeD [OF this] show "x \<in> snd ` set (?E t)" by force
  qed
  have c: "- {p :: nat \<times> string. fst p = a} = {p. fst p \<noteq> a}" by auto
  note r = owned_restrict [OF assms(1) o]
  then have "owned (field_ptr entries (keys db) (tabs ?db)) (live (strs ?db))" "contents entries ?db = contents entries db |` {p. fst p \<noteq> a}"
    using S(2) fp c by (simp_all add: contents_def)
  then show ?thesis using d lt S(3) by (intro exI [of _ ?db]) simp
qed

text \<open>\<^verbatim>\<open>Remove\<close> frees the copy of one key, which no other table holds.\<close>

lemma Remove_key:
  assumes "hdb_ok inv entries kptr db"
  shows "\<exists>t' K'. ht_Remove H (keys db) (key_table db) (Some k) = Inr (map_of (entries (keys db) (key_table db)) k, t', K') \<and> inv K' t' \<and>
    map_of (entries K' t') = (map_of (entries (keys db) (key_table db)))(k := None) \<and>
    (\<forall>a t. live (tabs db) a = Some t \<longrightarrow> inv K' t) \<and> field_ptr entries K' (tabs db) = field_ptr entries (keys db) (tabs db) \<and>
    apart (key_blocks kptr K' t' (tabs db))"
proof -
  note ok = assms [unfolded hdb_ok_def]
  let ?K' = "case kptr (keys db) (key_table db) k of None \<Rightarrow> keys db | Some a \<Rightarrow> (keys db)[a := None]"
  let ?P = "key_blocks kptr (keys db) (key_table db) (tabs db)"
  have kt: "inv (keys db) (key_table db)" using ok by blast
  obtain t' where t': "ht_Remove H (keys db) (key_table db) (Some k) = Inr (map_of (entries (keys db) (key_table db)) k, t', ?K')" "inv ?K' t'"
      "map_of (entries ?K' t') = (map_of (entries (keys db) (key_table db)))(k := None)"
      "kptr ?K' t' = (kptr (keys db) (key_table db))(k := None)"
    using Remove [OF kt refl] by blast
  have fr: "inv ?K' t \<and> entries ?K' t = entries (keys db) t \<and> kptr ?K' t = kptr (keys db) t" if t: "live (tabs db) a = Some t" for a t
  proof (rule frame)
    show i: "inv (keys db) t" by (rule table_inv [OF assms t])
    fix f b assume b: "kptr (keys db) t f = Some b"
    have "b \<noteq> c" if "kptr (keys db) (key_table db) k = Some c" for c
    proof
      assume "b = c"
      then have "?P (Some a, f) = Some b" "?P (None, k) = Some b" using b t that by (simp_all add: key_blocks_def)
      then have "(Some a, f) = (None, k)" using ok unfolding apart_def by blast
      then show False by simp
    qed
    then show "live ?K' b = Some f"
      using kptr_live [OF i b] live_length [OF kptr_live [OF kt, of k]] by (auto simp: live_update split: option.split)
  qed
  have "apart (key_blocks kptr ?K' t' (tabs db))"
  proof (rule apart_less)
    show "apart ?P" using ok by blast
    fix p b assume "key_blocks kptr ?K' t' (tabs db) p = Some b"
    then show "?P p = Some b" using fr t'(4) by (auto simp: key_blocks_def split: option.splits if_splits prod.splits)
  qed
  moreover have "field_ptr entries ?K' (tabs db) = field_ptr entries (keys db) (tabs db)"
    using fr by (auto simp: field_ptr_def fun_eq_iff split: option.split)
  ultimately show ?thesis using t' fr by blast
qed

lemma Delete_ok:
  assumes "hdb_ok inv entries kptr db" "k = c_str (table @ key)" "length (strs db) < 2 ^ 64"
  shows "\<exists>db'. Hashtable_Delete H db table key = Inr (if hdb_record entries db k = None then kErrorNoData else kOK, db') \<and>
    hdb_ok inv entries kptr db' \<and> hdb_record entries db' = (hdb_record entries db)(k := None)"
proof -
  note ok = assms(1) [unfolded hdb_ok_def]
  obtain t' K' where t': "ht_Remove H (keys db) (key_table db) (Some k) = Inr (map_of (entries (keys db) (key_table db)) k, t', K')" "inv K' t'"
      "map_of (entries K' t') = (map_of (entries (keys db) (key_table db)))(k := None)"
      "\<forall>a t. live (tabs db) a = Some t \<longrightarrow> inv K' t" "field_ptr entries K' (tabs db) = field_ptr entries (keys db) (tabs db)"
      "apart (key_blocks kptr K' t' (tabs db))"
    using Remove_key [OF assms(1)] by blast
  let ?db = "db\<lparr>key_table := t', keys := K'\<rparr>"
  have c: "contents entries ?db = contents entries db" by (simp add: contents_def t'(5))
  show ?thesis
  proof (cases "map_of (entries (keys db) (key_table db)) k")
    case None
    then have "map_of (entries K' t') = map_of (entries (keys db) (key_table db))" using t'(3) by (simp add: fun_upd_idem)
    then have "hdb_ok inv entries kptr ?db" "hdb_record entries ?db = hdb_record entries db"
      using t' ok c by (simp_all add: hdb_ok_def hdb_record_def [abs_def])
    then show ?thesis using None t'(1)
      by (intro exI [of _ ?db]) (simp add: Hashtable_Delete_def assms(2) [symmetric] hdb_record_def fun_upd_idem)
  next
    case (Some a)
    have k: "owned (map_of (entries (keys db) (key_table db))) (live (tabs db))" using ok by blast
    obtain t where t: "live (tabs db) a = Some t" using key_live [OF assms(1) Some] by blast
    have o: "owned (field_ptr entries (keys ?db) (tabs ?db)) (live (strs ?db))" using ok by (simp add: t'(5))
    obtain db' where d: "DeleteFieldHashtable H ?db a = Inr db'" "key_table db' = t'" "keys db' = K'" "live (tabs db') = (live (tabs db))(a := None)"
        "owned (field_ptr entries K' (tabs db')) (live (strs db'))" "contents entries db' = contents entries ?db |` {p. fst p \<noteq> a}"
      using delete_table_ok [OF o, of a t] t t'(4) assms(3) by auto
    have "owned (map_of (entries K' t')) (live (tabs db'))" using owned_remove(1) [OF k Some] t'(3) d(4) by simp
    moreover have "apart (key_blocks kptr K' t' (tabs db'))"
      by (rule apart_less [OF t'(6)]) (auto simp: key_blocks_def d(4) split: option.splits if_splits)
    ultimately have o': "hdb_ok inv entries kptr db'" using t'(2,4) d(2-5) by (auto simp: hdb_ok_def)
    have "b \<noteq> a" if "k' \<noteq> k" "map_of (entries (keys db) (key_table db)) k' = Some b" for k' b
      using owned_unique [OF k Some, of k'] that by blast
    then have ne: "(map_of (entries (keys db) (key_table db))) k' = Some b \<Longrightarrow> k' \<noteq> k \<Longrightarrow>
        contents entries db' (b, f) = contents entries db (b, f)" for k' b f
      using d(6) c by simp
    have "hdb_record entries db' k' = ((hdb_record entries db)(k := None)) k'" for k'
      using ne [of k'] by (cases "map_of (entries (keys db) (key_table db)) k'") (simp_all add: hdb_record_def d(2,3) t'(3))
    then have "hdb_record entries db' = (hdb_record entries db)(k := None)" by blast
    then show ?thesis using o' d(1) t'(1) Some
      by (intro exI [of _ db']) (simp add: Hashtable_Delete_def assms(2) hdb_record_def)
  qed
qed

text \<open>The loop of the destructor, table by table.\<close>

lemma delete_tables_ok:
  "owned (field_ptr entries (keys db) (tabs db)) (live (strs db)) \<Longrightarrow> \<forall>a t. live (tabs db) a = Some t \<longrightarrow> inv (keys db) t \<Longrightarrow>
    length (strs db) < 2 ^ 64 \<Longrightarrow> distinct (map snd ps) \<Longrightarrow> \<forall>x\<in>snd ` set ps. live (tabs db) x \<noteq> None \<Longrightarrow>
    \<exists>db'. delete_tables H db ps = Inr db' \<and> keys db' = keys db \<and> live (tabs db') = live (tabs db) |` (- snd ` set ps) \<and>
      owned (field_ptr entries (keys db) (tabs db')) (live (strs db'))"
proof (induction ps arbitrary: db)
  case (Cons p ps)
  obtain f a where p: "p = (f, a)" by fastforce
  obtain t where t: "live (tabs db) a = Some t" "inv (keys db) t" using Cons.prems(2,5) by (auto simp: p)
  obtain db1 where 1: "DeleteFieldHashtable H db a = Inr db1" "keys db1 = keys db" "live (tabs db1) = (live (tabs db))(a := None)"
      "owned (field_ptr entries (keys db) (tabs db1)) (live (strs db1))" "length (strs db1) = length (strs db)"
    using delete_table_ok [OF Cons.prems(1) t Cons.prems(3)] by blast
  have inv1: "\<forall>a t. live (tabs db1) a = Some t \<longrightarrow> inv (keys db1) t" unfolding 1(2,3) using Cons.prems(2) by auto
  have l1: "\<forall>x\<in>snd ` set ps. live (tabs db1) x \<noteq> None" using Cons.prems(4,5) unfolding 1(3) p by auto
  obtain db' where d: "delete_tables H db1 ps = Inr db'" "keys db' = keys db" "live (tabs db') = live (tabs db1) |` (- snd ` set ps)"
      "owned (field_ptr entries (keys db) (tabs db')) (live (strs db'))"
    using Cons.IH [OF _ inv1 _ _ l1] Cons.prems(3,4) 1(2,4,5) by (auto simp: p)
  have "live (tabs db') = live (tabs db) |` (- snd ` set (p # ps))" unfolding d(3) 1(3) by (auto simp: p restrict_map_def fun_eq_iff)
  then show ?case using d(1,2,4) 1(1) by (auto simp: p)
qed (simp add: restrict_map_def)

lemma dtor_ok:
  assumes "hdb_ok inv entries kptr db" "length (strs db) < 2 ^ 64" "length (tabs db) < 2 ^ 64"
  shows "\<exists>T S. LockStlDB_dtor H db = Inr (T, S, keys db) \<and> set T \<subseteq> {None} \<and> set S \<subseteq> {None}"
proof -
  note e = key_entries [OF assms(1)] and ok = assms(1) [unfolded hdb_ok_def]
  let ?ps = "entries (keys db) (key_table db)"
  obtain db' where d: "delete_tables H db ?ps = Inr db'" "keys db' = keys db" "live (tabs db') = live (tabs db) |` (- snd ` set ?ps)"
      "owned (field_ptr entries (keys db) (tabs db')) (live (strs db'))"
    using delete_tables_ok [of db ?ps] ok e(1,3) assms(2) by blast
  have "live (tabs db') = Map.empty"
  proof (rule ext)
    fix a show "live (tabs db') a = None"
    proof (cases "live (tabs db) a")
      case (Some t)
      then obtain k where "map_of ?ps k = Some a" using owned_owner [of "map_of ?ps" "live (tabs db)" a t] ok by blast
      from map_of_SomeD [OF this] show ?thesis unfolding d(3) by (force simp: restrict_map_def)
    qed (simp add: d(3) restrict_map_def)
  qed
  moreover from this have "field_ptr entries (keys db) (tabs db') = Map.empty" by (simp add: field_ptr_def fun_eq_iff)
  then have "live (strs db') = Map.empty" using d(4) by simp
  moreover have "take npos ?ps = ?ps" using e(2) assms(3) by simp
  ultimately show ?thesis using d(1,2) Entries(1) [of "keys db" "key_table db" npos] ok live_empty [of "tabs db'"] live_empty [of "strs db'"]
    by (simp add: LockStlDB_dtor_def)
qed

text \<open>The copies of the keys of all records and of all their fields, each in a block of its own.\<close>

lemma key_copies:
  assumes "hdb_ok inv entries kptr db"
  shows "\<exists>blk. inj_on blk {(k, f). \<exists>m. hdb_record entries db k = Some m \<and> (\<forall>g. f = Some g \<longrightarrow> m g \<noteq> None)} \<and>
    (\<forall>k m. hdb_record entries db k = Some m \<longrightarrow>
      live (keys db) (blk (k, None)) = Some k \<and> (\<forall>f. m f \<noteq> None \<longrightarrow> live (keys db) (blk (k, Some f)) = Some f))"
proof -
  note ok = assms [unfolded hdb_ok_def]
  let ?P = "key_blocks kptr (keys db) (key_table db) (tabs db)" and ?M = "map_of (entries (keys db) (key_table db))"
  define own where "own = (\<lambda>(k, f). case f of None \<Rightarrow> (None, k) | Some f \<Rightarrow> (?M k, f :: string))"
  define D where "D = {(k, f). \<exists>m. hdb_record entries db k = Some m \<and> (\<forall>g. f = Some g \<longrightarrow> m g \<noteq> None)}"
  have kt: "inv (keys db) (key_table db)" and o: "owned ?M (live (tabs db))" using ok by blast+
  have key: "\<exists>b. ?P (own (k, None)) = Some b" if "hdb_record entries db k = Some m" for k m
  proof -
    have "k \<in> dom ?M" using that by (auto simp: hdb_record_def)
    then have "k \<in> dom (kptr (keys db) (key_table db))" using kptr_dom [OF kt] by simp
    then show ?thesis by (auto simp: own_def key_blocks_def)
  qed
  have fld: "\<exists>b. ?P (own (k, Some f)) = Some b" if r: "hdb_record entries db k = Some m" and f: "m f \<noteq> None" for k m f
  proof -
    obtain a where a: "?M k = Some a" "m = (\<lambda>f. contents entries db (a, f))" using r by (auto simp: hdb_record_def)
    obtain t where t: "live (tabs db) a = Some t" "inv (keys db) t" using key_live [OF assms a(1)] by blast
    have "f \<in> dom (map_of (entries (keys db) t))" using f contents_ptr(1) [OF assms t(1), of f] a(2) by auto
    then have "f \<in> dom (kptr (keys db) t)" using kptr_dom [OF t(2)] by simp
    then show ?thesis using a(1) t(1) by (auto simp: own_def key_blocks_def)
  qed
  have D: "\<exists>b. ?P (own p) = Some b" if "p \<in> D" for p
    using that key fld by (cases p; cases "snd p") (auto simp: D_def)
  have "inj_on own D"
  proof (rule inj_onI)
    fix p q assume p: "p \<in> D" "q \<in> D" "own p = own q"
    obtain k f k' f' where e: "p = (k, f)" "q = (k', f')" by fastforce
    obtain a a' where a: "?M k = Some a" "?M k' = Some a'" using p(1,2) by (auto simp: D_def e hdb_record_def)
    show "p = q" using p(3) a owned_unique [OF o a(1), of k'] by (cases f; cases f') (auto simp: own_def e)
  qed
  then have "inj_on (\<lambda>p. the (?P (own p))) D"
    using D ok unfolding apart_def inj_on_def by (metis option.sel)
  moreover have "live (keys db) (the (?P (own (k, None)))) = Some k" if "hdb_record entries db k = Some m" for k m
    using key [OF that] key_blocks_live [OF assms, of None k] by (auto simp: own_def)
  moreover have "live (keys db) (the (?P (own (k, Some f)))) = Some f" if "hdb_record entries db k = Some m" "m f \<noteq> None" for k m f
    using fld [OF that] key_blocks_live [OF assms, of "?M k" f] by (auto simp: own_def)
  ultimately show ?thesis unfolding D_def by (intro exI [of _ "\<lambda>p. the (?P (own p))"]) blast
qed

lemma ctor_ok: "hdb_ok inv entries kptr (LockStlDB_ctor H)" "hdb_record entries (LockStlDB_ctor H) = Map.empty"
proof -
  have "field_ptr entries [] [] = Map.empty" by (simp add: field_ptr_def fun_eq_iff)
  moreover have "kptr [] (ht_new H) = Map.empty" using kptr_dom [OF new(1), of "[]"] new(2) by simp
  then have "apart (key_blocks kptr [] (ht_new H) [])" by (auto simp: apart_def key_blocks_def split: option.splits)
  ultimately show "hdb_ok inv entries kptr (LockStlDB_ctor H)" "hdb_record entries (LockStlDB_ctor H) = Map.empty"
    using new by (simp_all add: hdb_ok_def LockStlDB_ctor_def hdb_record_def [abs_def])
qed

end

text \<open>The database on locked tables.\<close>

interpretation lock_db: hashtable_db "LockStlHashtable ord" stl_inv stl_entries stl_kptr for ord
  by unfold_locales

abbreviation (input) lock_ok where "lock_ok \<equiv> hdb_ok stl_inv stl_entries stl_kptr"

abbreviation (input) lock_record where "lock_record \<equiv> hdb_record stl_entries"

section \<open>Theorems\<close>

text \<open>
  C13. The hash table database is a map from keys to records, where the key is the name of the table followed
  by that of the record: \<^verbatim>\<open>Update\<close> overrides the fields it is given in the record, which it makes when it is not there;
  \<^verbatim>\<open>Insert\<close> adds them, but stops with \<^verbatim>\<open>kErrorConflict\<close> at the first that exists, and keeps the ones before
  it; \<^verbatim>\<open>Delete\<close> removes the record or reports that there is none. No other record changes, nothing is
  used after it was deleted, and every table and string keeps exactly one owner. Every copy of a key that a table of the
  database holds stays a live block that no other table and no other key holds. The names of the fields written are
  distinct.
\<close>

theorem hashtable_db_writes:
  assumes "lock_ok db" "distinct (map fst (c_values vs))" "k = c_str (table @ key)" "m = fields_of (lock_record db k)"
    "length (strs db) < 2 ^ 64"
  shows "(\<exists>db'. Hashtable_Update (LockStlHashtable ord) db table key vs = Inr (kOK, db') \<and> lock_ok db' \<and>
      lock_record db' = (lock_record db)(k \<mapsto> m ++ map_of (c_values vs))) \<and>
    (\<exists>db'. Hashtable_Insert (LockStlHashtable ord) db table key vs =
        Inr (if \<forall>(f, v)\<in>set vs. m (c_str f) = None then kOK else kErrorConflict, db') \<and> lock_ok db' \<and>
      lock_record db' = (lock_record db)(k \<mapsto> m ++ map_of (c_values (takeWhile (\<lambda>(f, v). m (c_str f) = None) vs)))) \<and>
    (\<exists>db'. Hashtable_Delete (LockStlHashtable ord) db table key = Inr (if lock_record db k = None then kErrorNoData else kOK, db') \<and>
      lock_ok db' \<and> lock_record db' = (lock_record db)(k := None))"
  using lock_db.Update_ok [OF assms(1-3)] lock_db.Insert_ok [OF assms(1-4)] lock_db.Delete_ok [OF assms(1,3,5)] assms(4) by blast

text \<open>
  C14. Reading finds what the map holds: all fields of the record, each once, or those asked for that exist, in the order
  asked; a record that is not there is \<^verbatim>\<open>kErrorNoData\<close>. \<^verbatim>\<open>Scan\<close> answers distinct records, at most as many as asked for,
  the first being the one at the key; it is empty when the key is absent.
\<close>

theorem hashtable_db_reads:
  assumes "lock_ok db" "k = c_str (table @ key)" "length (strs db) < 2 ^ 64" "0 < n" "n < 2 ^ 31"
  shows "(case lock_record db k of
        None \<Rightarrow> Hashtable_Read (LockStlHashtable ord) db table key flds result = Inr (kErrorNoData, result)
      | Some m \<Rightarrow> \<exists>r. Hashtable_Read (LockStlHashtable ord) db table key flds result = Inr (kOK, r) \<and> answers m flds r) \<and>
    (\<exists>ks rs. Hashtable_Scan (LockStlHashtable ord) db table key n flds results = Inr (kOK, rs) \<and> distinct ks \<and> length ks \<le> nat n \<and>
      (if lock_record db k = None then ks = [] else ks \<noteq> [] \<and> hd ks = k) \<and>
      list_all2 (\<lambda>k r. \<exists>m. lock_record db k = Some m \<and> answers m flds r) ks rs)"
  using lock_db.Read_ok [OF assms(1-3)] lock_db.Scan_ok [OF assms] by blast

text \<open>
  C15. The destructor releases every table of fields and every string, each once: after it nothing is live on either of these
  heaps. The copies of keys it does not release: the heap of keys is as it was, and in it each record's key and the name of each of
  its fields still has a live block, a different one each, to which no pointer is left.
\<close>

theorem hashtable_db_releases:
  assumes "lock_ok db" "length (strs db) < 2 ^ 64" "length (tabs db) < 2 ^ 64"
  shows "\<exists>T S blk. LockStlDB_dtor (LockStlHashtable ord) db = Inr (T, S, keys db) \<and> set T \<subseteq> {None} \<and> set S \<subseteq> {None} \<and>
    inj_on blk {(k, f). \<exists>m. lock_record db k = Some m \<and> (\<forall>g. f = Some g \<longrightarrow> m g \<noteq> None)} \<and>
    (\<forall>k m. lock_record db k = Some m \<longrightarrow>
      live (keys db) (blk (k, None)) = Some k \<and> (\<forall>f. m f \<noteq> None \<longrightarrow> live (keys db) (blk (k, Some f)) = Some f))"
proof -
  obtain T S where d: "LockStlDB_dtor (LockStlHashtable ord) db = Inr (T, S, keys db)" "set T \<subseteq> {None}" "set S \<subseteq> {None}"
    using lock_db.dtor_ok [OF assms, of ord] by blast
  from lock_db.key_copies [OF assms(1)] show ?thesis
    by (elim exE conjE) (rule exI [of _ T], rule exI [of _ S], rule exI, intro conjI d; assumption)
qed

text \<open>A database with one record, made by \<^verbatim>\<open>Update\<close>.\<close>

definition one_record :: "nat nodes hdb" where
  "one_record = (case Hashtable_Update (LockStlHashtable id) (LockStlDB_ctor (LockStlHashtable id)) ''t'' ''k'' [(''f'', ''v'')] of
     Inr (_, db) \<Rightarrow> db)"

lemma one_record_ok: "lock_ok one_record" "lock_record one_record = [''tk'' \<mapsto> [''f'' \<mapsto> ''v'']]"
proof -
  have c: "c_str ''tk'' = ''tk''" "c_str ''f'' = ''f''" "c_str ''v'' = ''v''" by (simp_all add: c_str_def)
  show "lock_ok one_record" "lock_record one_record = [''tk'' \<mapsto> [''f'' \<mapsto> ''v'']]"
    using lock_db.Update_ok [OF lock_db.ctor_ok(1) [of id], of "[(''f'', ''v'')]" "''tk''" "''t''" "''k''" id] lock_db.ctor_ok(2) [of id]
    unfolding one_record_def by (auto simp: c)
qed

lemma one_record_sizes: "length (strs one_record) = 1" "length (tabs one_record) = 1"
  by code_simp+

theorem hashtable_db_writes_witness:
  "\<exists>db'. Hashtable_Insert (LockStlHashtable id) one_record ''tk'' [] [(''g'', ''w''), (''f'', ''x'')] = Inr (kErrorConflict, db') \<and>
     lock_record db' ''tk'' = Some [''f'' \<mapsto> ''v'', ''g'' \<mapsto> ''w'']"
proof -
  have c: "c_str ''tk'' = ''tk''" "c_str ''g'' = ''g''" "c_str ''f'' = ''f''" "c_str ''w'' = ''w''" by (simp_all add: c_str_def)
  show ?thesis
    using hashtable_db_writes [OF one_record_ok(1), of "[(''g'', ''w''), (''f'', ''x'')]" "''tk''" "''tk''" "[]" "[''f'' \<mapsto> ''v'']" id]
    by (auto simp: c one_record_ok(2) one_record_sizes fun_upd_twist)
qed

theorem hashtable_db_reads_witness:
  "Hashtable_Read (LockStlHashtable id) one_record ''tk'' [] (Some [''a'', ''f'']) [] = Inr (kOK, [(''f'', ''v'')])"
proof -
  have c: "c_str ''tk'' = ''tk''" "c_str ''a'' = ''a''" "c_str ''f'' = ''f''" by (simp_all add: c_str_def)
  show ?thesis
    using hashtable_db_reads [OF one_record_ok(1), of "''tk''" "''tk''" "[]" 1 id "Some [''a'', ''f'']" "[]" "[]"]
    by (auto simp: c one_record_ok(2) one_record_sizes answers_def map_filter_simps)
qed

theorem hashtable_db_releases_witness:
  "\<exists>T S K a b. LockStlDB_dtor (LockStlHashtable id) one_record = Inr (T, S, K) \<and> set T \<subseteq> {None} \<and> set S \<subseteq> {None} \<and>
     a \<noteq> b \<and> live K a = Some ''tk'' \<and> live K b = Some ''f''"
proof -
  have l: "length (strs one_record) < 2 ^ 64" "length (tabs one_record) < 2 ^ 64" by (simp_all add: one_record_sizes)
  from hashtable_db_releases [OF one_record_ok(1) l, of id] obtain T S blk where
    d: "LockStlDB_dtor (LockStlHashtable id) one_record = Inr (T, S, keys one_record)" "set T \<subseteq> {None}" "set S \<subseteq> {None}"
    and i: "inj_on blk {(k, f). \<exists>m. lock_record one_record k = Some m \<and> (\<forall>g. f = Some g \<longrightarrow> m g \<noteq> None)}"
    and b: "\<forall>k m. lock_record one_record k = Some m \<longrightarrow> live (keys one_record) (blk (k, None)) = Some k \<and>
      (\<forall>f. m f \<noteq> None \<longrightarrow> live (keys one_record) (blk (k, Some f)) = Some f)" by blast
  have "live (keys one_record) (blk (''tk'', None)) = Some ''tk''" "live (keys one_record) (blk (''tk'', Some ''f'')) = Some ''f''"
    using b [rule_format, of "''tk''" "[''f'' \<mapsto> ''v'']"] by (simp_all add: one_record_ok(2))
  moreover from this have "blk (''tk'', None) \<noteq> blk (''tk'', Some ''f'')" by auto
  ultimately show ?thesis using d by blast
qed

end
