(* ===== verification/RedisDb.thy ===== *)
theory RedisDb
  imports Connect ContextReply StlTable
begin

text \<open>
  The database on Redis: the client \<^verbatim>\<open>redis/redis_client.h\<close> over a blocking connection of hiredis, and
  \<^verbatim>\<open>db/redis_db.cc\<close>. A C++ string that is passed as a \<^verbatim>\<open>char\<close> pointer is its text with a terminator. The process may
  exit with a status or throw a string; the value \<open>garbage\<close> is what an unset pointer holds. The state
  is that of the connection; \<open>slaves\<close> is the number of replicas to wait for.
\<close>

section \<open>The client\<close>

datatype redis_end = RFault fault | Exits int | Throws string

definition rlift :: "'a res \<Rightarrow> redis_end + 'a" where
  "rlift m = (case m of Inl e \<Rightarrow> Inl (RFault e) | Inr x \<Rightarrow> Inr x)"

lemma rlift_simps [simp]: "rlift (Inr x) = Inr x" "rlift (Inl e) = Inl (RFault e)"
  by (simp_all add: rlift_def)

definition RedisClient_ctor where
  "RedisClient_ctor S N A host port hw =
     bindR (rlift (redisConnect S N A host port hw)) (\<lambda>(context, h, w).
     case context of None \<Rightarrow> Inl (Exits 1)
     | Some c \<Rightarrow> if c_err c \<noteq> 0 then bindR (rlift (redisFree S (c, h, w))) (\<lambda>_. Inl (Exits 1)) else Inr (c, h, w))"

definition RedisClient_dtor :: "'w system \<Rightarrow> 'w cstate \<Rightarrow> redis_end + heap \<times> 'w" where
  "RedisClient_dtor S st = rlift (redisFree S st)"

definition HandleError :: "'w system \<Rightarrow> 'w cstate \<Rightarrow> nat \<Rightarrow> redis_end + 'a" where
  "HandleError S st reply =
     (let (c, h, w) = st in
      bindR (rlift (if reply \<noteq> 0 then freeReplyObject reply h else Inr h)) (\<lambda>h.
      bindR (rlift (redisFree S (c, h, w))) (\<lambda>_. Inl (Exits 2))))"

text \<open>\<^verbatim>\<open>if (redisGetReply(context_, &reply) == REDIS_ERR) HandleError(reply, ...)\<close>: a call that fails leaves the
  pointer \<open>reply\<close> as it was.\<close>

definition get_or_exit :: "'w system \<Rightarrow> allocator \<Rightarrow> nat \<Rightarrow> 'w cstate \<Rightarrow> (redis_end + nat \<times> 'w cstate) option" where
  "get_or_exit S A reply st =
     bindO (map_option rlift (redisGetReply S A st)) (\<lambda>(rc, r, st).
     Some (if rc = REDIS_ERR then HandleError S st reply else Inr (r, st)))"

text \<open>\<^verbatim>\<open>freeReplyObject(reply)\<close>.\<close>

definition drop_reply :: "nat \<Rightarrow> 'w cstate \<Rightarrow> redis_end + 'w cstate" where
  "drop_reply reply st = (let (c, h, w) = st in bindR (rlift (freeReplyObject reply h)) (\<lambda>h. Inr (c, h, w)))"

text \<open>The text of the command is the format; the results of the two appends are dropped.\<close>

definition Command ::
  "'w system \<Rightarrow> allocator \<Rightarrow> (bytes \<Rightarrow> va \<Rightarrow> bytes) \<Rightarrow> nat \<Rightarrow> int \<Rightarrow> 'w cstate \<Rightarrow> string \<Rightarrow> (redis_end + int \<times> 'w cstate) option" where
  "Command S A pf garbage slaves st cmd =
     (let (c, h, w) = st in
      bindO (Some (rlift (redisAppendCommand S A pf c (cmd @ [NUL]) []))) (\<lambda>(_, c).
      bindO (Some (if slaves \<noteq> 0 then rlift (redisAppendCommand S A pf c (''WAIT %d %d'' @ [NUL]) [VInt slaves, VInt 0])
                   else Inr (REDIS_OK, c))) (\<lambda>(_, c).
      bindO (get_or_exit S A garbage (c, h, w)) (\<lambda>(reply, st).
      bindO (Some (drop_reply reply st)) (\<lambda>st.
      if slaves \<noteq> 0 then
        bindO (get_or_exit S A reply st) (\<lambda>(reply, st).
        bindO (Some (drop_reply reply st)) (\<lambda>st. Some (Inr (0, st))))
      else Some (Inr (0, st)))))))"

section \<open>The database\<close>

text \<open>\<^verbatim>\<open>string(p)\<close> for a pointer to a C string.\<close>

definition string_of :: "bytes option \<Rightarrow> string res" where
  "string_of p = bindR (deref p) (\<lambda>b. bindR (strlen b) (\<lambda>n. Inr (take (nat n) b)))"

text \<open>The vector \<^verbatim>\<open>reply->element\<close> up to \<^verbatim>\<open>reply->elements\<close>.\<close>

definition reply_elements :: "redisReply \<Rightarrow> nat list res" where
  "reply_elements r =
     (if rp_elements r = 0 then Inr []
      else bindR (deref (rp_element r)) (\<lambda>es. if rp_elements r \<le> int (length es) then Inr (take (nat (rp_elements r)) es) else Inl OutOfBounds))"

text \<open>\<^verbatim>\<open>string(value ? value : "")\<close> for every element, with the field of its index.\<close>

fun hmget_loop :: "heap \<Rightarrow> nat list \<Rightarrow> string list \<Rightarrow> kvpair list res" where
  "hmget_loop h [] flds = Inr []"
| "hmget_loop h (a # as) [] = Inl OutOfBounds"
| "hmget_loop h (a # as) (f # flds) =
     bindR (get_obj h a) (\<lambda>r.
     bindR (if rp_str r = None then Inr '''' else string_of (rp_str r)) (\<lambda>v.
     bindR (hmget_loop h as flds) (\<lambda>vs. Inr ((f, v) # vs))))"

text \<open>The elements in pairs; an odd one is left out.\<close>

fun hgetall_loop :: "heap \<Rightarrow> nat list \<Rightarrow> kvpair list res" where
  "hgetall_loop h (a # b # as) =
     bindR (bindR (get_obj h a) (\<lambda>r. string_of (rp_str r))) (\<lambda>f.
     bindR (bindR (get_obj h b) (\<lambda>r. string_of (rp_str r))) (\<lambda>v.
     bindR (hgetall_loop h as) (\<lambda>vs. Inr ((f, v) # vs))))"
| "hgetall_loop h _ = Inr []"

text \<open>What both branches of \<^verbatim>\<open>Read\<close> do with a reply.\<close>

definition read_reply ::
  "(redisReply \<Rightarrow> unit res) \<Rightarrow> (heap \<Rightarrow> nat list \<Rightarrow> kvpair list res) \<Rightarrow> kvpair list \<Rightarrow> nat \<Rightarrow> 'w cstate \<Rightarrow>
    redis_end + int \<times> kvpair list \<times> 'w cstate" where
  "read_reply check loop result reply st =
     (if reply = 0 then Inr (kOK, result, st)
      else
        bindR (rlift (bindR (get_obj (fst (snd st)) reply) (\<lambda>r.
          bindR (assertR (rp_type r = REDIS_REPLY_ARRAY)) (\<lambda>_.
          bindR (check r) (\<lambda>_.
          bindR (reply_elements r) (loop (fst (snd st)))))))) (\<lambda>vs.
        bindR (drop_reply reply st) (\<lambda>st. Inr (kOK, result @ vs, st))))"

definition RedisDB_Read ::
  "'w system \<Rightarrow> allocator \<Rightarrow> (bytes \<Rightarrow> va \<Rightarrow> bytes) \<Rightarrow> 'w cstate \<Rightarrow> string \<Rightarrow> string \<Rightarrow> string list option \<Rightarrow> kvpair list \<Rightarrow>
    (redis_end + int \<times> kvpair list \<times> 'w cstate) option" where
  "RedisDB_Read S A pf st table key flds result =
     (case flds of
        Some flds \<Rightarrow>
          let argc = int32 (uint64 (int (length flds) + 2));
              argv = (''HMGET'' @ [NUL]) # (key @ [NUL]) # map (\<lambda>f. f @ [NUL]) flds;
              argvlen = 5 # int (length key) # map (\<lambda>f. int (length f)) flds in
          bindO (Some (rlift (assertR (int (length flds) + 1 = argc - 1)))) (\<lambda>_.
          bindO (map_option rlift (redisCommandArgv S A st argc argv (Some argvlen))) (\<lambda>(reply, st).
          Some (read_reply (\<lambda>r. assertR (int (length flds) = rp_elements r)) (\<lambda>h es. hmget_loop h es flds) result reply st)))
      | None \<Rightarrow>
          bindO (map_option rlift (redisCommand S A pf st (''HGETALL %s'' @ [NUL]) [VPtr (key @ [NUL])])) (\<lambda>(reply, st).
          Some (read_reply (\<lambda>_. Inr ()) hgetall_loop result reply st)))"

definition RedisDB_Scan :: "string \<Rightarrow> string \<Rightarrow> int \<Rightarrow> string list option \<Rightarrow> redis_end + 'a" where
  "RedisDB_Scan table key len flds = Inl (Throws ''Scan: function not implemented!'')"

fun append_values :: "string \<Rightarrow> kvpair list \<Rightarrow> string res" where
  "append_values cmd [] = Inr cmd"
| "append_values cmd ((f, v) # values) =
     bindR (assertR (CHR '' '' \<notin> set f)) (\<lambda>_.
     bindR (assertR (CHR '' '' \<notin> set v)) (\<lambda>_. append_values (cmd @ '' '' @ f @ '' '' @ v) values))"

definition RedisDB_Update ::
  "'w system \<Rightarrow> allocator \<Rightarrow> (bytes \<Rightarrow> va \<Rightarrow> bytes) \<Rightarrow> nat \<Rightarrow> int \<Rightarrow> 'w cstate \<Rightarrow> string \<Rightarrow> string \<Rightarrow> kvpair list \<Rightarrow>
    (redis_end + int \<times> 'w cstate) option" where
  "RedisDB_Update S A pf garbage slaves st table key values =
     (let cmd = ''HMSET''; len = length cmd + length key + 1 + sum_list (map (\<lambda>(f, v). length f + length v + 2) values) in
      bindO (Some (rlift (append_values (cmd @ '' '' @ key) values))) (\<lambda>cmd.
      bindO (Some (rlift (assertR (length cmd = len)))) (\<lambda>_.
      bindO (Command S A pf garbage slaves st cmd) (\<lambda>(_, st). Some (Inr (kOK, st))))))"

definition RedisDB_Insert where
  "RedisDB_Insert S A pf garbage slaves st table key values = RedisDB_Update S A pf garbage slaves st table key values"

definition RedisDB_Delete where
  "RedisDB_Delete S A pf garbage slaves st (table :: string) key =
     bindO (Command S A pf garbage slaves st (''DEL '' @ key)) (\<lambda>(_, st). Some (Inr (kOK, st)))"

end
