(* ===== verification/RedisDbContract.thy ===== *)
theory RedisDbContract
  imports RedisDb ContextContract
begin

text \<open>
  What the Redis database sends and reads back: an update is one command of as many words as it has fields
  and values, as long as none of them holds a percent sign; a read of fields returns the values of the server.
\<close>

section \<open>Words of a command\<close>

text \<open>A word the format language takes as it is.\<close>

definition plain :: "string \<Rightarrow> bool" where
  "plain w \<longleftrightarrow> w \<noteq> [] \<and> CHR '' '' \<notin> set w \<and> CHR ''%'' \<notin> set w \<and> NUL \<notin> set w"

lemma expand_text: "CHR '' '' \<notin> set w \<Longrightarrow> CHR ''%'' \<notin> set w \<Longrightarrow> expand (w @ r) ap cur True = expand r ap (cur @ w) True"
  by (induction w arbitrary: cur) auto

lemma expand_plain: "plain w \<Longrightarrow> expand (w @ r) ap [] False = expand r ap w True"
  using expand_text [of "tl w" r ap "[hd w]"] by (cases w) (auto simp: plain_def)

definition unwords :: "string list \<Rightarrow> string" where
  "unwords ws = concat (map (\<lambda>w. '' '' @ w) ws)"

lemma expand_unwords: "\<forall>w\<in>set ws. plain w \<Longrightarrow> cur \<noteq> [] \<Longrightarrow> expand (unwords ws) ap cur True = Some (cur # ws)"
  by (induction ws arbitrary: cur) (auto simp: unwords_def expand_plain plain_def)

lemma expand_command: "plain w \<Longrightarrow> \<forall>w\<in>set ws. plain w \<Longrightarrow> expand (w @ unwords ws) ap [] False = Some (w # ws)"
  by (simp add: expand_plain expand_unwords plain_def)

lemma plain_NUL: "plain w \<Longrightarrow> \<forall>w\<in>set ws. plain w \<Longrightarrow> NUL \<notin> set (w @ unwords ws)"
  by (auto simp: unwords_def plain_def)

text \<open>The words of an update.\<close>

definition words_of :: "kvpair list \<Rightarrow> string list" where
  "words_of vs = concat (map (\<lambda>(f, v). [f, v]) vs)"

lemma words_of_simps [simp]: "words_of [] = []" "words_of ((f, v) # vs) = f # v # words_of vs"
  by (simp_all add: words_of_def)

lemma unwords_simps [simp]: "unwords [] = []" "unwords (w # ws) = CHR '' '' # w @ unwords ws"
  by (simp_all add: unwords_def)

lemma append_values_words:
  "\<forall>w\<in>set (words_of vs). plain w \<Longrightarrow> append_values cmd vs = Inr (cmd @ unwords (words_of vs))"
proof (induction vs arbitrary: cmd)
  case (Cons p vs)
  then show ?case by (cases p) (simp add: plain_def)
qed simp

lemma length_unwords: "length (unwords (words_of vs)) = sum_list (map (\<lambda>(f, v). length f + length v + 2) vs)"
  by (induction vs) auto

section \<open>Commands\<close>

lemma redisAppendCommand_ready:
  assumes A: "\<forall>k. can_alloc A k" and c: "ready A c" and f: "expand f ap [] False = Some args" "NUL \<notin> set f"
    and l: "int (length (command args)) < sds_limit"
  shows "\<exists>s. redisAppendCommand S A pf c (f @ [NUL]) ap = Inr (REDIS_OK, c\<lparr>c_obuf := Some s\<rparr>) \<and> sds_ok s \<and> sds_str s = command args"
proof -
  have cb: "int (length (command_bytes args)) < sds_limit" using l by (simp only: command_bytes_encode)
  have v: "redisvFormatCommand A pf True (f @ [NUL]) ap = Inr (int (length (command args)), Some (command args @ [NUL]))"
    using redisvFormatCommand_bytes [OF A f cb, of pf] by (simp only: command_bytes_encode)
  obtain s where s: "redisAppendCommand_raw S A c (command args @ [NUL]) (int (length (command args))) = Inr (REDIS_OK, c\<lparr>c_obuf := Some s\<rparr>)"
      "sds_ok s" "sds_str s = command args"
    using append_raw_ready [OF A c _ l, of "command args @ [NUL]"] by auto
  have "uint64 (int (length (command args))) = int (length (command args))" using l by (simp add: cint del: encode.simps)
  then show ?thesis
    using v s by (intro exI [of _ s]) (simp add: redisAppendCommand_def redisvAppendCommand_def del: encode.simps)
qed

text \<open>A command without replicas: it is sent, its reply is read and released.\<close>

lemma Command_answer:
  assumes A: "\<forall>k. can_alloc A k" and S: "server S sent got serve" and c: "ready A c" and g: "got w = length (serve (sent w))"
    and f: "expand f [] [] False = Some args" "NUL \<notin> set f" "int (length (command args)) < sds_limit"
    and rep: "wf_at 0 rep" "int (length (encode rep)) + 1024 < sds_limit" "serve (sent w @ command args) = serve (sent w) @ encode rep"
  shows "\<exists>c' w'. Command S A pf garbage 0 (c, h, w) f = Some (Inr (0, c', h @ replicate (nobjs rep) None, w')) \<and>
    ready A c' \<and> sent w' = sent w @ command args \<and> got w' = length (serve (sent w'))"
proof -
  obtain s where s: "redisAppendCommand S A pf c (f @ [NUL]) [] = Inr (REDIS_OK, c\<lparr>c_obuf := Some s\<rparr>)" "sds_ok s" "sds_str s = command args"
    using redisAppendCommand_ready [OF A c f] by blast
  have "drop (got w) (serve (sent w @ sds_str s)) = encode rep" using g rep(3) s(3) by simp
  from redisGetReply_answer [OF A S c s(2) rep(1) this rep(2), of h] obtain c' w' where
    r: "redisGetReply S A (c\<lparr>c_obuf := Some s\<rparr>, h, w) = Some (Inr (REDIS_OK, Suc (length h), c', h @ map Some (objs (length h) rep), w'))"
      "ready A c'" "sent w' = sent w @ command args" "got w' = got w + length (encode rep)"
    using s(3) by auto
  have "Command S A pf garbage 0 (c, h, w) f = Some (Inr (0, c', h @ replicate (nobjs rep) None, w'))"
    using s(1) r(1) free_reply [of h rep] by (simp add: Command_def get_or_exit_def drop_reply_def)
  then show ?thesis using r(2-4) g rep(3) by simp
qed

section \<open>Reading fields\<close>

text \<open>The server's answer to a read of fields: a value or nothing for each.\<close>

definition value_reply :: "bytes option \<Rightarrow> reply" where
  "value_reply v = (case v of None \<Rightarrow> Nil | Some b \<Rightarrow> Bulk b)"

lemma string_of_text: "string_of (Some (b @ [NUL])) = Inr (c_str b)"
proof (cases "NUL \<in> set b")
  case True
  then obtain p q where b: "b = p @ NUL # q" "NUL \<notin> set p" by (meson split_list_first)
  then have "c_str b = p" by (auto simp: c_str_def takeWhile_append takeWhile_eq_all_conv)
  then show ?thesis using strlen_append_NUL [OF b(2), of "q @ [NUL]"] b(1) by (simp add: string_of_def)
next
  case False
  then show ?thesis using strlen_append_NUL [OF False, of "[]"] by (simp add: string_of_def c_str_id)
qed

lemma hmget_loop_values:
  "reps_at h as (map value_reply vs) \<Longrightarrow> length fs = length vs \<Longrightarrow>
    hmget_loop h as fs = Inr (zip fs (map (\<lambda>v. case v of None \<Rightarrow> '''' | Some b \<Rightarrow> c_str b) vs))"
proof (induction vs arbitrary: as fs)
  case Nil
  then show ?case by (cases as) auto
next
  case (Cons v vs)
  obtain a as' f fs' where as: "as = a # as'" "fs = f # fs'" using Cons.prems by (cases as; cases fs) auto
  have IH: "hmget_loop h as' fs' = Inr (zip fs' (map (\<lambda>v. case v of None \<Rightarrow> '''' | Some b \<Rightarrow> c_str b) vs))"
    by (rule Cons.IH) (use Cons.prems as in auto)
  show ?case
  proof (cases v)
    case None
    then show ?thesis using Cons.prems IH as by (simp add: value_reply_def nil_obj_def)
  next
    case (Some b)
    then show ?thesis using Cons.prems IH as by (simp add: value_reply_def str_obj_def string_of_text)
  qed
qed

section \<open>Formats with a percent sign\<close>

text \<open>A conversion of a string without an argument.\<close>

lemma redisAppendCommand_percent:
  assumes A: "\<forall>k. can_alloc A k" and t: "CHR ''%'' \<notin> set t" "NUL \<notin> set t" "16 * int (length t) < sds_limit"
  shows "redisAppendCommand S A pf c ((t @ ''%s'' @ u) @ [NUL]) [] = Inl BadVaArg"
proof -
  let ?st = "\<lparr>f_cur = sds_of [], f_touched = False, f_argv = [], f_totlen = 0\<rparr>" and ?fmt = "(t @ ''%s'' @ u) @ [NUL]"
  have e: "sdsempty A = Inr (Some (sds_of []))" using A by (simp add: sdsempty_spec sds_of_def)
  have "fstate_ok ?st" "room ?st (length t)" using t(3) sds_of [of "[]"] by (simp_all add: fstate_ok_def room_def)
  from format_loop_text [OF A this t(1,2), of pf "[]" "''%s'' @ u @ [NUL]" "[]"] obtain st' where
    l: "format_loop A pf ?fmt 0 ?st [] = format_loop A pf ?fmt (int (length t)) st' []" by auto
  have r: "rd ?fmt (int (length t)) = Inr CHR ''%''" "rd ?fmt (int (length t) + 1) = Inr CHR ''s''"
    using rd_at [OF refl, of 0 "''%s'' @ u @ [NUL]" t] rd_at [OF refl, of 1 "''%s'' @ u @ [NUL]" t] by simp_all
  then have "format_step A pf ?fmt (int (length t)) CHR ''%'' st' [] = Inl BadVaArg"
    by (simp add: format_step_def format_conv_def)
  then have "format_loop A pf ?fmt (int (length t)) st' [] = Inl BadVaArg"
    using r(1) by (subst format_loop.simps) simp
  then show ?thesis using e l by (simp add: redisAppendCommand_def redisvAppendCommand_def redisvFormatCommand_def)
qed

section \<open>Theorems\<close>

text \<open>
  C16. An update on a blocking connection without replicas sends the server exactly one command, \<^verbatim>\<open>HMSET\<close> with the key and
  the fields and values in order, each as one word; it reads the reply and releases all its objects, and leaves
  the connection ready. The reply is not looked at: the answer is \<^verbatim>\<open>kOK\<close> whatever it is, an error of the server included,
  where the interface of \<^verbatim>\<open>core/db.h\<close> announces a non-zero code. No key, field or value is empty or holds a space or a
  percent sign.
\<close>

theorem redis_update_sends:
  assumes "\<forall>k. can_alloc A k" "server S sent got serve" "ready A c" "got w = length (serve (sent w))"
    "plain key" "\<forall>x\<in>set (words_of vs). plain x" "args = ''HMSET'' # key # words_of vs" "int (length (command args)) < sds_limit"
    "wf_at 0 rep" "int (length (encode rep)) + 1024 < sds_limit" "serve (sent w @ command args) = serve (sent w) @ encode rep"
  shows "\<exists>c' w'. RedisDB_Update S A pf garbage 0 (c, h, w) table key vs = Some (Inr (kOK, c', h @ replicate (nobjs rep) None, w')) \<and>
    ready A c' \<and> sent w' = sent w @ command args \<and> got w' = length (serve (sent w'))"
proof -
  let ?cmd = "''HMSET'' @ unwords (key # words_of vs)"
  have p: "plain ''HMSET''" "\<forall>x\<in>set (key # words_of vs). plain x" using assms(5,6) by (simp_all add: plain_def)
  have e: "expand ?cmd [] [] False = Some args" unfolding assms(7) by (rule expand_command [OF p])
  obtain c' w' where r: "Command S A pf garbage 0 (c, h, w) ?cmd = Some (Inr (0, c', h @ replicate (nobjs rep) None, w'))"
      "ready A c'" "sent w' = sent w @ command args" "got w' = length (serve (sent w'))"
    using Command_answer [OF assms(1-4) e plain_NUL [OF p] assms(8-11)] by blast
  have "append_values (''HMSET'' @ '' '' @ key) vs = Inr ?cmd" using append_values_words [OF assms(6), of "''HMSET'' @ '' '' @ key"] by simp
  moreover have "length ?cmd = length ''HMSET'' + length key + 1 + sum_list (map (\<lambda>(f, v). length f + length v + 2) vs)"
    by (simp add: length_unwords)
  ultimately have "RedisDB_Update S A pf garbage 0 (c, h, w) table key vs = Some (Inr (kOK, c', h @ replicate (nobjs rep) None, w'))"
    using r(1) unfolding RedisDB_Update_def Let_def by simp
  then show ?thesis using r(2-4) by blast
qed

text \<open>
  C17. A read of fields sends \<^verbatim>\<open>HMGET\<close> with the key and the fields, whatever bytes they hold, and appends to the
  result each field with the value the server gave for it, up to its first zero byte, or the empty string where it gave
  none. The answer is \<^verbatim>\<open>kOK\<close>, also for a record that is not there, whose fields all come back empty: the server then
  gives no value for any of them, and \<^verbatim>\<open>core/db.h\<close> announces a non-zero code. All objects of the reply are released.
\<close>

theorem redis_read_fields:
  assumes "\<forall>k. can_alloc A k" "server S sent got serve" "ready A c" "got w = length (serve (sent w))" "length fs = length vs"
    "args = ''HMGET'' # key # fs" "int (length (command args)) < sds_limit" "rep = Array (map value_reply vs)"
    "int (length (encode rep)) + 1024 < sds_limit" "serve (sent w @ command args) = serve (sent w) @ encode rep"
  shows "\<exists>c' w'. RedisDB_Read S A pf (c, h, w) table key (Some fs) result =
      Some (Inr (kOK, result @ zip fs (map (\<lambda>v. case v of None \<Rightarrow> '''' | Some b \<Rightarrow> c_str b) vs), c', h @ replicate (nobjs rep) None, w')) \<and>
    ready A c' \<and> sent w' = sent w @ command args \<and> got w' = length (serve (sent w'))"
proof -
  let ?argv = "(''HMGET'' @ [NUL]) # (key @ [NUL]) # map (\<lambda>f. f @ [NUL]) fs"
  let ?lens = "5 # int (length key) # map (\<lambda>f. int (length f)) fs"
  have "int (length (map Bulk args)) < int (length (command args))" using encode_count [of "map Bulk args"] by (simp del: encode.simps)
  then have n: "int (length fs) + 2 < 2 ^ 31" using assms(7) unfolding assms(6) by simp
  have wf: "wf_at 0 rep" using n assms(5) by (auto simp: assms(8) value_reply_def split: option.splits)
  have hold: "argv_holds ?argv (Some ?lens) args"
    unfolding argv_holds_def assms(6) by (auto simp: list_all2_conv_all_nth comp_def nth_Cons split: nat.splits)
  have argc: "int32 (uint64 (int (length fs) + 2)) = int (length args)" using n by (simp add: cint assms(6))
  obtain c' w' where r: "redisCommandArgv S A (c, h, w) (int (length args)) ?argv (Some ?lens) =
        Some (Inr (Suc (length h), c', h @ map Some (objs (length h) rep), w'))"
      "ready A c'" "sent w' = sent w @ command args" "got w' = length (serve (sent w'))"
    using redisCommandArgv_answer [OF assms(1-4) hold assms(7) wf assms(9,10), of h] by blast
  let ?h = "h @ map Some (objs (length h) rep)" and ?as = "addrs (Suc (length h)) (map value_reply vs)"
  have ob: "objs (length h) rep = arr_obj ?as # objs_list (Suc (length h)) (map value_reply vs)" by (simp add: assms(8))
  have g: "get_obj ?h (Suc (length h)) = Inr (arr_obj ?as)" unfolding ob by simp
  have "reps_at ((h @ [Some (arr_obj ?as)]) @ map Some (objs_list (Suc (length h)) (map value_reply vs)) @ []) ?as (map value_reply vs)"
    by (rule objs_rep_at(2)) simp
  then have "reps_at ?h ?as (map value_reply vs)" unfolding ob by simp
  from hmget_loop_values [OF this assms(5)]
  have l: "hmget_loop ?h ?as fs = Inr (zip fs (map (\<lambda>v. case v of None \<Rightarrow> '''' | Some b \<Rightarrow> c_str b) vs))" .
  have la: "length (addrs n rs) = length rs" for n rs by (induction rs arbitrary: n) simp_all
  have "reply_elements (arr_obj ?as) = Inr ?as" by (cases "?as = []") (simp_all add: reply_elements_def arr_obj_def)
  moreover have "rp_type (arr_obj ?as) = REDIS_REPLY_ARRAY" "rp_elements (arr_obj ?as) = int (length fs)"
    using assms(5) by (simp_all add: arr_obj_def la)
  ultimately have "RedisDB_Read S A pf (c, h, w) table key (Some fs) result =
      Some (Inr (kOK, result @ zip fs (map (\<lambda>v. case v of None \<Rightarrow> '''' | Some b \<Rightarrow> c_str b) vs), c', h @ replicate (nobjs rep) None, w'))"
    using r(1) g l free_reply [of h rep] argc
    by (simp add: RedisDB_Read_def Let_def argc read_reply_def drop_reply_def assms(6) del: objs.simps)
  then show ?thesis using r(2-4) by blast
qed

text \<open>
  C32. The text of a command is used as a format: an update with a value that holds \<^verbatim>\<open>%s\<close> takes an argument that
  was not passed, which is undefined.
\<close>

theorem redis_percent_undefined:
  assumes "\<forall>k. can_alloc A k" "plain key" "plain f" "plain (CHR ''x'' # v1)" "CHR '' '' \<notin> set v2"
    "16 * (int (length key + length f + length v1) + 8) < sds_limit"
  shows "RedisDB_Update S A pf garbage slaves (c, h, w) table key [(f, v1 @ ''%s'' @ v2)] = Some (Inl (RFault BadVaArg))"
proof -
  let ?t = "''HMSET '' @ key @ '' '' @ f @ '' '' @ v1"
  have t: "CHR ''%'' \<notin> set ?t" "NUL \<notin> set ?t" using assms(2-4) by (auto simp: plain_def)
  have "16 * int (length ?t) < sds_limit" using assms(6) by simp
  from redisAppendCommand_percent [OF assms(1) t this, of S pf c v2]
  have "Command S A pf garbage slaves (c, h, w) (?t @ ''%s'' @ v2) = Some (Inl (RFault BadVaArg))"
    unfolding Command_def Let_def by simp
  moreover have "append_values (''HMSET'' @ '' '' @ key) [(f, v1 @ ''%s'' @ v2)] = Inr (?t @ ''%s'' @ v2)"
    using assms(3-5) by (simp add: plain_def)
  moreover have "length (?t @ ''%s'' @ v2) =
      length ''HMSET'' + length key + 1 + sum_list (map (\<lambda>(f, v). length f + length v + 2) [(f, v1 @ ''%s'' @ v2)])" by simp
  ultimately show ?thesis unfolding RedisDB_Update_def Let_def by simp
qed

text \<open>A server that gives one answer.\<close>

definition one_answer :: "reply \<Rightarrow> bytes \<Rightarrow> bytes" where
  "one_answer rep s = (if s = [] then [] else encode rep)"

theorem redis_update_sends_witness:
  "\<exists>c c' h' w'. redisConnectFd (small_net (one_answer (Error ''ERR''))) libc 3 ([], ([], 0)) = Inr (Some c, [], ([], 0)) \<and>
     RedisDB_Update (small_net (one_answer (Error ''ERR''))) libc (\<lambda>spec v. []) 0 0 (c, [], ([], 0)) ''t'' ''k'' [(''f'', ''v'')] =
       Some (Inr (kOK, c', h', w')) \<and> fst w' = command [''HMSET'', ''k'', ''f'', ''v'']"
proof -
  obtain c where c: "redisConnectFd (small_net (one_answer (Error ''ERR''))) libc 3 ([], ([], 0)) = Inr (Some c, [], ([], 0))" "ready libc c"
    using connected_ready [of libc "small_net (one_answer (Error ''ERR''))" 3 "[]" "([], 0)"] by auto
  have l: "int (length (command [''HMSET'', ''k'', ''f'', ''v''])) < sds_limit" by (simp add: one_digit decimal.simps)
  have "\<exists>c' w'. RedisDB_Update (small_net (one_answer (Error ''ERR''))) libc (\<lambda>spec v. []) 0 0 (c, [], ([], 0)) ''t'' ''k'' [(''f'', ''v'')] =
      Some (Inr (kOK, c', [] @ replicate (nobjs (Error ''ERR'')) None, w')) \<and> ready libc c' \<and>
      fst w' = fst ([] :: bytes, 0 :: nat) @ command [''HMSET'', ''k'', ''f'', ''v''] \<and> snd w' = length (one_answer (Error ''ERR'') (fst w'))"
    by (rule redis_update_sends [OF _ small_net c(2)]) (use l in \<open>auto simp: plain_def one_answer_def\<close>)
  then show ?thesis using c(1) by auto
qed

theorem redis_read_fields_witness:
  "\<exists>c c' h' w'. redisConnectFd (small_net (one_answer (Array [Bulk ''v'', Nil]))) libc 3 ([], ([], 0)) = Inr (Some c, [], ([], 0)) \<and>
     RedisDB_Read (small_net (one_answer (Array [Bulk ''v'', Nil]))) libc (\<lambda>spec v. []) (c, [], ([], 0)) ''t'' ''k'' (Some [''f'', ''g'']) [] =
       Some (Inr (kOK, [(''f'', ''v''), (''g'', '''')], c', h', w'))"
proof -
  let ?rep = "Array [Bulk ''v'', Nil]"
  obtain c where c: "redisConnectFd (small_net (one_answer ?rep)) libc 3 ([], ([], 0)) = Inr (Some c, [], ([], 0))" "ready libc c"
    using connected_ready [of libc "small_net (one_answer ?rep)" 3 "[]" "([], 0)"] by auto
  have l: "int (length (command [''HMGET'', ''k'', ''f'', ''g''])) < sds_limit" "int (length (encode ?rep)) + 1024 < sds_limit"
    by (simp_all add: one_digit decimal.simps)
  have s: "c_str ''v'' = ''v''" by (simp add: c_str_def)
  have "\<exists>c' w'. RedisDB_Read (small_net (one_answer ?rep)) libc (\<lambda>spec v. []) (c, [], ([], 0)) ''t'' ''k'' (Some [''f'', ''g'']) [] =
      Some (Inr (kOK, [] @ zip [''f'', ''g''] (map (\<lambda>v. case v of None \<Rightarrow> '''' | Some b \<Rightarrow> c_str b) [Some ''v'', None]), c',
        [] @ replicate (nobjs ?rep) None, w')) \<and> ready libc c' \<and>
      fst w' = fst ([] :: bytes, 0 :: nat) @ command [''HMGET'', ''k'', ''f'', ''g''] \<and> snd w' = length (one_answer ?rep (fst w'))"
    by (rule redis_read_fields [OF _ small_net c(2)]) (use l in \<open>auto simp: one_answer_def value_reply_def\<close>)
  then show ?thesis using c(1) by (auto simp: s)
qed

theorem redis_percent_undefined_witness:
  "RedisDB_Update (small_net id) libc (\<lambda>spec v. []) 0 0 (out_context [], [], ([], 0)) ''t'' ''k'' [(''f'', ''%s'')] = Some (Inl (RFault BadVaArg))"
  using redis_percent_undefined [of libc "''k''" "''f''" "[]" "[]" "small_net id" "\<lambda>spec v. []" 0 0 "out_context []" "[]" "([], 0)" "''t''"]
  by (simp add: plain_def)

end
