(* ===== verification/TbbTable.thy ===== *)
theory TbbTable
  imports StlTable
begin

text \<open>
  The tables on concurrent containers, \<^verbatim>\<open>lib/tbb_rand_hashtable.h\<close> and \<^verbatim>\<open>lib/tbb_scan_hashtable.h\<close>. The containers are
  those of a third party, so they are an argument; the locale \<open>tbb_container\<close> states what is documented
  of them, and under it both tables meet the interface \<open>string_hashtable\<close>. An operation holds its lock
  to its end and is one step. The copies of the keys are in the heap that all tables share.
\<close>

text \<open>\<^verbatim>\<open>find\<close> and \<^verbatim>\<open>insert\<close>, which compare keys and so read their texts; an assignment through an iterator and \<^verbatim>\<open>erase\<close> of the
  node it is at, which do not; and the nodes from \<^verbatim>\<open>begin()\<close> or from \<^verbatim>\<open>equal_range(key).first\<close> to the end.\<close>

record ('c, 'v) tbb_map =
  tbb_new :: 'c
  tbb_find :: "keyheap \<Rightarrow> 'c \<Rightarrow> vstring \<Rightarrow> (vstring \<times> 'v) option res"
  tbb_insert :: "keyheap \<Rightarrow> 'c \<Rightarrow> vstring \<times> 'v \<Rightarrow> (bool \<times> 'c) res"
  tbb_assign :: "'c \<Rightarrow> vstring \<times> 'v \<Rightarrow> 'v \<Rightarrow> 'c"
  tbb_erase :: "'c \<Rightarrow> vstring \<times> 'v \<Rightarrow> 'c"
  tbb_from :: "keyheap \<Rightarrow> 'c \<Rightarrow> vstring option \<Rightarrow> 'v nodes res"
  tbb_size :: "'c \<Rightarrow> nat"

section \<open>The table on \<^verbatim>\<open>concurrent_hash_map\<close>\<close>

definition TbbRand_Get :: "('c, 'v) tbb_map \<Rightarrow> keyheap \<Rightarrow> 'c \<Rightarrow> string option \<Rightarrow> 'v option res" where
  "TbbRand_Get C K tb key =
     bindR (Wrap K key) (\<lambda>k. bindR (tbb_find C K tb k) (\<lambda>r. Inr (case r of None \<Rightarrow> None | Some result \<Rightarrow> Some (snd result))))"

definition TbbRand_Insert :: "('c, 'v) tbb_map \<Rightarrow> keyheap \<Rightarrow> 'c \<Rightarrow> string option \<Rightarrow> 'v \<Rightarrow> (bool \<times> 'c \<times> keyheap) res" where
  "TbbRand_Insert C K tb key value =
     (if key = None then Inr (False, tb, K)
      else bindR (Copy K key) (\<lambda>(skey, K). bindR (tbb_insert C K tb (skey, value)) (\<lambda>(ok, tb). Inr (ok, tb, K))))"

definition TbbRand_Update :: "('c, 'v) tbb_map \<Rightarrow> keyheap \<Rightarrow> 'c \<Rightarrow> string option \<Rightarrow> 'v \<Rightarrow> ('v option \<times> 'c) res" where
  "TbbRand_Update C K tb key value =
     bindR (Wrap K key) (\<lambda>k. bindR (tbb_find C K tb k) (\<lambda>r.
     Inr (case r of None \<Rightarrow> (None, tb) | Some result \<Rightarrow> (Some (snd result), tbb_assign C tb result value))))"

definition TbbRand_Remove :: "('c, 'v) tbb_map \<Rightarrow> keyheap \<Rightarrow> 'c \<Rightarrow> string option \<Rightarrow> ('v option \<times> 'c \<times> keyheap) res" where
  "TbbRand_Remove C K tb key =
     bindR (Wrap K key) (\<lambda>k. bindR (tbb_find C K tb k) (\<lambda>r.
     case r of None \<Rightarrow> Inr (None, tb, K)
     | Some result \<Rightarrow> bindR (String_Free K (fst result)) (\<lambda>K. Inr (Some (snd result), tbb_erase C tb result, K))))"

definition TbbRand_Entries :: "('c, 'v) tbb_map \<Rightarrow> keyheap \<Rightarrow> 'c \<Rightarrow> string option \<Rightarrow> nat \<Rightarrow> (string \<times> 'v) list res" where
  "TbbRand_Entries C K tb key n =
     bindR (case key of None \<Rightarrow> Inr None | Some _ \<Rightarrow> bindR (Wrap K key) (\<lambda>k. Inr (Some k))) (\<lambda>k.
     bindR (tbb_from C K tb k) (\<lambda>pos. node_texts K (take n pos)))"

definition TbbRandHashtable :: "('c, 'v) tbb_map \<Rightarrow> ('c, 'v) hashtable_ops" where
  "TbbRandHashtable C =
     \<lparr>ht_new = tbb_new C, ht_Get = TbbRand_Get C, ht_Insert = TbbRand_Insert C, ht_Update = TbbRand_Update C,
      ht_Remove = TbbRand_Remove C, ht_Entries = TbbRand_Entries C, ht_Size = tbb_size C\<rparr>"

section \<open>The table on \<^verbatim>\<open>concurrent_unordered_map\<close>\<close>

definition TbbScan_Get :: "('c, 'v) tbb_map \<Rightarrow> keyheap \<Rightarrow> 'c \<Rightarrow> string option \<Rightarrow> 'v option res" where
  "TbbScan_Get C K tb key = bindR (Wrap K key) (\<lambda>k. bindR (tbb_find C K tb k) (\<lambda>it. Inr (map_option snd it)))"

definition TbbScan_Insert :: "('c, 'v) tbb_map \<Rightarrow> keyheap \<Rightarrow> 'c \<Rightarrow> string option \<Rightarrow> 'v \<Rightarrow> (bool \<times> 'c \<times> keyheap) res" where
  "TbbScan_Insert C K tb key value =
     (case key of None \<Rightarrow> Inr (False, tb, K)
      | Some _ \<Rightarrow> bindR (Copy K key) (\<lambda>(skey, K). bindR (tbb_insert C K tb (skey, value)) (\<lambda>(ok, tb). Inr (ok, tb, K))))"

definition TbbScan_Update :: "('c, 'v) tbb_map \<Rightarrow> keyheap \<Rightarrow> 'c \<Rightarrow> string option \<Rightarrow> 'v \<Rightarrow> ('v option \<times> 'c) res" where
  "TbbScan_Update C K tb key value =
     bindR (Wrap K key) (\<lambda>k. bindR (tbb_find C K tb k) (\<lambda>it.
     case it of Some it \<Rightarrow> Inr (Some (snd it), tbb_assign C tb it value) | None \<Rightarrow> Inr (None, tb)))"

definition TbbScan_Remove :: "('c, 'v) tbb_map \<Rightarrow> keyheap \<Rightarrow> 'c \<Rightarrow> string option \<Rightarrow> ('v option \<times> 'c \<times> keyheap) res" where
  "TbbScan_Remove C K tb key =
     bindR (Wrap K key) (\<lambda>k. bindR (tbb_find C K tb k) (\<lambda>it.
     case it of Some it \<Rightarrow> bindR (String_Free K (fst it)) (\<lambda>K. Inr (Some (snd it), tbb_erase C tb it, K))
     | None \<Rightarrow> Inr (None, tb, K)))"

definition TbbScan_Entries :: "('c, 'v) tbb_map \<Rightarrow> keyheap \<Rightarrow> 'c \<Rightarrow> string option \<Rightarrow> nat \<Rightarrow> (string \<times> 'v) list res" where
  "TbbScan_Entries C K tb key n =
     bindR (case key of None \<Rightarrow> tbb_from C K tb None | Some _ \<Rightarrow> bindR (Wrap K key) (\<lambda>k. tbb_from C K tb (Some k))) (\<lambda>pos.
     node_texts K (take n pos))"

definition TbbScanHashtable :: "('c, 'v) tbb_map \<Rightarrow> ('c, 'v) hashtable_ops" where
  "TbbScanHashtable C =
     \<lparr>ht_new = tbb_new C, ht_Get = TbbScan_Get C, ht_Insert = TbbScan_Insert C, ht_Update = TbbScan_Update C,
      ht_Remove = TbbScan_Remove C, ht_Entries = TbbScan_Entries C, ht_Size = tbb_size C\<rparr>"

lemma TbbScan_eq_Rand: "TbbScanHashtable C = TbbRandHashtable C"
proof -
  have "TbbScan_Get C = TbbRand_Get C"
    by (auto simp: fun_eq_iff TbbScan_Get_def TbbRand_Get_def option.case_eq_if intro!: bindR_cong split: option.split)
  moreover have "TbbScan_Insert C = TbbRand_Insert C"
    by (auto simp: fun_eq_iff TbbScan_Insert_def TbbRand_Insert_def split: option.split)
  moreover have "TbbScan_Update C = TbbRand_Update C"
    by (auto simp: fun_eq_iff TbbScan_Update_def TbbRand_Update_def intro!: bindR_cong split: option.split)
  moreover have "TbbScan_Remove C = TbbRand_Remove C"
    by (auto simp: fun_eq_iff TbbScan_Remove_def TbbRand_Remove_def intro!: bindR_cong split: option.split)
  moreover have "TbbScan_Entries C = TbbRand_Entries C"
    by (auto simp: fun_eq_iff TbbScan_Entries_def TbbRand_Entries_def split: option.split)
  ultimately show ?thesis by (simp add: TbbScanHashtable_def TbbRandHashtable_def)
qed

section \<open>They are tables of strings\<close>

text \<open>The container holds nodes, in an order of its own that any change may disturb.\<close>

locale tbb_container =
  fixes C :: "('c, 'v) tbb_map" and nodes :: "'c \<Rightarrow> 'v nodes"
  assumes new_law: "nodes (tbb_new C) = []"
    and find_law: "stl_inv K (nodes c) \<Longrightarrow> tbb_find C K c q = bindR (find_node K (nodes c) q) (\<lambda>i. Inr (map_option ((!) (nodes c)) i))"
    and insert_law: "stl_inv K (nodes c) \<Longrightarrow> find_node K (nodes c) q = Inr None \<Longrightarrow>
        \<exists>c'. tbb_insert C K c (q, v) = Inr (True, c') \<and> mset (nodes c') = mset ((q, v) # nodes c)"
      "stl_inv K (nodes c) \<Longrightarrow> find_node K (nodes c) q = Inr (Some i) \<Longrightarrow> tbb_insert C K c (q, v) = Inr (False, c)"
    and assign_law: "stl_inv K (nodes c) \<Longrightarrow> i < length (nodes c) \<Longrightarrow>
        mset (nodes (tbb_assign C c (nodes c ! i) v)) = mset ((nodes c)[i := (fst (nodes c ! i), v)])"
    and erase_law: "stl_inv K (nodes c) \<Longrightarrow> i < length (nodes c) \<Longrightarrow> mset (nodes (tbb_erase C c (nodes c ! i))) = mset (erase_node (nodes c) i)"
    and from_law: "tbb_from C K c None = Inr (nodes c)"
      "stl_inv K (nodes c) \<Longrightarrow> tbb_from C K c (Some q) =
        bindR (find_node K (nodes c) q) (\<lambda>i. Inr (case i of None \<Rightarrow> [] | Some i \<Rightarrow> drop i (nodes c)))"

begin

text \<open>A change of the container follows the one of its nodes.\<close>

lemma Insert_ok:
  assumes "stl_inv K (nodes c)"
  shows "\<exists>c'. TbbRand_Insert C K c (Some k) v = Inr (map_of (stl_entries K (nodes c)) k = None, c', K @ [Some k]) \<and> stl_inv (K @ [Some k]) (nodes c') \<and>
    map_of (stl_entries (K @ [Some k]) (nodes c')) =
      (if map_of (stl_entries K (nodes c)) k = None then (map_of (stl_entries K (nodes c)))(k \<mapsto> v) else map_of (stl_entries K (nodes c))) \<and>
    stl_kptr (K @ [Some k]) (nodes c') =
      (if map_of (stl_entries K (nodes c)) k = None then (stl_kptr K (nodes c))(k \<mapsto> length K) else stl_kptr K (nodes c))"
proof -
  let ?K = "K @ [Some k]" and ?q = "key_of (length K) k"
  have fr: "stl_inv ?K (nodes c)" "stl_entries ?K (nodes c) = stl_entries K (nodes c)" "stl_kptr ?K (nodes c) = stl_kptr K (nodes c)"
    using stl_frame [OF assms, of ?K] stl_kptr_live [OF assms] live_length by fastforce+
  have q: "cstr_at ?K (s_value ?q) = Inr k" by (simp add: at_addr_def)
  show ?thesis
  proof (rule stl_find [OF fr(1) q key_of_sel(1)], goal_cases)
    case 1
    then obtain c' where c': "tbb_insert C ?K c (?q, v) = Inr (True, c')" "mset (nodes c') = mset ((?q, v) # nodes c)"
      using insert_law(1) [OF fr(1)] by blast
    have n: "map_of (stl_entries K (nodes c)) k = None" using 1(1) fr by simp
    show ?thesis using stl_insert [OF assms n c'(2)] n c'(1) by (intro exI [of _ c']) (simp add: TbbRand_Insert_def)
  next
    case (2 i a w)
    then show ?thesis using fr insert_law(2) [OF fr(1) 2(3)] by (intro exI [of _ c]) (simp add: TbbRand_Insert_def)
  qed
qed

lemma Update_ok:
  assumes "stl_inv K (nodes c)"
  shows "\<exists>c'. TbbRand_Update C K c (Some k) v = Inr (map_of (stl_entries K (nodes c)) k, c') \<and> stl_inv K (nodes c') \<and>
    map_of (stl_entries K (nodes c')) =
      (if map_of (stl_entries K (nodes c)) k = None then map_of (stl_entries K (nodes c)) else (map_of (stl_entries K (nodes c)))(k \<mapsto> v)) \<and>
    stl_kptr K (nodes c') = stl_kptr K (nodes c)"
proof -
  obtain q where q: "Wrap K (Some k) = Inr q" "cstr_at K (s_value q) = Inr k" "s_hash q = SDBMHash k" using Wrap_key by blast
  show ?thesis
  proof (rule stl_find [OF assms q(2,3)], goal_cases)
    case 1
    then show ?thesis using assms q(1) by (intro exI [of _ c]) (simp add: TbbRand_Update_def find_law)
  next
    case (2 i a w)
    then show ?thesis using stl_update [OF assms 2(1,2,6) assign_law [OF assms 2(1), of v]] q(1) assms
      by (intro exI [of _ "tbb_assign C c (nodes c ! i) v"]) (simp add: TbbRand_Update_def find_law)
  qed
qed

lemma Remove_ok:
  assumes "stl_inv K (nodes c)" "K' = (case stl_kptr K (nodes c) k of None \<Rightarrow> K | Some a \<Rightarrow> K[a := None])"
  shows "\<exists>c'. TbbRand_Remove C K c (Some k) = Inr (map_of (stl_entries K (nodes c)) k, c', K') \<and> stl_inv K' (nodes c') \<and>
    map_of (stl_entries K' (nodes c')) = (map_of (stl_entries K (nodes c)))(k := None) \<and>
    stl_kptr K' (nodes c') = (stl_kptr K (nodes c))(k := None)"
proof -
  obtain q where q: "Wrap K (Some k) = Inr q" "cstr_at K (s_value q) = Inr k" "s_hash q = SDBMHash k" using Wrap_key by blast
  show ?thesis
  proof (rule stl_find [OF assms(1) q(2,3)], goal_cases)
    case 1
    then show ?thesis using assms q(1) by (intro exI [of _ c]) (simp add: TbbRand_Remove_def find_law fun_upd_idem)
  next
    case (2 i a w)
    then have "String_Free K (fst (nodes c ! i)) = Inr K'" using assms(2) by (simp add: String_Free_def key_of_def at_addr_live)
    then show ?thesis using stl_remove [OF assms(1) 2(1,2,6) erase_law [OF assms(1) 2(1)]] q(1) 2 assms
      by (intro exI [of _ "tbb_erase C c (nodes c ! i)"]) (simp add: TbbRand_Remove_def find_law)
  qed
qed

lemma Get_ok:
  assumes "stl_inv K (nodes c)"
  shows "TbbRand_Get C K c (Some k) = Inr (map_of (stl_entries K (nodes c)) k)"
proof -
  obtain q where q: "Wrap K (Some k) = Inr q" "cstr_at K (s_value q) = Inr k" "s_hash q = SDBMHash k" using Wrap_key by blast
  show ?thesis by (rule stl_find [OF assms q(2,3)]) (simp_all add: TbbRand_Get_def q(1) find_law [OF assms])
qed

lemma Entries_ok:
  assumes "stl_inv K (nodes c)"
  shows "TbbRand_Entries C K c None n = Inr (take n (stl_entries K (nodes c)))"
    "TbbRand_Entries C K c (Some k) n = Inr (take n (dropWhile (\<lambda>p. fst p \<noteq> k) (stl_entries K (nodes c))))"
proof -
  show "TbbRand_Entries C K c None n = Inr (take n (stl_entries K (nodes c)))"
    using stl_texts [OF assms, of n 0] by (simp add: TbbRand_Entries_def from_law(1))
  obtain q where q: "Wrap K (Some k) = Inr q" "cstr_at K (s_value q) = Inr k" "s_hash q = SDBMHash k" using Wrap_key by blast
  show "TbbRand_Entries C K c (Some k) n = Inr (take n (dropWhile (\<lambda>p. fst p \<noteq> k) (stl_entries K (nodes c))))"
    by (rule stl_find [OF assms q(2,3)]) (simp_all add: TbbRand_Entries_def q(1) from_law(2) [OF assms] stl_texts [OF assms])
qed

end

sublocale tbb_container \<subseteq> tbb: string_hashtable "TbbRandHashtable C" "\<lambda>K c. stl_inv K (nodes c)" "\<lambda>K c. stl_entries K (nodes c)"
  "\<lambda>K c. stl_kptr K (nodes c)"
proof (unfold_locales, goal_cases)
  case 1 then show ?case by (simp add: TbbRandHashtable_def new_law stl_inv_def stl_es_def)
next
  case 2 then show ?case by (simp add: TbbRandHashtable_def new_law stl_entries_def stl_es_def)
next
  case 3 then show ?case by (rule stl_distinct)
next
  case 4 then show ?case by (simp only: stl_kptr_dom)
next
  case 5 then show ?case by (rule stl_kptr_live)
next
  case 6 then show ?case using stl_frame by blast
next
  case 7 then show ?case by (simp add: TbbRandHashtable_def Get_ok)
next
  case (8 K t k v) then show ?case using Insert_ok [OF 8, of k v] by (simp add: TbbRandHashtable_def)
next
  case (9 K t k v) then show ?case using Update_ok [OF 9, of k v] by (simp add: TbbRandHashtable_def)
next
  case (10 K t K' k) then show ?case using Remove_ok [OF 10] by (simp add: TbbRandHashtable_def)
next
  case 11 then show ?case by (simp add: TbbRandHashtable_def Entries_ok)
next
  case 12 then show ?case by (simp add: TbbRandHashtable_def Entries_ok)
qed

text \<open>The nodes of the C++ library's map meet the laws of the container.\<close>

definition node_map :: "('v nodes, 'v) tbb_map" where
  "node_map =
     \<lparr>tbb_new = [], tbb_find = (\<lambda>K tb k. bindR (find_node K tb k) (\<lambda>i. Inr (map_option ((!) tb) i))),
      tbb_insert = (\<lambda>K tb (k, v). bindR (find_node K tb k) (\<lambda>i. Inr (case i of None \<Rightarrow> (True, (k, v) # tb) | Some _ \<Rightarrow> (False, tb)))),
      tbb_assign = (\<lambda>tb p v. map (\<lambda>r. if fst r = fst p then (fst r, v) else r) tb), tbb_erase = (\<lambda>tb p. filter (\<lambda>r. fst r \<noteq> fst p) tb),
      tbb_from = (\<lambda>K tb k. case k of None \<Rightarrow> Inr tb
        | Some k \<Rightarrow> bindR (find_node K tb k) (\<lambda>i. Inr (case i of None \<Rightarrow> [] | Some i \<Rightarrow> drop i tb))), tbb_size = length\<rparr>"

lemma stl_inv_distinct: "stl_inv K tb \<Longrightarrow> distinct (map fst tb)"
proof -
  assume "stl_inv K tb"
  then obtain es where es: "tb = nodes_of es" "held K es" "distinct (map fst es)" by (rule stl_inv_obtain)
  have "distinct (map fst (nodes_of es))"
    using es(2,3)
  proof (induction es)
    case (Cons e es)
    obtain k a v where e: "e = (k, a, v)" by (cases e) auto
    have "key_of b k' \<noteq> key_of a k" if "(k', b, w) \<in> set es" for k' b w
    proof
      assume "key_of b k' = key_of a k"
      then have "b = a" by (simp add: key_of_def)
      then have "k' = k" using heldD [of K "e # es" k' b w] heldD [of K "e # es" k a v] that Cons.prems(1) by (simp add: e)
      then show False using Cons.prems(2) that by (force simp: e)
    qed
    then have "key_of a k \<notin> fst ` set (nodes_of es)" by (fastforce simp: nodes_of_def)
    then show ?case using Cons by (simp add: e)
  qed simp
  then show "distinct (map fst tb)" by (simp add: es(1))
qed

lemma update_by_key:
  assumes "distinct (map fst tb)" "i < length tb"
  shows "map (\<lambda>r. if fst r = fst (tb ! i) then (fst r, v) else r) tb = tb[i := (fst (tb ! i), v)]"
    "filter (\<lambda>r. fst r \<noteq> fst (tb ! i)) tb = take i tb @ drop (Suc i) tb"
proof -
  show "map (\<lambda>r. if fst r = fst (tb ! i) then (fst r, v) else r) tb = tb[i := (fst (tb ! i), v)]"
    using nth_eq_iff_index_eq [OF assms(1)] assms(2) by (intro nth_equalityI) (auto simp: nth_list_update)
  have s: "tb = take i tb @ tb ! i # drop (Suc i) tb" by (rule id_take_nth_drop [OF assms(2)])
  have d: "distinct (map fst (take i tb @ tb ! i # drop (Suc i) tb))" using assms(1) s by simp
  have "filter (\<lambda>r. fst r \<noteq> fst (tb ! i)) (take i tb @ tb ! i # drop (Suc i) tb) = take i tb @ drop (Suc i) tb"
    using d by (auto simp: image_iff intro!: arg_cong2 [of _ _ _ _ "(@)"] filter_True)
  then show "filter (\<lambda>r. fst r \<noteq> fst (tb ! i)) tb = take i tb @ drop (Suc i) tb" using s by simp
qed

interpretation node_map: tbb_container node_map "\<lambda>tb. tb"
  by unfold_locales (auto simp: node_map_def erase_node_def update_by_key [OF stl_inv_distinct])

end
