(* ===== verification/BasicDb.thy ===== *)
theory BasicDb
  imports Workload
begin

text \<open>
  The database that only prints, \<^verbatim>\<open>db/basic_db.h\<close>: its state is the text written to \<^verbatim>\<open>cout\<close> so far. Each operation
  holds the lock to its end, so its output is one piece.
\<close>

abbreviation (input) endl :: string where "endl \<equiv> [LF]"

definition BasicDB_Init :: "string \<Rightarrow> string" where
  "BasicDB_Init cout = cout @ ''A new thread begins working.'' @ endl"

text \<open>The fields asked for.\<close>

definition print_fields :: "string list option \<Rightarrow> string" where
  "print_fields flds =
     (case flds of Some flds \<Rightarrow> '' [ '' @ concat (map (\<lambda>f. f @ '' '') flds) @ '']'' @ endl | None \<Rightarrow> '' < all fields >'' @ endl)"

definition BasicDB_Read :: "string \<Rightarrow> string \<Rightarrow> string \<Rightarrow> string list option \<Rightarrow> int \<times> string" where
  "BasicDB_Read cout table key flds = (0, cout @ ''READ '' @ table @ '' '' @ key @ print_fields flds)"

definition BasicDB_Scan :: "string \<Rightarrow> string \<Rightarrow> string \<Rightarrow> int \<Rightarrow> string list option \<Rightarrow> int \<times> string" where
  "BasicDB_Scan cout table key len flds = (0, cout @ ''SCAN '' @ table @ '' '' @ key @ '' '' @ decimal_int len @ print_fields flds)"

text \<open>The values of a write.\<close>

definition print_values :: "kvpair list \<Rightarrow> string" where
  "print_values vs = '' [ '' @ concat (map (\<lambda>v. fst v @ ''='' @ snd v @ '' '') vs) @ '']'' @ endl"

definition BasicDB_Update :: "string \<Rightarrow> string \<Rightarrow> string \<Rightarrow> kvpair list \<Rightarrow> int \<times> string" where
  "BasicDB_Update cout table key vs = (0, cout @ ''UPDATE '' @ table @ '' '' @ key @ print_values vs)"

definition BasicDB_Insert :: "string \<Rightarrow> string \<Rightarrow> string \<Rightarrow> kvpair list \<Rightarrow> int \<times> string" where
  "BasicDB_Insert cout table key vs = (0, cout @ ''INSERT '' @ table @ '' '' @ key @ print_values vs)"

definition BasicDB_Delete :: "string \<Rightarrow> string \<Rightarrow> string \<Rightarrow> int \<times> string" where
  "BasicDB_Delete cout table key = (0, cout @ ''DELETE '' @ table @ '' '' @ key @ endl)"

text \<open>The virtual functions; no result is ever filled.\<close>

definition basic_ops :: "string db_ops" where
  "basic_ops =
     \<lparr>db_Read = (\<lambda>cout table key flds result. let (s, cout) = BasicDB_Read cout table key flds in Inr (s, result, cout)),
      db_Scan = (\<lambda>cout table key n flds result. let (s, cout) = BasicDB_Scan cout table key n flds in Inr (s, result, cout)),
      db_Update = (\<lambda>cout table key vs. Inr (BasicDB_Update cout table key vs)),
      db_Insert = (\<lambda>cout table key vs. Inr (BasicDB_Insert cout table key vs)),
      db_Delete = (\<lambda>cout table key. Inr (BasicDB_Delete cout table key))\<rparr>"

text \<open>The output only grows.\<close>

lemma basic_output_grows:
  "take (length cout) (snd (BasicDB_Read cout table key flds)) = cout" "take (length cout) (snd (BasicDB_Scan cout table key n flds)) = cout"
  "take (length cout) (snd (BasicDB_Update cout table key vs)) = cout" "take (length cout) (snd (BasicDB_Insert cout table key vs)) = cout"
  "take (length cout) (snd (BasicDB_Delete cout table key)) = cout"
  by (simp_all add: BasicDB_Read_def BasicDB_Scan_def BasicDB_Update_def BasicDB_Insert_def BasicDB_Delete_def)

end
