(* ===== verification/Spec2Isabelle.thy ===== *)
theory Spec2Isabelle
  imports CallbackDict NvmDbContract NvmRecContract ConnectContract AsyncContract WorkloadContract HashtableDbContract RedisDbContract
    TbbTable BasicDb
begin

text \<open>
  A verification development of the YCSB key-value benchmark with persistent-memory recovery engines:
  its workloads and clients (\<^verbatim>\<open>src/core\<close>, \<^verbatim>\<open>src/ycsbc.cc\<close>), its database \<^verbatim>\<open>NVMDB\<close> with three engines
  (\<^verbatim>\<open>src/db\<close>, \<^verbatim>\<open>src/recovery\<close>), its hash table and Redis databases (\<^verbatim>\<open>src/lib\<close>, \<^verbatim>\<open>src/db\<close>) and its client library hiredis (\<^verbatim>\<open>src/redis/hiredis\<close>).

  \<^bold>\<open>Conventions.\<close> A C or C++ function is a function on its state, returned updated. \<open>Inl\<close> is a fault
  (access out of bounds, NULL dereference, signed overflow, failed assertion, an incomplete \<^verbatim>\<open>printf\<close>
  specification, the end of a function that returns no value; type \<open>fault\<close>), and in
  C++ also an exception (type \<open>err\<close>); \<open>Inr\<close> is a normal return, whose error codes are values. Machine
  integers are \<open>int\<close> with the conversions \<open>int32\<close>, \<open>uint64\<close>, ... and the overflow checks \<open>ck32\<close>, \<open>ck64\<close>
  written out, or words where the code works bitwise. Memory blocks are byte lists accessed through
  \<open>rd\<close>, \<open>wr\<close>, \<open>rdn\<close>, \<open>wrn\<close>, which fault out of bounds. The allocator, the system calls, the
  persistent-memory libraries, floating-point arithmetic and the random engines are arguments. The Redis
  client may also end the process (type \<open>redis_end\<close>).

  \<^bold>\<open>Parts and theories.\<close>
  \<^item> Shared: \<open>Prelude\<close> (faults, integers, memory, allocator, decimal numbers).
  \<^item> Dynamic strings, \<^verbatim>\<open>redis/hiredis/sds.c\<close>: \<open>Sds\<close> (header, growth, copies, appends, ranges), \<open>SdsText\<close>
    (trim, split with its reference \<open>splits\<close>, join, case), \<open>SdsFmt\<close> (numbers, \<^verbatim>\<open>sdscatfmt\<close>), \<open>SdsRepr\<close> (quoting, argument splitting),
    \<open>SdsContract\<close> (C22, C36, C37, C38, C40).
  \<^item> Hash tables, \<^verbatim>\<open>dict.c\<close>: \<open>Dict\<close> (all operations on chains), \<open>DictMap\<close> (locale \<open>hashed_keys\<close>: a table is a
    finite map, also while it grows), \<open>CallbackDict\<close> (the callback table of \<^verbatim>\<open>async.c\<close>, its interpretation,
    C20, C21, C39).
  \<^item> Recovery engines, \<^verbatim>\<open>recovery/*\<close>: \<open>RecoveryDefs\<close> (tuples, conversions, packed bytes), \<open>OsFile\<close> (files, durable
    contents), \<open>Engine\<close> (locale \<open>recovery_engine\<close>, the contract of \<^verbatim>\<open>RecoveryEngine\<close>), \<open>NvmLog\<close> and \<open>NvmBlk\<close> (log and
    block engine with their interpretations), \<open>EngineContract\<close> (C3, C4, C6, C25, C34), \<open>NvmRec\<close> (persistent list,
    transactions, flush thread), \<open>NvmRecProof\<close>, \<open>NvmRecContract\<close> (C5, C26).
  \<^item> Database, \<^verbatim>\<open>db/nvmdb.cc\<close>: \<open>NvmDb\<close> over an engine given by its two operations, \<open>NvmDbContract\<close> (C2, C7, C8, C24).
  \<^item> Hash table database, \<^verbatim>\<open>lib/*\<close> and \<^verbatim>\<open>db/hashtable_db.cc\<close>: \<open>StlTable\<close> (hashed strings and the copies of keys on a heap,
    locale \<open>string_hashtable\<close>, its interpretation on the locked table), \<open>TbbTable\<close> (the tables on concurrent containers, locale
    \<open>tbb_container\<close> of what is documented of them), \<open>HashtableDb\<close> (the operations over the heaps of tables, of values and of key copies), \<open>HashtableDbContract\<close>
    (locale \<open>hashtable_db\<close>: ownership; C13, C14, and C15: what the destructor releases and what it leaks).
  \<^item> Replies, \<^verbatim>\<open>read.c\<close> and the object functions of \<^verbatim>\<open>hiredis.c\<close>: \<open>Reader\<close> (the parser, its task stack),
    \<open>Resp\<close> (the protocol as a datatype), \<open>ReaderProof\<close> (locale \<open>reply_functions\<close>: the parser reads one encoding),
    \<open>ReaderFlow\<close> (feeding, taking replies), \<open>Reply\<close> and \<open>ReplyProof\<close> (objects on a heap, the interpretation,
    release), \<open>ReaderProgress\<close> (the cursor moves forward inside the received bytes, the items completed by the loop as steps),
    \<open>ReaderContract\<close> (C10, C27, C30, C31), \<open>ReaderResume\<close> and \<open>ReaderChunks\<close> (a parse interrupted for lack of bytes
    resumes where it stopped).
  \<^item> Commands, \<^verbatim>\<open>hiredis.c\<close>: \<open>Format\<close> (the four formatters), \<open>FormatProof\<close>, \<open>FormatSds\<close>, \<open>FormatArgs\<close>,
    \<open>FormatContract\<close> (C18, C19, C28, C29, C35).
  \<^item> Connections, \<^verbatim>\<open>hiredis.c\<close>: \<open>Context\<close> (errors, buffered input and output, \<^verbatim>\<open>redisGetReply\<close>, the command functions),
    \<open>ContextProof\<close> (conservation of the output), \<open>ContextReply\<close> (a command is answered), \<open>ContextContract\<close> (C9, C12);
    \<open>Net\<close> (\<^verbatim>\<open>net.c\<close>: sockets, their options, the loop over addresses), \<open>Connect\<close> (the connect functions and
    \<^verbatim>\<open>redisReconnect\<close>), \<open>ConnectContract\<close> (C23: open descriptors).
  \<^item> Event-driven client, \<^verbatim>\<open>async.c\<close>: \<open>Async\<close> (creation, callback queues, event handlers, commands, subscriptions),
    \<open>AsyncContract\<close> (C11: replies reach their callbacks in order).
  \<^item> Redis database, \<^verbatim>\<open>redis/redis_client.h\<close> and \<^verbatim>\<open>db/redis_db.cc\<close>: \<open>RedisDb\<close> over the connection, \<open>RedisDbContract\<close>
    (C16, C17, C32: what it sends and reads, and what a percent sign does).
  \<^item> Benchmark, \<^verbatim>\<open>core/*\<close> and \<^verbatim>\<open>ycsbc.cc\<close>: \<open>Generators\<close> (hash, properties, number generators), \<open>Workload\<close>
    (\<^verbatim>\<open>CoreWorkload\<close> and the transactions of \<^verbatim>\<open>Client\<close>), \<open>Driver\<close> (command line, \<^verbatim>\<open>CreateDB\<close>, \<^verbatim>\<open>DelegateClient\<close>),
    \<open>WorkloadContract\<close> (C1, C33: the workload run on \<^verbatim>\<open>NVMDB\<close>); \<open>BasicDb\<close> is the database that only prints.

  \<^bold>\<open>How they interact.\<close> The workload draws operations, keys and values from its generators; the client sends them
  to the database, and \<^verbatim>\<open>DelegateClient\<close> repeats this. The Redis database sends commands over a connection.
  The reader and the output buffer of a connection are dynamic strings; a command is formatted into the output
  buffer, written to the socket, and its answer is fed to the reader, which builds objects with the functions it
  was given. \<^verbatim>\<open>NVMDB\<close> keeps tables in memory and hands every change
  to an engine, which converts the record to a tuple and stores it; full engines move their tuples to the
  disk log through \<^verbatim>\<open>OSFile\<close>.

  \<^bold>\<open>Bounds and termination.\<close> Appends assume lengths below \<open>sds_limit\<close> (2 GB less the preallocation), where the
  \<^verbatim>\<open>int\<close> arithmetic of the header is exact. Loops over indices have measures; the parsing loop ends because each
  item consumes a byte, so that it completes at most as many as there are bytes left (C30); objects are freed with a depth bound of the heap size plus one, which no
  chain of distinct objects exceeds. \<^verbatim>\<open>redisGetReply\<close>, the flush of the list engine, the choice of a key and the timed
  run may go on for ever, so they are partial functions, with theorems that they return (C9, C5, C1). The list engine numbers its pools with 64 bits;
  C5 speaks of fewer operations.

  \<^bold>\<open>Not modelled.\<close> The threads, futures and output of \<^verbatim>\<open>main2\<close>, the sampling thread and the timer; one client is
  modelled, without the interference of others. The containers of TBB are a third party's; the two database
  classes over them repeat \<^verbatim>\<open>LockStlDB\<close>. The event loop adapters, examples and tests are glue. \<^verbatim>\<open>Recover\<close> of the
  engines is a stub in the code and in the model. The length of a generated value is not bounded by the memory
  of the process.
\<close>

end
